(* ===== verification/Prelude.thy ===== *)
theory Prelude
  imports Complex_Main "HOL-Library.Word" "HOL-Library.Monad_Syntax"
begin

text \<open>
  Shared ground of the development: names for the machine integers of the firmware
  (an STM32H7, 32-bit, so \<open>int\<close>, \<open>long\<close> and \<open>size_t\<close> are 32 bits wide),
  checked access to C arrays, character constants, and the generic lemmas on lists,
  options and words that the component theories use.

  Sizes and offsets into buffers are natural numbers: every buffer of the device is far
  smaller than \<open>2 ^ 32\<close> bytes. Integers whose wrap-around is observable (clocks, bit masks,
  counters, checksums) are words of their C width.

  A read or a write outside an array, and a null dereference, is the value \<^term>\<open>None\<close>: a
  theorem that an operation returns \<^term>\<open>Some\<close> therefore also says that it stays inside
  its buffers.
\<close>

type_synonym u8 = "8 word"
type_synonym u16 = "16 word"
type_synonym u32 = "32 word"
type_synonym u64 = "64 word"
type_synonym bytes = "u8 list"

unbundle bit_operations_syntax

named_theorems mem_simps \<open>evaluation of checked array accesses\<close>
named_theorems bit_facts \<open>bit-level facts on masks\<close>

subsection \<open>Character constants\<close>

abbreviation c8 :: "char \<Rightarrow> u8" where
  "c8 c \<equiv> of_char c"

abbreviation cstr :: "string \<Rightarrow> bytes" where
  "cstr s \<equiv> map of_char s"

subsection \<open>C arrays with checked access\<close>

definition aget :: "'a list \<Rightarrow> nat \<Rightarrow> 'a option" where
  "aget xs i = (if i < length xs then Some (xs ! i) else None)"

definition aput :: "'a list \<Rightarrow> nat \<Rightarrow> 'a \<Rightarrow> 'a list option" where
  "aput xs i v = (if i < length xs then Some (xs[i := v]) else None)"

text \<open>\<open>memcpy\<close>/\<open>memmove\<close> of \<open>ys\<close> to position \<open>i\<close> of \<open>xs\<close>.\<close>

definition awrite :: "'a list \<Rightarrow> nat \<Rightarrow> 'a list \<Rightarrow> 'a list option" where
  "awrite xs i ys =
     (if i + length ys \<le> length xs
      then Some (take i xs @ ys @ drop (i + length ys) xs) else None)"

lemma aget_Some_iff: "aget xs i = Some v \<longleftrightarrow> i < length xs \<and> xs ! i = v"
  by (simp add: aget_def)

lemma aput_Some_iff: "aput xs i v = Some ys \<longleftrightarrow> i < length xs \<and> ys = xs[i := v]"
  by (auto simp: aput_def)

lemma aget_in [mem_simps]: "i < length xs \<Longrightarrow> aget xs i = Some (xs ! i)"
  by (simp add: aget_def)

lemma aput_in [mem_simps]: "i < length xs \<Longrightarrow> aput xs i v = Some (xs[i := v])"
  by (simp add: aput_def)

lemma awrite_in [mem_simps]:
  "i + length ys \<le> length xs \<Longrightarrow> awrite xs i ys = Some (take i xs @ ys @ drop (i + length ys) xs)"
  by (simp add: awrite_def)

lemma length_aput: "aput xs i v = Some ys \<Longrightarrow> length ys = length xs"
  by (auto simp: aput_def split: if_splits)

lemma length_awrite: "awrite xs i ys = Some zs \<Longrightarrow> length zs = length xs"
  by (auto simp: awrite_def split: if_splits)

lemma take_aput: "aput xs i v = Some ys \<Longrightarrow> n \<le> i \<Longrightarrow> take n ys = take n xs"
  by (auto simp: aput_def split: if_splits)

lemma take_Suc_update: "i < length xs \<Longrightarrow> take (Suc i) (xs[i := v]) = take i xs @ [v]"
  by (simp add: take_Suc_conv_app_nth)

subsection \<open>Running a fallible operation over a list\<close>

fun foldM :: "('a \<Rightarrow> 's \<Rightarrow> 's option) \<Rightarrow> 'a list \<Rightarrow> 's \<Rightarrow> 's option" where
  "foldM f [] s = Some s"
| "foldM f (x # xs) s = do { s' \<leftarrow> f x s; foldM f xs s' }"

subsection \<open>Lists\<close>

lemma length_filter_update:
  "i < length xs \<Longrightarrow>
   length (filter P (xs[i := y])) + (if P (xs ! i) then 1 else 0) =
   length (filter P xs) + (if P y then 1 else (0::nat))"
proof (induction xs arbitrary: i)
  case Nil
  then show ?case by simp
next
  case (Cons x xs)
  then show ?case by (cases i) auto
qed

subsection \<open>Words\<close>

lemma word_or_eq_0_iff [bit_facts]: "(a :: 'a::len word) OR b = 0 \<longleftrightarrow> a = 0 \<and> b = 0"
  by (metis or.left_neutral or.right_idem word_bw_comms(2) word_log_esimps(7))

lemma and_or_distrib_mask [bit_facts]:
  "((a :: 'a::len word) OR b) AND m = (a AND m) OR (b AND m)"
  by (rule word_ao_dist)

lemma bit_push_one [bit_facts]:
  "n < LENGTH('a) \<Longrightarrow> bit (push_bit n (1 :: 'a::len word)) k \<longleftrightarrow> k = n"
  by (auto simp: bit_exp_iff)

lemma word_and_less_mask:
  "(x :: 'a::len word) AND m \<le> m"
  by (simp add: word_and_le1)

lemma unat_sub_wrap:
  "unat ((a :: 'a::len word) - b) =
     (if b \<le> a then unat a - unat b else 2 ^ LENGTH('a) + unat a - unat b)"
  by (auto simp: unat_sub_if' word_le_nat_alt)

lemma unat_ucast_up [simp]:
  "LENGTH('a) \<le> LENGTH('b) \<Longrightarrow> unat (ucast (w :: 'a::len word) :: 'b::len word) = unat w"
  by (simp add: unsigned_ucast_eq take_bit_nat_eq_self_iff)
     (metis le_less_trans less_le_trans one_le_numeral order_refl power_increasing unsigned_less)

end
