(* ===== verification/Globals.thy ===== *)
theory Globals
  imports Prelude
begin

text \<open>
  The constants and helpers every service shares: the emergency reasons of
  \<open>services/emergency_service.json\<close> (a bit mask: value \<open>n\<close> is bit \<open>n\<close>), the event
  identifiers and flags of \<open>src/globals.hpp\<close>, the service identifiers, and
  \<open>TimeoutReached\<close> of \<open>src/services/service_ext.hpp\<close>.
\<close>

subsection \<open>Emergency reasons\<close>

definition LATCH :: u16 where "LATCH = push_bit 0 1"
definition TIMEOUT_INPUTS :: u16 where "TIMEOUT_INPUTS = push_bit 1 1"
definition STOP :: u16 where "STOP = push_bit 2 1"
definition LIFT :: u16 where "LIFT = push_bit 3 1"
definition LIFT_MULTIPLE :: u16 where "LIFT_MULTIPLE = push_bit 4 1"
definition COLLISION :: u16 where "COLLISION = push_bit 5 1"
definition TIMEOUT_HIGH_LEVEL :: u16 where "TIMEOUT_HIGH_LEVEL = push_bit 6 1"
definition HIGH_LEVEL :: u16 where "HIGH_LEVEL = push_bit 7 1"

lemmas emergency_reason_defs =
  LATCH_def TIMEOUT_INPUTS_def STOP_def LIFT_def LIFT_MULTIPLE_def COLLISION_def
  TIMEOUT_HIGH_LEVEL_def HIGH_LEVEL_def

subsection \<open>Events\<close>

datatype Events = GLOBAL | GPIO_TRIGGERED

fun event_id :: "Events \<Rightarrow> nat" where
  "event_id GLOBAL = 0"
| "event_id GPIO_TRIGGERED = 1"

definition EVENT_MASK :: "Events \<Rightarrow> u32" where
  "EVENT_MASK e = push_bit (event_id e) 1"

fun ids_to_mask :: "Events list \<Rightarrow> u32" where
  "ids_to_mask [] = 0"
| "ids_to_mask (e # es) = EVENT_MASK e OR ids_to_mask es"

definition EMERGENCY_CHANGED :: u32 where "EMERGENCY_CHANGED = push_bit 0 1"
definition INPUTS_CHANGED :: u32 where "INPUTS_CHANGED = push_bit 1 1"

lemmas event_flag_defs = EMERGENCY_CHANGED_def INPUTS_CHANGED_def

subsection \<open>Debug assertions\<close>

text \<open>
  \<open>chDbgAssert\<close> halts the system when its condition is false, in builds with assertions
  (\<open>dbg\<close>); without them it does nothing.
\<close>

definition chDbgAssert :: "bool \<Rightarrow> bool \<Rightarrow> unit option" where
  "chDbgAssert dbg c = (if dbg \<and> \<not> c then None else Some ())"

lemma chDbgAssert_True [simp]: "chDbgAssert dbg True = Some ()"
  by (simp add: chDbgAssert_def)

subsection \<open>Timeouts\<close>

definition UINT32_MAX :: u32 where "UINT32_MAX = 0xFFFFFFFF"

text \<open>
  \<open>TimeoutReached\<close> returns whether the timeout is reached and writes \<open>block_time\<close> through
  a reference: the result is the pair of both.
\<close>

definition TimeoutReached :: "u32 \<Rightarrow> u32 \<Rightarrow> u32 \<Rightarrow> bool \<times> u32" where
  "TimeoutReached duration delay block_time =
     (if delay \<le> duration then (True, block_time)
      else (False, min block_time (delay - duration)))"

lemma TimeoutReached_fst: "fst (TimeoutReached d l b) \<longleftrightarrow> l \<le> d"
  by (simp add: TimeoutReached_def)

lemma TimeoutReached_block_le: "snd (TimeoutReached d l b) \<le> b"
  by (simp add: TimeoutReached_def)

text \<open>A block time that is not reached yet is never 0: the service does not spin.\<close>

lemma TimeoutReached_block_pos: "0 < b \<Longrightarrow> 0 < snd (TimeoutReached d l b)"
  by (auto simp: TimeoutReached_def min_def word_gt_0 not_le)

lemma UINT32_MAX_top [simp]: "(x :: u32) \<le> UINT32_MAX"
proof -
  have max: "UINT32_MAX = - 1" by (simp add: UINT32_MAX_def)
  show ?thesis unfolding max by (rule word_order.extremum)
qed

end
