(* ===== verification/Inputs.thy ===== *)
theory Inputs
  imports Globals "HOL-Library.Char_ord" "HOL-Library.List_Lexorder"
begin

text \<open>
  The input subsystem: \<open>Input\<close> and \<open>InputDriver\<close> of \<open>src/drivers/input/input_driver.*\<close>,
  the GPIO and the simulated driver, and the run-time part of \<open>InputService\<close>
  (\<open>src/services/input_service\<close>). The configuration parser is in \<open>Input_Config\<close>.

  The \<open>Input\<close> objects live in the vector \<open>all_inputs\<close>, whose storage never moves, so an
  \<open>Input*\<close> is an index into that vector and a null pointer is \<^term>\<open>None\<close>; the intrusive
  list of a driver is kept as the source keeps it, by \<open>next_for_driver\<close> links. Clocks
  and pin levels are arguments: \<open>now i\<close> is what \<open>getTimeMicros\<close> returns in the update of
  input \<open>i\<close>. Messages and broadcasts are a list of effects in the order of the calls.
\<close>

subsection \<open>Data\<close>

datatype InputEventType = ACTIVE | INACTIVE | SHORT | LONG

record input =
  idx :: u8
  invert :: bool
  emergency_reason :: u16
  emergency_delay_ms :: u16
  gpio_line :: u32
  active :: bool
  active_since :: u32
  next_for_driver :: "nat option"

definition VIRTUAL :: u8 where "VIRTUAL = 255"

text \<open>What \<open>all_inputs.emplace_back()\<close> constructs.\<close>

definition new_input :: input where
  "new_input = \<lparr>idx = 0, invert = False, emergency_reason = 0, emergency_delay_ms = 0,
     gpio_line = 0, active = False, active_since = 0, next_for_driver = None\<rparr>"

datatype driver_kind = GpioInputDriver | SimulatedInputDriver

record input_driver =
  driver_kind :: driver_kind
  inputs_head :: "nat option"

record input_service =
  drivers :: "(string \<times> input_driver) list"
  all_inputs :: "input list"
  num_active_lift :: u8
  lift_multiple_input :: "nat option"

datatype input_effect =
    StartTransaction
  | SendInputEvent u8 InputEventType
  | CommitTransaction
  | SendActiveInputs u64
  | BroadcastFlags u32
  | SetLineMode_Input u32
  | SetLineCallback u32
  | EnableLineEvent_BothEdges u32
  | DisableLineEvent u32

definition IsActive :: "input \<Rightarrow> bool" where
  "IsActive inp = active inp"

definition ActiveDuration :: "input \<Rightarrow> u32 \<Rightarrow> u32" where
  "ActiveDuration inp now = now - active_since inp"

subsection \<open>The intrusive list of a driver\<close>

text \<open>The \<open>while\<close> loop of \<open>AddInput\<close>: \<^term>\<open>None\<close> when it does not end or leaves the vector.\<close>

partial_function (option) last_for_driver :: "input list \<Rightarrow> nat \<Rightarrow> nat option" where
  "last_for_driver ins cur =
     (if cur < length ins
      then (case next_for_driver (ins ! cur) of
              None \<Rightarrow> Some cur
            | Some n \<Rightarrow> last_for_driver ins n)
      else None)"

definition AddInput ::
  "nat \<Rightarrow> input_driver \<Rightarrow> input list \<Rightarrow> (input_driver \<times> input list) option" where
  "AddInput i d ins =
     (case inputs_head d of
        None \<Rightarrow> Some (d\<lparr>inputs_head := Some i\<rparr>, ins)
      | Some h \<Rightarrow> do {
          l \<leftarrow> last_for_driver ins h;
          Some (d, ins[l := (ins ! l)\<lparr>next_for_driver := Some i\<rparr>])
        })"

definition ClearInputs :: "input_driver \<Rightarrow> input_driver" where
  "ClearInputs d = d\<lparr>inputs_head := None\<rparr>"

text \<open>The iteration of \<open>InputIterable\<close>: the inputs a range-\<open>for\<close> over \<open>Inputs()\<close> visits.\<close>

partial_function (option) iterate_inputs :: "input list \<Rightarrow> nat option \<Rightarrow> nat list option" where
  "iterate_inputs ins p =
     (case p of
        None \<Rightarrow> Some []
      | Some i \<Rightarrow>
          (if i < length ins
           then do {
             rest \<leftarrow> iterate_inputs ins (next_for_driver (ins ! i));
             Some (i # rest)
           }
           else None))"

definition Inputs :: "input list \<Rightarrow> input_driver \<Rightarrow> nat list option" where
  "Inputs ins d = iterate_inputs ins (inputs_head d)"

subsection \<open>State changes of an input\<close>

text \<open>
  \<open>Input::Update\<close> calls \<open>InputService::OnInputChanged\<close>, which updates the virtual input of
  the lift counter through \<open>Input::Update\<close> again. The first argument bounds the depth of
  these calls; \<open>Input_Update_defined\<close> below shows that four are enough.
\<close>

definition event_payload :: "u8 \<Rightarrow> bool \<Rightarrow> u32 \<Rightarrow> input_effect list" where
  "event_payload i act duration =
     (if act then [SendInputEvent i ACTIVE]
      else [SendInputEvent i INACTIVE,
            SendInputEvent i (if 500000 \<le> duration then LONG else SHORT)])"

fun Input_Update ::
  "nat \<Rightarrow> (nat \<Rightarrow> u32) \<Rightarrow> nat \<Rightarrow> bool \<Rightarrow> input_service
    \<Rightarrow> (bool \<times> input_service \<times> input_effect list) option"
and OnInputChanged ::
  "nat \<Rightarrow> (nat \<Rightarrow> u32) \<Rightarrow> nat \<Rightarrow> bool \<Rightarrow> u32 \<Rightarrow> input_service
    \<Rightarrow> (input_service \<times> input_effect list) option" where
  "Input_Update 0 now i new_active s = None"
| "Input_Update (Suc fuel) now i new_active s =
     (if i < length (all_inputs s) then
        let inp = all_inputs s ! i;
            new_active' = (if invert inp then \<not> new_active else new_active)
        in if active inp = (\<not> new_active') then
             let t = now i;
                 inp' = inp\<lparr>active := new_active',
                            active_since := (if new_active' then t else active_since inp)\<rparr>;
                 s' = s\<lparr>all_inputs := (all_inputs s)[i := inp']\<rparr>
             in do {
               (s'', es) \<leftarrow> OnInputChanged fuel now i new_active' (ActiveDuration inp' t) s';
               Some (True, s'', es @ [BroadcastFlags INPUTS_CHANGED])
             }
           else Some (False, s, [])
      else None)"
| "OnInputChanged 0 now i act duration s = None"
| "OnInputChanged (Suc fuel) now i act duration s =
     (if i < length (all_inputs s) then
        let inp = all_inputs s ! i
        in if idx inp = VIRTUAL then Some (s, [])
           else do {
             (s', es) \<leftarrow>
               (if emergency_reason inp AND LIFT \<noteq> 0 then
                  let n = (if act then num_active_lift s + 1 else num_active_lift s - 1);
                      s0 = s\<lparr>num_active_lift := n\<rparr>
                  in do {
                    v \<leftarrow> lift_multiple_input s0;
                    (_, s1, es1) \<leftarrow> Input_Update fuel now v (2 \<le> n) s0;
                    Some (s1, es1)
                  }
                else Some (s, []));
             Some (s', es @ [StartTransaction] @ event_payload (idx inp) act duration
                         @ [CommitTransaction])
           }
      else None)"

text \<open>The call depth that every update of a configured service needs.\<close>

definition Update :: "(nat \<Rightarrow> u32) \<Rightarrow> nat \<Rightarrow> bool \<Rightarrow> input_service
    \<Rightarrow> (bool \<times> input_service \<times> input_effect list) option" where
  "Update = Input_Update 4"

subsection \<open>The drivers\<close>

text \<open>
  The loops of \<open>GpioInputDriver::tick\<close> and \<open>SimulatedInputDriver::SetActiveInputs\<close>: update
  every input of the list, following the links of the current state.
\<close>

partial_function (option) update_all ::
  "(nat \<Rightarrow> u32) \<Rightarrow> (input \<Rightarrow> bool) \<Rightarrow> nat option \<Rightarrow> input_service
    \<Rightarrow> (input_service \<times> input_effect list) option" where
  "update_all now level p s =
     (case p of
        None \<Rightarrow> Some (s, [])
      | Some i \<Rightarrow>
          (if i < length (all_inputs s) then do {
             (_, s', es) \<leftarrow> Update now i (level (all_inputs s ! i)) s;
             (s'', es') \<leftarrow> update_all now level (next_for_driver (all_inputs s' ! i)) s';
             Some (s'', es @ es')
           } else None))"

definition Gpio_tick ::
  "(nat \<Rightarrow> u32) \<Rightarrow> (u32 \<Rightarrow> bool) \<Rightarrow> input_driver \<Rightarrow> input_service
    \<Rightarrow> (input_service \<times> input_effect list) option" where
  "Gpio_tick now palReadLine d s =
     update_all now (\<lambda>inp. palReadLine (gpio_line inp)) (inputs_head d) s"

text \<open>
  \<open>IS_BIT_SET(x, bit)\<close> shifts the \<open>int\<close> 1, so the mask has 32 bits and is then widened to
  the 64 bits of \<open>x\<close> with its sign.
\<close>

definition IS_BIT_SET :: "u64 \<Rightarrow> u8 \<Rightarrow> bool" where
  "IS_BIT_SET x b = (x AND scast (push_bit (unat b) (1 :: 32 word)) \<noteq> 0)"

definition SetActiveInputs ::
  "(nat \<Rightarrow> u32) \<Rightarrow> u64 \<Rightarrow> input_driver \<Rightarrow> input_service
    \<Rightarrow> (input_service \<times> input_effect list) option" where
  "SetActiveInputs now amask d s =
     update_all now (\<lambda>inp. IS_BIT_SET amask (idx inp)) (inputs_head d) s"

fun Driver_OnStart :: "input list \<Rightarrow> input_driver \<Rightarrow> (bool \<times> input_effect list) option" where
  "Driver_OnStart ins d =
     (case driver_kind d of
        SimulatedInputDriver \<Rightarrow> Some (True, [])
      | GpioInputDriver \<Rightarrow> do {
          is \<leftarrow> Inputs ins d;
          Some (True, concat (map (\<lambda>i. let l = gpio_line (ins ! i)
             in [SetLineMode_Input l, SetLineCallback l, EnableLineEvent_BothEdges l]) is))
        })"

fun Driver_OnStop :: "input list \<Rightarrow> input_driver \<Rightarrow> input_effect list option" where
  "Driver_OnStop ins d =
     (case driver_kind d of
        SimulatedInputDriver \<Rightarrow> Some []
      | GpioInputDriver \<Rightarrow> do {
          is \<leftarrow> Inputs ins d;
          Some (map (\<lambda>i. DisableLineEvent (gpio_line (ins ! i))) is)
        })"

subsection \<open>The service\<close>

text \<open>\<open>drivers\<close> is an \<open>etl::flat_map\<close>: sorted by key, an existing key is kept.\<close>

fun RegisterInputDriver ::
  "string \<Rightarrow> input_driver \<Rightarrow> (string \<times> input_driver) list \<Rightarrow> (string \<times> input_driver) list" where
  "RegisterInputDriver k d [] = [(k, d)]"
| "RegisterInputDriver k d ((k', d') # ds) =
     (if k < k' then (k, d) # (k', d') # ds
      else if k = k' then (k', d') # ds
      else (k', d') # RegisterInputDriver k d ds)"

fun start_drivers ::
  "input list \<Rightarrow> (string \<times> input_driver) list \<Rightarrow> (bool \<times> input_effect list) option" where
  "start_drivers ins [] = Some (True, [])"
| "start_drivers ins ((_, d) # ds) = do {
     (ok, es) \<leftarrow> Driver_OnStart ins d;
     if \<not> ok then Some (False, es)
     else do {
       (ok', es') \<leftarrow> start_drivers ins ds;
       Some (ok', es @ es')
     }
   }"

definition InputService_OnStart :: "input_service \<Rightarrow> (bool \<times> input_effect list) option" where
  "InputService_OnStart s = start_drivers (all_inputs s) (drivers s)"

fun stop_drivers ::
  "input list \<Rightarrow> (string \<times> input_driver) list \<Rightarrow> input_effect list option" where
  "stop_drivers ins [] = Some []"
| "stop_drivers ins ((_, d) # ds) = do {
     es \<leftarrow> Driver_OnStop ins d;
     es' \<leftarrow> stop_drivers ins ds;
     Some (es @ es')
   }"

definition InputService_OnStop :: "input_service \<Rightarrow> input_effect list option" where
  "InputService_OnStop s = stop_drivers (all_inputs s) (drivers s)"

definition InputService_OnLoop ::
  "u32 \<Rightarrow> (nat \<Rightarrow> u32) \<Rightarrow> (u32 \<Rightarrow> bool) \<Rightarrow> input_service
    \<Rightarrow> (u32 \<times> input_service \<times> input_effect list) option" where
  "InputService_OnLoop pending now palReadLine s =
     (let events = pending AND ids_to_mask [GPIO_TRIGGERED]
      in if events AND EVENT_MASK GPIO_TRIGGERED \<noteq> 0
         then do {
           d \<leftarrow> map_of (drivers s) ''gpio'';
           (s', es) \<leftarrow> Gpio_tick now palReadLine d s;
           Some (UINT32_MAX, s', es)
         }
         else Some (UINT32_MAX, s, []))"

text \<open>
  \<open>SendStatus\<close>: \<open>1 << input.idx\<close> is an \<open>int\<close>; a shift by 32 or more is undefined
  behaviour, so the loop is \<^term>\<open>None\<close> there.
\<close>

fun active_inputs_mask :: "input list \<Rightarrow> u64 \<Rightarrow> u64 option" where
  "active_inputs_mask [] m = Some m"
| "active_inputs_mask (inp # ins) m =
     (if IsActive inp \<and> idx inp \<noteq> VIRTUAL then
        if unat (idx inp) < 32
        then active_inputs_mask ins (m OR scast (push_bit (unat (idx inp)) (1 :: 32 word)))
        else None
      else active_inputs_mask ins m)"

definition InputService_SendStatus :: "input_service \<Rightarrow> input_effect list option" where
  "InputService_SendStatus s = do {
     m \<leftarrow> active_inputs_mask (all_inputs s) 0;
     Some [SendActiveInputs m]
   }"

fun collect_reasons :: "u32 \<Rightarrow> input list \<Rightarrow> u16 \<times> u32 \<Rightarrow> u16 \<times> u32" where
  "collect_reasons now [] acc = acc"
| "collect_reasons now (inp # ins) (reasons, block_time) =
     (if emergency_reason inp = 0 \<or> \<not> IsActive inp
      then collect_reasons now ins (reasons, block_time)
      else let (reached, block_time') =
                 TimeoutReached (ActiveDuration inp now)
                   (ucast (emergency_delay_ms inp) * 1000) block_time
           in collect_reasons now ins
                (if reached then reasons OR emergency_reason inp else reasons, block_time'))"

definition GetEmergencyReasons :: "input_service \<Rightarrow> u32 \<Rightarrow> u16 \<times> u32" where
  "GetEmergencyReasons s now = collect_reasons now (all_inputs s) (0, UINT32_MAX)"


definition set_active :: "u32 \<Rightarrow> bool \<Rightarrow> input \<Rightarrow> input" where
  "set_active t b inp =
     (if active inp = b then inp
      else inp\<lparr>active := b, active_since := (if b then t else active_since inp)\<rparr>)"

definition lift_active :: "input \<Rightarrow> bool" where
  "lift_active inp \<longleftrightarrow> active inp \<and> idx inp \<noteq> VIRTUAL \<and> emergency_reason inp AND LIFT \<noteq> 0"

definition num_lift :: "input list \<Rightarrow> nat" where
  "num_lift ins = length (filter lift_active ins)"

definition wf_inputs :: "input_service \<Rightarrow> bool" where
  "wf_inputs s \<longleftrightarrow>
     length (all_inputs s) \<le> 31 \<and>
     (\<exists>v. lift_multiple_input s = Some v \<and> v < length (all_inputs s) \<and>
          idx (all_inputs s ! v) = VIRTUAL \<and> \<not> invert (all_inputs s ! v) \<and>
          (active (all_inputs s ! v) \<longleftrightarrow> 2 \<le> num_lift (all_inputs s))) \<and>
     unat (num_active_lift s) = num_lift (all_inputs s)"

lemma wf_inputsE:
  assumes "wf_inputs s"
  obtains v where "lift_multiple_input s = Some v" "v < length (all_inputs s)"
    "idx (all_inputs s ! v) = VIRTUAL" "\<not> invert (all_inputs s ! v)"
    "active (all_inputs s ! v) \<longleftrightarrow> 2 \<le> num_lift (all_inputs s)"
    "length (all_inputs s) \<le> 31" "unat (num_active_lift s) = num_lift (all_inputs s)"
  using assms unfolding wf_inputs_def by blast

lemma set_active_simps [simp]:
  "idx (set_active t b inp) = idx inp"
  "invert (set_active t b inp) = invert inp"
  "emergency_reason (set_active t b inp) = emergency_reason inp"
  "emergency_delay_ms (set_active t b inp) = emergency_delay_ms inp"
  "gpio_line (set_active t b inp) = gpio_line inp"
  "next_for_driver (set_active t b inp) = next_for_driver inp"
  "active (set_active t b inp) = b"
  by (simp_all add: set_active_def)

lemma set_active_change:
  "active inp = (\<not> b) \<Longrightarrow>
   inp\<lparr>active := b, active_since := (if b then t else active_since inp)\<rparr> = set_active t b inp"
  by (simp add: set_active_def)

lemma set_active_same: "active inp = b \<Longrightarrow> set_active t b inp = inp"
  by (simp add: set_active_def)

lemma lift_active_set_active:
  "lift_active (set_active t b inp) \<longleftrightarrow>
     b \<and> idx inp \<noteq> VIRTUAL \<and> emergency_reason inp AND LIFT \<noteq> 0"
  by (simp add: lift_active_def)

lemma num_lift_update:
  "i < length ins \<Longrightarrow>
   num_lift (ins[i := y]) + (if lift_active (ins ! i) then 1 else 0) =
   num_lift ins + (if lift_active y then 1 else 0)"
  unfolding num_lift_def by (rule length_filter_update)

lemma num_lift_le: "num_lift ins \<le> length ins"
  by (simp add: num_lift_def)

text \<open>The update of the virtual input.\<close>

lemma Input_Update_virtual:
  assumes "v < length (all_inputs s)" "idx (all_inputs s ! v) = VIRTUAL"
    "\<not> invert (all_inputs s ! v)"
  shows "Input_Update (Suc (Suc f)) now v b s =
    Some (active (all_inputs s ! v) \<noteq> b,
          s\<lparr>all_inputs := (all_inputs s)[v := set_active (now v) b (all_inputs s ! v)]\<rparr>,
          if active (all_inputs s ! v) \<noteq> b then [BroadcastFlags INPUTS_CHANGED] else [])"
proof (cases "active (all_inputs s ! v) = b")
  case True
  with assms show ?thesis by (simp add: set_active_same)
next
  case False
  with assms show ?thesis by (simp add: set_active_def Let_def)
qed

text \<open>The state change of an input that is not virtual.\<close>

definition lift_step :: "(nat \<Rightarrow> u32) \<Rightarrow> nat \<Rightarrow> u8 \<Rightarrow> input_service \<Rightarrow> input_service" where
  "lift_step now v n s =
     s\<lparr>num_active_lift := n,
       all_inputs := (all_inputs s)[v := set_active (now v) (2 \<le> n) (all_inputs s ! v)]\<rparr>"

lemma OnInputChanged_lift:
  assumes "i < length (all_inputs s)" "idx (all_inputs s ! i) \<noteq> VIRTUAL"
    "emergency_reason (all_inputs s ! i) AND LIFT \<noteq> 0"
    "lift_multiple_input s = Some v" "v < length (all_inputs s)"
    "idx (all_inputs s ! v) = VIRTUAL" "\<not> invert (all_inputs s ! v)"
    and n_def: "n = (if act then num_active_lift s + 1 else num_active_lift s - 1)"
  shows "\<exists>es. OnInputChanged (Suc (Suc (Suc f))) now i act d s = Some (lift_step now v n s, es)"
proof -
  let ?s0 = "s\<lparr>num_active_lift := n\<rparr>"
  have "Input_Update (Suc (Suc f)) now v (2 \<le> n) ?s0 =
    Some (active (all_inputs s ! v) \<noteq> (2 \<le> n),
          ?s0\<lparr>all_inputs := (all_inputs s)[v := set_active (now v) (2 \<le> n) (all_inputs s ! v)]\<rparr>,
          if active (all_inputs s ! v) \<noteq> (2 \<le> n) then [BroadcastFlags INPUTS_CHANGED] else [])"
    using assms by (subst Input_Update_virtual) simp_all
  then show ?thesis
    using assms(1-4) by (simp add: Let_def n_def lift_step_def del: Input_Update.simps)
qed

lemma OnInputChanged_other:
  assumes "i < length (all_inputs s)"
    "idx (all_inputs s ! i) = VIRTUAL \<or> emergency_reason (all_inputs s ! i) AND LIFT = 0"
  shows "\<exists>es. OnInputChanged (Suc f) now i act d s = Some (s, es)"
  using assms by (auto simp: Let_def)

text \<open>Specification: toggle the input, then recount the lifted sensors.\<close>

definition spec_update :: "(nat \<Rightarrow> u32) \<Rightarrow> nat \<Rightarrow> bool \<Rightarrow> input_service \<Rightarrow> input_service" where
  "spec_update now i b s =
     (let ins = (all_inputs s)[i := set_active (now i) b (all_inputs s ! i)];
          v = the (lift_multiple_input s);
          n = num_lift ins
      in s\<lparr>num_active_lift := of_nat n,
           all_inputs := ins[v := set_active (now v) (2 \<le> n) (ins ! v)]\<rparr>)"

lemma num_lift_toggle:
  assumes "i < length ins" "idx (ins ! i) \<noteq> VIRTUAL" "active (ins ! i) = (\<not> b)"
  shows "num_lift (ins[i := set_active t b (ins ! i)]) =
    (if emergency_reason (ins ! i) AND LIFT = 0 then num_lift ins
     else if b then num_lift ins + 1 else num_lift ins - 1)"
  using num_lift_update[OF assms(1), of "set_active t b (ins ! i)"] assms(2,3)
  by (auto simp: lift_active_set_active lift_active_def split: if_splits)

lemma num_lift_toggle_pos:
  assumes "i < length ins" "lift_active (ins ! i)"
  shows "0 < num_lift ins"
  using assms unfolding num_lift_def by (metis filter_empty_conv length_greater_0_conv nth_mem)

lemma num_lift_virtual:
  assumes "v < length ins" "idx (ins ! v) = VIRTUAL"
  shows "num_lift (ins[v := set_active t b (ins ! v)]) = num_lift ins"
  using num_lift_update[OF assms(1), of "set_active t b (ins ! v)"] assms(2)
  by (simp add: lift_active_set_active lift_active_def)

lemma u8_counter:
  "n \<le> 31 \<Longrightarrow> unat (of_nat n :: u8) = n"
  by (simp add: unat_of_nat)

lemma u8_le2_iff: "n \<le> 31 \<Longrightarrow> (2 :: u8) \<le> of_nat n \<longleftrightarrow> 2 \<le> n"
  by (simp add: word_le_nat_alt u8_counter)

lemma Update_unchanged:
  assumes wf: "wf_inputs s" and i: "i < length (all_inputs s)"
    and same: "active (all_inputs s ! i) = (new_active \<noteq> invert (all_inputs s ! i))"
  shows "Update now i new_active s = Some (False, s, [])"
    and "spec_update now i (new_active \<noteq> invert (all_inputs s ! i)) s = s"
proof -
  show "Update now i new_active s = Some (False, s, [])"
    using same i by (auto simp: Update_def numeral_eq_Suc Let_def)
  obtain v where v: "lift_multiple_input s = Some v"
    "active (all_inputs s ! v) \<longleftrightarrow> 2 \<le> num_lift (all_inputs s)"
    and cnt: "unat (num_active_lift s) = num_lift (all_inputs s)"
    using wf by (rule wf_inputsE)
  have "num_active_lift s = of_nat (num_lift (all_inputs s))" by (simp flip: cnt)
  moreover have "set_active (now v) (2 \<le> num_lift (all_inputs s)) (all_inputs s ! v) = all_inputs s ! v"
    using v(2) by (simp add: set_active_same)
  ultimately show "spec_update now i (new_active \<noteq> invert (all_inputs s ! i)) s = s"
    using v(1) unfolding same [symmetric] by (simp add: spec_update_def Let_def set_active_same)
qed

lemma Update_changed:
  assumes i: "i < length (all_inputs s)" and b: "b = (new_active \<noteq> invert (all_inputs s ! i))"
    and change: "active (all_inputs s ! i) \<noteq> b"
  shows "Update now i new_active s = do {
      (s'', es) \<leftarrow> OnInputChanged 3 now i b (ActiveDuration (set_active (now i) b (all_inputs s ! i)) (now i))
        (s\<lparr>all_inputs := (all_inputs s)[i := set_active (now i) b (all_inputs s ! i)]\<rparr>);
      Some (True, s'', es @ [BroadcastFlags INPUTS_CHANGED])}"
  using change i
  by (auto simp: Update_def numeral_eq_Suc b Let_def set_active_def simp del: OnInputChanged.simps)

lemma lift_counter_follows:
  assumes cnt: "unat (num_active_lift s) = num_lift (all_inputs s)" and i: "i < length (all_inputs s)"
    and nv: "idx (all_inputs s ! i) \<noteq> VIRTUAL" and change: "active (all_inputs s ! i) \<noteq> b"
    and lift: "emergency_reason (all_inputs s ! i) AND LIFT \<noteq> 0"
  shows "(if b then num_active_lift s + 1 else num_active_lift s - 1) =
    of_nat (num_lift ((all_inputs s)[i := set_active (now i) b (all_inputs s ! i)]))"
proof -
  have num_eq: "num_active_lift s = of_nat (num_lift (all_inputs s))" by (simp flip: cnt)
  show ?thesis
  proof (cases b)
    case True
    then show ?thesis using num_lift_toggle[OF i nv, of b "now i"] change lift by (simp add: num_eq)
  next
    case False
    have "0 < num_lift (all_inputs s)"
      using num_lift_toggle_pos[OF i] change False lift nv by (auto simp: lift_active_def)
    then show ?thesis using num_lift_toggle[OF i nv, of b "now i"] change lift False
      by (simp add: num_eq of_nat_diff)
  qed
qed

lemma Update_spec:
  assumes wf: "wf_inputs s" and i: "i < length (all_inputs s)"
    and nv: "idx (all_inputs s ! i) \<noteq> VIRTUAL"
  shows "\<exists>es. Update now i new_active s =
    Some (active (all_inputs s ! i) \<noteq> (new_active \<noteq> invert (all_inputs s ! i)),
          spec_update now i (new_active \<noteq> invert (all_inputs s ! i)) s, es)"
proof (cases "active (all_inputs s ! i) = (new_active \<noteq> invert (all_inputs s ! i))")
  case True
  then show ?thesis using Update_unchanged[OF wf i True] by simp
next
  case changed: False
  obtain v where v: "lift_multiple_input s = Some v" "v < length (all_inputs s)"
    "idx (all_inputs s ! v) = VIRTUAL" "\<not> invert (all_inputs s ! v)"
    "active (all_inputs s ! v) \<longleftrightarrow> 2 \<le> num_lift (all_inputs s)"
    and len: "length (all_inputs s) \<le> 31"
    and cnt: "unat (num_active_lift s) = num_lift (all_inputs s)"
    using wf by (rule wf_inputsE)
  define b where "b = (new_active \<noteq> invert (all_inputs s ! i))"
  have change: "active (all_inputs s ! i) \<noteq> b" using changed by (simp add: b_def)
  let ?inp = "all_inputs s ! i"
  let ?ins = "(all_inputs s)[i := set_active (now i) b ?inp]"
  let ?s1 = "s\<lparr>all_inputs := ?ins\<rparr>"
  have vi: "v \<noteq> i" using v(3) nv by auto
  note upd = Update_changed[OF i b_def change, of now]
  show ?thesis
  proof (cases "emergency_reason ?inp AND LIFT = 0")
    case True
    have n: "num_lift ?ins = num_lift (all_inputs s)"
      using num_lift_toggle[OF i nv, of b "now i"] change True by auto
    have "?ins[v := all_inputs s ! v] = ?ins"
      using vi by (metis list_update_id nth_list_update_neq)
    moreover have "num_active_lift s = of_nat (num_lift (all_inputs s))" by (simp flip: cnt)
    ultimately have "spec_update now i b s = ?s1"
      using n v vi by (cases s) (simp add: spec_update_def Let_def set_active_same)
    moreover obtain es where "OnInputChanged 3 now i b (ActiveDuration (set_active (now i) b ?inp) (now i)) ?s1
        = Some (?s1, es)"
      using OnInputChanged_other[of i ?s1 2 now b] i True by (auto simp: numeral_eq_Suc simp del: OnInputChanged.simps)
    ultimately show ?thesis using upd change by (auto simp: b_def)
  next
    case lift: False
    define n where "n = (if b then num_active_lift s + 1 else num_active_lift s - 1)"
    have "\<exists>es. OnInputChanged 3 now i b (ActiveDuration (set_active (now i) b ?inp) (now i)) ?s1
        = Some (lift_step now v n ?s1, es)"
      unfolding numeral_3_eq_3
      by (rule OnInputChanged_lift) (use i nv lift v(1-4) vi in \<open>simp_all add: n_def\<close>)
    moreover have "n = of_nat (num_lift ?ins)"
      unfolding n_def using cnt i nv change lift by (rule lift_counter_follows)
    moreover have "num_lift ?ins \<le> 31" using num_lift_le[of ?ins] len by simp
    ultimately show ?thesis using upd change v(1) u8_le2_iff[of "num_lift ?ins"]
      by (auto simp: b_def spec_update_def lift_step_def Let_def)
  qed
qed

lemma wf_spec_update:
  assumes wf: "wf_inputs s" and i: "i < length (all_inputs s)"
    and nv: "idx (all_inputs s ! i) \<noteq> VIRTUAL"
  shows "wf_inputs (spec_update now i b s)"
proof -
  obtain v where v: "lift_multiple_input s = Some v" "v < length (all_inputs s)"
    "idx (all_inputs s ! v) = VIRTUAL" "\<not> invert (all_inputs s ! v)"
    and len: "length (all_inputs s) \<le> 31"
    using wf by (rule wf_inputsE)
  let ?ins = "(all_inputs s)[i := set_active (now i) b (all_inputs s ! i)]"
  have vi: "v \<noteq> i" using v(3) nv by auto
  have "num_lift ?ins \<le> 31"
    using num_lift_le[of ?ins] len by simp
  moreover have "num_lift (?ins[v := set_active (now v) c (?ins ! v)]) = num_lift ?ins" for c
    by (rule num_lift_virtual) (use v vi in simp_all)
  ultimately show ?thesis
    using v vi len by (auto simp: wf_inputs_def spec_update_def Let_def u8_counter)
qed


subsection \<open>The intrusive list represents a sequence of inputs\<close>

fun chain :: "input list \<Rightarrow> nat option \<Rightarrow> nat list \<Rightarrow> bool" where
  "chain ins p [] \<longleftrightarrow> p = None"
| "chain ins p (i # xs) \<longleftrightarrow>
     p = Some i \<and> i < length ins \<and> chain ins (next_for_driver (ins ! i)) xs"

lemma chain_unique: "chain ins p xs \<Longrightarrow> chain ins p ys \<Longrightarrow> xs = ys"
proof (induction xs arbitrary: p ys)
  case Nil
  then show ?case by (cases ys) auto
next
  case (Cons x xs)
  then show ?case by (cases ys) auto
qed

lemma chain_suffix: "chain ins p (xs @ i # ys) \<Longrightarrow> chain ins (Some i) (i # ys)"
  by (induction xs arbitrary: p) auto

lemma chain_distinct: "chain ins p xs \<Longrightarrow> distinct xs"
proof (induction xs arbitrary: p)
  case Nil
  then show ?case by simp
next
  case (Cons x xs)
  have "x \<notin> set xs"
  proof
    assume "x \<in> set xs"
    then obtain as bs where xs: "xs = as @ x # bs" by (auto simp: in_set_conv_decomp)
    with Cons.prems have "chain ins (Some x) (x # bs)" "chain ins (Some x) (x # xs)"
      using chain_suffix[of ins p "x # as" x bs] by auto
    then have "x # xs = x # bs" by (rule chain_unique[symmetric])
    with xs show False by simp
  qed
  with Cons show ?case by auto
qed

lemma chain_bounded: "chain ins p xs \<Longrightarrow> i \<in> set xs \<Longrightarrow> i < length ins"
  by (induction xs arbitrary: p) auto

lemma chain_cong:
  "chain ins p xs \<Longrightarrow> length ins' = length ins \<Longrightarrow>
   (\<And>i. i \<in> set xs \<Longrightarrow> next_for_driver (ins' ! i) = next_for_driver (ins ! i)) \<Longrightarrow>
   chain ins' p xs"
  by (induction xs arbitrary: p) auto

lemma iterate_inputs_chain: "chain ins p xs \<Longrightarrow> iterate_inputs ins p = Some xs"
proof (induction xs arbitrary: p)
  case Nil
  then show ?case by (simp add: iterate_inputs.simps)
next
  case (Cons x xs)
  then show ?case by (subst iterate_inputs.simps) simp
qed

lemma iterate_inputs_chainD: "iterate_inputs ins p = Some xs \<Longrightarrow> chain ins p xs"
proof (induction xs arbitrary: p)
  case Nil
  then show ?case
    by (subst (asm) iterate_inputs.simps) (auto split: option.splits if_splits bind_splits)
next
  case (Cons x xs)
  from Cons.prems show ?case
    by (subst (asm) iterate_inputs.simps)
      (auto split: option.splits if_splits bind_splits intro: Cons.IH)
qed

lemma last_for_driver_chain:
  "chain ins (Some i) (i # xs) \<Longrightarrow> last_for_driver ins i = Some (last (i # xs))"
proof (induction xs arbitrary: i)
  case Nil
  then show ?case by (subst last_for_driver.simps) simp
next
  case (Cons x xs)
  then show ?case by (subst last_for_driver.simps) auto
qed

lemma chain_append_link:
  assumes "chain ins p (xs @ [l])" "i < length ins" "i \<notin> set (xs @ [l])"
    "next_for_driver (ins ! i) = None"
  shows "chain (ins[l := (ins ! l)\<lparr>next_for_driver := Some i\<rparr>]) p (xs @ [l, i])"
  using assms
proof (induction xs arbitrary: p)
  case Nil
  then show ?case by auto
next
  case (Cons x xs)
  have "x \<noteq> l" using chain_distinct[OF Cons.prems(1)] by auto
  with Cons show ?case by auto
qed

lemma AddInput_chain:
  assumes ch: "chain ins (inputs_head d) xs" and i: "i < length ins" "i \<notin> set xs"
    and nx: "next_for_driver (ins ! i) = None"
  shows "\<exists>d' ins'. AddInput i d ins = Some (d', ins') \<and> chain ins' (inputs_head d') (xs @ [i])
    \<and> driver_kind d' = driver_kind d \<and> length ins' = length ins
    \<and> (\<forall>j. j \<noteq> last xs \<or> xs = [] \<longrightarrow> ins' ! j = ins ! j)"
proof (cases xs rule: rev_cases)
  case Nil
  with ch i nx show ?thesis by (auto simp: AddInput_def)
next
  case (snoc ys l)
  then obtain h zs where hz: "ys @ [l] = h # zs" by (cases ys) auto
  have h: "inputs_head d = Some h" using ch snoc hz by (cases ys) auto
  have "last_for_driver ins h = Some l"
    using last_for_driver_chain[of ins h zs] ch snoc hz h by (metis last_snoc)
  then show ?thesis
    using h snoc chain_append_link[of ins "inputs_head d" ys l i] ch i nx
    by (auto simp: AddInput_def nth_list_update)
qed

subsection \<open>Updating every input of a driver\<close>

definition config_of :: "input \<Rightarrow> input" where
  "config_of inp = inp\<lparr>active := False, active_since := 0\<rparr>"

definition same_config :: "input_service \<Rightarrow> input_service \<Rightarrow> bool" where
  "same_config s s' \<longleftrightarrow>
     drivers s' = drivers s \<and> lift_multiple_input s' = lift_multiple_input s \<and>
     map config_of (all_inputs s') = map config_of (all_inputs s)"

lemma config_of_set_active [simp]: "config_of (set_active t b inp) = config_of inp"
  by (simp add: config_of_def set_active_def)

lemma config_of_eqD:
  assumes "config_of a = config_of b"
  shows "idx a = idx b" "invert a = invert b" "gpio_line a = gpio_line b"
    "emergency_reason a = emergency_reason b" "emergency_delay_ms a = emergency_delay_ms b"
    "next_for_driver a = next_for_driver b"
  using assms by (cases a, cases b, simp add: config_of_def)+

lemma same_config_refl [simp]: "same_config s s"
  by (simp add: same_config_def)

lemma same_config_trans: "same_config s1 s2 \<Longrightarrow> same_config s2 s3 \<Longrightarrow> same_config s1 s3"
  by (simp add: same_config_def)

lemma same_config_length: "same_config s s' \<Longrightarrow> length (all_inputs s') = length (all_inputs s)"
  unfolding same_config_def by (metis length_map)

lemma same_config_nth:
  assumes "same_config s s'" "i < length (all_inputs s)"
  shows "config_of (all_inputs s' ! i) = config_of (all_inputs s ! i)"
proof -
  have "map config_of (all_inputs s') ! i = map config_of (all_inputs s) ! i"
    using assms(1) by (simp add: same_config_def)
  then show ?thesis using assms same_config_length by simp
qed

lemmas same_config_fields = same_config_nth [THEN config_of_eqD(1)]
  same_config_nth [THEN config_of_eqD(2)] same_config_nth [THEN config_of_eqD(3)]
  same_config_nth [THEN config_of_eqD(4)] same_config_nth [THEN config_of_eqD(5)]
  same_config_nth [THEN config_of_eqD(6)]

lemma map_config_update:
  "config_of x = config_of (ins ! i) \<Longrightarrow> map config_of (ins[i := x]) = map config_of ins"
  by (cases "i < length ins") (simp_all add: map_update list_update_beyond, metis list_update_id nth_map)

lemma same_config_spec_update: "same_config s (spec_update now i b s)"
  by (simp add: same_config_def spec_update_def Let_def map_config_update)

lemma spec_update_nth:
  assumes "wf_inputs s" "i < length (all_inputs s)" "j < length (all_inputs s)"
    "idx (all_inputs s ! j) \<noteq> VIRTUAL"
  shows "all_inputs (spec_update now i b s) ! j =
    (if j = i then set_active (now i) b (all_inputs s ! i) else all_inputs s ! j)"
  using assms by (auto simp: spec_update_def Let_def nth_list_update elim!: wf_inputsE)

lemma chain_same_config:
  assumes "chain (all_inputs s) p xs" "same_config s s'"
  shows "chain (all_inputs s') p xs"
  using assms(1) same_config_length[OF assms(2)]
  by (rule chain_cong) (use same_config_fields(6)[OF assms(2)] chain_bounded[OF assms(1)] in blast)

lemma update_all_chain:
  assumes "wf_inputs s" "chain (all_inputs s) p xs"
    "\<And>i. i \<in> set xs \<Longrightarrow> idx (all_inputs s ! i) \<noteq> VIRTUAL"
  shows "\<exists>s' es. update_all now level p s = Some (s', es) \<and> wf_inputs s' \<and> same_config s s' \<and>
    (\<forall>j < length (all_inputs s). idx (all_inputs s ! j) \<noteq> VIRTUAL \<longrightarrow>
       all_inputs s' ! j =
         (if j \<in> set xs
          then set_active (now j) (level (all_inputs s ! j) \<noteq> invert (all_inputs s ! j)) (all_inputs s ! j)
          else all_inputs s ! j))"
  using assms
proof (induction xs arbitrary: p s)
  case Nil
  then show ?case by (auto simp: update_all.simps)
next
  case (Cons i xs)
  from Cons.prems(2) have p: "p = Some i" and i: "i < length (all_inputs s)"
    and ch: "chain (all_inputs s) (next_for_driver (all_inputs s ! i)) xs" by auto
  have nv: "idx (all_inputs s ! i) \<noteq> VIRTUAL" using Cons.prems(3) by simp
  let ?b = "level (all_inputs s ! i) \<noteq> invert (all_inputs s ! i)"
  let ?s1 = "spec_update now i ?b s"
  obtain es where upd: "Update now i (level (all_inputs s ! i)) s =
      Some (active (all_inputs s ! i) \<noteq> ?b, ?s1, es)"
    using Update_spec[OF Cons.prems(1) i nv] by blast
  have wf1: "wf_inputs ?s1" using Cons.prems(1) i nv by (rule wf_spec_update)
  have sc: "same_config s ?s1" by (rule same_config_spec_update)
  have nxt: "next_for_driver (all_inputs ?s1 ! i) = next_for_driver (all_inputs s ! i)"
    using sc i by (rule same_config_fields(6))
  have bnd: "j < length (all_inputs s)" if "j \<in> set xs" for j using chain_bounded[OF ch that] .
  have "\<exists>s' es. update_all now level (next_for_driver (all_inputs s ! i)) ?s1 = Some (s', es) \<and>
    wf_inputs s' \<and> same_config ?s1 s' \<and>
    (\<forall>j < length (all_inputs ?s1). idx (all_inputs ?s1 ! j) \<noteq> VIRTUAL \<longrightarrow>
       all_inputs s' ! j =
         (if j \<in> set xs
          then set_active (now j) (level (all_inputs ?s1 ! j) \<noteq> invert (all_inputs ?s1 ! j)) (all_inputs ?s1 ! j)
          else all_inputs ?s1 ! j))"
    by (rule Cons.IH[OF wf1 chain_same_config[OF ch sc]])
      (use Cons.prems(3) same_config_fields(1)[OF sc] bnd in force)
  then obtain s' es' where IH: "update_all now level (next_for_driver (all_inputs s ! i)) ?s1 = Some (s', es')"
    "wf_inputs s'" "same_config ?s1 s'"
    "\<And>j. j < length (all_inputs s) \<Longrightarrow> idx (all_inputs s ! j) \<noteq> VIRTUAL \<Longrightarrow>
       all_inputs s' ! j =
         (if j \<in> set xs
          then set_active (now j) (level (all_inputs ?s1 ! j) \<noteq> invert (all_inputs ?s1 ! j)) (all_inputs ?s1 ! j)
          else all_inputs ?s1 ! j)"
    using same_config_length[OF sc] same_config_fields(1)[OF sc] by auto
  have "i \<notin> set xs" using chain_distinct[OF Cons.prems(2)] by simp
  then have "all_inputs s' ! j =
         (if j \<in> set (i # xs)
          then set_active (now j) (level (all_inputs s ! j) \<noteq> invert (all_inputs s ! j)) (all_inputs s ! j)
          else all_inputs s ! j)"
    if "j < length (all_inputs s)" "idx (all_inputs s ! j) \<noteq> VIRTUAL" for j
    using IH(4)[OF that] spec_update_nth[OF Cons.prems(1) i that, of now ?b] by auto
  moreover have "update_all now level p s = Some (s', es @ es')"
    using i p upd IH(1) nxt by (subst update_all.simps) simp
  ultimately show ?case
    using IH(2) same_config_trans[OF sc IH(3)] by blast
qed


subsection \<open>Status mask\<close>

definition wf_idx :: "input list \<Rightarrow> bool" where
  "wf_idx ins \<longleftrightarrow> (\<forall>inp \<in> set ins. idx inp = VIRTUAL \<or> unat (idx inp) < 30)"

lemma bit_shifted_one:
  "n < 31 \<Longrightarrow> bit (scast ((2 :: 32 word) ^ n) :: u64) k \<longleftrightarrow> k = n"
  by (auto simp: bit_signed_iff bit_exp_iff min_def)

lemma active_inputs_mask_bits:
  assumes "wf_idx ins"
  shows "\<exists>m'. active_inputs_mask ins m = Some m' \<and>
    (\<forall>k. bit m' k \<longleftrightarrow> bit m k \<or>
      (\<exists>inp \<in> set ins. active inp \<and> idx inp \<noteq> VIRTUAL \<and> unat (idx inp) = k))"
  using assms
proof (induction ins arbitrary: m)
  case Nil
  then show ?case by simp
next
  case (Cons inp ins)
  have wf: "wf_idx ins" using Cons.prems by (simp add: wf_idx_def)
  show ?case
  proof (cases "active inp \<and> idx inp \<noteq> VIRTUAL")
    case True
    then have lt: "unat (idx inp) < 30" using Cons.prems by (auto simp: wf_idx_def)
    let ?m = "m OR scast (push_bit (unat (idx inp)) (1 :: 32 word))"
    obtain m' where m': "active_inputs_mask ins ?m = Some m'"
      "\<And>k. bit m' k \<longleftrightarrow> bit ?m k \<or>
        (\<exists>inp \<in> set ins. active inp \<and> idx inp \<noteq> VIRTUAL \<and> unat (idx inp) = k)"
      using Cons.IH[OF wf] by blast
    have "bit ?m k \<longleftrightarrow> bit m k \<or> k = unat (idx inp)" for k
      using lt by (simp add: bit_or_iff bit_shifted_one)
    then show ?thesis using m' True lt by (auto simp: IsActive_def)
  next
    case False
    then show ?thesis using Cons.IH[OF wf, of m] by (auto simp: IsActive_def)
  qed
qed

subsection \<open>Emergency reasons\<close>

definition counts :: "input \<Rightarrow> bool" where
  "counts inp \<longleftrightarrow> emergency_reason inp \<noteq> 0 \<and> active inp"

definition delay_us :: "input \<Rightarrow> u32" where
  "delay_us inp = ucast (emergency_delay_ms inp) * 1000"

definition due :: "u32 \<Rightarrow> input \<Rightarrow> bool" where
  "due now inp \<longleftrightarrow> counts inp \<and> delay_us inp \<le> ActiveDuration inp now"

definition pending :: "u32 \<Rightarrow> input \<Rightarrow> bool" where
  "pending now inp \<longleftrightarrow> counts inp \<and> ActiveDuration inp now < delay_us inp"

definition remaining :: "u32 \<Rightarrow> input \<Rightarrow> u32" where
  "remaining now inp = delay_us inp - ActiveDuration inp now"

lemma collect_reasons_eq:
  "collect_reasons now ins (r, b) =
     (fold (\<lambda>inp acc. acc OR emergency_reason inp) (filter (due now) ins) r,
      fold (\<lambda>inp acc. min acc (remaining now inp)) (filter (pending now) ins) b)"
proof (induction ins arbitrary: r b)
  case Nil
  then show ?case by simp
next
  case (Cons inp ins)
  then show ?case
    by (auto simp: due_def pending_def counts_def IsActive_def TimeoutReached_def remaining_def
        delay_us_def not_le)
qed

lemma fold_or_bit:
  "bit (fold (\<lambda>x acc. acc OR f x) xs (r :: 'a::len word)) k \<longleftrightarrow> bit r k \<or> (\<exists>x \<in> set xs. bit (f x) k)"
  by (induction xs arbitrary: r) (auto simp: bit_or_iff)

lemma fold_min_le:
  "fold (\<lambda>x acc. min acc (f x)) xs b \<le> (b :: 'a::linorder) \<and>
   (\<forall>x \<in> set xs. fold (\<lambda>x acc. min acc (f x)) xs b \<le> f x) \<and>
   (fold (\<lambda>x acc. min acc (f x)) xs b = b \<or> (\<exists>x \<in> set xs. fold (\<lambda>x acc. min acc (f x)) xs b = f x))"
proof (induction xs arbitrary: b)
  case Nil
  then show ?case by simp
next
  case (Cons x xs)
  show ?case using Cons.IH[of "min b (f x)"] by (auto simp: min_def split: if_splits)
qed

lemma GetEmergencyReasons_bits:
  "bit (fst (GetEmergencyReasons s now)) k \<longleftrightarrow>
     (\<exists>inp \<in> set (all_inputs s). due now inp \<and> bit (emergency_reason inp) k)"
  by (auto simp: GetEmergencyReasons_def collect_reasons_eq fold_or_bit)

lemma GetEmergencyReasons_block:
  "(\<forall>inp \<in> set (all_inputs s). pending now inp \<longrightarrow> snd (GetEmergencyReasons s now) \<le> remaining now inp) \<and>
   (snd (GetEmergencyReasons s now) = UINT32_MAX \<or>
    (\<exists>inp \<in> set (all_inputs s). pending now inp \<and> snd (GetEmergencyReasons s now) = remaining now inp))"
  using fold_min_le[of "remaining now" "filter (pending now) (all_inputs s)" UINT32_MAX]
  by (auto simp: GetEmergencyReasons_def collect_reasons_eq)

lemma delay_us_exact: "unat (delay_us inp) = unat (emergency_delay_ms inp) * 1000"
proof -
  have "unat (emergency_delay_ms inp) < 2 ^ 16" using unsigned_less[of "emergency_delay_ms inp"] by simp
  then show ?thesis by (simp add: delay_us_def unat_word_ariths unsigned_ucast_eq take_bit_eq_mod)
qed


subsection \<open>Interface: a registry of inputs\<close>

locale input_registry =
  fixes rep :: "'st \<Rightarrow> nat list \<Rightarrow> bool"
    and fresh :: "'st \<Rightarrow> nat \<Rightarrow> bool"
    and add :: "nat \<Rightarrow> 'st \<Rightarrow> 'st option"
    and clear :: "'st \<Rightarrow> 'st"
  assumes rep_clear: "rep (clear s) []"
    and fresh_clear: "fresh s i \<Longrightarrow> fresh (clear s) i"
    and add_rep: "rep s xs \<Longrightarrow> fresh s i \<Longrightarrow> i \<notin> set xs \<Longrightarrow>
      \<exists>s'. add i s = Some s' \<and> rep s' (xs @ [i]) \<and>
           (\<forall>j. j \<notin> set xs \<longrightarrow> fresh s j \<longrightarrow> fresh s' j)"
begin

lemma add_all:
  "rep s xs \<Longrightarrow> (\<And>i. i \<in> set ys \<Longrightarrow> fresh s i) \<Longrightarrow> distinct ys \<Longrightarrow> set xs \<inter> set ys = {} \<Longrightarrow>
   \<exists>s'. foldM add ys s = Some s' \<and> rep s' (xs @ ys)"
proof (induction ys arbitrary: s xs)
  case Nil
  then show ?case by simp
next
  case (Cons y ys)
  obtain s' where s': "add y s = Some s'" "rep s' (xs @ [y])"
    "\<And>j. j \<notin> set xs \<Longrightarrow> fresh s j \<Longrightarrow> fresh s' j"
    using add_rep[OF Cons.prems(1), of y] Cons.prems by auto
  have "\<exists>s''. foldM add ys s' = Some s'' \<and> rep s'' ((xs @ [y]) @ ys)"
    by (rule Cons.IH[OF s'(2)]) (use s'(3) Cons.prems in auto)
  then show ?case using s'(1) by simp
qed

lemma clear_add_all:
  "(\<And>i. i \<in> set ys \<Longrightarrow> fresh s i) \<Longrightarrow> distinct ys \<Longrightarrow>
   \<exists>s'. foldM add ys (clear s) = Some s' \<and> rep s' ys"
  using add_all[of "clear s" "[]" ys] rep_clear fresh_clear by simp

end

definition registry_rep :: "input_driver \<times> input list \<Rightarrow> nat list \<Rightarrow> bool" where
  "registry_rep st xs \<longleftrightarrow> Inputs (snd st) (fst st) = Some xs"

definition registry_fresh :: "input_driver \<times> input list \<Rightarrow> nat \<Rightarrow> bool" where
  "registry_fresh st i \<longleftrightarrow> i < length (snd st) \<and> next_for_driver (snd st ! i) = None"

definition registry_add :: "nat \<Rightarrow> input_driver \<times> input list \<Rightarrow> (input_driver \<times> input list) option" where
  "registry_add i st = AddInput i (fst st) (snd st)"

definition registry_clear :: "input_driver \<times> input list \<Rightarrow> input_driver \<times> input list" where
  "registry_clear st = (ClearInputs (fst st), snd st)"

lemma Inputs_iff_chain: "Inputs ins d = Some xs \<longleftrightarrow> chain ins (inputs_head d) xs"
  unfolding Inputs_def using iterate_inputs_chain iterate_inputs_chainD by blast

interpretation registry: input_registry registry_rep registry_fresh registry_add registry_clear
proof
  fix st :: "input_driver \<times> input list"
  show "registry_rep (registry_clear st) []"
    by (simp add: registry_rep_def registry_clear_def ClearInputs_def Inputs_iff_chain)
next
  fix st :: "input_driver \<times> input list" and i
  show "registry_fresh st i \<Longrightarrow> registry_fresh (registry_clear st) i"
    by (simp add: registry_fresh_def registry_clear_def)
next
  fix st :: "input_driver \<times> input list" and xs i
  assume rep: "registry_rep st xs" and fr: "registry_fresh st i" and ni: "i \<notin> set xs"
  obtain d ins where st: "st = (d, ins)" by (cases st)
  obtain d' ins' where add: "AddInput i d ins = Some (d', ins')"
    "chain ins' (inputs_head d') (xs @ [i])" "length ins' = length ins"
    "\<And>j. j \<noteq> last xs \<or> xs = [] \<Longrightarrow> ins' ! j = ins ! j"
    using AddInput_chain[of ins d xs i] rep fr ni
    by (auto simp: st registry_rep_def registry_fresh_def Inputs_iff_chain)
  have "registry_fresh (d', ins') j" if "j \<notin> set xs" "registry_fresh st j" for j
  proof -
    have "j \<noteq> last xs \<or> xs = []" using that(1) last_in_set by blast
    with that add(3,4) show ?thesis by (simp add: st registry_fresh_def)
  qed
  with add show "\<exists>s'. registry_add i st = Some s' \<and> registry_rep s' (xs @ [i]) \<and>
      (\<forall>j. j \<notin> set xs \<longrightarrow> registry_fresh st j \<longrightarrow> registry_fresh s' j)"
    by (auto simp: st registry_add_def registry_rep_def Inputs_iff_chain)
qed

subsection \<open>Properties\<close>

text \<open>
  C11: Registering inputs with a cleared driver always terminates without leaving the input
  vector, and the driver's iteration then visits exactly the registered inputs, in the
  order of registration.
\<close>

theorem AddInput_in_order:
  assumes "distinct ys" and "\<forall>i \<in> set ys. i < length ins \<and> next_for_driver (ins ! i) = None"
  shows "\<exists>d' ins'. foldM (\<lambda>i (d, ins). AddInput i d ins) ys (ClearInputs d, ins) = Some (d', ins')
    \<and> Inputs ins' d' = Some ys"
proof -
  have "(\<lambda>i (d, ins). AddInput i d ins) = registry_add"
    by (auto simp: fun_eq_iff registry_add_def)
  then show ?thesis
    using registry.clear_add_all[of ys "(d, ins)"] assms
    by (auto simp: registry_fresh_def registry_clear_def registry_rep_def)
qed

theorem AddInput_in_order_witness:
  "\<exists>d' ins'. foldM (\<lambda>i (d, ins). AddInput i d ins) [2, 0]
      (ClearInputs \<lparr>driver_kind = GpioInputDriver, inputs_head = Some 1\<rparr>, replicate 3 new_input)
      = Some (d', ins') \<and> Inputs ins' d' = Some [2, 0]"
proof (rule AddInput_in_order)
  show "distinct [2, 0 :: nat]" by simp
  show "\<forall>i \<in> set [2, 0]. i < length (replicate 3 new_input) \<and>
      next_for_driver (replicate 3 new_input ! i) = None"
    by (simp add: new_input_def nth_Cons' eval_nat_numeral)
qed

text \<open>
  C9: An update of a configured input never leaves the input vector and needs no more than
  four nested calls. It stores the (inverted, if so configured) level, and the incremental
  counter of lifted sensors and the virtual input LIFT_MULTIPLE end up as if the sensors
  were counted afresh.
\<close>

theorem Update_recounts:
  assumes "wf_inputs s" and "i < length (all_inputs s)" and "idx (all_inputs s ! i) \<noteq> VIRTUAL"
  shows "\<exists>es. Update now i new_active s =
      Some (active (all_inputs s ! i) \<noteq> (new_active \<noteq> invert (all_inputs s ! i)),
            spec_update now i (new_active \<noteq> invert (all_inputs s ! i)) s, es)
    \<and> wf_inputs (spec_update now i (new_active \<noteq> invert (all_inputs s ! i)) s)"
  using Update_spec[OF assms] wf_spec_update[OF assms] by blast


text \<open>Two lift sensors on GPIO lines 16 and 17, both idle, behind the virtual input.\<close>

definition example_inputs :: input_service where
  "example_inputs = \<lparr>
     drivers = [(''gpio'', \<lparr>driver_kind = GpioInputDriver, inputs_head = Some 1\<rparr>)],
     all_inputs = [
       new_input\<lparr>idx := VIRTUAL, emergency_reason := LIFT_MULTIPLE OR LATCH, emergency_delay_ms := 10\<rparr>,
       new_input\<lparr>emergency_reason := LIFT OR LATCH, emergency_delay_ms := 100, gpio_line := 16,
         next_for_driver := Some 2\<rparr>,
       new_input\<lparr>idx := 1, invert := True, emergency_reason := LIFT, gpio_line := 17\<rparr>],
     num_active_lift = 0, lift_multiple_input = Some 0\<rparr>"

lemma wf_example_inputs: "wf_inputs example_inputs"
  by (simp add: wf_inputs_def example_inputs_def new_input_def VIRTUAL_def num_lift_def lift_active_def)

theorem Update_recounts_witness:
  "\<exists>es. Update (\<lambda>_. 7) 1 True example_inputs =
      Some (True, spec_update (\<lambda>_. 7) 1 True example_inputs, es)
    \<and> wf_inputs (spec_update (\<lambda>_. 7) 1 True example_inputs)"
proof -
  have "1 < length (all_inputs example_inputs)" "idx (all_inputs example_inputs ! 1) \<noteq> VIRTUAL"
    "\<not> active (all_inputs example_inputs ! 1)" "\<not> invert (all_inputs example_inputs ! 1)"
    by (simp_all add: example_inputs_def new_input_def VIRTUAL_def)
  then show ?thesis
    using Update_recounts[OF wf_example_inputs, of 1 "\<lambda>_. 7" True] by simp
qed

text \<open>
  One pass of the GPIO driver over its inputs terminates, leaves every input of the list
  at the level of its pin (inverted where configured), stamps the time of a rising input,
  touches no other sensor, and afterwards LIFT_MULTIPLE is active exactly when at least two
  lift sensors are.
\<close>

theorem Gpio_tick_reads_pins:
  assumes "wf_inputs s" and "Inputs (all_inputs s) d = Some xs"
    and "\<forall>i \<in> set xs. idx (all_inputs s ! i) \<noteq> VIRTUAL"
  shows "\<exists>s' es v. Gpio_tick now palReadLine d s = Some (s', es)
    \<and> (\<forall>j < length (all_inputs s). idx (all_inputs s ! j) \<noteq> VIRTUAL \<longrightarrow>
         all_inputs s' ! j =
           (if j \<in> set xs
            then set_active (now j)
              (palReadLine (gpio_line (all_inputs s ! j)) \<noteq> invert (all_inputs s ! j)) (all_inputs s ! j)
            else all_inputs s ! j))
    \<and> lift_multiple_input s' = Some v \<and> (active (all_inputs s' ! v) \<longleftrightarrow> 2 \<le> num_lift (all_inputs s'))"
proof -
  obtain s' es where s': "Gpio_tick now palReadLine d s = Some (s', es)" "wf_inputs s'"
    "\<forall>j < length (all_inputs s). idx (all_inputs s ! j) \<noteq> VIRTUAL \<longrightarrow>
         all_inputs s' ! j =
           (if j \<in> set xs
            then set_active (now j)
              (palReadLine (gpio_line (all_inputs s ! j)) \<noteq> invert (all_inputs s ! j)) (all_inputs s ! j)
            else all_inputs s ! j)"
    using update_all_chain[OF assms(1), of "inputs_head d" xs now "\<lambda>inp. palReadLine (gpio_line inp)"]
      assms(2,3) by (auto simp: Gpio_tick_def Inputs_iff_chain)
  then show ?thesis by (blast elim: wf_inputsE)
qed

theorem Gpio_tick_reads_pins_witness:
  "\<exists>s' es v. Gpio_tick (\<lambda>_. 7) (\<lambda>l. l = 16) \<lparr>driver_kind = GpioInputDriver, inputs_head = Some 1\<rparr>
      example_inputs = Some (s', es)
    \<and> lift_multiple_input s' = Some v \<and> (active (all_inputs s' ! v) \<longleftrightarrow> 2 \<le> num_lift (all_inputs s'))"
proof -
  let ?d = "\<lparr>driver_kind = GpioInputDriver, inputs_head = Some 1\<rparr>"
  have xs: "Inputs (all_inputs example_inputs) ?d = Some [1, 2]"
    by (simp add: Inputs_iff_chain example_inputs_def new_input_def numeral_2_eq_2)
  have nv: "\<forall>i \<in> set [1, 2]. idx (all_inputs example_inputs ! i) \<noteq> VIRTUAL"
    by (simp add: example_inputs_def new_input_def VIRTUAL_def)
  from Gpio_tick_reads_pins[OF wf_example_inputs xs nv, of "\<lambda>_. 7" "\<lambda>l. l = 16"]
  show ?thesis by blast
qed


text \<open>
  With at most 30 configured inputs the status message is sent without an undefined
  shift, and bit k of the mask is set exactly when an active physical input has index k.
\<close>

theorem SendStatus_mask:
  assumes "wf_idx (all_inputs s)"
  shows "\<exists>m. InputService_SendStatus s = Some [SendActiveInputs m] \<and>
    (\<forall>k. bit m k \<longleftrightarrow>
      (\<exists>inp \<in> set (all_inputs s). active inp \<and> idx inp \<noteq> VIRTUAL \<and> unat (idx inp) = k))"
  using active_inputs_mask_bits[OF assms, of 0] by (auto simp: InputService_SendStatus_def)

theorem SendStatus_mask_witness:
  "\<exists>m. InputService_SendStatus example_inputs = Some [SendActiveInputs m] \<and> \<not> bit m 0"
proof -
  have "wf_idx (all_inputs example_inputs)"
    by (simp add: wf_idx_def example_inputs_def new_input_def)
  from SendStatus_mask[OF this] show ?thesis
    by (auto simp: example_inputs_def new_input_def)
qed

text \<open>
  GetEmergencyReasons reports a reason bit exactly when an input configured with that
  bit has been active for its whole delay, where the delay in microseconds is computed
  without overflow; and the block time it returns is never later than the moment the next
  pending input becomes due, and is that moment for some input unless none is pending.
\<close>

theorem GetEmergencyReasons_correct:
  "(\<forall>k. bit (fst (GetEmergencyReasons s now)) k \<longleftrightarrow>
      (\<exists>inp \<in> set (all_inputs s). active inp \<and> bit (emergency_reason inp) k
         \<and> unat (emergency_delay_ms inp) * 1000 \<le> unat (now - active_since inp)))
   \<and> (\<forall>inp \<in> set (all_inputs s). pending now inp \<longrightarrow>
        snd (GetEmergencyReasons s now) \<le> remaining now inp)
   \<and> (snd (GetEmergencyReasons s now) = UINT32_MAX \<or>
      (\<exists>inp \<in> set (all_inputs s). pending now inp \<and>
         snd (GetEmergencyReasons s now) = remaining now inp))"
proof -
  have "due now inp \<and> bit (emergency_reason inp) k \<longleftrightarrow>
    active inp \<and> bit (emergency_reason inp) k
         \<and> unat (emergency_delay_ms inp) * 1000 \<le> unat (now - active_since inp)" for inp k
    by (auto simp: due_def counts_def ActiveDuration_def word_le_nat_alt delay_us_exact)
  then show ?thesis
    using GetEmergencyReasons_bits[of s now] GetEmergencyReasons_block[of s now] by simp
qed

definition example_busy :: input_service where
  "example_busy = example_inputs\<lparr>all_inputs :=
     map (\<lambda>inp. inp\<lparr>active := True\<rparr>) (all_inputs example_inputs)\<rparr>"

theorem GetEmergencyReasons_correct_witness:
  "snd (GetEmergencyReasons example_busy 9) \<le> 99991 \<and> bit (fst (GetEmergencyReasons example_busy 9)) 3"
proof -
  let ?i = "all_inputs example_busy ! 1" and ?j = "all_inputs example_busy ! 2"
  have i: "?i \<in> set (all_inputs example_busy)" "pending 9 ?i" "remaining 9 ?i = 99991"
    and j: "?j \<in> set (all_inputs example_busy)" "active ?j" "bit (emergency_reason ?j) 3"
      "unat (emergency_delay_ms ?j) = 0"
    by (simp_all add: example_busy_def example_inputs_def new_input_def pending_def counts_def
        delay_us_def ActiveDuration_def remaining_def emergency_reason_defs)
  have "snd (GetEmergencyReasons example_busy 9) \<le> remaining 9 ?i"
    using GetEmergencyReasons_correct[of example_busy 9] i(1,2) by blast
  moreover have "bit (fst (GetEmergencyReasons example_busy 9)) 3"
    using GetEmergencyReasons_correct[of example_busy 9] j by auto
  ultimately show ?thesis using i(3) by metis
qed

end
