(* ===== verification/Emergency.thy ===== *)
theory Emergency
  imports Inputs
begin

text \<open>
  The emergency service (\<open>src/services/emergency_service\<close>): the set of reasons the robot
  must not move, kept as a bit mask. Reasons come from the inputs, from the loss of the
  high-level computer and from the high-level computer itself; every change is broadcast
  to the other services and reported. The mutex sections of the source are atomic here;
  their interleaving with the motor control is the subject of \<open>Safety\<close>.
\<close>

subsection \<open>State and operations\<close>

record emergency_service =
  reasons :: u16
  last_high_level_emergency_message :: u32

definition emergency_init :: emergency_service where
  "emergency_init = \<lparr>reasons = TIMEOUT_INPUTS OR TIMEOUT_HIGH_LEVEL,
     last_high_level_emergency_message = 0\<rparr>"

datatype emergency_effect =
    BroadcastEvent u32
  | StartStatusTransaction
  | SendEmergencyReason u16
  | CommitStatusTransaction

definition Emergency_SendStatus :: "emergency_service \<Rightarrow> emergency_effect list" where
  "Emergency_SendStatus s =
     [StartStatusTransaction, SendEmergencyReason (reasons s), CommitStatusTransaction]"

definition UpdateEmergency ::
  "u16 \<Rightarrow> u16 \<Rightarrow> emergency_service \<Rightarrow> emergency_service \<times> emergency_effect list" where
  "UpdateEmergency add clear s =
     (let old_reason = reasons s;
          s' = s\<lparr>reasons := (reasons s AND NOT clear) OR add\<rparr>
      in if reasons s' = old_reason then (s', [])
         else (s', BroadcastEvent EMERGENCY_CHANGED # Emergency_SendStatus s'))"

definition GetEmergency :: "emergency_service \<Rightarrow> bool" where
  "GetEmergency s \<longleftrightarrow> reasons s \<noteq> 0"

definition Emergency_OnStop ::
  "emergency_service \<Rightarrow> emergency_service \<times> emergency_effect list" where
  "Emergency_OnStop s = UpdateEmergency TIMEOUT_HIGH_LEVEL 0 s"

definition input_reasons :: u16 where
  "input_reasons = STOP OR LIFT OR LIFT_MULTIPLE OR COLLISION"

definition CheckInputs ::
  "input_service \<Rightarrow> u32 \<Rightarrow> emergency_service \<Rightarrow> u32 \<times> emergency_service \<times> emergency_effect list" where
  "CheckInputs inputs now s =
     (let (rs, block_time) = GetEmergencyReasons inputs now;
          (s', es) = UpdateEmergency rs input_reasons s
      in (block_time, s', es))"

definition timeout_reasons :: u16 where
  "timeout_reasons = TIMEOUT_HIGH_LEVEL OR TIMEOUT_INPUTS"

definition CheckTimeouts ::
  "u32 \<Rightarrow> emergency_service \<Rightarrow> u32 \<times> emergency_service \<times> emergency_effect list" where
  "CheckTimeouts now s =
     (let (reached, block_time) =
            TimeoutReached (now - last_high_level_emergency_message s) 1000000 UINT32_MAX;
          rs = (if reached then 0 OR TIMEOUT_HIGH_LEVEL else 0);
          (s', es) = UpdateEmergency rs timeout_reasons s
      in (block_time, s', es))"

text \<open>
  \<open>OnHighLevelEmergencyChanged\<close> reads \<open>new_value[0]\<close> and \<open>new_value[1]\<close> without looking at
  the length: with fewer than two values it reads outside the array.
\<close>

definition OnHighLevelEmergencyChanged ::
  "u32 \<Rightarrow> u16 list \<Rightarrow> emergency_service \<Rightarrow> (emergency_service \<times> emergency_effect list) option" where
  "OnHighLevelEmergencyChanged now new_value s = do {
     let s' = s\<lparr>last_high_level_emergency_message := now\<rparr>;
     add \<leftarrow> aget new_value 0;
     clear \<leftarrow> aget new_value 1;
     Some (UpdateEmergency add clear s')
   }"

text \<open>
  \<open>OnLoop\<close> passes both checks as arguments of \<open>etl::min\<close>: C++ leaves their order open, so
  it is an argument here (\<open>True\<close>: inputs first).
\<close>

definition Emergency_OnLoop ::
  "bool \<Rightarrow> input_service \<Rightarrow> u32 \<Rightarrow> emergency_service
    \<Rightarrow> u32 \<times> emergency_service \<times> emergency_effect list" where
  "Emergency_OnLoop inputs_first inputs now s =
     (if inputs_first then
        let (b1, s1, es1) = CheckInputs inputs now s;
            (b2, s2, es2) = CheckTimeouts now s1
        in (min b1 b2, s2, es1 @ es2)
      else
        let (b2, s1, es1) = CheckTimeouts now s;
            (b1, s2, es2) = CheckInputs inputs now s1
        in (min b1 b2, s2, es1 @ es2))"

subsection \<open>Bits of the mask after each operation\<close>

lemma reasons_UpdateEmergency:
  "reasons (fst (UpdateEmergency add clear s)) = (reasons s AND NOT clear) OR add"
  by (simp add: UpdateEmergency_def Let_def)

lemma bit_reasons_UpdateEmergency:
  "k < 16 \<Longrightarrow> bit (reasons (fst (UpdateEmergency add clear s))) k \<longleftrightarrow>
     bit (reasons s) k \<and> \<not> bit clear k \<or> bit add k"
  by (simp add: reasons_UpdateEmergency bit_or_iff bit_and_iff bit_not_iff)

lemma last_UpdateEmergency [simp]:
  "last_high_level_emergency_message (fst (UpdateEmergency add clear s)) =
   last_high_level_emergency_message s"
  by (simp add: UpdateEmergency_def Let_def)

lemma effects_UpdateEmergency:
  "snd (UpdateEmergency add clear s) =
     (let s' = fst (UpdateEmergency add clear s)
      in if reasons s' = reasons s then []
         else BroadcastEvent EMERGENCY_CHANGED # Emergency_SendStatus s')"
  by (simp add: UpdateEmergency_def Let_def)

lemma bit_LATCH: "bit LATCH k \<longleftrightarrow> k = 0"
  and bit_TIMEOUT_INPUTS: "bit TIMEOUT_INPUTS k \<longleftrightarrow> k = 1"
  and bit_STOP: "bit STOP k \<longleftrightarrow> k = 2"
  and bit_LIFT: "bit LIFT k \<longleftrightarrow> k = 3"
  and bit_LIFT_MULTIPLE: "bit LIFT_MULTIPLE k \<longleftrightarrow> k = 4"
  and bit_COLLISION: "bit COLLISION k \<longleftrightarrow> k = 5"
  and bit_TIMEOUT_HIGH_LEVEL: "bit TIMEOUT_HIGH_LEVEL k \<longleftrightarrow> k = 6"
  and bit_HIGH_LEVEL: "bit HIGH_LEVEL k \<longleftrightarrow> k = 7"
  unfolding emergency_reason_defs by (rule bit_push_one, simp)+


lemmas bit_reason_consts = bit_LATCH bit_TIMEOUT_INPUTS bit_STOP bit_LIFT bit_LIFT_MULTIPLE
  bit_COLLISION bit_TIMEOUT_HIGH_LEVEL bit_HIGH_LEVEL

lemma bit_input_reasons: "bit input_reasons k \<longleftrightarrow> k \<in> {2, 3, 4, 5}"
  by (auto simp: input_reasons_def bit_or_iff bit_reason_consts)

lemma bit_timeout_reasons: "bit timeout_reasons k \<longleftrightarrow> k \<in> {1, 6}"
  by (auto simp: timeout_reasons_def bit_or_iff bit_reason_consts)

lemma CheckInputs_simps [simp]:
  "fst (CheckInputs inputs now s) = snd (GetEmergencyReasons inputs now)"
  "fst (snd (CheckInputs inputs now s)) =
     fst (UpdateEmergency (fst (GetEmergencyReasons inputs now)) input_reasons s)"
  by (simp_all add: CheckInputs_def case_prod_beta Let_def)

definition high_level_lost :: "u32 \<Rightarrow> emergency_service \<Rightarrow> bool" where
  "high_level_lost now s \<longleftrightarrow> 1000000 \<le> now - last_high_level_emergency_message s"

lemma CheckTimeouts_simps [simp]:
  "fst (CheckTimeouts now s) =
     (if high_level_lost now s then UINT32_MAX
      else 1000000 - (now - last_high_level_emergency_message s))"
  "fst (snd (CheckTimeouts now s)) =
     fst (UpdateEmergency (if high_level_lost now s then TIMEOUT_HIGH_LEVEL else 0) timeout_reasons s)"
  by (simp_all add: CheckTimeouts_def high_level_lost_def TimeoutReached_def case_prod_beta Let_def
      min_def) (metis UINT32_MAX_top order_antisym)+

lemma Emergency_OnLoop_state:
  "fst (snd (Emergency_OnLoop first inputs now s)) =
     (if first then fst (snd (CheckTimeouts now (fst (snd (CheckInputs inputs now s)))))
      else fst (snd (CheckInputs inputs now (fst (snd (CheckTimeouts now s))))))"
  "fst (Emergency_OnLoop first inputs now s) =
     min (snd (GetEmergencyReasons inputs now)) (fst (CheckTimeouts now s))"
  by (simp_all add: Emergency_OnLoop_def case_prod_beta Let_def high_level_lost_def)


subsection \<open>Interface: the source of input reasons\<close>

text \<open>
  What the emergency service relies on when it asks for the reasons of the inputs: only
  the bits it clears itself, and LATCH, are reported. This keeps the checks of the inputs
  and of the timeouts independent.
\<close>

locale reason_source =
  fixes get :: "'i \<Rightarrow> u32 \<Rightarrow> u16 \<times> u32"
    and ok :: "'i \<Rightarrow> bool"
  assumes reported_bits: "ok i \<Longrightarrow> bit (fst (get i now)) k \<Longrightarrow> k = 0 \<or> bit input_reasons k"
begin

lemma input_check_bits:
  assumes "ok i" "k < 16"
  shows "bit (reasons (fst (UpdateEmergency (fst (get i now)) input_reasons s))) k \<longleftrightarrow>
    (if bit input_reasons k then bit (fst (get i now)) k
     else bit (reasons s) k \<or> k = 0 \<and> bit (fst (get i now)) 0)"
  using assms reported_bits[OF assms(1), of now k]
  by (auto simp: bit_reasons_UpdateEmergency)

lemma checks_commute:
  assumes "ok i" "\<And>k. bit t k \<Longrightarrow> bit timeout_reasons k"
  shows "reasons (fst (UpdateEmergency t timeout_reasons
            (fst (UpdateEmergency (fst (get i now)) input_reasons s)))) =
         reasons (fst (UpdateEmergency (fst (get i now)) input_reasons
            (fst (UpdateEmergency t timeout_reasons s))))"
proof (rule bit_word_eqI)
  fix k assume k: "k < LENGTH(16)"
  have "\<not> (bit input_reasons k \<and> bit timeout_reasons k)" "\<not> bit timeout_reasons 0"
    by (auto simp: bit_input_reasons bit_timeout_reasons)
  then show "bit (reasons (fst (UpdateEmergency t timeout_reasons
            (fst (UpdateEmergency (fst (get i now)) input_reasons s))))) k \<longleftrightarrow>
         bit (reasons (fst (UpdateEmergency (fst (get i now)) input_reasons
            (fst (UpdateEmergency t timeout_reasons s))))) k"
    using k assms(2)[of k] reported_bits[OF assms(1), of now k]
    by (auto simp: bit_reasons_UpdateEmergency)
qed

end

definition wf_reasons :: "input_service \<Rightarrow> bool" where
  "wf_reasons s \<longleftrightarrow> (\<forall>inp \<in> set (all_inputs s).
     emergency_reason inp AND NOT (input_reasons OR LATCH) = 0)"

lemma wf_reasons_bits:
  assumes "wf_reasons s" "inp \<in> set (all_inputs s)" "bit (emergency_reason inp) k"
  shows "k = 0 \<or> bit input_reasons k"
proof -
  have "k < 16" using bit_imp_le_length[OF assms(3)] by simp
  moreover have "\<not> bit (emergency_reason inp AND NOT (input_reasons OR LATCH)) k"
    using assms(1,2) by (simp add: wf_reasons_def)
  ultimately show ?thesis
    using assms(3) by (auto simp: bit_and_iff bit_or_iff bit_not_iff bit_LATCH)
qed

interpretation inputs: reason_source GetEmergencyReasons wf_reasons
  by unfold_locales (auto simp: GetEmergencyReasons_bits dest: wf_reasons_bits)

lemma Emergency_OnLoop_bits:
  assumes "wf_reasons inputs" and "k < 16"
  shows "bit (reasons (fst (snd (Emergency_OnLoop first inputs now s)))) k \<longleftrightarrow>
    (if k = 6 then high_level_lost now s
     else if k = 1 then False
     else if k \<in> {2, 3, 4, 5} then bit (fst (GetEmergencyReasons inputs now)) k
     else bit (reasons s) k \<or> k = 0 \<and> bit (fst (GetEmergencyReasons inputs now)) 0)"
proof -
  let ?t = "if high_level_lost now s then TIMEOUT_HIGH_LEVEL else 0"
  have t: "bit ?t j \<Longrightarrow> bit timeout_reasons j" for j
    by (auto simp: bit_timeout_reasons bit_reason_consts split: if_splits)
  have lost: "high_level_lost now (fst (UpdateEmergency a c s)) = high_level_lost now s" for a c
    by (simp add: high_level_lost_def)
  have "reasons (fst (snd (Emergency_OnLoop first inputs now s))) =
    reasons (fst (UpdateEmergency ?t timeout_reasons
      (fst (UpdateEmergency (fst (GetEmergencyReasons inputs now)) input_reasons s))))"
    using inputs.checks_commute[OF assms(1), of ?t now s] t
    by (simp only: Emergency_OnLoop_state CheckInputs_simps CheckTimeouts_simps lost split: if_split) simp
  then show ?thesis
    using inputs.input_check_bits[OF assms, of now s] assms(2)
    by (simp add: bit_reasons_UpdateEmergency bit_input_reasons bit_timeout_reasons bit_reason_consts)
qed

subsection \<open>Properties\<close>

text \<open>
  UpdateEmergency clears and then adds bits, so an added reason always ends up set; the
  change event is broadcast and the new mask is reported exactly when the mask changed.
\<close>

theorem UpdateEmergency_correct:
  "(\<forall>k < 16. bit (reasons (fst (UpdateEmergency add clear s))) k \<longleftrightarrow>
      bit add k \<or> bit (reasons s) k \<and> \<not> bit clear k)
   \<and> snd (UpdateEmergency add clear s) =
      (if reasons (fst (UpdateEmergency add clear s)) = reasons s then []
       else [BroadcastEvent EMERGENCY_CHANGED, StartStatusTransaction,
             SendEmergencyReason (reasons (fst (UpdateEmergency add clear s))),
             CommitStatusTransaction])"
  by (auto simp: bit_reasons_UpdateEmergency effects_UpdateEmergency Emergency_SendStatus_def Let_def)

theorem UpdateEmergency_correct_witness:
  "bit (reasons (fst (UpdateEmergency STOP TIMEOUT_INPUTS emergency_init))) 2 \<and>
   \<not> bit (reasons (fst (UpdateEmergency STOP TIMEOUT_INPUTS emergency_init))) 1"
proof -
  note h = UpdateEmergency_correct[of STOP TIMEOUT_INPUTS emergency_init, THEN conjunct1, rule_format]
  show ?thesis using h[of 2] h[of 1] by (simp add: bit_reason_consts)
qed

text \<open>
  The result of one iteration of the service loop, bit by bit, whatever the order in
  which C++ evaluates the two checks: TIMEOUT_HIGH_LEVEL is set exactly when the last
  high-level message is a second old, TIMEOUT_INPUTS is cleared, each input reason is set
  exactly when an input reports it, LATCH is kept or raised and every other bit is kept.
\<close>

theorem Emergency_OnLoop_reasons:
  assumes "wf_reasons inputs" and "k < 16"
  shows "bit (reasons (fst (snd (Emergency_OnLoop first inputs now s)))) k \<longleftrightarrow>
    (if k = 6 then high_level_lost now s
     else if k = 1 then False
     else if k \<in> {2, 3, 4, 5} then bit (fst (GetEmergencyReasons inputs now)) k
     else bit (reasons s) k \<or> k = 0 \<and> bit (fst (GetEmergencyReasons inputs now)) 0)"
  using assms by (rule Emergency_OnLoop_bits)

lemma wf_reasons_example: "wf_reasons example_inputs"
  by (simp add: wf_reasons_def example_inputs_def new_input_def input_reasons_def emergency_reason_defs)

theorem Emergency_OnLoop_reasons_witness:
  "bit (reasons (fst (snd (Emergency_OnLoop True example_inputs 2000000 emergency_init)))) 6
   \<and> \<not> bit (reasons (fst (snd (Emergency_OnLoop True example_inputs 2000000 emergency_init)))) 1"
proof -
  show ?thesis
    using Emergency_OnLoop_reasons[OF wf_reasons_example, of 6 True 2000000 emergency_init]
      Emergency_OnLoop_reasons[OF wf_reasons_example, of 1 True 2000000 emergency_init]
    by (simp add: high_level_lost_def emergency_init_def)
qed


subsection \<open>Runs of the service\<close>

text \<open>
  Everything that changes the mask, one rule per entry point; the label says whether the
  step is a high-level message and which bits that message clears.
\<close>

inductive emergency_step :: "u16 option \<Rightarrow> emergency_service \<Rightarrow> emergency_service \<Rightarrow> bool" where
  loop: "emergency_step None s (fst (snd (Emergency_OnLoop first inputs now s)))"
| inputs_event: "emergency_step None s (fst (snd (CheckInputs inputs now s)))"
| stop: "emergency_step None s (fst (Emergency_OnStop s))"
| high_level: "OnHighLevelEmergencyChanged now [add, clear] s = Some (s', es) \<Longrightarrow>
    emergency_step (Some clear) s s'"

inductive_simps emergency_step_internal: "emergency_step None s s'"
inductive_cases emergency_step_high_level: "emergency_step (Some c) s s'"

inductive emergency_run :: "u16 option list \<Rightarrow> emergency_service \<Rightarrow> emergency_service \<Rightarrow> bool" where
  run_nil: "emergency_run [] s s"
| run_cons: "emergency_step l s s' \<Longrightarrow> emergency_run ls s' s'' \<Longrightarrow> emergency_run (l # ls) s s''"

lemma bit_CheckInputs:
  "k < 16 \<Longrightarrow> \<not> bit input_reasons k \<Longrightarrow> bit (reasons s) k \<Longrightarrow>
   bit (reasons (fst (snd (CheckInputs inputs now s)))) k"
  by (simp add: bit_reasons_UpdateEmergency)

lemma bit_CheckTimeouts:
  "k < 16 \<Longrightarrow> \<not> bit timeout_reasons k \<Longrightarrow> bit (reasons s) k \<Longrightarrow>
   bit (reasons (fst (snd (CheckTimeouts now s)))) k"
  by (simp add: bit_reasons_UpdateEmergency)

lemma emergency_step_keeps:
  assumes "emergency_step l s s'" and "k = 0 \<or> k = 7"
    and "bit (reasons s) k" and "\<And>c. l = Some c \<Longrightarrow> \<not> bit c k"
  shows "bit (reasons s') k"
proof -
  have nb: "\<not> bit input_reasons k" "\<not> bit timeout_reasons k" "k < 16"
    using assms(2) by (auto simp: bit_input_reasons bit_timeout_reasons)
  show ?thesis
    using assms(1)
  proof cases
    case (loop first inputs now)
    then show ?thesis
      using bit_CheckInputs[OF nb(3,1)] bit_CheckTimeouts[OF nb(3,2)] assms(3)
      by (simp only: Emergency_OnLoop_state split: if_split) blast
  next
    case (inputs_event inputs now)
    then show ?thesis using bit_CheckInputs[OF nb(3,1) assms(3)] by simp
  next
    case stop
    then show ?thesis
      using nb(3) assms(3) by (simp add: Emergency_OnStop_def bit_reasons_UpdateEmergency)
  next
    case (high_level now add clear es)
    then have "s' = fst (UpdateEmergency add clear (s\<lparr>last_high_level_emergency_message := now\<rparr>))"
      by (simp add: OnHighLevelEmergencyChanged_def aget_def)
    then show ?thesis
      using nb(3) assms(3,4) high_level by (simp add: bit_reasons_UpdateEmergency)
  qed
qed

text \<open>
  C4: A latched emergency stays: in any run of the service, whatever the inputs, clocks and
  messages, the LATCH bit and the HIGH_LEVEL bit survive unless a high-level message
  explicitly clears that bit. In particular a sensor going inactive again, a timeout ending
  or the service stopping never releases a latched emergency.
\<close>

theorem latch_until_cleared:
  assumes "emergency_run ls s s'" and "bit (reasons s) k" and "k = 0 \<or> k = 7"
    and "\<forall>c. Some c \<in> set ls \<longrightarrow> \<not> bit c k"
  shows "bit (reasons s') k \<and> GetEmergency s'"
proof -
  have "bit (reasons s') k"
    using assms
  proof (induction rule: emergency_run.induct)
    case (run_cons l s s' ls s'')
    then have "bit (reasons s') k" using emergency_step_keeps by auto
    with run_cons show ?case by simp
  qed simp
  then show ?thesis by (auto simp: GetEmergency_def)
qed

theorem latch_until_cleared_witness:
  "GetEmergency (fst (Emergency_OnStop \<lparr>reasons = LATCH, last_high_level_emergency_message = 0\<rparr>))"
proof -
  let ?s = "\<lparr>reasons = LATCH, last_high_level_emergency_message = 0\<rparr>"
  have "emergency_run [None] ?s (fst (Emergency_OnStop ?s))"
    by (intro run_cons[OF stop] run_nil)
  moreover have "bit (reasons ?s) 0" by (simp add: bit_LATCH)
  ultimately show ?thesis using latch_until_cleared[of "[None]" ?s _ 0] by simp
qed






text \<open>
  C13: The age of the last high-level message is computed on a 32-bit microsecond counter.
  With the true times \<open>t\<close> and \<open>t0\<close>, TIMEOUT_HIGH_LEVEL is set after CheckTimeouts exactly
  when the age is at least a second modulo \<open>2 ^ 32\<close> microseconds: a silence of \<open>2 ^ 32\<close>
  microseconds (about 71 minutes) looks like a fresh message and clears the timeout.
\<close>

theorem high_level_timeout_wraps:
  assumes "t0 \<le> t"
  shows "bit (reasons (fst (snd (CheckTimeouts (of_nat t)
             (s\<lparr>last_high_level_emergency_message := of_nat t0\<rparr>))))) 6 \<longleftrightarrow>
         1000000 \<le> (t - t0) mod 2 ^ 32"
proof -
  have "(of_nat t :: u32) - of_nat t0 = of_nat (t - t0)"
    using assms by (simp add: of_nat_diff)
  then have "high_level_lost (of_nat t) (s\<lparr>last_high_level_emergency_message := of_nat t0\<rparr>) \<longleftrightarrow>
      1000000 \<le> (t - t0) mod 2 ^ 32"
    by (simp add: high_level_lost_def word_le_nat_alt unat_of_nat)
  then show ?thesis
    by (simp add: bit_reasons_UpdateEmergency bit_timeout_reasons bit_reason_consts)
qed

theorem high_level_timeout_wraps_witness:
  "\<not> bit (reasons (fst (snd (CheckTimeouts (of_nat (2 ^ 32 + 5))
      (emergency_init\<lparr>last_high_level_emergency_message := of_nat 0\<rparr>))))) 6"
  using high_level_timeout_wraps[of 0 "2 ^ 32 + 5" emergency_init] by simp

end
