(* ===== verification/Ieee_Float.thy ===== *)
theory Ieee_Float
  imports Prelude "HOL-Library.Log_Nat"
begin

text \<open>
  The IEEE 754 arithmetic of the C++ types \<open>float\<close> and \<open>double\<close>, as far as the firmware
  uses it: values with their sign, magnitude and the special values, rounding to nearest with
  ties to even, the four operations, comparisons and conversions. The magnitude of a finite
  value is an exact rational, so that every operation computes. Every operation rounds on its
  own: contraction into fused operations is not considered.
\<close>

datatype flt = NaN | Inf bool | Fin bool rat

record ffmt =
  ff_prec :: nat
  ff_qmin :: int
  ff_emax :: int

definition binary32 :: ffmt where
  "binary32 = \<lparr>ff_prec = 24, ff_qmin = -149, ff_emax = 128\<rparr>"

definition binary64 :: ffmt where
  "binary64 = \<lparr>ff_prec = 53, ff_qmin = -1074, ff_emax = 1024\<rparr>"

subsection \<open>Rounding\<close>

definition ilog2 :: "rat \<Rightarrow> int" where
  "ilog2 m =
     (let (a, b) = quotient_of m; e = bitlen a - bitlen b
      in if 2 powi e \<le> m then e else e - 1)"

definition quantum :: "ffmt \<Rightarrow> rat \<Rightarrow> int" where
  "quantum f m = max (ilog2 m - int (ff_prec f - 1)) (ff_qmin f)"

definition round_half_even :: "rat \<Rightarrow> int" where
  "round_half_even x =
     (let n = \<lfloor>x\<rfloor>; r = x - of_int n
      in if r < 1 / 2 \<or> r = 1 / 2 \<and> even n then n else n + 1)"

definition fround :: "ffmt \<Rightarrow> bool \<Rightarrow> rat \<Rightarrow> flt" where
  "fround f s m =
     (if m = 0 then Fin s 0
      else let q = quantum f m; v = of_int (round_half_even (m / 2 powi q)) * 2 powi q
           in if 2 powi ff_emax f \<le> v then Inf s else Fin s v)"

subsection \<open>Operations\<close>

fun fval :: "flt \<Rightarrow> rat" where
  "fval (Fin s m) = (if s then - m else m)"
| "fval _ = 0"

fun fneg :: "flt \<Rightarrow> flt" where
  "fneg NaN = NaN"
| "fneg (Inf s) = Inf (\<not> s)"
| "fneg (Fin s m) = Fin (\<not> s) m"

definition of_rat_flt :: "ffmt \<Rightarrow> bool \<Rightarrow> rat \<Rightarrow> flt" where
  "of_rat_flt f zero_sign x = (if x = 0 then Fin zero_sign 0 else fround f (x < 0) \<bar>x\<bar>)"

fun fadd :: "ffmt \<Rightarrow> flt \<Rightarrow> flt \<Rightarrow> flt" where
  "fadd f (Fin s a) (Fin t b) = of_rat_flt f (s \<and> t) (fval (Fin s a) + fval (Fin t b))"
| "fadd f (Inf s) (Inf t) = (if s = t then Inf s else NaN)"
| "fadd f (Inf s) (Fin _ _) = Inf s"
| "fadd f (Fin _ _) (Inf t) = Inf t"
| "fadd f _ _ = NaN"

definition fsub :: "ffmt \<Rightarrow> flt \<Rightarrow> flt \<Rightarrow> flt" where
  "fsub f a b = fadd f a (fneg b)"

fun fmul :: "ffmt \<Rightarrow> flt \<Rightarrow> flt \<Rightarrow> flt" where
  "fmul f (Fin s a) (Fin t b) = fround f (s \<noteq> t) (a * b)"
| "fmul f (Inf s) (Inf t) = Inf (s \<noteq> t)"
| "fmul f (Inf s) (Fin t b) = (if b = 0 then NaN else Inf (s \<noteq> t))"
| "fmul f (Fin s a) (Inf t) = (if a = 0 then NaN else Inf (s \<noteq> t))"
| "fmul f _ _ = NaN"

fun fdiv :: "ffmt \<Rightarrow> flt \<Rightarrow> flt \<Rightarrow> flt" where
  "fdiv f (Fin s a) (Fin t b) =
     (if b = 0 then (if a = 0 then NaN else Inf (s \<noteq> t)) else fround f (s \<noteq> t) (a / b))"
| "fdiv f (Inf s) (Fin t b) = Inf (s \<noteq> t)"
| "fdiv f (Fin s a) (Inf t) = Fin (s \<noteq> t) 0"
| "fdiv f _ _ = NaN"

fun fcvt :: "ffmt \<Rightarrow> flt \<Rightarrow> flt" where
  "fcvt f (Fin s m) = fround f s m"
| "fcvt f x = x"

definition flt_of_int :: "ffmt \<Rightarrow> int \<Rightarrow> flt" where
  "flt_of_int f n = of_rat_flt f False (of_int n)"

text \<open>A literal of the source: the decimal value rounded to the format.\<close>

definition flt_lit :: "ffmt \<Rightarrow> rat \<Rightarrow> flt" where
  "flt_lit f x = of_rat_flt f False x"

fun flt_less :: "flt \<Rightarrow> flt \<Rightarrow> bool" where
  "flt_less (Fin s a) (Fin t b) \<longleftrightarrow> fval (Fin s a) < fval (Fin t b)"
| "flt_less (Inf s) (Inf t) \<longleftrightarrow> s \<and> \<not> t"
| "flt_less (Inf s) (Fin _ _) \<longleftrightarrow> s"
| "flt_less (Fin _ _) (Inf t) \<longleftrightarrow> \<not> t"
| "flt_less _ _ \<longleftrightarrow> False"

fun flt_le :: "flt \<Rightarrow> flt \<Rightarrow> bool" where
  "flt_le (Fin s a) (Fin t b) \<longleftrightarrow> fval (Fin s a) \<le> fval (Fin t b)"
| "flt_le (Inf s) (Inf t) \<longleftrightarrow> s \<or> \<not> t"
| "flt_le (Inf s) (Fin _ _) \<longleftrightarrow> s"
| "flt_le (Fin _ _) (Inf t) \<longleftrightarrow> \<not> t"
| "flt_le _ _ \<longleftrightarrow> False"

text \<open>
  Conversion to an unsigned integer truncates; a value that does not fit, an infinity and a
  NaN have no defined result.
\<close>

fun flt_to_u32 :: "flt \<Rightarrow> u32 option" where
  "flt_to_u32 (Fin s m) =
     (if \<lfloor>m\<rfloor> = 0 then Some 0
      else if s \<or> 2 ^ 32 \<le> \<lfloor>m\<rfloor> then None else Some (of_int \<lfloor>m\<rfloor>))"
| "flt_to_u32 _ = None"

text \<open>The same for the narrower unsigned types.\<close>

fun flt_to_word :: "flt \<Rightarrow> 'a::len word option" where
  "flt_to_word (Fin s m) =
     (if \<lfloor>m\<rfloor> = 0 then Some 0
      else if s \<or> 2 ^ LENGTH('a) \<le> \<lfloor>m\<rfloor> then None else Some (of_int \<lfloor>m\<rfloor>))"
| "flt_to_word _ = None"

subsection \<open>Facts about rounding\<close>

lemma ilog2_bounds:
  assumes "0 < m"
  shows "2 powi ilog2 m \<le> m" "m < 2 powi (ilog2 m + 1)"
proof -
  obtain a b where ab: "quotient_of m = (a, b)" by fastforce
  then have m: "m = of_int a / of_int b" and b: "0 < b"
    by (simp_all add: quotient_of_div quotient_of_denom_pos)
  then have a: "0 < a" using assms by (simp add: zero_less_divide_iff)
  define ka kb where "ka = floorlog 2 (nat a)" and "kb = floorlog 2 (nat b)"
  have bnd: "2 ^ (floorlog 2 n - 1) \<le> n \<and> n < 2 ^ floorlog 2 n \<and> 0 < floorlog 2 n" if "0 < n" for n
    using floorlog_bounds [of n 2] that by (simp add: floorlog_def)
  have ka: "2 ^ (ka - 1) \<le> nat a" "nat a < 2 ^ ka" "0 < ka"
    and kb: "2 ^ (kb - 1) \<le> nat b" "nat b < 2 ^ kb" "0 < kb"
    using bnd [of "nat a"] bnd [of "nat b"] a b by (simp_all add: ka_def kb_def)
  have ra: "2 powi (int ka - 1) \<le> (of_int a :: rat)" "(of_int a :: rat) < 2 powi int ka"
  proof -
    have "(2 :: rat) ^ (ka - 1) \<le> of_nat (nat a)" using ka(1) by (metis of_nat_le_iff of_nat_numeral of_nat_power)
    then show "2 powi (int ka - 1) \<le> (of_int a :: rat)"
      using a ka(3) by (simp add: power_int_def nat_diff_distrib)
    have "of_nat (nat a) < (2 :: rat) ^ ka" using ka(2) by (metis of_nat_less_iff of_nat_numeral of_nat_power)
    then show "(of_int a :: rat) < 2 powi int ka" using a by (simp add: power_int_def)
  qed
  have rb: "2 powi (int kb - 1) \<le> (of_int b :: rat)" "(of_int b :: rat) < 2 powi int kb"
  proof -
    have "(2 :: rat) ^ (kb - 1) \<le> of_nat (nat b)" using kb(1) by (metis of_nat_le_iff of_nat_numeral of_nat_power)
    then show "2 powi (int kb - 1) \<le> (of_int b :: rat)"
      using b kb(3) by (simp add: power_int_def nat_diff_distrib)
    have "of_nat (nat b) < (2 :: rat) ^ kb" using kb(2) by (metis of_nat_less_iff of_nat_numeral of_nat_power)
    then show "(of_int b :: rat) < 2 powi int kb" using b by (simp add: power_int_def)
  qed
  have pos: "(0 :: rat) < of_int a" "(0 :: rat) < of_int b" using a b by simp_all
  have hi: "m < 2 powi (int ka - int kb + 1)"
  proof -
    have "m < 2 powi int ka / of_int b" unfolding m using ra(2) pos by (simp add: divide_strict_right_mono)
    also have "\<dots> \<le> 2 powi int ka / 2 powi (int kb - 1)" using rb(1) by (simp add: frac_le)
    also have "\<dots> = 2 powi (int ka - int kb + 1)" by (simp add: power_int_diff power_int_add)
    finally show ?thesis .
  qed
  have lo: "2 powi (int ka - int kb - 1) \<le> m"
  proof -
    have "2 powi (int ka - int kb - 1) = (2 powi (int ka - 1) / 2 powi int kb :: rat)"
      by (simp add: power_int_diff)
    also have "\<dots> \<le> of_int a / of_int b" using ra(1) rb(2) pos by (intro frac_le) simp_all
    finally show ?thesis using m by simp
  qed
  have e: "ilog2 m = (if 2 powi (int ka - int kb) \<le> m then int ka - int kb else int ka - int kb - 1)"
    by (simp add: ilog2_def ab ka_def kb_def bitlen_def)
  show "2 powi ilog2 m \<le> m" using lo by (simp add: e)
  show "m < 2 powi (ilog2 m + 1)" using hi by (simp add: e)
qed


lemma ilog2_mono:
  assumes "0 < m" "m \<le> v"
  shows "ilog2 m \<le> ilog2 v"
proof (rule ccontr)
  assume "\<not> ilog2 m \<le> ilog2 v"
  then have "2 powi (ilog2 v + 1) \<le> (2 powi ilog2 m :: rat)" by (intro power_int_increasing) simp_all
  then show False using ilog2_bounds [of m] ilog2_bounds [of v] assms by linarith
qed

lemma quantum_mono: "0 < m \<Longrightarrow> m \<le> v \<Longrightarrow> quantum f m \<le> quantum f v"
  using ilog2_mono [of m v] by (simp add: quantum_def max_def)

lemma round_half_even_le: "x \<le> of_int n \<Longrightarrow> round_half_even x \<le> n"
proof -
  assume x: "x \<le> of_int n"
  then have "\<lfloor>x\<rfloor> \<le> n" using floor_mono [OF x] by simp
  moreover have "x = of_int n" if "\<lfloor>x\<rfloor> = n" using x of_int_floor_le [of x] that by simp
  ultimately show ?thesis by (cases "\<lfloor>x\<rfloor> = n") (auto simp: round_half_even_def Let_def)
qed

lemma round_half_even_ge: "of_int n \<le> x \<Longrightarrow> n \<le> round_half_even x"
proof -
  assume "of_int n \<le> x"
  then have "n \<le> \<lfloor>x\<rfloor>" by (simp add: le_floor_iff)
  then show ?thesis by (simp add: round_half_even_def Let_def)
qed

lemma round_half_even_int [simp]: "round_half_even (of_int n) = n"
  by (simp add: round_half_even_def)

text \<open>Values of a format.\<close>

definition representable :: "ffmt \<Rightarrow> rat \<Rightarrow> bool" where
  "representable f v \<longleftrightarrow>
     0 \<le> v \<and> v < 2 powi ff_emax f \<and>
     (v = 0 \<or> v / 2 powi quantum f v = of_int \<lfloor>v / 2 powi quantum f v\<rfloor>)"

text \<open>A value of the format is a multiple of the quantum of every smaller number.\<close>

lemma representable_multiple:
  assumes "representable f v" "0 < m" "m \<le> v"
  shows "\<exists>k. v = of_int k * 2 powi quantum f m"
proof -
  have v: "0 < v" using assms by simp
  let ?qm = "quantum f m" and ?qv = "quantum f v"
  define k where "k = \<lfloor>v / 2 powi ?qv\<rfloor>"
  have "v = of_int k * 2 powi ?qv"
    using assms(1) v by (simp add: representable_def k_def field_simps)
  moreover have "(2 :: rat) powi ?qv = of_int (2 ^ nat (?qv - ?qm)) * 2 powi ?qm"
  proof -
    have "(2 :: rat) powi ?qv = 2 powi (?qv - ?qm) * 2 powi ?qm"
      by (simp flip: power_int_add)
    then show ?thesis using quantum_mono [OF assms(2,3), of f] by (simp add: power_int_def)
  qed
  ultimately have "v = of_int (k * 2 ^ nat (?qv - ?qm)) * 2 powi ?qm"
    by (simp only: of_int_mult mult.assoc)
  then show ?thesis by blast
qed

lemma fround_le:
  assumes "representable f v" "0 \<le> m" "m \<le> v"
  shows "\<exists>m'. fround f s m = Fin s m' \<and> 0 \<le> m' \<and> m' \<le> v"
proof (cases "m = 0")
  case True
  then show ?thesis using assms by (simp add: fround_def)
next
  case False
  let ?q = "2 powi quantum f m :: rat"
  obtain k where k: "v = of_int k * ?q" using representable_multiple [of f v m] assms False by auto
  have q: "0 < ?q" by simp
  let ?r = "round_half_even (m / ?q)"
  have "m / ?q \<le> of_int k" using assms(3) k q by (simp add: divide_le_eq)
  then have "?r \<le> k" by (rule round_half_even_le)
  then have le: "of_int ?r * ?q \<le> v" unfolding k using q by (intro mult_right_mono) simp_all
  have "0 \<le> ?r" using assms(2) q by (intro round_half_even_ge) simp
  then have "0 \<le> of_int ?r * ?q" using q by simp
  then show ?thesis
    using le assms(1) False by (simp add: fround_def Let_def representable_def)
qed

lemma fround_representable: "representable f v \<Longrightarrow> fround f s v = Fin s v"
proof -
  assume r: "representable f v"
  let ?q = "2 powi quantum f v :: rat"
  show ?thesis
  proof (cases "v = 0")
    case False
    then have k: "v / ?q = of_int \<lfloor>v / ?q\<rfloor>" using r by (simp add: representable_def)
    then have "round_half_even (v / ?q) = \<lfloor>v / ?q\<rfloor>" by (metis round_half_even_int)
    then have "of_int (round_half_even (v / ?q)) * ?q = v" using k by simp
    then show ?thesis using r False by (simp add: fround_def Let_def representable_def)
  qed (simp add: fround_def)
qed

lemma representable_0 [simp]: "representable f 0"
  by (simp add: representable_def)

lemma representable_1: "representable binary32 1" and representable_half: "representable binary32 (1 / 2)"
  by code_simp+

text \<open>
  Values that are proper: the magnitude of a finite value is not negative. Every operation
  gives such a value.
\<close>

fun proper :: "flt \<Rightarrow> bool" where
  "proper (Fin s m) \<longleftrightarrow> 0 \<le> m"
| "proper _ \<longleftrightarrow> True"

lemma proper_fround: "0 \<le> m \<Longrightarrow> proper (fround f s m)"
proof -
  assume "0 \<le> m"
  then have "0 \<le> round_half_even (m / 2 powi quantum f m)" by (intro round_half_even_ge) simp
  then show ?thesis by (simp add: fround_def Let_def)
qed

lemma proper_ops:
  "proper a \<Longrightarrow> proper (fneg a)"
  "proper a \<Longrightarrow> proper b \<Longrightarrow> proper (fadd f a b)"
  "proper a \<Longrightarrow> proper b \<Longrightarrow> proper (fmul f a b)"
  "proper a \<Longrightarrow> proper b \<Longrightarrow> proper (fdiv f a b)"
  "proper a \<Longrightarrow> proper (fcvt f a)"
  by (cases a; cases b; simp add: proper_fround of_rat_flt_def)+


text \<open>Integers of at most the precision's digits are values of the format.\<close>

lemma representable_int:
  assumes "0 \<le> n" "n < 2 ^ ff_prec f" "ff_qmin f \<le> 0" "int (ff_prec f) \<le> ff_emax f"
  shows "representable f (of_int n)"
proof (cases "n = 0")
  case False
  then have pos: "0 < rat_of_int n" using assms(1) by simp
  have lt: "rat_of_int n < 2 powi int (ff_prec f)"
    using assms(2) by (metis of_int_less_iff of_int_numeral of_int_power power_int_of_nat)
  have "2 powi ilog2 (of_int n) < (2 powi int (ff_prec f) :: rat)"
    using ilog2_bounds(1) [OF pos] lt by linarith
  then have "ilog2 (of_int n) < int (ff_prec f)"
    using power_int_increasing [of "int (ff_prec f)" "ilog2 (of_int n)" "2 :: rat"] by (cases "ilog2 (of_int n) < int (ff_prec f)") simp_all
  then have q: "quantum f (of_int n) \<le> 0" using assms(3) by (auto simp: quantum_def)
  have "rat_of_int n / 2 powi quantum f (of_int n) = of_int (n * 2 ^ nat (- quantum f (of_int n)))"
    using q by (simp add: power_int_def field_simps)
  moreover have "rat_of_int n < 2 powi ff_emax f"
    using lt assms(4) power_int_increasing [of "int (ff_prec f)" "ff_emax f" "2 :: rat"] by linarith
  ultimately show ?thesis using pos by (simp add: representable_def)
qed simp

lemma representable_small:
  "0 \<le> n \<Longrightarrow> n < 2 ^ 24 \<Longrightarrow> representable binary32 (of_int n)"
  "0 \<le> n \<Longrightarrow> n < 2 ^ 53 \<Longrightarrow> representable binary64 (of_int n)"
  by (rule representable_int; simp add: binary32_def binary64_def)+

lemma flt_lit_int: "0 \<le> n \<Longrightarrow> representable f (of_int n) \<Longrightarrow> flt_lit f (of_int n) = Fin False (of_int n)"
  by (simp add: flt_lit_def of_rat_flt_def fround_representable)

text \<open>Rounding does not go below a value of the format.\<close>

lemma fround_ge:
  assumes "representable f w" "0 < w" "w \<le> m"
  shows "fround f s m = Inf s \<or> (\<exists>m'. fround f s m = Fin s m' \<and> w \<le> m')"
proof -
  let ?q = "2 powi quantum f m :: rat" and ?r = "round_half_even (m / 2 powi quantum f m)"
  have m: "0 < m" and q: "0 < ?q" using assms by simp_all
  have "w \<le> of_int ?r * ?q"
  proof (cases "quantum f w = quantum f m")
    case True
    obtain k where k: "w = of_int k * ?q" using representable_multiple [OF assms(1,2)] True by auto
    then have "of_int k \<le> m / ?q" using assms(3) q by (simp add: le_divide_eq)
    then have "k \<le> ?r" by (rule round_half_even_ge)
    then have "of_int k * ?q \<le> of_int ?r * ?q" using q by (intro mult_right_mono) simp_all
    then show ?thesis using k by simp
  next
    case False
    then have lt: "quantum f w < quantum f m" using quantum_mono [OF assms(2,3), of f] by simp
    then have e: "quantum f m = ilog2 m - int (ff_prec f - 1)" by (auto simp: quantum_def max_def split: if_splits)
    then have "ilog2 w + 1 \<le> ilog2 m" using lt by (auto simp: quantum_def)
    then have "w \<le> 2 powi ilog2 m"
      using ilog2_bounds(2) [OF assms(2)] power_int_increasing [of "ilog2 w + 1" "ilog2 m" "2 :: rat"] by simp
    also have p: "2 powi ilog2 m = rat_of_int (2 ^ (ff_prec f - 1)) * ?q"
      by (simp add: e power_int_diff)
    also have "\<dots> \<le> of_int ?r * ?q"
    proof -
      have "rat_of_int (2 ^ (ff_prec f - 1)) \<le> m / ?q"
        using ilog2_bounds(1) [OF m] q p by (simp add: le_divide_eq)
      then have "2 ^ (ff_prec f - 1) \<le> ?r" by (rule round_half_even_ge)
      then show ?thesis using q by (intro mult_right_mono) (simp_all only: of_int_le_iff order.strict_implies_order)
    qed
    finally show ?thesis .
  qed
  then show ?thesis using m by (simp add: fround_def Let_def)
qed

text \<open>Finite values of bounded magnitude.\<close>

fun mag_le :: "rat \<Rightarrow> flt \<Rightarrow> bool" where
  "mag_le b (Fin s m) \<longleftrightarrow> 0 \<le> m \<and> m \<le> b"
| "mag_le b _ \<longleftrightarrow> False"

lemma mag_le_fcvt: "representable f b \<Longrightarrow> mag_le b x \<Longrightarrow> mag_le b (fcvt f x)"
proof (cases x)
  fix s m assume h: "representable f b" "mag_le b x" "x = Fin s m"
  then show ?thesis using fround_le [OF h(1), of m s] by auto
qed auto

lemma mag_le_fmul: "representable f (a * b) \<Longrightarrow> mag_le a x \<Longrightarrow> mag_le b y \<Longrightarrow> mag_le (a * b) (fmul f x y)"
proof (cases x; cases y)
  fix s m t n assume h: "representable f (a * b)" "mag_le a x" "mag_le b y" "x = Fin s m" "y = Fin t n"
  have "m * n \<le> a * b" "0 \<le> m * n" using h by (auto intro: mult_mono)
  then show ?thesis using fround_le [OF h(1), of "m * n" "s \<noteq> t"] h(4,5) by auto
qed auto

lemma mag_le_of_rat: "representable f b \<Longrightarrow> \<bar>v\<bar> \<le> b \<Longrightarrow> mag_le b (of_rat_flt f z v)"
  using fround_le [of f b "\<bar>v\<bar>" "v < 0"] by (auto simp: of_rat_flt_def representable_def)

lemma mag_le_fadd: "representable f (a + b) \<Longrightarrow> mag_le a x \<Longrightarrow> mag_le b y \<Longrightarrow> mag_le (a + b) (fadd f x y)"
proof (cases x; cases y)
  fix s m t n assume h: "representable f (a + b)" "mag_le a x" "mag_le b y" "x = Fin s m" "y = Fin t n"
  have "\<bar>fval (Fin s m) + fval (Fin t n)\<bar> \<le> a + b" using h by auto
  then show ?thesis using mag_le_of_rat [OF h(1)] h(4,5) by auto
qed auto

lemma mag_le_fneg [simp]: "mag_le b (fneg x) = mag_le b x"
  by (cases x) auto

lemma mag_le_proper: "mag_le b x \<Longrightarrow> proper x \<and> x \<noteq> NaN"
  by (cases x) auto

lemma mag_le_mono: "mag_le a x \<Longrightarrow> a \<le> b \<Longrightarrow> mag_le b x"
  by (cases x) auto

lemma mag_le_fdiv:
  assumes "representable f c" "a / n \<le> c" "0 < n" "mag_le a x" 
  shows "mag_le c (fdiv f x (Fin False n))"
proof (cases x)
  case (Fin s m)
  have "m / n \<le> c" "0 \<le> m / n" using assms Fin by (auto intro: order_trans [OF divide_right_mono])
  then show ?thesis using fround_le [OF assms(1), of "m / n" s] assms(3) Fin by auto
qed (use assms in auto)

end
