(* ===== verification/Motor.thy ===== *)
theory Motor
  imports Globals Ieee_Float
begin

text \<open>
  Motor drivers: the interface \<open>MotorDriver\<close> (\<open>src/drivers/motor/motor_driver.hpp\<close>) and
  its implementation for a PWM half-bridge pair with a quadrature encoder
  (\<open>src/drivers/motor/pwm\<close>). The virtual methods the drive service calls are a table of
  functions on the driver's state; the contract the service relies on is the locale
  \<open>motor_driver\<close>, which the PWM driver interprets. What a driver does to the timer hardware
  is a list of commands; a null pointer and a failed assertion are \<^term>\<open>None\<close>.
\<close>

subsection \<open>ESC state\<close>

definition ESC_STATUS_DISCONNECTED :: u8 where "ESC_STATUS_DISCONNECTED = 99"
definition ESC_STATUS_ERROR :: u8 where "ESC_STATUS_ERROR = 100"
definition ESC_STATUS_STALLED :: u8 where "ESC_STATUS_STALLED = 150"
definition ESC_STATUS_OK :: u8 where "ESC_STATUS_OK = 200"
definition ESC_STATUS_RUNNING :: u8 where "ESC_STATUS_RUNNING = 201"

record ESCState =
  fw_major :: u8
  fw_minor :: u8
  voltage_input :: flt
  temperature_pcb :: flt
  temperature_motor :: flt
  current_input :: flt
  duty_cycle :: flt
  esc_tacho :: u32
  esc_tacho_absolute :: u32
  direction :: flt
  rpm :: flt
  esc_status :: u8

abbreviation fzero :: flt where "fzero \<equiv> Fin False 0"

text \<open>Value initialisation: all fields zero, the status too (which is none of its named values).\<close>

definition ESCState_init :: ESCState where
  "ESCState_init = \<lparr>fw_major = 0, fw_minor = 0, voltage_input = fzero, temperature_pcb = fzero,
     temperature_motor = fzero, current_input = fzero, duty_cycle = fzero, esc_tacho = 0,
     esc_tacho_absolute = 0, direction = fzero, rpm = fzero, esc_status = 0\<rparr>"

subsection \<open>The base class\<close>

datatype StateCallback = LeftESC | RightESC

record motor_driver =
  latest_state :: ESCState
  started :: bool
  state_callback :: "StateCallback option"

definition MotorDriver_Start :: "bool \<Rightarrow> 'a motor_driver_scheme \<Rightarrow> ('a motor_driver_scheme \<times> bool) option" where
  "MotorDriver_Start dbg m = do {
     chDbgAssert dbg (\<not> started m);
     Some (m\<lparr>started := True\<rparr>, True) }"

definition SetStateCallback :: "bool \<Rightarrow> StateCallback \<Rightarrow> 'a motor_driver_scheme \<Rightarrow> 'a motor_driver_scheme option" where
  "SetStateCallback dbg f m = do {
     chDbgAssert dbg (\<not> started m);
     Some (m\<lparr>state_callback := Some f\<rparr>) }"

text \<open>The call of the delegate: which callback is invoked, and with which state.\<close>

definition NotifyCallback :: "bool \<Rightarrow> 'a motor_driver_scheme \<Rightarrow> (StateCallback \<times> ESCState) option option" where
  "NotifyCallback dbg m = do {
     chDbgAssert dbg (started m);
     Some (map_option (\<lambda>f. (f, latest_state m)) (state_callback m)) }"

subsection \<open>The PWM driver\<close>

record pwm_motor_driver = motor_driver +
  pwm :: "nat option"
  channel_1 :: nat
  channel_2 :: nat
  line_encoder_a :: u32
  line_encoder_b :: u32
  tacho :: u32
  tacho_abs :: u32

definition pwm_motor_init :: pwm_motor_driver where
  "pwm_motor_init = \<lparr>latest_state = ESCState_init, started = False, state_callback = None,
     pwm = None, channel_1 = 0, channel_2 = 0, line_encoder_a = 0, line_encoder_b = 0,
     tacho = 0, tacho_abs = 0\<rparr>"

text \<open>\<open>pwmEnableChannel (timer, channel, width)\<close> and the widths of the channels it sets.\<close>

datatype pwm_cmd = EnableChannel nat nat u32

type_synonym pwm_hw = "nat \<times> nat \<Rightarrow> u32"

fun run_cmd :: "pwm_cmd \<Rightarrow> pwm_hw \<Rightarrow> pwm_hw" where
  "run_cmd (EnableChannel p c w) hw = hw((p, c) := w)"

definition run_cmds :: "pwm_cmd list \<Rightarrow> pwm_hw \<Rightarrow> pwm_hw" where
  "run_cmds = fold run_cmd"

definition SetPWM :: "nat option \<Rightarrow> nat \<Rightarrow> nat \<Rightarrow> pwm_motor_driver \<Rightarrow> pwm_motor_driver" where
  "SetPWM p channel1 channel2 m = m\<lparr>pwm := p, channel_1 := channel1, channel_2 := channel2\<rparr>"

definition SetEncoder :: "u32 \<Rightarrow> u32 \<Rightarrow> pwm_motor_driver \<Rightarrow> pwm_motor_driver" where
  "SetEncoder a b m = m\<lparr>line_encoder_a := a, line_encoder_b := b\<rparr>"

definition Pwm_RequestStatus ::
  "bool \<Rightarrow> pwm_motor_driver \<Rightarrow> (pwm_motor_driver \<times> (StateCallback \<times> ESCState) option) option" where
  "Pwm_RequestStatus dbg m = do {
     let m' = m\<lparr>latest_state := (latest_state m)\<lparr>esc_tacho := tacho m, esc_tacho_absolute := tacho_abs m\<rparr>\<rparr>;
     cb \<leftarrow> NotifyCallback dbg m';
     Some (m', cb) }"

definition FULL_WIDTH :: int where "FULL_WIDTH = 0xFFF * 4"

definition pwm_width :: "flt \<Rightarrow> u32 option" where
  "pwm_width d = flt_to_u32 (fmul binary32 (flt_of_int binary32 FULL_WIDTH) d)"

definition Pwm_SetDuty :: "flt \<Rightarrow> pwm_motor_driver \<Rightarrow> (pwm_motor_driver \<times> pwm_cmd list) option" where
  "Pwm_SetDuty duty m = do {
     p \<leftarrow> pwm m;
     (if flt_less fzero duty then do {
        w \<leftarrow> pwm_width duty;
        Some (m, [EnableChannel p (channel_1 m) w, EnableChannel p (channel_2 m) 0]) }
      else do {
        w \<leftarrow> pwm_width (fneg duty);
        Some (m, [EnableChannel p (channel_2 m) w, EnableChannel p (channel_1 m) 0]) }) }"

text \<open>\<open>Start\<close> also hands the encoder line to the interrupt handler (the second component).\<close>

definition Pwm_Start :: "bool \<Rightarrow> pwm_motor_driver \<Rightarrow> (pwm_motor_driver \<times> u32 option \<times> bool) option" where
  "Pwm_Start dbg m = do {
     chDbgAssert dbg (pwm m \<noteq> None);
     chDbgAssert dbg (line_encoder_a m \<noteq> 0 \<and> line_encoder_b m \<noteq> 0);
     chDbgAssert dbg (\<not> started m);
     (if started m then Some (m, None, False)
      else do {
        (m', r) \<leftarrow> MotorDriver_Start dbg m;
        Some (m', Some (line_encoder_a m), r) }) }"

text \<open>The interrupt of the encoder; \<open>b_high\<close> is the level of the second line.\<close>

definition HandleEncoderTick :: "bool \<Rightarrow> pwm_motor_driver \<Rightarrow> pwm_motor_driver" where
  "HandleEncoderTick b_high m =
     (let m1 = m\<lparr>tacho_abs := tacho_abs m + 1\<rparr>
      in if b_high then m1\<lparr>tacho := tacho m1 + 1\<rparr> else m1\<lparr>tacho := tacho m1 - 1\<rparr>)"

subsection \<open>The interface\<close>

record 'm motor_vt =
  vt_SetDuty :: "flt \<Rightarrow> 'm \<Rightarrow> ('m \<times> pwm_cmd list) option"
  vt_RequestStatus :: "'m \<Rightarrow> ('m \<times> (StateCallback \<times> ESCState) option) option"
  vt_SetStateCallback :: "StateCallback \<Rightarrow> 'm \<Rightarrow> 'm option"
  vt_Start :: "'m \<Rightarrow> 'm option"

definition pwm_vt :: "bool \<Rightarrow> pwm_motor_driver motor_vt" where
  "pwm_vt dbg = \<lparr>vt_SetDuty = Pwm_SetDuty, vt_RequestStatus = Pwm_RequestStatus dbg,
     vt_SetStateCallback = SetStateCallback dbg,
     vt_Start = (\<lambda>m. map_option fst (Pwm_Start dbg m))\<rparr>"

fun cmd_port :: "pwm_cmd \<Rightarrow> nat \<times> nat" where
  "cmd_port (EnableChannel p c w) = (p, c)"

text \<open>
  What a client of a motor driver relies on: with a duty of zero all of its channels are off,
  it drives no channel that is not its own, a request keeps the state usable, and reports
  through the callback it was given.
\<close>

locale motor_driver =
  fixes vt :: "'m motor_vt"
    and ready :: "'m \<Rightarrow> bool"
    and ports :: "'m \<Rightarrow> (nat \<times> nat) set"
    and callback :: "'m \<Rightarrow> StateCallback option"
  assumes SetDuty_zero: "ready m \<Longrightarrow> \<exists>m' cs. vt_SetDuty vt (Fin s 0) m = Some (m', cs)
      \<and> (\<forall>hw. \<forall>p \<in> ports m. run_cmds cs hw p = 0)"
    and SetDuty_keeps: "vt_SetDuty vt d m = Some (m', cs) \<Longrightarrow> ready m \<Longrightarrow>
      ready m' \<and> ports m' = ports m \<and> callback m' = callback m \<and> cmd_port ` set cs \<subseteq> ports m"
    and RequestStatus_keeps: "ready m \<Longrightarrow> \<exists>m' cb. vt_RequestStatus vt m = Some (m', cb)
      \<and> ready m' \<and> ports m' = ports m \<and> callback m' = callback m \<and> map_option fst cb = callback m"
begin

lemma run_other_ports:
  assumes "vt_SetDuty vt d m = Some (m', cs)" "ready m" "p \<notin> ports m"
  shows "run_cmds cs hw p = hw p"
proof -
  have "run_cmds cs hw p = hw p" if "cmd_port ` set cs \<subseteq> ports m" for cs hw
    using that unfolding run_cmds_def
  proof (induction cs arbitrary: hw)
    case (Cons c cs)
    obtain a b w where "c = EnableChannel a b w" by (cases c)
    then show ?case using Cons assms(3) by auto
  qed simp
  then show ?thesis using SetDuty_keeps [OF assms(1,2)] by blast
qed

end

fun pwm_ports :: "pwm_motor_driver \<Rightarrow> (nat \<times> nat) set" where
  "pwm_ports m = (case pwm m of None \<Rightarrow> {} | Some p \<Rightarrow> {(p, channel_1 m), (p, channel_2 m)})"

definition pwm_ready :: "pwm_motor_driver \<Rightarrow> bool" where
  "pwm_ready m \<longleftrightarrow> started m \<and> pwm m \<noteq> None"

lemma run_cmds_simps [simp]:
  "run_cmds [] hw = hw" "run_cmds (c # cs) hw = run_cmds cs (run_cmd c hw)"
  "run_cmds (cs @ ds) hw = run_cmds ds (run_cmds cs hw)"
  by (simp_all add: run_cmds_def)

lemma pwm_width_zero: "pwm_width (Fin s 0) = Some 0"
proof -
  have "flt_of_int binary32 FULL_WIDTH = Fin False 16380" by code_simp
  then show ?thesis by (simp add: pwm_width_def fround_def)
qed

interpretation pwm_motor: motor_driver "pwm_vt dbg" pwm_ready pwm_ports state_callback
proof
  fix m s assume "pwm_ready m"
  then obtain p where p: "pwm m = Some p" by (auto simp: pwm_ready_def)
  then show "\<exists>m' cs. vt_SetDuty (pwm_vt dbg) (Fin s 0) m = Some (m', cs)
      \<and> (\<forall>hw. \<forall>p \<in> pwm_ports m. run_cmds cs hw p = 0)"
    by (simp add: pwm_vt_def Pwm_SetDuty_def pwm_width_zero)
next
  fix d m m' cs assume "vt_SetDuty (pwm_vt dbg) d m = Some (m', cs)" "pwm_ready m"
  then show "pwm_ready m' \<and> pwm_ports m' = pwm_ports m \<and> state_callback m' = state_callback m \<and> cmd_port ` set cs \<subseteq> pwm_ports m"
    by (auto simp: pwm_vt_def Pwm_SetDuty_def split: Option.bind_splits if_splits)
next
  fix m assume "pwm_ready m"
  then show "\<exists>m' cb. vt_RequestStatus (pwm_vt dbg) m = Some (m', cb)
      \<and> pwm_ready m' \<and> pwm_ports m' = pwm_ports m \<and> state_callback m' = state_callback m \<and> map_option fst cb = state_callback m"
    by (auto simp: pwm_vt_def Pwm_RequestStatus_def NotifyCallback_def pwm_ready_def Let_def
        option.map_comp o_def option.map_ident)
qed


subsection \<open>What reaches the half-bridges\<close>

lemma full_width: "flt_of_int binary32 FULL_WIDTH = Fin False 16380"
  by code_simp

lemma representable_full_width: "representable binary32 16380"
  by code_simp

lemma pwm_width_unit:
  assumes "0 \<le> m" "m \<le> 1"
  shows "\<exists>w. pwm_width (Fin False m) = Some w \<and> w \<le> 16380"
proof -
  have "0 \<le> 16380 * m" "16380 * m \<le> 16380" using assms by simp_all
  then obtain m' where m': "fround binary32 False (16380 * m) = Fin False m'" "0 \<le> m'" "m' \<le> 16380"
    using fround_le [OF representable_full_width] by blast
  have fl: "0 \<le> \<lfloor>m'\<rfloor>" "\<lfloor>m'\<rfloor> \<le> 16380" using m'(2,3) floor_mono [of m' 16380] by simp_all
  then have "uint (of_int \<lfloor>m'\<rfloor> :: u32) = \<lfloor>m'\<rfloor>" by (simp add: uint_word_of_int)
  then have "(of_int \<lfloor>m'\<rfloor> :: u32) \<le> 16380" using fl by (simp add: word_le_def)
  moreover have "pwm_width (Fin False m) = (if \<lfloor>m'\<rfloor> = 0 then Some 0 else Some (of_int \<lfloor>m'\<rfloor>))"
    using m'(1) fl by (simp add: pwm_width_def full_width)
  ultimately show ?thesis by auto
qed

text \<open>A duty cycle of at most one in magnitude.\<close>

fun unit_duty :: "flt \<Rightarrow> bool" where
  "unit_duty (Fin s m) \<longleftrightarrow> 0 \<le> m \<and> m \<le> 1"
| "unit_duty _ \<longleftrightarrow> False"

text \<open>
  For every duty cycle between -1 and 1 the driver sets one of its two channels to a width
  of at most the PWM period (16380), the first for a positive duty and the second otherwise,
  and turns the other channel off: the two halves are never driven together, whatever they were
  before.
\<close>

theorem Pwm_SetDuty_exclusive:
  assumes "unit_duty d" "pwm m = Some p" "channel_1 m \<noteq> channel_2 m"
  shows "\<exists>cs w. Pwm_SetDuty d m = Some (m, cs) \<and> w \<le> 16380 \<and>
    (\<forall>hw. run_cmds cs hw (p, channel_1 m) = (if flt_less fzero d then w else 0) \<and>
          run_cmds cs hw (p, channel_2 m) = (if flt_less fzero d then 0 else w))"
proof -
  obtain s a where d: "d = Fin s a" "0 \<le> a" "a \<le> 1" using assms(1) by (cases d) auto
  show ?thesis
  proof (cases "flt_less fzero d")
    case True
    then have s: "\<not> s" using d by (auto split: if_splits)
    obtain w where w: "pwm_width d = Some w" "w \<le> 16380" using pwm_width_unit [OF d(2,3)] s d(1) by auto
    then show ?thesis
      using assms True by (intro exI [of _ "[EnableChannel p (channel_1 m) w, EnableChannel p (channel_2 m) 0]"] exI [of _ w])
        (simp add: Pwm_SetDuty_def)
  next
    case False
    obtain w where w: "pwm_width (fneg d) = Some w" "w \<le> 16380"
    proof (cases s)
      case True
      then show ?thesis using pwm_width_unit [OF d(2,3)] d(1) that by auto
    next
      case neg: False
      then have "a = 0" using d False by (auto split: if_splits)
      then show ?thesis using pwm_width_zero d(1) that [of 0] by simp
    qed
    then show ?thesis
      using assms False by (intro exI [of _ "[EnableChannel p (channel_2 m) w, EnableChannel p (channel_1 m) 0]"] exI [of _ w])
        (simp add: Pwm_SetDuty_def)
  qed
qed

theorem Pwm_SetDuty_exclusive_witness:
  "\<exists>cs w. Pwm_SetDuty (Fin True (1 / 2)) (SetPWM (Some 1) 1 2 pwm_motor_init) =
      Some (SetPWM (Some 1) 1 2 pwm_motor_init, cs) \<and> w \<le> 16380 \<and>
      run_cmds cs (\<lambda>_. 77) (1, 1) = 0 \<and> run_cmds cs (\<lambda>_. 77) (1, 2) = w"
proof -
  let ?m = "SetPWM (Some 1) 1 2 pwm_motor_init"
  have "pwm ?m = Some 1" "channel_1 ?m = 1" "channel_2 ?m = 2" by (simp_all add: SetPWM_def)
  then show ?thesis
    using Pwm_SetDuty_exclusive [of "Fin True (1 / 2)" ?m 1] by auto
qed

text \<open>The encoder counts forward minus backward edges, modulo \<open>2 ^ 32\<close>.\<close>

definition encoder_edges :: "bool list \<Rightarrow> pwm_motor_driver \<Rightarrow> pwm_motor_driver" where
  "encoder_edges = fold HandleEncoderTick"

definition net_edges :: "bool list \<Rightarrow> int" where
  "net_edges es = int (length (filter id es)) - int (length (filter Not es))"

lemma encoder_edges_Cons [simp]:
  "encoder_edges [] m = m" "encoder_edges (e # es) m = encoder_edges es (HandleEncoderTick e m)"
  by (simp_all add: encoder_edges_def)

lemma net_edges_Cons [simp]:
  "net_edges [] = 0" "net_edges (e # es) = (if e then 1 else -1) + net_edges es"
  by (simp_all add: net_edges_def)

lemma HandleEncoderTick_tacho [simp]:
  "tacho (HandleEncoderTick e m) = tacho m + (if e then 1 else -1)"
  "tacho_abs (HandleEncoderTick e m) = tacho_abs m + 1"
  by (simp_all add: HandleEncoderTick_def Let_def)

lemma encoder_edges_tacho: "tacho (encoder_edges es m) = tacho m + of_int (net_edges es)"
  by (induction es arbitrary: m) (simp_all add: algebra_simps)

lemma encoder_edges_tacho_abs: "tacho_abs (encoder_edges es m) = tacho_abs m + of_nat (length es)"
  by (induction es arbitrary: m) (simp_all add: algebra_simps)

lemma sint_of_int_small: "- (2 ^ 31) \<le> k \<Longrightarrow> k < 2 ^ 31 \<Longrightarrow> sint (of_int k :: u32) = k"
  by (simp add: sint_sbintrunc' signed_take_bit_int_eq_self)

lemma net_edges_bound:
  assumes "length es < 2 ^ 31"
  shows "- (2 ^ 31) \<le> net_edges es \<and> net_edges es < 2 ^ 31"
proof -
  have "\<bar>net_edges es\<bar> \<le> int (length es)" by (induction es) (auto split: if_splits)
  then show ?thesis using assms by (simp add: abs_le_iff)
qed

text \<open>The difference of two readings, taken modulo \<open>2 ^ 32\<close> and read as signed, is the movement between them.\<close>

lemma tacho_difference:
  "length es < 2 ^ 31 \<Longrightarrow> sint (tacho (encoder_edges es m) - tacho m) = net_edges es"
  using net_edges_bound [of es] by (simp add: encoder_edges_tacho sint_of_int_small del: of_int_diff)

end
