(* ===== verification/Diff_Drive.thy ===== *)
theory Diff_Drive
  imports Motor
begin

text \<open>
  The differential drive service (\<open>src/services/diff_drive_service\<close>): it turns twist
  commands into the duty cycles of the two wheel motors, stops them when no command arrives for
  a second or an emergency is on, and reports the motor state and the twist computed from the
  encoders. The service's mutex makes each operation atomic; the emergency state is owned by
  another service and read once inside an operation, so it is an argument (\<open>em\<close>). The clock
  readings of an operation are arguments in the order the code takes them. \<^term>\<open>None\<close> is a
  null driver, a failed assertion, a read outside an array or an undefined conversion.
\<close>

subsection \<open>State\<close>

record 'm diff_drive =
  left_esc_driver :: "'m option"
  right_esc_driver :: "'m option"
  left_esc_state :: ESCState
  right_esc_state :: ESCState
  left_esc_state_valid :: bool
  right_esc_state_valid :: bool
  last_valid_esc_state_micros :: u32
  last_duty_received_micros :: u32
  last_ticks_left :: u32
  last_ticks_right :: u32
  last_ticks_valid :: bool
  last_ticks_micros :: u32
  speed_l :: flt
  speed_r :: flt
  duty_sent :: bool
  WheelTicksPerMeter :: flt
  WheelDistance :: flt

datatype dd_effect =
    Pwm pwm_cmd
  | StartTransaction
  | SendLeftESCStatus u8
  | SendRightESCStatus u8
  | SendLeftESCTemperature flt
  | SendRightESCTemperature flt
  | SendLeftESCCurrent flt
  | SendRightESCCurrent flt
  | SendActualTwist "flt list"
  | SendWheelTicks "u32 list"
  | CommitTransaction

type_synonym 'm dd_result = "('m diff_drive \<times> dd_effect list) option"

definition diff_drive_init :: "'m diff_drive" where
  "diff_drive_init = \<lparr>left_esc_driver = None, right_esc_driver = None,
     left_esc_state = ESCState_init, right_esc_state = ESCState_init,
     left_esc_state_valid = False, right_esc_state_valid = False,
     last_valid_esc_state_micros = 0, last_duty_received_micros = 0,
     last_ticks_left = 0, last_ticks_right = 0, last_ticks_valid = False, last_ticks_micros = 0,
     speed_l = fzero, speed_r = fzero, duty_sent = False,
     WheelTicksPerMeter = flt_lit binary64 100, WheelDistance = flt_lit binary64 (26 / 100)\<rparr>"

definition SetDrivers :: "'m option \<Rightarrow> 'm option \<Rightarrow> 'm diff_drive \<Rightarrow> 'm diff_drive" where
  "SetDrivers l r s = s\<lparr>left_esc_driver := l, right_esc_driver := r\<rparr>"

subsection \<open>Sending the duty cycles\<close>

definition SetDuty :: "'m motor_vt \<Rightarrow> bool \<Rightarrow> 'm diff_drive \<Rightarrow> 'm dd_result" where
  "SetDuty vt em s = do {
     l \<leftarrow> left_esc_driver s;
     (l', cl) \<leftarrow> vt_SetDuty vt (if em then fzero else speed_l s) l;
     r \<leftarrow> right_esc_driver s;
     (r', cr) \<leftarrow> vt_SetDuty vt (if em then fzero else speed_r s) r;
     Some (s\<lparr>left_esc_driver := Some l', right_esc_driver := Some r', duty_sent := True\<rparr>,
           map Pwm (cl @ cr)) }"

text \<open>The part of \<open>OnEmergencyChangedEvent\<close> under the mutex, and the whole.\<close>

definition stop_motors :: "'m motor_vt \<Rightarrow> bool \<Rightarrow> 'm diff_drive \<Rightarrow> 'm dd_result" where
  "stop_motors vt em s = SetDuty vt em (s\<lparr>speed_l := fzero, speed_r := fzero\<rparr>)"

definition OnEmergencyChangedEvent :: "'m motor_vt \<Rightarrow> bool \<Rightarrow> bool \<Rightarrow> 'm diff_drive \<Rightarrow> 'm dd_result" where
  "OnEmergencyChangedEvent vt em0 em s = (if \<not> em0 then Some (s, []) else stop_motors vt em s)"

definition DiffDrive_OnStart :: "'m diff_drive \<Rightarrow> 'm diff_drive \<times> bool" where
  "DiffDrive_OnStart s = (s\<lparr>speed_r := fzero, speed_l := fzero, last_ticks_valid := False\<rparr>, True)"

definition DiffDrive_OnCreate :: "'m motor_vt \<Rightarrow> bool \<Rightarrow> 'm diff_drive \<Rightarrow> 'm diff_drive option" where
  "DiffDrive_OnCreate vt dbg s = do {
     chDbgAssert dbg (left_esc_driver s \<noteq> None);
     chDbgAssert dbg (right_esc_driver s \<noteq> None);
     l \<leftarrow> left_esc_driver s;
     l1 \<leftarrow> vt_SetStateCallback vt LeftESC l;
     r \<leftarrow> right_esc_driver s;
     r1 \<leftarrow> vt_SetStateCallback vt RightESC r;
     l2 \<leftarrow> vt_Start vt l1;
     r2 \<leftarrow> vt_Start vt r1;
     Some (s\<lparr>left_esc_driver := Some l2, right_esc_driver := Some r2\<rparr>) }"

definition DiffDrive_OnStop :: "'m diff_drive \<Rightarrow> 'm diff_drive" where
  "DiffDrive_OnStop s = s\<lparr>speed_r := fzero, speed_l := fzero, last_ticks_valid := False\<rparr>"

subsection \<open>Motor state and odometry\<close>

text \<open>\<open>int32_t\<close> results; signed overflow has no defined result.\<close>

definition int32 :: "int \<Rightarrow> int option" where
  "int32 x = (if - (2 ^ 31) \<le> x \<and> x < 2 ^ 31 then Some x else None)"

definition wheel_twist :: "flt \<Rightarrow> u32 \<Rightarrow> int \<Rightarrow> int \<Rightarrow> (flt \<times> flt) option" where
  "wheel_twist ticks_per_meter dt_micros d_left d_right = do {
     let dt = fdiv binary32 (flt_of_int binary32 (uint dt_micros)) (flt_lit binary32 1000000);
     let den = fmul binary32 (fmul binary32 (flt_lit binary32 2) dt) (fcvt binary32 ticks_per_meter);
     d \<leftarrow> int32 (d_left - d_right);
     a \<leftarrow> int32 (d_left + d_right);
     Some (fdiv binary32 (flt_of_int binary32 d) den, fdiv binary32 (fneg (flt_of_int binary32 a)) den) }"

definition odometry :: "u32 \<Rightarrow> 'm diff_drive \<Rightarrow> dd_effect list option" where
  "odometry micros s =
     (if last_ticks_valid s then do {
        let d_left = sint (esc_tacho (left_esc_state s) - last_ticks_left s);
        let d_right = sint (esc_tacho (right_esc_state s) - last_ticks_right s);
        (vx, vr) \<leftarrow> wheel_twist (WheelTicksPerMeter s) (micros - last_ticks_micros s) d_left d_right;
        Some [SendActualTwist [fcvt binary64 vx, fzero, fzero, fzero, fzero, fcvt binary64 vr],
              SendWheelTicks [esc_tacho (left_esc_state s), esc_tacho (right_esc_state s)]] }
      else Some [])"

definition ProcessStatusUpdate :: "u32 \<Rightarrow> 'm diff_drive \<Rightarrow> 'm dd_result" where
  "ProcessStatusUpdate micros s0 = do {
     let s = s0\<lparr>last_valid_esc_state_micros := micros\<rparr>;
     let l = left_esc_state s;
     let r = right_esc_state s;
     odo \<leftarrow> odometry micros s;
     Some (s\<lparr>last_ticks_valid := True, last_ticks_left := esc_tacho l, last_ticks_right := esc_tacho r,
             last_ticks_micros := micros, left_esc_state_valid := False, right_esc_state_valid := False\<rparr>,
           [StartTransaction, SendLeftESCTemperature (temperature_pcb l), SendLeftESCCurrent (current_input l),
            SendLeftESCStatus (esc_status l), SendRightESCTemperature (temperature_pcb r),
            SendRightESCCurrent (current_input r), SendRightESCStatus (esc_status r)]
           @ odo @ [CommitTransaction]) }"

definition LeftESCCallback :: "u32 \<Rightarrow> ESCState \<Rightarrow> 'm diff_drive \<Rightarrow> 'm dd_result" where
  "LeftESCCallback micros st s =
     (let s' = s\<lparr>left_esc_state := st, left_esc_state_valid := True\<rparr>
      in if right_esc_state_valid s' then ProcessStatusUpdate micros s' else Some (s', []))"

definition RightESCCallback :: "u32 \<Rightarrow> ESCState \<Rightarrow> 'm diff_drive \<Rightarrow> 'm dd_result" where
  "RightESCCallback micros st s =
     (let s' = s\<lparr>right_esc_state := st, right_esc_state_valid := True\<rparr>
      in if left_esc_state_valid s' then ProcessStatusUpdate micros s' else Some (s', []))"

fun esc_callback :: "u32 \<Rightarrow> (StateCallback \<times> ESCState) option \<Rightarrow> 'm diff_drive \<Rightarrow> 'm dd_result" where
  "esc_callback micros None s = Some (s, [])"
| "esc_callback micros (Some (LeftESC, st)) s = LeftESCCallback micros st s"
| "esc_callback micros (Some (RightESC, st)) s = RightESCCallback micros st s"

text \<open>The virtual calls of \<open>RequestStatus\<close>, which call back synchronously (the mutex is recursive).\<close>

definition request_left :: "'m motor_vt \<Rightarrow> u32 \<Rightarrow> 'm diff_drive \<Rightarrow> 'm dd_result" where
  "request_left vt micros s = do {
     l \<leftarrow> left_esc_driver s;
     (l', cb) \<leftarrow> vt_RequestStatus vt l;
     esc_callback micros cb (s\<lparr>left_esc_driver := Some l'\<rparr>) }"

definition request_right :: "'m motor_vt \<Rightarrow> u32 \<Rightarrow> 'm diff_drive \<Rightarrow> 'm dd_result" where
  "request_right vt micros s = do {
     r \<leftarrow> right_esc_driver s;
     (r', cb) \<leftarrow> vt_RequestStatus vt r;
     esc_callback micros cb (s\<lparr>right_esc_driver := Some r'\<rparr>) }"

subsection \<open>The periodic task and the command\<close>

definition duty_timeout :: "u32 \<Rightarrow> 'm diff_drive \<Rightarrow> bool" where
  "duty_timeout now s \<longleftrightarrow> 1000000 < now - last_duty_received_micros s"

definition disconnected :: "u32 \<Rightarrow> 'm diff_drive \<Rightarrow> dd_effect list" where
  "disconnected now s =
     (if 1000000 < now - last_valid_esc_state_micros s
      then [StartTransaction]
        @ (if left_esc_state_valid s then [] else [SendLeftESCStatus ESC_STATUS_DISCONNECTED])
        @ (if right_esc_state_valid s then [] else [SendRightESCStatus ESC_STATUS_DISCONNECTED])
        @ [CommitTransaction]
      else [])"

definition tick :: "'m motor_vt \<Rightarrow> bool \<Rightarrow> u32 \<times> u32 \<times> u32 \<times> u32 \<Rightarrow> 'm diff_drive \<Rightarrow> 'm dd_result" where
  "tick vt em = (\<lambda>(t1, ta, tb, t2) s. do {
     let s1 = (if duty_timeout t1 s then s\<lparr>speed_r := fzero, speed_l := fzero\<rparr> else s);
     (s2, e1) \<leftarrow> (if duty_sent s1 then Some (s1, []) else SetDuty vt em s1);
     (s3, e2) \<leftarrow> request_left vt ta s2;
     (s4, e3) \<leftarrow> request_right vt tb s3;
     Some (s4\<lparr>duty_sent := False\<rparr>, e1 @ e2 @ e3 @ disconnected t2 s4) })"

text \<open>The comparisons are with \<open>double\<close> constants, which converts the speed exactly.\<close>

definition clamp :: "flt \<Rightarrow> flt" where
  "clamp x = (if flt_le (Fin False 1) x then Fin False 1
              else if flt_le x (Fin True 1) then Fin True 1 else x)"

definition twist_speeds :: "flt \<Rightarrow> flt \<Rightarrow> flt \<Rightarrow> flt \<times> flt" where
  "twist_speeds wheel_distance x0 x5 =
     (let linear = fcvt binary32 x0; angular = fcvt binary32 x5;
          turn = fmul binary32 (fmul binary32 (flt_lit binary32 (1 / 2)) (fcvt binary32 wheel_distance)) angular
      in (fsub binary32 linear turn, fneg (fadd binary32 linear turn)))"

definition OnControlTwistChanged ::
  "'m motor_vt \<Rightarrow> bool \<Rightarrow> u32 \<Rightarrow> flt list \<Rightarrow> u32 \<Rightarrow> 'm diff_drive \<Rightarrow> 'm dd_result" where
  "OnControlTwistChanged vt em now new_value len s =
     (if len \<noteq> 6 then Some (s, [])
      else do {
        x0 \<leftarrow> aget new_value 0;
        x5 \<leftarrow> aget new_value 5;
        let (l, r) = twist_speeds (WheelDistance s) x0 x5;
        let s1 = s\<lparr>last_duty_received_micros := now, speed_r := clamp r, speed_l := clamp l\<rparr>;
        (if duty_sent s1 then Some (s1, []) else SetDuty vt em s1) })"


subsection \<open>What the motors are told\<close>

fun pwm_cmds :: "dd_effect list \<Rightarrow> pwm_cmd list" where
  "pwm_cmds [] = []"
| "pwm_cmds (Pwm c # es) = c # pwm_cmds es"
| "pwm_cmds (_ # es) = pwm_cmds es"

definition drive_hw :: "dd_effect list \<Rightarrow> pwm_hw \<Rightarrow> pwm_hw" where
  "drive_hw es = run_cmds (pwm_cmds es)"

lemma pwm_cmds_append [simp]: "pwm_cmds (es @ fs) = pwm_cmds es @ pwm_cmds fs"
  by (induction es rule: pwm_cmds.induct) auto

lemma pwm_cmds_Pwm [simp]: "pwm_cmds (map Pwm cs) = cs"
  by (induction cs) auto

lemma drive_hw_simps [simp]:
  "drive_hw [] hw = hw" "drive_hw (es @ fs) hw = drive_hw fs (drive_hw es hw)"
  "drive_hw (map Pwm cs) hw = run_cmds cs hw"
  by (simp_all add: drive_hw_def)

text \<open>
  The service owns two usable drivers with separate channels, registered for the left and the
  right callback.
\<close>

definition drives ::
  "('m \<Rightarrow> bool) \<Rightarrow> ('m \<Rightarrow> (nat \<times> nat) set) \<Rightarrow> ('m \<Rightarrow> StateCallback option) \<Rightarrow> 'm diff_drive \<Rightarrow> bool" where
  "drives ready ports callback s \<longleftrightarrow>
     (case (left_esc_driver s, right_esc_driver s) of
        (Some l, Some r) \<Rightarrow> ready l \<and> ready r \<and> ports l \<inter> ports r = {} \<and>
          callback l = Some LeftESC \<and> callback r = Some RightESC
      | _ \<Rightarrow> False)"

definition motor_ports :: "('m \<Rightarrow> (nat \<times> nat) set) \<Rightarrow> 'm diff_drive \<Rightarrow> (nat \<times> nat) set" where
  "motor_ports ports s = \<Union> (ports ` (set_option (left_esc_driver s) \<union> set_option (right_esc_driver s)))"

definition motors_off :: "('m \<Rightarrow> (nat \<times> nat) set) \<Rightarrow> 'm diff_drive \<Rightarrow> pwm_hw \<Rightarrow> bool" where
  "motors_off ports s hw \<longleftrightarrow> (\<forall>p \<in> motor_ports ports s. hw p = 0)"

lemma drivesE:
  assumes "drives ready ports callback s"
  obtains l r where "left_esc_driver s = Some l" "right_esc_driver s = Some r" "ready l" "ready r"
    "ports l \<inter> ports r = {}" "callback l = Some LeftESC" "callback r = Some RightESC"
  using assms by (auto simp: drives_def split: option.splits)

lemma drives_cong:
  "left_esc_driver s' = left_esc_driver s \<Longrightarrow> right_esc_driver s' = right_esc_driver s \<Longrightarrow>
   drives ready ports callback s' = drives ready ports callback s"
  by (simp add: drives_def)

lemma motor_ports_cong:
  "left_esc_driver s' = left_esc_driver s \<Longrightarrow> right_esc_driver s' = right_esc_driver s \<Longrightarrow>
   motor_ports ports s' = motor_ports ports s"
  by (simp add: motor_ports_def)

text \<open>Reporting changes no driver and no duty, and sends nothing to the motors.\<close>

definition reports_only :: "'m diff_drive \<Rightarrow> 'm diff_drive \<Rightarrow> dd_effect list \<Rightarrow> bool" where
  "reports_only s s' es \<longleftrightarrow>
     left_esc_driver s' = left_esc_driver s \<and> right_esc_driver s' = right_esc_driver s \<and>
     speed_l s' = speed_l s \<and> speed_r s' = speed_r s \<and> duty_sent s' = duty_sent s \<and>
     last_duty_received_micros s' = last_duty_received_micros s \<and> pwm_cmds es = []"

lemma ProcessStatusUpdate_reports:
  "ProcessStatusUpdate t s = Some (s', es) \<Longrightarrow> reports_only s s' es"
  by (auto simp: ProcessStatusUpdate_def odometry_def reports_only_def Let_def split: if_splits Option.bind_splits)

lemma esc_callback_reports:
  "esc_callback t cb s = Some (s', es) \<Longrightarrow> reports_only s s' es"
  by (induction t cb s rule: esc_callback.induct)
     (auto simp: LeftESCCallback_def RightESCCallback_def Let_def reports_only_def split: if_splits
       dest!: ProcessStatusUpdate_reports)

lemma disconnected_cmds [simp]: "pwm_cmds (disconnected t s) = []"
  by (simp add: disconnected_def)

lemma SetDuty_SomeE:
  assumes "SetDuty vt em s = Some (s', es)" "left_esc_driver s = Some l" "right_esc_driver s = Some r"
  obtains l' cl r' cr where
    "vt_SetDuty vt (if em then fzero else speed_l s) l = Some (l', cl)"
    "vt_SetDuty vt (if em then fzero else speed_r s) r = Some (r', cr)"
    "s' = s\<lparr>left_esc_driver := Some l', right_esc_driver := Some r', duty_sent := True\<rparr>"
    "es = map Pwm (cl @ cr)"
  using assms by (auto simp: SetDuty_def bind_eq_Some_conv simp del: map_append)

context motor_driver
begin

abbreviation ok where "ok \<equiv> drives ready ports callback"

lemma SetDuty_keeps_drives:
  assumes "SetDuty vt em s = Some (s', es)" "ok s"
  shows "ok s' \<and> motor_ports ports s' = motor_ports ports s \<and> speed_l s' = speed_l s \<and> speed_r s' = speed_r s
    \<and> duty_sent s' \<and> last_duty_received_micros s' = last_duty_received_micros s"
proof -
  obtain l r where lr: "left_esc_driver s = Some l" "right_esc_driver s = Some r" "ready l" "ready r"
    "ports l \<inter> ports r = {}" "callback l = Some LeftESC" "callback r = Some RightESC"
    using assms(2) by (rule drivesE)
  obtain l' cl r' cr where
    l': "vt_SetDuty vt (if em then fzero else speed_l s) l = Some (l', cl)" and
    r': "vt_SetDuty vt (if em then fzero else speed_r s) r = Some (r', cr)" and
    s': "s' = s\<lparr>left_esc_driver := Some l', right_esc_driver := Some r', duty_sent := True\<rparr>"
    by (rule SetDuty_SomeE [OF assms(1) lr(1,2)])
  show ?thesis
    using lr SetDuty_keeps [OF l' lr(3)] SetDuty_keeps [OF r' lr(4)]
    by (simp add: s' drives_def motor_ports_def)
qed

text \<open>When both duties are zero the motors are off afterwards, whatever the hardware did before.\<close>

lemma SetDuty_zero_stops:
  assumes "ok s" "em \<or> speed_l s = Fin a 0 \<and> speed_r s = Fin b 0"
  shows "\<exists>s' es. SetDuty vt em s = Some (s', es) \<and> motors_off ports s' (drive_hw es hw)"
proof -
  obtain l r where lr: "left_esc_driver s = Some l" "right_esc_driver s = Some r" "ready l" "ready r"
    "ports l \<inter> ports r = {}" using assms(1) by (rule drivesE)
  let ?dl = "if em then fzero else speed_l s" and ?dr = "if em then fzero else speed_r s"
  have "\<exists>a. ?dl = Fin a 0" "\<exists>a. ?dr = Fin a 0" using assms(2) by auto
  then obtain u v where z: "?dl = Fin u 0" "?dr = Fin v 0" by blast
  obtain l' cl where l': "vt_SetDuty vt ?dl l = Some (l', cl)" "\<forall>hw. \<forall>p \<in> ports l. run_cmds cl hw p = 0"
    using SetDuty_zero [OF lr(3), of u] unfolding z by blast
  obtain r' cr where r': "vt_SetDuty vt ?dr r = Some (r', cr)" "\<forall>hw. \<forall>p \<in> ports r. run_cmds cr hw p = 0"
    using SetDuty_zero [OF lr(4), of v] unfolding z by blast
  have ports': "ports l' = ports l" "ports r' = ports r"
    using SetDuty_keeps [OF l'(1) lr(3)] SetDuty_keeps [OF r'(1) lr(4)] by auto
  have "run_cmds cr (run_cmds cl hw) p = 0" if "p \<in> ports l \<union> ports r" for p
  proof (cases "p \<in> ports r")
    case False
    then show ?thesis using that l'(2) run_other_ports [OF r'(1) lr(4)] by auto
  qed (simp add: r'(2))
  then have "motors_off ports (s\<lparr>left_esc_driver := Some l', right_esc_driver := Some r', duty_sent := True\<rparr>)
      (drive_hw (map Pwm (cl @ cr)) hw)"
    by (simp add: motors_off_def motor_ports_def ports' drive_hw_def Un_commute del: map_append)
  then show ?thesis using lr(1,2) l'(1) r'(1) by (simp add: SetDuty_def)
qed

lemma request_keeps:
  assumes "ok s" "request_left vt t s = Some (s', es) \<or> request_right vt t s = Some (s', es)"
  shows "ok s' \<and> motor_ports ports s' = motor_ports ports s
    \<and> speed_l s' = speed_l s \<and> speed_r s' = speed_r s \<and> duty_sent s' = duty_sent s
    \<and> last_duty_received_micros s' = last_duty_received_micros s \<and> pwm_cmds es = []"
proof -
  obtain l r where lr: "left_esc_driver s = Some l" "right_esc_driver s = Some r" "ready l" "ready r"
    "ports l \<inter> ports r = {}" "callback l = Some LeftESC" "callback r = Some RightESC"
    using assms(1) by (rule drivesE)
  obtain l' cb where l': "vt_RequestStatus vt l = Some (l', cb)" "ready l'" "ports l' = ports l" "callback l' = callback l"
    using RequestStatus_keeps [OF lr(3)] by blast
  obtain r' cc where r': "vt_RequestStatus vt r = Some (r', cc)" "ready r'" "ports r' = ports r" "callback r' = callback r"
    using RequestStatus_keeps [OF lr(4)] by blast
  have "reports_only (s\<lparr>left_esc_driver := Some l'\<rparr>) s' es \<or> reports_only (s\<lparr>right_esc_driver := Some r'\<rparr>) s' es"
    using assms(2) lr(1,2) l'(1) r'(1)
    by (auto simp: request_left_def request_right_def dest: esc_callback_reports)
  then show ?thesis
    using lr l' r' by (auto simp: reports_only_def drives_def motor_ports_def)
qed

end


lemma drives_upd [simp]:
  "drives R P C (s\<lparr>speed_r := a\<rparr>) = drives R P C s" "drives R P C (s\<lparr>speed_l := a\<rparr>) = drives R P C s"
  "drives R P C (s\<lparr>duty_sent := b\<rparr>) = drives R P C s"
  "drives R P C (s\<lparr>last_duty_received_micros := t\<rparr>) = drives R P C s"
  "drives R P C (s\<lparr>last_ticks_valid := b\<rparr>) = drives R P C s"
  "motor_ports P (s\<lparr>speed_r := a\<rparr>) = motor_ports P s" "motor_ports P (s\<lparr>speed_l := a\<rparr>) = motor_ports P s"
  "motor_ports P (s\<lparr>duty_sent := b\<rparr>) = motor_ports P s"
  "motor_ports P (s\<lparr>last_duty_received_micros := t\<rparr>) = motor_ports P s"
  "motor_ports P (s\<lparr>last_ticks_valid := b\<rparr>) = motor_ports P s"
  by (simp_all add: motor_ports_def drives_def split: option.splits)

context motor_driver
begin

lemma tick_unfold:
  assumes "tick vt em (t1, ta, tb, t2) s = Some (s', es)"
  obtains s1 s2 e1 s3 e2 s4 e3 where
    "s1 = (if duty_timeout t1 s then s\<lparr>speed_r := fzero, speed_l := fzero\<rparr> else s)"
    "(if duty_sent s1 then Some (s1, []) else SetDuty vt em s1) = Some (s2, e1)"
    "request_left vt ta s2 = Some (s3, e2)" "request_right vt tb s3 = Some (s4, e3)"
    "s' = s4\<lparr>duty_sent := False\<rparr>" "es = e1 @ e2 @ e3 @ disconnected t2 s4"
  using assms by (auto simp: tick_def Let_def bind_eq_Some_conv)

lemma tick_keeps:
  assumes "tick vt em (t1, ta, tb, t2) s = Some (s', es)" "ok s"
  shows "ok s' \<and> motor_ports ports s' = motor_ports ports s \<and> \<not> duty_sent s'
    \<and> last_duty_received_micros s' = last_duty_received_micros s"
proof -
  obtain s1 s2 e1 s3 e2 s4 e3 where t:
    "s1 = (if duty_timeout t1 s then s\<lparr>speed_r := fzero, speed_l := fzero\<rparr> else s)"
    "(if duty_sent s1 then Some (s1, []) else SetDuty vt em s1) = Some (s2, e1)"
    "request_left vt ta s2 = Some (s3, e2)" "request_right vt tb s3 = Some (s4, e3)"
    "s' = s4\<lparr>duty_sent := False\<rparr>" "es = e1 @ e2 @ e3 @ disconnected t2 s4"
    using assms(1) by (rule tick_unfold)
  have ok1: "ok s1" "motor_ports ports s1 = motor_ports ports s" "last_duty_received_micros s1 = last_duty_received_micros s"
    using assms(2) by (simp_all add: t(1))
  then have ok2: "ok s2" "motor_ports ports s2 = motor_ports ports s" "last_duty_received_micros s2 = last_duty_received_micros s"
    using t(2) SetDuty_keeps_drives [of em s1 s2 e1] by (auto split: if_splits)
  then have ok3: "ok s3" "motor_ports ports s3 = motor_ports ports s" "last_duty_received_micros s3 = last_duty_received_micros s"
    using request_keeps [of s2 ta s3 e2] t(3) by auto
  then have "ok s4" "motor_ports ports s4 = motor_ports ports s" "last_duty_received_micros s4 = last_duty_received_micros s"
    using request_keeps [of s3 tb s4 e3] t(4) by auto
  then show ?thesis by (simp add: t(5))
qed

lemma tick_sends_once:
  assumes "tick vt em (t1, ta, tb, t2) s = Some (s', es)" "ok s" "duty_sent s"
  shows "pwm_cmds es = []"
proof -
  obtain s1 s2 e1 s3 e2 s4 e3 where t:
    "s1 = (if duty_timeout t1 s then s\<lparr>speed_r := fzero, speed_l := fzero\<rparr> else s)"
    "(if duty_sent s1 then Some (s1, []) else SetDuty vt em s1) = Some (s2, e1)"
    "request_left vt ta s2 = Some (s3, e2)" "request_right vt tb s3 = Some (s4, e3)"
    "s' = s4\<lparr>duty_sent := False\<rparr>" "es = e1 @ e2 @ e3 @ disconnected t2 s4"
    using assms(1) by (rule tick_unfold)
  have "duty_sent s1" "ok s1" using assms(2,3) by (simp_all add: t(1))
  then have 2: "e1 = []" "ok s2" using t(2) by auto
  have 3: "ok s3" "pwm_cmds e2 = []" using request_keeps [OF 2(2)] t(3) by auto
  have "pwm_cmds e3 = []" using request_keeps [OF 3(1)] t(4) by auto
  then show ?thesis using 2(1) 3(2) t(6) by simp
qed

lemma tick_stops:
  assumes "tick vt em (t1, ta, tb, t2) s = Some (s', es)" "ok s" "\<not> duty_sent s" "em \<or> duty_timeout t1 s"
  shows "motors_off ports s' (drive_hw es hw)"
proof -
  obtain s1 s2 e1 s3 e2 s4 e3 where t:
    "s1 = (if duty_timeout t1 s then s\<lparr>speed_r := fzero, speed_l := fzero\<rparr> else s)"
    "(if duty_sent s1 then Some (s1, []) else SetDuty vt em s1) = Some (s2, e1)"
    "request_left vt ta s2 = Some (s3, e2)" "request_right vt tb s3 = Some (s4, e3)"
    "s' = s4\<lparr>duty_sent := False\<rparr>" "es = e1 @ e2 @ e3 @ disconnected t2 s4"
    using assms(1) by (rule tick_unfold)
  have ok1: "ok s1" using assms(2) by (simp add: t(1))
  have set: "SetDuty vt em s1 = Some (s2, e1)" using t(1,2) assms(3) by (simp split: if_splits)
  then have ok2: "ok s2" using SetDuty_keeps_drives ok1 by blast
  have "em \<or> speed_l s1 = fzero \<and> speed_r s1 = fzero" using assms(4) t(1) by auto
  then have off: "motors_off ports s2 (drive_hw e1 hw)"
    using SetDuty_zero_stops [OF ok1, of em False False hw] set by auto
  have r3: "ok s3" "motor_ports ports s3 = motor_ports ports s2" "pwm_cmds e2 = []"
    using request_keeps [OF ok2] t(3) by auto
  have r4: "motor_ports ports s4 = motor_ports ports s2" "pwm_cmds e3 = []"
    using request_keeps [OF r3(1)] t(4) r3(2) by auto
  have "motor_ports ports s' = motor_ports ports s2" using t(5) r4(1) by simp
  then show ?thesis using off r3(3) r4(2) by (simp add: t(6) motors_off_def drive_hw_def)
qed

end

subsection \<open>With the PWM drivers\<close>

abbreviation pwm_drives :: "pwm_motor_driver diff_drive \<Rightarrow> bool" where
  "pwm_drives \<equiv> drives pwm_ready pwm_ports state_callback"

definition esc_reading :: "pwm_motor_driver \<Rightarrow> ESCState" where
  "esc_reading m = (latest_state m)\<lparr>esc_tacho := tacho m, esc_tacho_absolute := tacho_abs m\<rparr>"

definition after_request :: "pwm_motor_driver \<Rightarrow> pwm_motor_driver" where
  "after_request m = m\<lparr>latest_state := esc_reading m\<rparr>"

lemma pwm_request:
  "started m \<Longrightarrow> vt_RequestStatus (pwm_vt dbg) m =
     Some (after_request m, map_option (\<lambda>f. (f, esc_reading m)) (state_callback m))"
  by (simp add: pwm_vt_def Pwm_RequestStatus_def NotifyCallback_def after_request_def esc_reading_def Let_def)

text \<open>Both requests of a period together: the two readings are taken and processed once.\<close>

definition with_readings :: "pwm_motor_driver \<Rightarrow> pwm_motor_driver \<Rightarrow> pwm_motor_driver diff_drive \<Rightarrow> pwm_motor_driver diff_drive" where
  "with_readings l r s = s\<lparr>left_esc_driver := Some (after_request l), left_esc_state := esc_reading l,
     left_esc_state_valid := True, right_esc_driver := Some (after_request r),
     right_esc_state := esc_reading r, right_esc_state_valid := True\<rparr>"

lemma pwm_requests:
  assumes "left_esc_driver s = Some l" "right_esc_driver s = Some r" "pwm_drives s"
    "\<not> left_esc_state_valid s" "\<not> right_esc_state_valid s"
  shows "do { (s3, e2) \<leftarrow> request_left (pwm_vt dbg) ta s;
              (s4, e3) \<leftarrow> request_right (pwm_vt dbg) tb s3;
              Some (s4, e2 @ e3) } = ProcessStatusUpdate tb (with_readings l r s)"
proof -
  have lr: "started l" "started r" "state_callback l = Some LeftESC" "state_callback r = Some RightESC"
    using assms(1-3) by (auto simp: drives_def pwm_ready_def)
  let ?s1 = "s\<lparr>left_esc_driver := Some (after_request l), left_esc_state := esc_reading l, left_esc_state_valid := True\<rparr>"
  have "request_left (pwm_vt dbg) ta s = Some (?s1, [])"
    using assms(1,5) lr by (simp add: request_left_def pwm_request LeftESCCallback_def Let_def)
  moreover have "request_right (pwm_vt dbg) tb ?s1 = ProcessStatusUpdate tb (with_readings l r s)"
    using assms(2) lr by (simp add: request_right_def pwm_request RightESCCallback_def with_readings_def Let_def)
  ultimately show ?thesis by (simp add: split_def)
qed

text \<open>Wheel movement since the last report, and its bound that excludes an overflow.\<close>

definition moved :: "pwm_motor_driver diff_drive \<Rightarrow> int \<times> int" where
  "moved s = (case (left_esc_driver s, right_esc_driver s) of
     (Some l, Some r) \<Rightarrow> (sint (tacho l - last_ticks_left s), sint (tacho r - last_ticks_right s)) | _ \<Rightarrow> (0, 0))"

definition small_moves :: "pwm_motor_driver diff_drive \<Rightarrow> bool" where
  "small_moves s \<longleftrightarrow> \<not> left_esc_state_valid s \<and> \<not> right_esc_state_valid s \<and>
     \<bar>fst (moved s)\<bar> < 2 ^ 30 \<and> \<bar>snd (moved s)\<bar> < 2 ^ 30"

lemma int32_small: "\<bar>a\<bar> < 2 ^ 30 \<Longrightarrow> \<bar>b\<bar> < 2 ^ 30 \<Longrightarrow> int32 (a - b) = Some (a - b) \<and> int32 (a + b) = Some (a + b)"
  unfolding int32_def by (auto simp: abs_less_iff)

lemma wheel_twist_defined:
  "\<bar>a\<bar> < 2 ^ 30 \<Longrightarrow> \<bar>b\<bar> < 2 ^ 30 \<Longrightarrow> \<exists>v. wheel_twist k t a b = Some v"
  using int32_small [of a b] by (simp add: wheel_twist_def Let_def)

lemma process_readings:
  assumes "left_esc_driver s = Some l" "right_esc_driver s = Some r" "small_moves s"
  shows "\<exists>s' es. ProcessStatusUpdate t (with_readings l r s) = Some (s', es) \<and>
     last_ticks_left s' = tacho l \<and> last_ticks_right s' = tacho r \<and> last_ticks_valid s' \<and> last_ticks_micros s' = t \<and>
     \<not> left_esc_state_valid s' \<and> \<not> right_esc_state_valid s' \<and>
     left_esc_driver s' = Some (after_request l) \<and> right_esc_driver s' = Some (after_request r) \<and>
     (last_ticks_valid s \<longrightarrow> (\<exists>vx vr. wheel_twist (WheelTicksPerMeter s) (t - last_ticks_micros s) (fst (moved s)) (snd (moved s))
         = Some (vx, vr) \<and>
       SendActualTwist [fcvt binary64 vx, fzero, fzero, fzero, fzero, fcvt binary64 vr] \<in> set es \<and>
       SendWheelTicks [tacho l, tacho r] \<in> set es))"
proof -
  have m: "moved s = (sint (tacho l - last_ticks_left s), sint (tacho r - last_ticks_right s))"
    using assms(1,2) by (simp add: moved_def)
  obtain vx vr where v: "wheel_twist (WheelTicksPerMeter s) (t - last_ticks_micros s) (fst (moved s)) (snd (moved s)) = Some (vx, vr)"
    using wheel_twist_defined assms(3) unfolding small_moves_def by (metis surj_pair)
  show ?thesis
    using v by (simp add: ProcessStatusUpdate_def odometry_def with_readings_def esc_reading_def Let_def m)
qed

lemma Pwm_SetDuty_same: "vt_SetDuty (pwm_vt dbg) d m = Some (m', cs) \<Longrightarrow> m' = m"
  by (auto simp: pwm_vt_def Pwm_SetDuty_def split: Option.bind_splits if_splits)

text \<open>What a step leaves as it is when it only concerns the duty cycles.\<close>

definition same_odometry :: "pwm_motor_driver diff_drive \<Rightarrow> pwm_motor_driver diff_drive \<Rightarrow> bool" where
  "same_odometry s s' \<longleftrightarrow> left_esc_driver s' = left_esc_driver s \<and> right_esc_driver s' = right_esc_driver s \<and>
     left_esc_state_valid s' = left_esc_state_valid s \<and> right_esc_state_valid s' = right_esc_state_valid s \<and>
     last_ticks_valid s' = last_ticks_valid s \<and> last_ticks_micros s' = last_ticks_micros s \<and>
     last_ticks_left s' = last_ticks_left s \<and> last_ticks_right s' = last_ticks_right s \<and>
     WheelTicksPerMeter s' = WheelTicksPerMeter s"

lemma same_odometry_facts:
  assumes "same_odometry s s'"
  shows "moved s' = moved s" "small_moves s' = small_moves s" "pwm_drives s' = pwm_drives s"
proof -
  show m: "moved s' = moved s"
    using assms by (simp add: same_odometry_def moved_def split: option.splits)
  show "small_moves s' = small_moves s" "pwm_drives s' = pwm_drives s"
    using assms m by (simp_all add: same_odometry_def small_moves_def drives_def)
qed

lemma SetDuty_same_odometry:
  assumes "SetDuty (pwm_vt dbg) em s = Some (s', es)" "pwm_drives s"
  shows "same_odometry s s'"
proof -
  obtain l r where lr: "left_esc_driver s = Some l" "right_esc_driver s = Some r" using assms(2) by (rule drivesE)
  show ?thesis
    by (rule SetDuty_SomeE [OF assms(1) lr]) (auto simp: same_odometry_def lr dest!: Pwm_SetDuty_same)
qed

lemma tick_pwm:
  assumes "pwm_drives s" "left_esc_driver s = Some l" "right_esc_driver s = Some r" "small_moves s"
    and s1: "s1 = (if duty_timeout t1 s then s\<lparr>speed_r := fzero, speed_l := fzero\<rparr> else s)"
    and s2: "(if duty_sent s1 then Some (s1, []) else SetDuty (pwm_vt dbg) em s1) = Some (s2, e1)"
  shows "\<exists>s' es. tick (pwm_vt dbg) em (t1, ta, tb, t2) s = Some (s', es) \<and>
     last_ticks_left s' = tacho l \<and> last_ticks_right s' = tacho r \<and> last_ticks_valid s' \<and> last_ticks_micros s' = tb \<and>
     (last_ticks_valid s \<longrightarrow> (\<exists>vx vr. wheel_twist (WheelTicksPerMeter s) (tb - last_ticks_micros s) (fst (moved s)) (snd (moved s))
         = Some (vx, vr) \<and>
       SendActualTwist [fcvt binary64 vx, fzero, fzero, fzero, fzero, fcvt binary64 vr] \<in> set es \<and>
       SendWheelTicks [tacho l, tacho r] \<in> set es))"
proof -
  have 1: "same_odometry s s1" by (simp add: s1 same_odometry_def)
  have d1: "pwm_drives s1" using assms(1) same_odometry_facts(3) [OF 1] by simp
  have "same_odometry s1 s2"
  proof (cases "duty_sent s1")
    case True
    then show ?thesis using s2 by (simp add: same_odometry_def)
  next
    case False
    then show ?thesis using s2 SetDuty_same_odometry [OF _ d1] by simp
  qed
  then have 2: "same_odometry s s2" using 1 by (simp add: same_odometry_def)
  have lr2: "left_esc_driver s2 = Some l" "right_esc_driver s2 = Some r" "pwm_drives s2" "small_moves s2"
    "\<not> left_esc_state_valid s2" "\<not> right_esc_state_valid s2"
    using 2 assms(1-4) same_odometry_facts [OF 2] by (auto simp: same_odometry_def small_moves_def)
  obtain s4 e where p: "ProcessStatusUpdate tb (with_readings l r s2) = Some (s4, e)"
    "last_ticks_left s4 = tacho l \<and> last_ticks_right s4 = tacho r \<and> last_ticks_valid s4 \<and> last_ticks_micros s4 = tb"
    "last_ticks_valid s2 \<longrightarrow> (\<exists>vx vr. wheel_twist (WheelTicksPerMeter s2) (tb - last_ticks_micros s2) (fst (moved s2)) (snd (moved s2))
         = Some (vx, vr) \<and>
       SendActualTwist [fcvt binary64 vx, fzero, fzero, fzero, fzero, fcvt binary64 vr] \<in> set e \<and>
       SendWheelTicks [tacho l, tacho r] \<in> set e)"
    using process_readings [OF lr2(1,2,4), of tb] by blast
  obtain s3 e2 e3 where q: "request_left (pwm_vt dbg) ta s2 = Some (s3, e2)" "request_right (pwm_vt dbg) tb s3 = Some (s4, e3)" "e = e2 @ e3"
    using pwm_requests [OF lr2(1-3,5,6), of dbg ta tb] p(1) by (auto simp: bind_eq_Some_conv)
  have "tick (pwm_vt dbg) em (t1, ta, tb, t2) s = Some (s4\<lparr>duty_sent := False\<rparr>, e1 @ e2 @ e3 @ disconnected t2 s4)"
    using s2 q by (simp add: tick_def flip: s1)
  then show ?thesis
    using p(2,3) q(3) 2 same_odometry_facts(1) [OF 2] by (auto simp: same_odometry_def)
qed


subsection \<open>Commands\<close>

lemma clamp_range: "proper x \<Longrightarrow> clamp x = NaN \<or> unit_duty (clamp x)"
  by (cases x) (auto simp: clamp_def split: if_splits)

lemma clamp_not_NaN: "clamp x = NaN \<longleftrightarrow> x = NaN"
  by (cases x) (auto simp: clamp_def)

lemma representable_bounds: "representable binary32 1024" "representable binary32 512"
  "representable binary32 524288" "representable binary32 525312"
  by code_simp+

lemma half_mag_le: "mag_le (1 / 2) (flt_lit binary32 (1 / 2))"
  by code_simp

text \<open>The wheel speeds of a command of moderate size are finite.\<close>

lemma twist_speeds_mag_le:
  assumes "mag_le 1024 x0" "mag_le 1024 x5" "mag_le 1024 w"
  shows "mag_le 525312 (fst (twist_speeds w x0 x5)) \<and> mag_le 525312 (snd (twist_speeds w x0 x5))"
proof -
  note rep = representable_bounds
  have lin: "mag_le 1024 (fcvt binary32 x0)" "mag_le 1024 (fcvt binary32 x5)" "mag_le 1024 (fcvt binary32 w)"
    using assms rep(1) by (simp_all add: mag_le_fcvt)
  have "mag_le (1 / 2 * 1024) (fmul binary32 (flt_lit binary32 (1 / 2)) (fcvt binary32 w))"
    by (rule mag_le_fmul [OF _ half_mag_le lin(3)]) (simp add: rep(2))
  then have "mag_le 512 (fmul binary32 (flt_lit binary32 (1 / 2)) (fcvt binary32 w))" by simp
  then have "mag_le (512 * 1024) (fmul binary32 (fmul binary32 (flt_lit binary32 (1 / 2)) (fcvt binary32 w)) (fcvt binary32 x5))"
    by (intro mag_le_fmul) (simp_all add: rep(3) lin(2))
  then have turn: "mag_le 524288 (fmul binary32 (fmul binary32 (flt_lit binary32 (1 / 2)) (fcvt binary32 w)) (fcvt binary32 x5))"
    by simp
  have "mag_le (1024 + 524288) (fadd binary32 (fcvt binary32 x0) t)" if "mag_le 524288 t" for t
    using that lin(1) rep(4) by (intro mag_le_fadd) simp_all
  then have "mag_le 525312 (fadd binary32 (fcvt binary32 x0) t)" if "mag_le 524288 t" for t using that by force
  then show ?thesis using turn by (simp add: twist_speeds_def Let_def fsub_def)
qed

lemma proper_twist_speeds:
  assumes "proper x0" "proper x5" "proper w"
  shows "proper (fst (twist_speeds w x0 x5))" "proper (snd (twist_speeds w x0 x5))"
proof -
  have "proper (flt_lit binary32 (1 / 2))" using half_mag_le mag_le_proper by blast
  then show "proper (fst (twist_speeds w x0 x5))" "proper (snd (twist_speeds w x0 x5))"
    using assms by (simp_all add: twist_speeds_def Let_def fsub_def proper_ops)
qed

text \<open>
  C22: Whatever twist is commanded, the duty cycle kept for each wheel is between -1 and 1 or
  NaN, and it is a number whenever the command and the wheel distance are at most 1024 in
  magnitude; a message of the wrong length changes nothing.
\<close>

theorem twist_duty_range:
  assumes "OnControlTwistChanged vt em now v len s = Some (s', es)" "list_all proper v" "proper (WheelDistance s)"
  shows "if len = 6
    then (unit_duty (speed_l s') \<or> speed_l s' = NaN) \<and> (unit_duty (speed_r s') \<or> speed_r s' = NaN) \<and>
         last_duty_received_micros s' = now \<and>
         (list_all (mag_le 1024) v \<and> mag_le 1024 (WheelDistance s) \<longrightarrow> unit_duty (speed_l s') \<and> unit_duty (speed_r s'))
    else s' = s \<and> es = []"
proof (cases "len = 6")
  case True
  define l r where "l = fst (twist_speeds (WheelDistance s) (v ! 0) (v ! 5))"
    and "r = snd (twist_speeds (WheelDistance s) (v ! 0) (v ! 5))"
  let ?s1 = "s\<lparr>last_duty_received_micros := now, speed_r := clamp r, speed_l := clamp l\<rparr>"
  have len: "5 < length v" and res: "(if duty_sent ?s1 then Some (?s1, []) else SetDuty vt em ?s1) = Some (s', es)"
    using assms(1) True
    by (auto simp: OnControlTwistChanged_def l_def r_def split_def Let_def aget_def split: Option.bind_splits if_splits)
  have sp: "speed_l s' = clamp l" "speed_r s' = clamp r" "last_duty_received_micros s' = now"
    using res by (auto simp: SetDuty_def bind_eq_Some_conv split: if_splits)
  have el: "v ! 0 \<in> set v" "v ! 5 \<in> set v" using len by (auto intro: nth_mem)
  then have "proper l" "proper r"
    using assms(2,3) proper_twist_speeds [of "v ! 0" "v ! 5" "WheelDistance s"] by (auto simp: l_def r_def list_all_iff)
  moreover have "l \<noteq> NaN \<and> r \<noteq> NaN" if "list_all (mag_le 1024) v" "mag_le 1024 (WheelDistance s)"
    using that el twist_speeds_mag_le [of "v ! 0" "v ! 5" "WheelDistance s"] mag_le_proper
    by (auto simp: l_def r_def list_all_iff)
  ultimately show ?thesis
    using True clamp_range clamp_not_NaN sp by metis
next
  case False
  then show ?thesis using assms(1) by (simp add: OnControlTwistChanged_def)
qed


definition example_drive :: "pwm_motor_driver diff_drive" where
  "example_drive =
     (let l = (SetEncoder 10 11 (SetPWM (Some 1) 1 2 pwm_motor_init))\<lparr>started := True, state_callback := Some LeftESC\<rparr>;
          r = (SetEncoder 12 13 (SetPWM (Some 3) 0 1 pwm_motor_init))\<lparr>started := True, state_callback := Some RightESC\<rparr>
      in (SetDrivers (Some l) (Some r) diff_drive_init)
           \<lparr>speed_l := Fin False (1 / 2), speed_r := Fin True (1 / 2), last_ticks_valid := True\<rparr>)"

lemma example_drive_ok: "pwm_drives example_drive"
  by (auto simp: drives_def example_drive_def Let_def SetDrivers_def SetEncoder_def SetPWM_def
      pwm_motor_init_def diff_drive_init_def pwm_ready_def)

lemma example_small_moves: "small_moves example_drive"
  by (simp add: small_moves_def moved_def example_drive_def Let_def SetDrivers_def SetEncoder_def SetPWM_def
      pwm_motor_init_def diff_drive_init_def)

lemma wheel_distance_mag_le: "mag_le 1024 (WheelDistance example_drive)"
  by code_simp

theorem twist_duty_range_witness:
  "unit_duty (speed_l (fst (the (OnControlTwistChanged (pwm_vt True) False 7
      [Fin False 3, fzero, fzero, fzero, fzero, Fin True 1] 6 (example_drive\<lparr>duty_sent := True\<rparr>)))))"
proof -
  let ?s = "example_drive\<lparr>duty_sent := True\<rparr>" and ?v = "[Fin False 3, fzero, fzero, fzero, fzero, Fin True 1]"
  obtain s' where r: "OnControlTwistChanged (pwm_vt True) False 7 ?v 6 ?s = Some (s', [])"
    by (auto simp: OnControlTwistChanged_def aget_def split_def Let_def)
  have w: "mag_le 1024 (WheelDistance ?s)" using wheel_distance_mag_le by simp
  then have "proper (WheelDistance ?s)" using mag_le_proper by blast
  from twist_duty_range [OF r _ this] w have "unit_duty (speed_l s')" by simp
  then show ?thesis using r by simp
qed



lemma Pwm_SetDuty_defined:
  assumes "unit_duty d" "pwm m = Some p"
  shows "\<exists>cs. vt_SetDuty (pwm_vt dbg) d m = Some (m, cs)"
proof -
  obtain s a where d: "d = Fin s a" "0 \<le> a" "a \<le> 1" using assms(1) by (cases d) auto
  obtain w where "pwm_width (Fin False a) = Some w" using pwm_width_unit [OF d(2,3)] by blast
  moreover have "\<not> flt_less fzero d \<Longrightarrow> fneg d = Fin False a \<or> fneg d = Fin True 0"
    using d by (auto split: if_splits)
  moreover have "flt_less fzero d \<Longrightarrow> d = Fin False a" using d by (auto split: if_splits)
  ultimately show ?thesis
    using assms(2) pwm_width_zero by (cases "flt_less fzero d") (auto simp: pwm_vt_def Pwm_SetDuty_def)
qed

lemma SetDuty_pwm_defined:
  assumes "pwm_drives s" "unit_duty (speed_l s)" "unit_duty (speed_r s)"
  shows "\<exists>s' es. SetDuty (pwm_vt dbg) em s = Some (s', es)"
proof -
  obtain l r where lr: "left_esc_driver s = Some l" "right_esc_driver s = Some r" "pwm_ready l" "pwm_ready r"
    using assms(1) by (rule drivesE)
  obtain p q where pq: "pwm l = Some p" "pwm r = Some q" using lr(3,4) by (auto simp: pwm_ready_def)
  have u: "unit_duty (if em then fzero else speed_l s)" "unit_duty (if em then fzero else speed_r s)"
    using assms(2,3) by simp_all
  show ?thesis
    using Pwm_SetDuty_defined [OF u(1) pq(1), of dbg] Pwm_SetDuty_defined [OF u(2) pq(2), of dbg] lr(1,2)
    by (auto simp: SetDuty_def)
qed

lemma net_edges_abs: "\<bar>net_edges es\<bar> \<le> int (length es)"
  by (induction es) (auto split: if_splits)

lemma encoder_edges_keeps [simp]:
  "pwm (encoder_edges es m) = pwm m" "channel_1 (encoder_edges es m) = channel_1 m"
  "channel_2 (encoder_edges es m) = channel_2 m" "started (encoder_edges es m) = started m"
  "state_callback (encoder_edges es m) = state_callback m"
  by (induction es arbitrary: m) (simp_all add: HandleEncoderTick_def Let_def)

lemma pwm_ports_encoder_edges [simp]: "pwm_ports (encoder_edges es m) = pwm_ports m"
  by (simp split: option.split)

text \<open>
  C23: Between two periods, fewer than \<open>2 ^ 30\<close> encoder edges per wheel are counted exactly,
  also when the counters wrap: the published twist is computed from the forward minus the
  backward edges of each wheel and the time between the two readings.
\<close>

theorem odometry_counts_edges:
  fixes s :: "pwm_motor_driver diff_drive"
  assumes "pwm_drives s" "left_esc_driver s = Some l" "right_esc_driver s = Some r"
    and "last_ticks_valid s" "last_ticks_left s = tacho l" "last_ticks_right s = tacho r"
    and "\<not> left_esc_state_valid s" "\<not> right_esc_state_valid s"
    and "unit_duty (speed_l s)" "unit_duty (speed_r s)"
    and "length el < 2 ^ 30" "length er < 2 ^ 30"
  shows "\<exists>s' es vx vr. tick (pwm_vt dbg) em (t1, ta, tb, t2)
      (s\<lparr>left_esc_driver := Some (encoder_edges el l), right_esc_driver := Some (encoder_edges er r)\<rparr>) = Some (s', es) \<and>
    wheel_twist (WheelTicksPerMeter s) (tb - last_ticks_micros s) (net_edges el) (net_edges er) = Some (vx, vr) \<and>
    SendActualTwist [fcvt binary64 vx, fzero, fzero, fzero, fzero, fcvt binary64 vr] \<in> set es \<and>
    last_ticks_left s' = tacho (encoder_edges el l) \<and> last_ticks_right s' = tacho (encoder_edges er r)"
proof -
  let ?s = "s\<lparr>left_esc_driver := Some (encoder_edges el l), right_esc_driver := Some (encoder_edges er r)\<rparr>"
  have dr: "pwm_drives ?s"
    using assms(1-3) by (simp add: drives_def pwm_ready_def del: pwm_ports.simps)
  have b: "length el < 2 ^ 31" "length er < 2 ^ 31" using assms(11,12) by simp_all
  have mv: "moved ?s = (net_edges el, net_edges er)"
    using tacho_difference [OF b(1), of l] tacho_difference [OF b(2), of r] assms(5,6) by (simp add: moved_def)
  have "int (length el) < 2 ^ 30" "int (length er) < 2 ^ 30" using assms(11,12) by simp_all
  then have "\<bar>net_edges el\<bar> < 2 ^ 30" "\<bar>net_edges er\<bar> < 2 ^ 30"
    using net_edges_abs [of el] net_edges_abs [of er] by linarith+
  then have sm: "small_moves ?s" using assms(7,8) by (simp add: small_moves_def mv)
  let ?s1 = "if duty_timeout t1 ?s then ?s\<lparr>speed_r := fzero, speed_l := fzero\<rparr> else ?s"
  have "pwm_drives ?s1" "unit_duty (speed_l ?s1)" "unit_duty (speed_r ?s1)" using dr assms(9,10) by simp_all
  then obtain s2 e1 where "SetDuty (pwm_vt dbg) em ?s1 = Some (s2, e1)" using SetDuty_pwm_defined by blast
  then have "\<exists>s2 e1. (if duty_sent ?s1 then Some (?s1, []) else SetDuty (pwm_vt dbg) em ?s1) = Some (s2, e1)"
    by (cases "duty_sent ?s1") auto
  then obtain s3 e3 where x: "(if duty_sent ?s1 then Some (?s1, []) else SetDuty (pwm_vt dbg) em ?s1) = Some (s3, e3)"
    by blast
  have drv: "left_esc_driver ?s = Some (encoder_edges el l)" "right_esc_driver ?s = Some (encoder_edges er r)" by simp_all
  have f: "last_ticks_valid ?s" "WheelTicksPerMeter ?s = WheelTicksPerMeter s" "last_ticks_micros ?s = last_ticks_micros s"
    using assms(4) by simp_all
  from tick_pwm [OF dr drv sm refl x, of ta tb t2] f(1) show ?thesis
    unfolding mv fst_conv snd_conv f(2,3) by blast
qed

theorem odometry_counts_edges_witness:
  "\<exists>s' es vx vr l r. left_esc_driver example_drive = Some l \<and> right_esc_driver example_drive = Some r \<and>
    tick (pwm_vt True) False (40000, 40001, 40002, 40003)
      (example_drive\<lparr>left_esc_driver := Some (encoder_edges [False, False] l), right_esc_driver := Some (encoder_edges [True] r)\<rparr>) = Some (s', es) \<and>
    wheel_twist (WheelTicksPerMeter example_drive) 40002 (-2) 1 = Some (vx, vr) \<and>
    SendActualTwist [fcvt binary64 vx, fzero, fzero, fzero, fzero, fcvt binary64 vr] \<in> set es"
proof -
  obtain l r where lr: "left_esc_driver example_drive = Some l" "right_esc_driver example_drive = Some r"
    "tacho l = 0" "tacho r = 0"
    by (simp add: example_drive_def Let_def SetDrivers_def SetEncoder_def SetPWM_def pwm_motor_init_def)
  show ?thesis
    using odometry_counts_edges [OF example_drive_ok lr(1,2), of "[False, False]" "[True]" True False 40000 40001 40002 40003] lr
    by (force simp: example_drive_def Let_def SetDrivers_def diff_drive_init_def)
qed

text \<open>
  A NaN in a command passes the clamp, and the conversion of the duty cycle to a timer width
  then has no defined result.
\<close>

lemma nan_twist_undefined:
  assumes "pwm_drives s" "\<not> duty_sent s" "\<not> em"
  shows "OnControlTwistChanged (pwm_vt dbg) em now (NaN # replicate 5 fzero) 6 s = None"
proof -
  obtain l r where lr: "left_esc_driver s = Some l" "right_esc_driver s = Some r" using assms(1) by (rule drivesE)
  have n: "fadd binary32 NaN t = NaN" for t by (cases t) simp_all
  have "twist_speeds (WheelDistance s) NaN fzero = (NaN, NaN)" by (simp add: twist_speeds_def Let_def fsub_def n)
  moreover have "flt_of_int binary32 FULL_WIDTH = Fin False 16380" by (rule full_width)
  then have "vt_SetDuty (pwm_vt dbg) NaN m = None" for m
    by (cases "pwm m") (simp_all add: pwm_vt_def Pwm_SetDuty_def pwm_width_def)
  ultimately show ?thesis
    using assms(2,3) lr
    by (simp add: OnControlTwistChanged_def aget_def clamp_def SetDuty_def numeral_eq_Suc)
qed

end
