(* ===== verification/Safety.thy ===== *)
theory Safety
  imports Emergency Diff_Drive
begin

text \<open>
  The emergency stop across threads. An emergency is raised by the emergency service under its
  own mutex; the event is broadcast after that mutex is released, collected by the dispatcher
  of \<open>src/main.cpp\<close>, and handed to the drive service, which waits for the mutex of its own
  state; in between the drive service may be sending duty cycles it computed before the
  emergency. The steps below are the sections between which the scheduler can switch; the only
  thing an operation of the drive service reads from outside its mutex is the emergency state,
  so an operation is its start, where that state is read, and its end, where the rest happens.
  The run starts when the dispatcher has registered for the event.
\<close>

subsection \<open>The dispatcher\<close>

datatype dispatcher = Waiting | Taken | Stopping | Running

datatype dd_op =
    OpTwist u32 "flt list" u32
  | OpTick "u32 \<times> u32 \<times> u32 \<times> u32"
  | OpStop

fun run_op :: "bool \<Rightarrow> bool \<Rightarrow> dd_op \<Rightarrow> pwm_motor_driver diff_drive \<Rightarrow> pwm_motor_driver dd_result" where
  "run_op dbg em (OpTwist now v len) d = OnControlTwistChanged (pwm_vt dbg) em now v len d"
| "run_op dbg em (OpTick ts) d = tick (pwm_vt dbg) em ts d"
| "run_op dbg em OpStop d = stop_motors (pwm_vt dbg) em d"

record system =
  emergency :: emergency_service
  pending :: nat
  flags :: u32
  dispatch :: dispatcher
  drive :: "pwm_motor_driver diff_drive"
  busy :: "(dd_op \<times> bool) option"
  hw :: pwm_hw

text \<open>The remaining work of threads that are under way.\<close>

inductive internal :: "bool \<Rightarrow> system \<Rightarrow> system \<Rightarrow> bool" for dbg where
  broadcast: "pending s = Suc n \<Longrightarrow>
    internal dbg s (s\<lparr>pending := n, flags := flags s OR EMERGENCY_CHANGED\<rparr>)"
| take: "dispatch s = Waiting \<Longrightarrow> flags s AND EMERGENCY_CHANGED \<noteq> 0 \<Longrightarrow>
    internal dbg s (s\<lparr>flags := 0, dispatch := Taken\<rparr>)"
| check_on: "dispatch s = Taken \<Longrightarrow> GetEmergency (emergency s) \<Longrightarrow> internal dbg s (s\<lparr>dispatch := Stopping\<rparr>)"
| check_off: "dispatch s = Taken \<Longrightarrow> \<not> GetEmergency (emergency s) \<Longrightarrow> internal dbg s (s\<lparr>dispatch := Waiting\<rparr>)"
| lock: "dispatch s = Stopping \<Longrightarrow> busy s = None \<Longrightarrow>
    internal dbg s (s\<lparr>dispatch := Running, busy := Some (OpStop, GetEmergency (emergency s))\<rparr>)"
| finish: "busy s = Some (op, em) \<Longrightarrow> run_op dbg em op (drive s) = Some (d', es) \<Longrightarrow>
    internal dbg s (s\<lparr>drive := d', hw := drive_hw es (hw s), busy := None,
      dispatch := (if op = OpStop then Waiting else dispatch s)\<rparr>)"

text \<open>New events: the emergency state changes, a command or a period begins, the service restarts, wheels turn.\<close>

inductive external :: "system \<Rightarrow> system \<Rightarrow> bool" where
  update: "UpdateEmergency add clear (emergency s) = (e', es) \<Longrightarrow>
    external s (s\<lparr>emergency := e', pending := pending s + (if es = [] then 0 else 1)\<rparr>)"
| message: "external s (s\<lparr>emergency := (emergency s)\<lparr>last_high_level_emergency_message := t\<rparr>\<rparr>)"
| begin_op: "busy s = None \<Longrightarrow> op \<noteq> OpStop \<Longrightarrow>
    external s (s\<lparr>busy := Some (op, GetEmergency (emergency s))\<rparr>)"
| restart: "external s (s\<lparr>drive := DiffDrive_OnStop (drive s)\<rparr>)"
| edge_left: "left_esc_driver (drive s) = Some l \<Longrightarrow>
    external s (s\<lparr>drive := (drive s)\<lparr>left_esc_driver := Some (HandleEncoderTick b l)\<rparr>\<rparr>)"
| edge_right: "right_esc_driver (drive s) = Some r \<Longrightarrow>
    external s (s\<lparr>drive := (drive s)\<lparr>right_esc_driver := Some (HandleEncoderTick b r)\<rparr>\<rparr>)"

inductive reachable :: "bool \<Rightarrow> system \<Rightarrow> bool" for dbg where
  init: "pwm_drives d \<Longrightarrow> motors_off pwm_ports d h \<Longrightarrow>
    reachable dbg \<lparr>emergency = emergency_init, pending = 0, flags = 0, dispatch = Waiting, drive = d, busy = None, hw = h\<rparr>"
| internal_step: "reachable dbg s \<Longrightarrow> internal dbg s t \<Longrightarrow> reachable dbg t"
| external_step: "reachable dbg s \<Longrightarrow> external s t \<Longrightarrow> reachable dbg t"

inductive_cases internalE: "internal dbg s t"
inductive_cases externalE: "external s t"

subsection \<open>An emergency is never overlooked\<close>

definition alarm :: "system \<Rightarrow> bool" where
  "alarm s \<longleftrightarrow> 0 < pending s \<or> flags s AND EMERGENCY_CHANGED \<noteq> 0 \<or> dispatch s \<noteq> Waiting"

definition stopped :: "system \<Rightarrow> bool" where
  "stopped s \<longleftrightarrow> motors_off pwm_ports (drive s) (hw s)"

definition stale :: "system \<Rightarrow> bool" where
  "stale s \<longleftrightarrow> (case busy s of Some (op, em) \<Rightarrow> op \<noteq> OpStop \<and> \<not> em | None \<Rightarrow> False)"

definition safe_inv :: "system \<Rightarrow> bool" where
  "safe_inv s \<longleftrightarrow> pwm_drives (drive s) \<and>
     (dispatch s = Running \<longleftrightarrow> (\<exists>em. busy s = Some (OpStop, em))) \<and>
     (GetEmergency (emergency s) \<longrightarrow> \<not> alarm s \<longrightarrow> stopped s \<and> \<not> stale s)"

lemma flag_set: "(f OR EMERGENCY_CHANGED) AND EMERGENCY_CHANGED \<noteq> 0"
  by (simp add: EMERGENCY_CHANGED_def bit_facts)

text \<open>The end of an operation: the drivers stay usable, and the motors are off if the operation saw the emergency.\<close>

lemma stop_motors_stops:
  assumes "pwm_drives d"
  shows "\<exists>d' es. stop_motors (pwm_vt dbg) em d = Some (d', es) \<and> pwm_drives d' \<and>
    motor_ports pwm_ports d' = motor_ports pwm_ports d \<and> motors_off pwm_ports d' (drive_hw es h)"
proof -
  let ?d = "d\<lparr>speed_l := fzero, speed_r := fzero\<rparr>"
  have ok: "pwm_drives ?d" using assms by simp
  obtain d' es where r: "SetDuty (pwm_vt dbg) em ?d = Some (d', es)" "motors_off pwm_ports d' (drive_hw es h)"
    using pwm_motor.SetDuty_zero_stops [OF ok, of em False False dbg h] by auto
  then show ?thesis
    using pwm_motor.SetDuty_keeps_drives [OF r(1) ok] by (simp add: stop_motors_def)
qed

lemma twist_cases:
  assumes "OnControlTwistChanged vt em now v len d = Some (d', es)"
  obtains (unsent) "left_esc_driver d' = left_esc_driver d" "right_esc_driver d' = right_esc_driver d" "es = []"
  | (sent) d1 where "left_esc_driver d1 = left_esc_driver d" "right_esc_driver d1 = right_esc_driver d"
      "SetDuty vt em d1 = Some (d', es)"
proof (cases "len = 6")
  case True
  then obtain x y where xy: "aget v 0 = Some x" "aget v 5 = Some y"
    using assms by (auto simp: OnControlTwistChanged_def bind_eq_Some_conv)
  let ?d1 = "d\<lparr>last_duty_received_micros := now, speed_r := clamp (snd (twist_speeds (WheelDistance d) x y)),
    speed_l := clamp (fst (twist_speeds (WheelDistance d) x y))\<rparr>"
  have r: "(if duty_sent ?d1 then Some (?d1, []) else SetDuty vt em ?d1) = Some (d', es)"
    using assms True xy by (simp add: OnControlTwistChanged_def split_def Let_def)
  show ?thesis
  proof (cases "duty_sent ?d1")
    case True
    then show ?thesis using r by (intro unsent) auto
  next
    case False
    then show ?thesis using r by (intro sent [of ?d1]) auto
  qed
next
  case False
  then show ?thesis using assms by (intro unsent) (auto simp: OnControlTwistChanged_def)
qed

lemma twist_keeps:
  assumes "OnControlTwistChanged (pwm_vt dbg) em now v len d = Some (d', es)" "pwm_drives d"
  shows "pwm_drives d' \<and> (em \<longrightarrow> motors_off pwm_ports d h \<longrightarrow> motors_off pwm_ports d' (drive_hw es h))"
  using assms(1)
proof (cases rule: twist_cases)
  case unsent
  then show ?thesis using assms(2) by (simp add: motors_off_def motor_ports_def drives_def)
next
  case (sent d1)
  then have d1: "pwm_drives d1" using assms(2) by (simp add: drives_def)
  show ?thesis
    using pwm_motor.SetDuty_keeps_drives [OF sent(3) d1] pwm_motor.SetDuty_zero_stops [OF d1, of em False False dbg h] sent(3)
    by auto
qed

lemma tick_off:
  assumes "tick (pwm_vt dbg) em ts d = Some (d', es)" "pwm_drives d"
  shows "pwm_drives d' \<and> (em \<longrightarrow> motors_off pwm_ports d h \<longrightarrow> motors_off pwm_ports d' (drive_hw es h))"
proof -
  obtain t1 ta tb t2 where ts: "ts = (t1, ta, tb, t2)" by (cases ts)
  note keeps = pwm_motor.tick_keeps [OF assms(1) [unfolded ts] assms(2)]
  show ?thesis
  proof (cases "duty_sent d")
    case True
    then have "pwm_cmds es = []"
      using pwm_motor.tick_sends_once [OF assms(1) [unfolded ts] assms(2)] by simp
    then show ?thesis using keeps by (simp add: motors_off_def drive_hw_def)
  next
    case False
    then show ?thesis using keeps pwm_motor.tick_stops [OF assms(1) [unfolded ts] assms(2)] by blast
  qed
qed

lemma run_op_keeps:
  assumes "run_op dbg em op d = Some (d', es)" "pwm_drives d"
  shows "pwm_drives d' \<and> (em \<longrightarrow> motors_off pwm_ports d h \<longrightarrow> motors_off pwm_ports d' (drive_hw es h))
    \<and> (op = OpStop \<longrightarrow> motors_off pwm_ports d' (drive_hw es h))"
proof (cases op)
  case (OpTwist now v len)
  then show ?thesis using assms twist_keeps by simp
next
  case (OpTick ts)
  then show ?thesis using assms tick_off by simp
next
  case OpStop
  then show ?thesis using assms stop_motors_stops [OF assms(2), of dbg em h] by auto
qed


lemma update_raises:
  assumes "UpdateEmergency add clear e = (e', es)" "\<not> GetEmergency e" "GetEmergency e'"
  shows "es \<noteq> []"
  using assms by (auto simp: UpdateEmergency_def GetEmergency_def Let_def split: if_splits)

lemma drives_edges:
  "left_esc_driver d = Some l \<Longrightarrow> pwm_drives (d\<lparr>left_esc_driver := Some (HandleEncoderTick b l)\<rparr>) = pwm_drives d"
  "right_esc_driver d = Some r \<Longrightarrow> pwm_drives (d\<lparr>right_esc_driver := Some (HandleEncoderTick b r)\<rparr>) = pwm_drives d"
  "left_esc_driver d = Some l \<Longrightarrow> motor_ports pwm_ports (d\<lparr>left_esc_driver := Some (HandleEncoderTick b l)\<rparr>) = motor_ports pwm_ports d"
  "right_esc_driver d = Some r \<Longrightarrow> motor_ports pwm_ports (d\<lparr>right_esc_driver := Some (HandleEncoderTick b r)\<rparr>) = motor_ports pwm_ports d"
proof -
  have k: "pwm_ready (HandleEncoderTick b m) = pwm_ready m" "pwm_ports (HandleEncoderTick b m) = pwm_ports m"
    "state_callback (HandleEncoderTick b m) = state_callback m" for m
    by (simp_all add: HandleEncoderTick_def pwm_ready_def Let_def split: option.split)
  show "left_esc_driver d = Some l \<Longrightarrow> pwm_drives (d\<lparr>left_esc_driver := Some (HandleEncoderTick b l)\<rparr>) = pwm_drives d"
    "right_esc_driver d = Some r \<Longrightarrow> pwm_drives (d\<lparr>right_esc_driver := Some (HandleEncoderTick b r)\<rparr>) = pwm_drives d"
    "left_esc_driver d = Some l \<Longrightarrow> motor_ports pwm_ports (d\<lparr>left_esc_driver := Some (HandleEncoderTick b l)\<rparr>) = motor_ports pwm_ports d"
    "right_esc_driver d = Some r \<Longrightarrow> motor_ports pwm_ports (d\<lparr>right_esc_driver := Some (HandleEncoderTick b r)\<rparr>) = motor_ports pwm_ports d"
    by (simp_all add: drives_def motor_ports_def k del: pwm_ports.simps split: option.split)
qed

lemma drives_OnStop [simp]:
  "drives R P C (DiffDrive_OnStop d) = drives R P C d" "motor_ports P (DiffDrive_OnStop d) = motor_ports P d"
  by (simp_all add: DiffDrive_OnStop_def)

lemmas safe_defs = safe_inv_def alarm_def stopped_def stale_def

lemma external_safe:
  assumes "external s t" "safe_inv s"
  shows "safe_inv t"
  using assms
proof (cases rule: external.cases)
  case (update add clear e' es)
  have "GetEmergency e' \<Longrightarrow> GetEmergency (emergency s) \<or> es \<noteq> []" using update_raises [OF update(2)] by blast
  then show ?thesis using assms(2) by (auto simp: update(1) safe_defs)
next
  case (edge_left l b)
  then show ?thesis using assms(2) by (simp add: safe_defs drives_edges motors_off_def)
next
  case (edge_right r b)
  then show ?thesis using assms(2) by (simp add: safe_defs drives_edges motors_off_def)
next
  case (begin_op op)
  then show ?thesis using assms(2) by (auto simp: safe_defs)
qed (auto simp: safe_defs GetEmergency_def motors_off_def)

lemma internal_safe:
  assumes "internal dbg s t" "safe_inv s"
  shows "safe_inv t"
  using assms
proof (cases rule: internal.cases)
  case (broadcast n)
  then show ?thesis using assms(2) flag_set by (auto simp: safe_defs)
next
  case (finish op em d' es)
  have k: "pwm_drives d'" "em \<Longrightarrow> motors_off pwm_ports (drive s) (hw s) \<Longrightarrow> motors_off pwm_ports d' (drive_hw es (hw s))"
    "op = OpStop \<Longrightarrow> motors_off pwm_ports d' (drive_hw es (hw s))"
    using run_op_keeps [OF finish(3), of "hw s"] assms(2) by (auto simp: safe_inv_def)
  show ?thesis
  proof (cases "op = OpStop")
    case True
    then show ?thesis using k by (simp add: finish(1) safe_defs)
  next
    case False
    then show ?thesis using k finish(2) assms(2) by (auto simp: finish(1) safe_defs)
  qed
qed (auto simp: safe_defs)

lemma reachable_safe: "reachable dbg s \<Longrightarrow> safe_inv s"
proof (induction rule: reachable.induct)
  case (init d h)
  then show ?case by (simp add: safe_defs)
next
  case (internal_step s t)
  then show ?case by (blast intro: internal_safe)
next
  case (external_step s t)
  then show ?case by (blast intro: external_safe)
qed

text \<open>Each step of work under way brings it closer to its end.\<close>

definition work :: "system \<Rightarrow> nat" where
  "work s = 6 * pending s + (if flags s AND EMERGENCY_CHANGED \<noteq> 0 then 5 else 0)
     + (case dispatch s of Waiting \<Rightarrow> 0 | Taken \<Rightarrow> 4 | Stopping \<Rightarrow> 3 | Running \<Rightarrow> 0)
     + (if busy s = None then 0 else 1)"

lemma internal_work: "internal dbg s t \<Longrightarrow> safe_inv s \<Longrightarrow> work t < work s"
proof (induction rule: internal.induct)
  case (finish s op em d' es)
  then show ?case by (cases "dispatch s") (auto simp: work_def safe_inv_def)
qed (simp_all add: work_def)

lemma internal_emergency: "internal dbg s t \<Longrightarrow> emergency t = emergency s"
  by (induction rule: internal.induct) simp_all

lemma internal_run:
  assumes "(internal dbg)\<^sup>*\<^sup>* s t" "safe_inv s"
  shows "safe_inv t \<and> work t \<le> work s \<and> emergency t = emergency s"
  using assms(1)
proof (induction rule: rtranclp_induct)
  case (step u v)
  then show ?case using internal_safe internal_work internal_emergency by (metis less_le_trans less_imp_le)
qed (simp add: assms(2))

lemma internal_quiet:
  assumes "safe_inv s" "\<nexists>t. internal dbg s t" "busy s = None"
  shows "\<not> alarm s"
proof -
  have "pending s = 0" using assms(2) internal.broadcast by (metis not0_implies_Suc)
  moreover have "dispatch s \<noteq> Taken" using assms(2) internal.check_on internal.check_off by blast
  moreover have "dispatch s \<noteq> Stopping" using assms(2,3) internal.lock by blast
  moreover have "dispatch s \<noteq> Running" using assms(1,3) by (simp add: safe_inv_def)
  moreover from calculation have "dispatch s = Waiting" by (cases "dispatch s") auto
  moreover from this have "flags s AND EMERGENCY_CHANGED = 0" using assms(2) internal.take by blast
  ultimately show ?thesis by (simp add: alarm_def)
qed

text \<open>An operation under way is finished with the drive state it started with.\<close>

definition completes :: "bool \<Rightarrow> system \<Rightarrow> bool" where
  "completes dbg s \<longleftrightarrow> (case busy s of Some (op, em) \<Rightarrow> run_op dbg em op (drive s) \<noteq> None | None \<Rightarrow> True)"

lemma internal_completes: "internal dbg s t \<Longrightarrow> safe_inv s \<Longrightarrow> completes dbg s \<Longrightarrow> completes dbg t"
proof (induction rule: internal.induct)
  case (lock s)
  then show ?case using stop_motors_stops [of "drive s" dbg] by (fastforce simp: completes_def safe_inv_def)
qed (auto simp: completes_def split: option.splits)

lemma internal_run_completes:
  assumes "(internal dbg)\<^sup>*\<^sup>* s t" "safe_inv s" "completes dbg s"
  shows "completes dbg t"
  using assms(1)
proof (induction rule: rtranclp_induct)
  case (step u v)
  then show ?case using internal_completes internal_run [OF step(1) assms(2)] by blast
qed (rule assms(3))

lemma internal_terminates:
  "safe_inv s \<Longrightarrow> \<exists>t. (internal dbg)\<^sup>*\<^sup>* s t \<and> (\<nexists>u. internal dbg t u)"
proof (induction "work s" arbitrary: s rule: less_induct)
  case less
  show ?case
  proof (cases "\<exists>u. internal dbg s u")
    case True
    then obtain u where u: "internal dbg s u" by blast
    then obtain t where "(internal dbg)\<^sup>*\<^sup>* u t" "\<nexists>v. internal dbg t v"
      using less(1) [OF internal_work [OF u less(2)]] internal_safe [OF u less(2)] by blast
    then show ?thesis using u converse_rtranclp_into_rtranclp [of "internal dbg"] by blast
  qed blast
qed

lemma internal_bounded: "(internal dbg ^^ n) s t \<Longrightarrow> safe_inv s \<Longrightarrow> n + work t \<le> work s"
proof (induction n arbitrary: t)
  case (Suc n)
  then obtain u where u: "(internal dbg ^^ n) s u" "internal dbg u t" by auto
  then have "safe_inv u" using internal_run relpowp_imp_rtranclp Suc.prems(2) by metis
  then show ?case using Suc.IH [OF u(1) Suc.prems(2)] internal_work [OF u(2)] by simp
qed simp

lemma quiet_stopped:
  assumes "(internal dbg)\<^sup>*\<^sup>* s t" "\<nexists>u. internal dbg t u" "safe_inv s" "GetEmergency (emergency s)" "completes dbg s"
  shows "stopped t"
proof -
  have t: "safe_inv t" "GetEmergency (emergency t)" "completes dbg t"
    using internal_run [OF assms(1,3)] internal_run_completes [OF assms(1,3,5)] assms(4) by simp_all
  have "busy t = None"
  proof (rule ccontr)
    assume "busy t \<noteq> None"
    then obtain op em d' es where "busy t = Some (op, em)" "run_op dbg em op (drive t) = Some (d', es)"
      using t(3) by (auto simp: completes_def)
    then show False using assms(2) internal.finish by blast
  qed
  then show ?thesis using t internal_quiet [OF t(1) assms(2)] by (simp add: safe_inv_def)
qed

text \<open>
  C1: In every reachable interleaving of the emergency service, the dispatcher and the drive
  service: if an emergency is on and its event is neither waiting to be broadcast nor flagged
  nor being handled, the motors are off and no operation that would turn them on is under way.
\<close>

theorem emergency_handled_means_stopped:
  assumes "reachable dbg s" "GetEmergency (emergency s)" "\<not> alarm s"
  shows "stopped s \<and> \<not> stale s"
  using reachable_safe [OF assms(1)] assms(2,3) by (simp add: safe_inv_def)


text \<open>A run in which a duty cycle is on its way when the stop button is pressed.\<close>

definition boot_state :: system where
  "boot_state = \<lparr>emergency = emergency_init, pending = 0, flags = 0, dispatch = Waiting,
     drive = example_drive, busy = None, hw = (\<lambda>_. 0)\<rparr>"

definition racing_state :: system where
  "racing_state = boot_state\<lparr>emergency := \<lparr>reasons = STOP, last_high_level_emergency_message = 0\<rparr>,
     pending := 2, busy := Some (OpTwist 5 (Fin False (1 / 2) # replicate 5 fzero) 6, False)\<rparr>"

lemma boot_reachable: "reachable dbg boot_state"
  unfolding boot_state_def by (rule reachable.init) (simp_all add: example_drive_ok motors_off_def)

lemma racing_reachable: "reachable dbg racing_state"
proof -
  let ?e0 = "\<lparr>reasons = 0, last_high_level_emergency_message = 0\<rparr>"
  let ?s1 = "boot_state\<lparr>emergency := ?e0, pending := 1\<rparr>"
  let ?s2 = "?s1\<lparr>busy := Some (OpTwist 5 (Fin False (1 / 2) # replicate 5 fzero) 6, False)\<rparr>"
  have "UpdateEmergency 0 (-1) emergency_init = (?e0, BroadcastEvent EMERGENCY_CHANGED # Emergency_SendStatus ?e0)"
    by (simp add: UpdateEmergency_def emergency_init_def emergency_reason_defs Let_def)
  from external.update [of 0 "-1" boot_state, simplified boot_state_def system.simps, OF this]
  have "external boot_state ?s1" by (simp add: boot_state_def)
  then have 1: "reachable dbg ?s1" using boot_reachable reachable.external_step by blast
  have "external ?s1 (?s1\<lparr>busy := Some (OpTwist 5 (Fin False (1 / 2) # replicate 5 fzero) 6, GetEmergency (emergency ?s1))\<rparr>)"
    by (rule external.begin_op) (simp_all add: boot_state_def)
  then have 2: "reachable dbg ?s2" using 1 reachable.external_step by (simp add: GetEmergency_def)
  let ?e2 = "\<lparr>reasons = STOP, last_high_level_emergency_message = 0\<rparr>"
  have "UpdateEmergency STOP 0 (emergency ?s2) = (?e2, BroadcastEvent EMERGENCY_CHANGED # Emergency_SendStatus ?e2)"
    by (simp add: UpdateEmergency_def emergency_reason_defs Let_def)
  from external.update [OF this] have "external ?s2 racing_state" by (simp add: racing_state_def boot_state_def numeral_2_eq_2)
  then show ?thesis using 2 reachable.external_step by blast
qed

lemma racing_completes: "completes dbg racing_state"
proof -
  let ?d = "example_drive\<lparr>last_duty_received_micros := 5, speed_r := Fin True (1 / 2), speed_l := Fin False (1 / 2)\<rparr>"
  have "pwm_drives ?d" using example_drive_ok by simp
  moreover have "\<not> duty_sent ?d" by (simp add: example_drive_def Let_def SetDrivers_def diff_drive_init_def)
  ultimately have "(if duty_sent ?d then Some (?d, []) else SetDuty (pwm_vt dbg) False ?d) \<noteq> None"
    using SetDuty_pwm_defined [of ?d dbg False] by auto
  moreover have "twist_speeds (WheelDistance example_drive) (Fin False (1 / 2)) fzero = (Fin False (1 / 2), Fin True (1 / 2))"
    by code_simp
  moreover have "clamp (Fin False (1 / 2)) = Fin False (1 / 2)" "clamp (Fin True (1 / 2)) = Fin True (1 / 2)"
    by (simp_all add: clamp_def)
  ultimately show ?thesis
    by (simp add: completes_def racing_state_def boot_state_def OnControlTwistChanged_def aget_def numeral_eq_Suc Let_def split: if_splits)
qed

theorem emergency_handled_means_stopped_witness: "stopped boot_state \<and> \<not> stale boot_state"
  using emergency_handled_means_stopped [OF boot_reachable [of True]]
  by (simp add: boot_state_def alarm_def GetEmergency_def emergency_init_def emergency_reason_defs)


end
