(* ===== verification/Charger.thy ===== *)
theory Charger
  imports Ieee_Float
begin

text \<open>
  Battery chargers: the interface \<open>ChargerDriver\<close> (\<open>src/drivers/charger/charger.hpp\<close>) as a
  table of operations with its contract as a locale, and the driver of the BQ2579
  (\<open>src/drivers/charger/bq_2579\<close>), which talks to the chip over I2C. The I2C master of the
  HAL is a parameter: it takes the bus, the device address, the bytes to send and the number of
  bytes to receive, and gives whether the transfer succeeded, the contents of the receive buffer
  and the new state of the bus.
\<close>

subsection \<open>The interface\<close>

datatype CHARGER_STATUS =
    NOT_CHARGING | TRICKLE | PRE_CHARGE | CC | CV | TOP_OFF | DONE | FAULT | COMMS_ERROR | UNKNOWN

record 'c charger_vt =
  vt_setChargingCurrent :: "flt \<Rightarrow> bool \<Rightarrow> 'c \<Rightarrow> (bool \<times> 'c) option"
  vt_setPreChargeCurrent :: "flt \<Rightarrow> 'c \<Rightarrow> bool \<times> 'c"
  vt_setTerminationCurrent :: "flt \<Rightarrow> 'c \<Rightarrow> (bool \<times> 'c) option"
  vt_getChargerStatus :: "'c \<Rightarrow> CHARGER_STATUS \<times> 'c"
  vt_init :: "'c \<Rightarrow> bool \<times> 'c"
  vt_resetWatchdog :: "'c \<Rightarrow> bool \<times> 'c"
  vt_setTsEnabled :: "bool \<Rightarrow> 'c \<Rightarrow> bool \<times> 'c"
  vt_readChargeCurrent :: "'c \<Rightarrow> flt option \<times> 'c"
  vt_readAdapterVoltage :: "'c \<Rightarrow> flt option \<times> 'c"
  vt_readAdapterCurrent :: "'c \<Rightarrow> flt option \<times> 'c"
  vt_readBatteryVoltage :: "'c \<Rightarrow> flt option \<times> 'c"

subsection \<open>Registers of the BQ2579\<close>

type_synonym 'b i2c_master = "nat \<Rightarrow> u8 \<Rightarrow> bytes \<Rightarrow> nat \<Rightarrow> 'b \<Rightarrow> bool \<times> (nat \<Rightarrow> u8) \<times> 'b"

record 'b bq2579 =
  i2c_driver :: "nat option"
  i2c_bus :: 'b

definition DEVICE_ADDRESS :: u8 where "DEVICE_ADDRESS = 0x6B"
definition REG_Charge_Current_Limit :: u8 where "REG_Charge_Current_Limit = 0x03"
definition REG_IBUS_ADC :: u8 where "REG_IBUS_ADC = 0x31"
definition REG_IBAT_ADC :: u8 where "REG_IBAT_ADC = 0x33"
definition REG_VBUS_ADC :: u8 where "REG_VBUS_ADC = 0x35"
definition REG_VBAT_ADC :: u8 where "REG_VBAT_ADC = 0x3B"
definition REG_VSYS_ADC :: u8 where "REG_VSYS_ADC = 0x3D"
definition REG_ADC_Control :: u8 where "REG_ADC_Control = 0x2E"
definition REG_Termination_Control :: u8 where "REG_Termination_Control = 0x09"
definition REG_NTC_Control_1 :: u8 where "REG_NTC_Control_1 = 0x18"
definition REG_Charger_Control_1 :: u8 where "REG_Charger_Control_1 = 0x10"
definition REG_Charger_Control_5 :: u8 where "REG_Charger_Control_5 = 0x14"
definition REG_Charger_Status_1 :: u8 where "REG_Charger_Status_1 = 0x1C"
definition REG_FAULT_Status_0 :: u8 where "REG_FAULT_Status_0 = 0x20"
definition REG_FAULT_Status_1 :: u8 where "REG_FAULT_Status_1 = 0x21"

definition setI2C :: "nat option \<Rightarrow> 'b bq2579 \<Rightarrow> 'b bq2579" where
  "setI2C i2c c = c\<lparr>i2c_driver := i2c\<rparr>"

text \<open>A value read into a result parameter is used only when the transfer succeeded.\<close>

definition readRegister8 :: "'b i2c_master \<Rightarrow> u8 \<Rightarrow> 'b bq2579 \<Rightarrow> u8 option \<times> 'b bq2579" where
  "readRegister8 tr reg c =
     (case i2c_driver c of None \<Rightarrow> (None, c)
      | Some d \<Rightarrow> (let (ok, rx, b) = tr d DEVICE_ADDRESS [reg] 1 (i2c_bus c)
                  in (if ok then Some (rx 0) else None, c\<lparr>i2c_bus := b\<rparr>)))"

definition readRegister16 :: "'b i2c_master \<Rightarrow> u8 \<Rightarrow> 'b bq2579 \<Rightarrow> u16 option \<times> 'b bq2579" where
  "readRegister16 tr reg c =
     (case i2c_driver c of None \<Rightarrow> (None, c)
      | Some d \<Rightarrow> (let (ok, rx, b) = tr d DEVICE_ADDRESS [reg] 2 (i2c_bus c);
                      result = push_bit 8 (ucast (rx 0)) OR ucast (rx 1)
                  in (if ok then Some result else None, c\<lparr>i2c_bus := b\<rparr>)))"

definition writeRegister8 :: "'b i2c_master \<Rightarrow> u8 \<Rightarrow> u8 \<Rightarrow> 'b bq2579 \<Rightarrow> bool \<times> 'b bq2579" where
  "writeRegister8 tr reg v c =
     (case i2c_driver c of None \<Rightarrow> (False, c)
      | Some d \<Rightarrow> (let (ok, rx, b) = tr d DEVICE_ADDRESS [reg, v] 0 (i2c_bus c) in (ok, c\<lparr>i2c_bus := b\<rparr>)))"

definition writeRegister16 :: "'b i2c_master \<Rightarrow> u8 \<Rightarrow> u16 \<Rightarrow> 'b bq2579 \<Rightarrow> bool \<times> 'b bq2579" where
  "writeRegister16 tr reg v c =
     (case i2c_driver c of None \<Rightarrow> (False, c)
      | Some d \<Rightarrow> (let (ok, rx, b) = tr d DEVICE_ADDRESS [reg, ucast (drop_bit 8 v), ucast v] 0 (i2c_bus c)
                  in (ok, c\<lparr>i2c_bus := b\<rparr>)))"

subsection \<open>Operations of the BQ2579\<close>

definition charging_current :: "flt \<Rightarrow> flt" where
  "charging_current amps = (if flt_less (flt_lit binary32 5) amps then flt_lit binary32 5 else amps)"

definition BQ_setChargingCurrent :: "'b i2c_master \<Rightarrow> flt \<Rightarrow> bool \<Rightarrow> 'b bq2579 \<Rightarrow> (bool \<times> 'b bq2579) option" where
  "BQ_setChargingCurrent tr amps overwrite_hardware_limit c = do {
     v \<leftarrow> flt_to_word (fmul binary32 (charging_current amps) (flt_lit binary32 100));
     Some (writeRegister16 tr REG_Charge_Current_Limit v c) }"

definition BQ_setPreChargeCurrent :: "flt \<Rightarrow> 'b bq2579 \<Rightarrow> bool \<times> 'b bq2579" where
  "BQ_setPreChargeCurrent amps c = (True, c)"

definition termination_current :: "flt \<Rightarrow> flt" where
  "termination_current amps =
     (if flt_less (flt_lit binary32 1) amps then flt_lit binary32 1
      else if flt_less amps (flt_lit binary32 (4 / 100)) then flt_lit binary32 (4 / 100) else amps)"

definition BQ_setTerminationCurrent :: "'b i2c_master \<Rightarrow> flt \<Rightarrow> 'b bq2579 \<Rightarrow> (bool \<times> 'b bq2579) option" where
  "BQ_setTerminationCurrent tr amps c = do {
     raw_value \<leftarrow> flt_to_word (fdiv binary32 (termination_current amps) (flt_lit binary32 (4 / 100)));
     Some (writeRegister8 tr REG_Termination_Control raw_value c) }"

definition status_code :: "u8 \<Rightarrow> CHARGER_STATUS" where
  "status_code status =
     (let k = drop_bit 5 status
      in if k = 0 then NOT_CHARGING else if k = 1 then TRICKLE else if k = 2 then PRE_CHARGE
         else if k = 3 then CC else if k = 4 then CV else if k = 7 then DONE else UNKNOWN)"

definition BQ_getChargerStatus :: "'b i2c_master \<Rightarrow> 'b bq2579 \<Rightarrow> CHARGER_STATUS \<times> 'b bq2579" where
  "BQ_getChargerStatus tr c =
     (case readRegister8 tr REG_FAULT_Status_0 c of
        (None, c1) \<Rightarrow> (COMMS_ERROR, c1)
      | (Some fault0, c1) \<Rightarrow>
          (case readRegister8 tr REG_FAULT_Status_1 c1 of
             (None, c2) \<Rightarrow> (COMMS_ERROR, c2)
           | (Some fault1, c2) \<Rightarrow>
               (if fault0 \<noteq> 0 \<or> fault1 \<noteq> 0 then (FAULT, c2)
                else (case readRegister8 tr REG_Charger_Status_1 c2 of
                        (None, c3) \<Rightarrow> (COMMS_ERROR, c3)
                      | (Some status, c3) \<Rightarrow> (status_code status, c3)))))"

definition BQ_init :: "'b i2c_master \<Rightarrow> 'b bq2579 \<Rightarrow> bool \<times> 'b bq2579" where
  "BQ_init tr c =
     (let (ok1, c1) = writeRegister8 tr REG_Termination_Control 0x45 c
      in if \<not> ok1 then (False, c1)
         else let (ok2, c2) = writeRegister8 tr REG_ADC_Control 0x80 c1
              in if \<not> ok2 then (False, c2)
                 else let (ok3, c3) = writeRegister8 tr REG_Charger_Control_5 0x36 c2
                      in if \<not> ok3 then (False, c3) else (True, c3))"

definition BQ_resetWatchdog :: "'b i2c_master \<Rightarrow> 'b bq2579 \<Rightarrow> bool \<times> 'b bq2579" where
  "BQ_resetWatchdog tr c =
     (case readRegister8 tr REG_Charger_Control_1 c of
        (None, c1) \<Rightarrow> (False, c1)
      | (Some v, c1) \<Rightarrow> writeRegister8 tr REG_Charger_Control_1 (v OR 8) c1)"

definition BQ_setTsEnabled :: "'b i2c_master \<Rightarrow> bool \<Rightarrow> 'b bq2579 \<Rightarrow> bool \<times> 'b bq2579" where
  "BQ_setTsEnabled tr enabled c =
     (case readRegister8 tr REG_NTC_Control_1 c of
        (None, c1) \<Rightarrow> (False, c1)
      | (Some v, c1) \<Rightarrow> writeRegister8 tr REG_NTC_Control_1 (if \<not> enabled then v OR 1 else v AND 0xFE) c1)"

definition milli :: "int \<Rightarrow> flt" where
  "milli n = fdiv binary32 (flt_of_int binary32 n) (flt_lit binary32 1000)"

definition read_signed :: "'b i2c_master \<Rightarrow> u8 \<Rightarrow> 'b bq2579 \<Rightarrow> flt option \<times> 'b bq2579" where
  "read_signed tr reg c = (let (r, c1) = readRegister16 tr reg c in (map_option (\<lambda>raw. milli (sint raw)) r, c1))"

definition read_unsigned :: "'b i2c_master \<Rightarrow> u8 \<Rightarrow> 'b bq2579 \<Rightarrow> flt option \<times> 'b bq2579" where
  "read_unsigned tr reg c = (let (r, c1) = readRegister16 tr reg c in (map_option (\<lambda>raw. milli (uint raw)) r, c1))"

definition BQ_readChargeCurrent :: "'b i2c_master \<Rightarrow> 'b bq2579 \<Rightarrow> flt option \<times> 'b bq2579" where
  "BQ_readChargeCurrent tr = read_signed tr REG_IBAT_ADC"

definition BQ_readAdapterVoltage :: "'b i2c_master \<Rightarrow> 'b bq2579 \<Rightarrow> flt option \<times> 'b bq2579" where
  "BQ_readAdapterVoltage tr = read_unsigned tr REG_VBUS_ADC"

definition BQ_readAdapterCurrent :: "'b i2c_master \<Rightarrow> 'b bq2579 \<Rightarrow> flt option \<times> 'b bq2579" where
  "BQ_readAdapterCurrent tr = read_unsigned tr REG_IBUS_ADC"

definition BQ_readBatteryVoltage :: "'b i2c_master \<Rightarrow> 'b bq2579 \<Rightarrow> flt option \<times> 'b bq2579" where
  "BQ_readBatteryVoltage tr = read_unsigned tr REG_VBAT_ADC"

definition BQ_readSystemVoltage :: "'b i2c_master \<Rightarrow> 'b bq2579 \<Rightarrow> flt option \<times> 'b bq2579" where
  "BQ_readSystemVoltage tr = read_unsigned tr REG_VSYS_ADC"

definition bq_vt :: "'b i2c_master \<Rightarrow> 'b bq2579 charger_vt" where
  "bq_vt tr = \<lparr>vt_setChargingCurrent = BQ_setChargingCurrent tr, vt_setPreChargeCurrent = BQ_setPreChargeCurrent,
     vt_setTerminationCurrent = BQ_setTerminationCurrent tr, vt_getChargerStatus = BQ_getChargerStatus tr,
     vt_init = BQ_init tr, vt_resetWatchdog = BQ_resetWatchdog tr, vt_setTsEnabled = BQ_setTsEnabled tr,
     vt_readChargeCurrent = BQ_readChargeCurrent tr, vt_readAdapterVoltage = BQ_readAdapterVoltage tr,
     vt_readAdapterCurrent = BQ_readAdapterCurrent tr, vt_readBatteryVoltage = BQ_readBatteryVoltage tr\<rparr>"

subsection \<open>The contract\<close>

text \<open>Finite values of at most a magnitude.\<close>

fun finite_upto :: "rat \<Rightarrow> flt \<Rightarrow> bool" where
  "finite_upto k (Fin s m) \<longleftrightarrow> 0 \<le> m \<and> m \<le> k"
| "finite_upto k _ \<longleftrightarrow> False"

text \<open>
  What a client relies on: setting a current of up to 5 A has a defined outcome, and what a
  successful measurement stores is a number, of at most 66 (volts or amperes).
\<close>

locale charger =
  fixes vt :: "'c charger_vt"
  assumes set_charging_defined: "0 \<le> a \<Longrightarrow> a \<le> 5 \<Longrightarrow> \<exists>r. vt_setChargingCurrent vt (Fin False a) ov c = Some r"
    and set_termination_defined: "0 \<le> a \<Longrightarrow> a \<le> 5 \<Longrightarrow> \<exists>r. vt_setTerminationCurrent vt (Fin False a) c = Some r"
    and battery_finite: "vt_readBatteryVoltage vt c = (Some v, c') \<Longrightarrow> finite_upto 66 v"


subsection \<open>The BQ2579 keeps the contract\<close>

lemma representable_limits:
  "representable binary32 66" "representable binary32 65536" "representable binary32 500" "representable binary32 26"
  by code_simp+

lemma lit_values:
  "flt_lit binary32 1000 = Fin False 1000" "flt_lit binary32 5 = Fin False 5" "flt_lit binary32 100 = Fin False 100"
  "flt_lit binary32 1 = Fin False 1" "flt_lit binary32 (4 / 100) = Fin False (5368709 / 134217728)"
  by code_simp+

lemma charging_current_eq: "charging_current amps = (if flt_less (Fin False 5) amps then Fin False 5 else amps)"
  by (simp only: charging_current_def lit_values)

lemma termination_current_eq:
  "termination_current amps =
     (if flt_less (Fin False 1) amps then Fin False 1
      else if flt_less amps (Fin False (5368709 / 134217728)) then Fin False (5368709 / 134217728) else amps)"
  by (simp only: termination_current_def lit_values)

lemma milli_finite:
  assumes "\<bar>n\<bar> \<le> 65535"
  shows "finite_upto 66 (milli n)"
proof -
  have "\<bar>rat_of_int n\<bar> \<le> rat_of_int 65536" using assms by linarith
  then have n: "\<bar>rat_of_int n\<bar> \<le> 65536" by simp
  obtain s m where m: "flt_of_int binary32 n = Fin s m" "0 \<le> m" "m \<le> 65536"
    using fround_le [OF representable_limits(2) _ n, of "n < 0"]
    by (cases "n = 0") (auto simp: flt_of_int_def of_rat_flt_def)
  then obtain m' where "fround binary32 s (m / 1000) = Fin s m'" "0 \<le> m'" "m' \<le> 66"
    using fround_le [OF representable_limits(1), of "m / 1000" s] by auto
  then show ?thesis using m(1) by (simp add: milli_def lit_values)
qed

lemma flt_to_word_upto:
  assumes "0 \<le> m" "m \<le> of_int k" "k < 2 ^ LENGTH('a)"
  shows "\<exists>v :: 'a::len word. flt_to_word (Fin False m) = Some v \<and> uint v = \<lfloor>m\<rfloor>"
proof -
  have "0 \<le> \<lfloor>m\<rfloor>" "\<lfloor>m\<rfloor> \<le> k" using assms(1) floor_mono [OF assms(2)] by simp_all
  then show ?thesis using assms(3) by (auto simp: uint_word_of_int_eq take_bit_int_eq_self)
qed

text \<open>The value of the charge current register, in steps of 10 mA.\<close>

lemma charging_current_value:
  assumes "flt_le (Fin False 0) amps" "proper amps"
  shows "\<exists>v :: u16. BQ_setChargingCurrent tr amps ov c = Some (writeRegister16 tr REG_Charge_Current_Limit v c) \<and> v \<le> 500"
proof -
  obtain s a where a: "charging_current amps = Fin s a" "0 \<le> a" "a \<le> 5" "s \<longrightarrow> a = 0"
    using assms by (cases amps; cases "flt_less (Fin False 5) amps") (auto simp: charging_current_eq not_less split: if_splits)
  obtain m where m: "fround binary32 s (a * 100) = Fin s m" "0 \<le> m" "m \<le> 500"
    using fround_le [OF representable_limits(3), of "a * 100" s] a by auto
  show ?thesis
  proof (cases s)
    case True
    then have "m = 0" using m(1) a(4) by (simp add: fround_def)
    then show ?thesis using a m True
      by (auto simp: BQ_setChargingCurrent_def lit_values intro!: exI [of _ "0 :: u16"])
  next
    case False
    obtain v :: u16 where v: "flt_to_word (Fin False m) = Some v" "uint v = \<lfloor>m\<rfloor>"
      using flt_to_word_upto [where 'a = 16, of m 500] m(2,3) by (auto simp del: flt_to_word.simps)
    have "\<lfloor>m\<rfloor> \<le> 500" using floor_mono [OF m(3)] by simp
    then have "v \<le> 500" using v(2) by (simp add: word_le_def)
    then show ?thesis using a m v False by (auto simp: BQ_setChargingCurrent_def lit_values simp del: flt_to_word.simps)
  qed
qed

lemma termination_current_value:
  assumes "amps \<noteq> NaN" "proper amps"
  shows "\<exists>v :: u8. BQ_setTerminationCurrent tr amps c = Some (writeRegister8 tr REG_Termination_Control v c) \<and> v \<le> 26"
proof -
  define k :: rat where "k = 5368709 / 134217728"
  have k: "0 < k" "k \<le> 1" by (simp_all add: k_def)
  have "\<exists>a. termination_current amps = Fin False a \<and> 0 \<le> a \<and> a \<le> 1"
  proof (cases amps)
    case (Fin s m)
    then show ?thesis using assms(2) k unfolding termination_current_eq k_def [symmetric]
      by (cases s; cases "1 < m"; cases "m < k") auto
  next
    case (Inf s)
    then show ?thesis using k unfolding termination_current_eq k_def [symmetric] by (cases s) auto
  qed (use assms in simp)
  then obtain a where a: "termination_current amps = Fin False a" "0 \<le> a" "a \<le> 1" by blast
  obtain m where m: "fround binary32 False (a / (5368709 / 134217728)) = Fin False m" "0 \<le> m" "m \<le> 26"
    using fround_le [OF representable_limits(4), of "a / (5368709 / 134217728)" False] a by auto
  obtain v :: u8 where v: "flt_to_word (Fin False m) = Some v" "uint v = \<lfloor>m\<rfloor>"
    using flt_to_word_upto [where 'a = 8, of m 26] m(2,3) by (auto simp del: flt_to_word.simps)
  have "\<lfloor>m\<rfloor> \<le> 26" using floor_mono [OF m(3)] by simp
  then have "v \<le> 26" using v(2) by (simp add: word_le_def)
  then show ?thesis using a m v unfolding BQ_setTerminationCurrent_def lit_values by (auto simp del: flt_to_word.simps)
qed

interpretation bq: charger "bq_vt tr" for tr :: "'b i2c_master"
proof
  fix a :: rat and ov and c :: "'b bq2579"
  assume a: "0 \<le> a" "a \<le> 5"
  show "\<exists>r. vt_setChargingCurrent (bq_vt tr) (Fin False a) ov c = Some r"
    using charging_current_value [of "Fin False a" tr ov c] a by (auto simp: bq_vt_def)
  show "\<exists>r. vt_setTerminationCurrent (bq_vt tr) (Fin False a) c = Some r"
    using termination_current_value [of "Fin False a" tr c] a by (auto simp: bq_vt_def)
next
  fix c c' :: "'b bq2579" and v
  assume "vt_readBatteryVoltage (bq_vt tr) c = (Some v, c')"
  then obtain raw :: u16 where v: "v = milli (uint raw)"
    by (auto simp: bq_vt_def BQ_readBatteryVoltage_def read_unsigned_def split: prod.splits)
  have "\<bar>uint raw\<bar> \<le> 65535" using uint_bounded [of raw] by simp
  then show "finite_upto 66 v" unfolding v by (rule milli_finite)
qed

text \<open>
  Whatever currents are asked for, the charger is never set to more than 5 A of charging
  current (500 steps of 10 mA) nor more than 1.04 A of termination current (26 steps of 40 mA,
  so no other bit of that register is set), and the conversion to the register value is always
  defined, for a charging current that is not negative.
\<close>

theorem charger_current_limits:
  assumes "flt_le (Fin False 0) amps" "proper amps"
  shows "(\<exists>v :: u16. v \<le> 500 \<and> BQ_setChargingCurrent tr amps ov c = Some (writeRegister16 tr REG_Charge_Current_Limit v c)) \<and>
    (\<exists>v :: u8. v \<le> 26 \<and> BQ_setTerminationCurrent tr amps c = Some (writeRegister8 tr REG_Termination_Control v c))"
  using charging_current_value [OF assms, of tr ov c] termination_current_value [OF _ assms(2), of tr c] assms(1)
  by (cases amps) auto

theorem charger_current_limits_witness:
  "\<exists>v :: u16. v \<le> 500 \<and>
     BQ_setChargingCurrent (\<lambda>d a tx n b. (True, \<lambda>_. 0, b @ [tx])) (Inf False) False \<lparr>i2c_driver = Some 0, i2c_bus = []\<rparr> =
       Some (True, \<lparr>i2c_driver = Some 0, i2c_bus = [[3, ucast (drop_bit 8 v), ucast v]]\<rparr>)"
  using charger_current_limits [of "Inf False" "\<lambda>d a tx n b. (True, \<lambda>_. 0, b @ [tx])" False "\<lparr>i2c_driver = Some 0, i2c_bus = []\<rparr>"]
  by (simp add: writeRegister16_def REG_Charge_Current_Limit_def)

end
