(* ===== verification/Power_Management.thy ===== *)
theory Power_Management
  imports Charger Globals
begin

text \<open>
  The power service (\<open>src/services/power_service\<close>): it configures the charger, reads it once a
  second, computes the battery percentage, cuts the power of the high-level computer when the
  battery is critically low and reports the readings. The voltages of the robot
  (\<open>robots/include/robot.hpp\<close>) are a record of the values its virtual functions return;
  \<open>etl::min\<close> and \<open>etl::max\<close> (a submodule) are parameters. \<^term>\<open>None\<close> is a conversion or a
  signed overflow with no defined result.
\<close>

subsection \<open>The robot's limits\<close>

record robot =
  Power_GetDefaultBatteryFullVoltage :: flt
  Power_GetDefaultBatteryEmptyVoltage :: flt
  Power_GetDefaultChargeCurrent :: flt
  Power_GetAbsoluteMinVoltage :: flt

definition xBotRobot :: robot where
  "xBotRobot = \<lparr>
     Power_GetDefaultBatteryFullVoltage = fmul binary32 (flt_lit binary32 4) (flt_lit binary32 (42 / 10)),
     Power_GetDefaultBatteryEmptyVoltage = fmul binary32 (flt_lit binary32 4) (flt_lit binary32 (33 / 10)),
     Power_GetDefaultChargeCurrent = fcvt binary32 (flt_lit binary64 1),
     Power_GetAbsoluteMinVoltage =
       fcvt binary32 (fmul binary64 (fcvt binary64 (flt_lit binary32 4)) (flt_lit binary64 3))\<rparr>"

record etl_minmax =
  etl_min :: "flt \<Rightarrow> flt \<Rightarrow> flt"
  etl_max :: "flt \<Rightarrow> flt \<Rightarrow> flt"

text \<open>The documented behaviour of the two functions, those of \<open>std::min\<close> and \<open>std::max\<close>.\<close>

definition is_minmax :: "etl_minmax \<Rightarrow> bool" where
  "is_minmax e \<longleftrightarrow>
     (\<forall>a b. etl_min e a b = (if flt_less b a then b else a) \<and> etl_max e a b = (if flt_less a b then b else a))"

subsection \<open>State\<close>

record 'c power_service =
  charger_configured :: bool
  charge_current :: flt
  adapter_volts :: flt
  adapter_current :: flt
  battery_volts :: flt
  battery_percent :: flt
  critical_count :: int
  charger_status :: CHARGER_STATUS
  the_charger :: "'c option"

definition power_init :: "'c power_service" where
  "power_init = \<lparr>charger_configured = False, charge_current = Fin False 0, adapter_volts = Fin False 0,
     adapter_current = Fin False 0, battery_volts = Fin False 0, battery_percent = Fin False 0,
     critical_count = 0, charger_status = COMMS_ERROR, the_charger = None\<rparr>"

datatype power_effect =
    PalClearLine
  | PalSetLine
  | Ulog string
  | StartTransaction
  | SendChargingStatus string nat
  | SendBatteryVoltage flt
  | SendChargeVoltage flt
  | SendChargeCurrent flt
  | SendChargerEnabled bool
  | SendBatteryPercentage flt
  | CommitTransaction

definition SetDriver :: "'c option \<Rightarrow> 'c power_service \<Rightarrow> 'c power_service" where
  "SetDriver c s = s\<lparr>the_charger := c\<rparr>"

definition Power_OnStart :: "'c power_service \<Rightarrow> 'c power_service \<times> bool" where
  "Power_OnStart s = (s\<lparr>charger_configured := False\<rparr>, True)"

definition OnChargingAllowedChanged :: "u8 \<Rightarrow> 'c power_service \<Rightarrow> 'c power_service" where
  "OnChargingAllowedChanged new_value s = s"

definition GetChargerStatus :: "'c power_service \<Rightarrow> string" where
  "GetChargerStatus s =
     (if charger_configured s then
        (case charger_status s of
           NOT_CHARGING \<Rightarrow> ''Not Charging''
         | TRICKLE \<Rightarrow> ''Trickle Charge''
         | PRE_CHARGE \<Rightarrow> ''Pre Charge''
         | CC \<Rightarrow> ''Fast Charge (CC)''
         | CV \<Rightarrow> ''Taper Charge (CV)''
         | TOP_OFF \<Rightarrow> ''Top Off''
         | DONE \<Rightarrow> ''Done''
         | FAULT \<Rightarrow> ''Error (Fault)''
         | COMMS_ERROR \<Rightarrow> ''Unknown State''
         | UNKNOWN \<Rightarrow> ''Unknown State'')
      else ''Charger Not Found'')"

definition unit_interval :: "etl_minmax \<Rightarrow> flt \<Rightarrow> flt" where
  "unit_interval e x = etl_max e (Fin False 0) (etl_min e (Fin False 1) x)"

definition Power_tick :: "etl_minmax \<Rightarrow> 'c power_service \<Rightarrow> power_effect list" where
  "Power_tick e s =
     (let status_str = GetChargerStatus s
      in [StartTransaction, SendChargingStatus status_str (length status_str), SendBatteryVoltage (battery_volts s),
          SendChargeVoltage (adapter_volts s), SendChargeCurrent (charge_current s), SendChargerEnabled True,
          SendBatteryPercentage (unit_interval e (battery_percent s)), CommitTransaction])"

subsection \<open>Managing the charger\<close>

text \<open>The configuration: success is that of every step, all of which are tried once the chip answers.\<close>

definition configure :: "'c charger_vt \<Rightarrow> robot \<Rightarrow> 'c \<Rightarrow> (bool \<times> 'c) option" where
  "configure vt rb c = do {
     let (present, c1) = vt_init vt c;
     if present then do {
       let (s1, c2) = vt_setPreChargeCurrent vt (flt_lit binary32 (1 / 4)) c1;
       (s2, c3) \<leftarrow> vt_setTerminationCurrent vt (flt_lit binary32 (1 / 4)) c2;
       (s3, c4) \<leftarrow> vt_setChargingCurrent vt (Power_GetDefaultChargeCurrent rb) False c3;
       let (s4, c5) = vt_setTsEnabled vt False c4;
       Some (s1 \<and> s2 \<and> s3 \<and> s4, c5) }
     else Some (False, c1) }"

text \<open>A reading is stored when it succeeds; a failure is logged and leaves the old value.\<close>

definition warn :: "bool \<Rightarrow> string \<Rightarrow> power_effect list" where
  "warn ok msg = (if ok then [] else [Ulog msg])"

definition percentage :: "etl_minmax \<Rightarrow> robot \<Rightarrow> flt \<Rightarrow> flt" where
  "percentage e rb volts =
     unit_interval e
       (fdiv binary32 (fsub binary32 volts (Power_GetDefaultBatteryEmptyVoltage rb))
          (fsub binary32 (Power_GetDefaultBatteryFullVoltage rb) (Power_GetDefaultBatteryEmptyVoltage rb)))"

definition critical :: "robot \<Rightarrow> 'c power_service \<Rightarrow> ('c power_service \<times> power_effect list) option" where
  "critical rb s =
     (if flt_less (battery_volts s) (Power_GetAbsoluteMinVoltage rb)
      then if critical_count s + 1 < 2 ^ 31
           then Some (s\<lparr>critical_count := critical_count s + 1\<rparr>,
                      if 10 < critical_count s + 1 then [PalClearLine] else [])
           else None
      else Some (s\<lparr>critical_count := 0\<rparr>, [PalSetLine]))"

definition monitor ::
  "'c charger_vt \<Rightarrow> etl_minmax \<Rightarrow> robot \<Rightarrow> 'c \<Rightarrow> 'c power_service \<Rightarrow> ('c power_service \<times> power_effect list) option" where
  "monitor vt e rb c s0 = do {
     let (watchdog, c1) = vt_resetWatchdog vt c;
     let (cur, c2) = vt_readChargeCurrent vt c1;
     let s1 = (case cur of None \<Rightarrow> s0 | Some v \<Rightarrow> s0\<lparr>charge_current := v\<rparr>);
     let (bat, c3) = vt_readBatteryVoltage vt c2;
     let s2 = (case bat of None \<Rightarrow> s1 | Some v \<Rightarrow> s1\<lparr>battery_volts := v\<rparr>);
     let (av, c4) = vt_readAdapterVoltage vt c3;
     let s3 = (case av of None \<Rightarrow> s2 | Some v \<Rightarrow> s2\<lparr>adapter_volts := v\<rparr>);
     let (ac, c5) = vt_readAdapterCurrent vt c4;
     let s4 = (case ac of None \<Rightarrow> s3 | Some v \<Rightarrow> s3\<lparr>adapter_current := v\<rparr>);
     let success = (watchdog \<and> cur \<noteq> None \<and> bat \<noteq> None \<and> av \<noteq> None \<and> ac \<noteq> None);
     let s5 = (if success then s4\<lparr>battery_percent := percentage e rb (battery_volts s4)\<rparr> else s4);
     let (st, c6) = vt_getChargerStatus vt c5;
     let s6 = s5\<lparr>charger_status := st, the_charger := Some c6\<rparr>;
     let warnings = warn watchdog ''Error Resetting Watchdog'' @ warn (cur \<noteq> None) ''Error Reading Charge Current''
       @ warn (bat \<noteq> None) ''Error Reading Battery Voltage'' @ warn (av \<noteq> None) ''Error Reading Adapter Voltage''
       @ warn (ac \<noteq> None) ''Error Reading Adapter Current'';
     if \<not> success \<or> st = COMMS_ERROR
     then Some (s6\<lparr>charger_configured := False\<rparr>, warnings @ [Ulog ''Error during charging comms - reconfiguring''])
     else do { (s7, es) \<leftarrow> critical rb s6; Some (s7, warnings @ es) } }"

definition charger_tick ::
  "'c charger_vt \<Rightarrow> etl_minmax \<Rightarrow> robot \<Rightarrow> 'c power_service \<Rightarrow> ('c power_service \<times> power_effect list) option" where
  "charger_tick vt e rb s =
     (case the_charger s of
        None \<Rightarrow> Some (s, [Ulog ''Charger is null!''])
      | Some c \<Rightarrow>
          (if \<not> charger_configured s then do {
             (ok, c') \<leftarrow> configure vt rb c;
             Some (s\<lparr>the_charger := Some c', charger_configured := ok\<rparr>,
                   [Ulog (if ok then ''Successfully Configured Charger'' else ''Unable to Configure Charger'')]) }
           else monitor vt e rb c s))"


subsection \<open>Shutting down at a critical battery\<close>

text \<open>The battery voltages of the ticks in which all readings succeeded.\<close>

definition reading :: "'c power_service \<Rightarrow> 'c power_service \<Rightarrow> flt list" where
  "reading s s' = (if charger_configured s \<and> charger_configured s' then [battery_volts s'] else [])"

fun power_run ::
  "'c charger_vt \<Rightarrow> etl_minmax \<Rightarrow> robot \<Rightarrow> nat \<Rightarrow> 'c power_service \<Rightarrow> ('c power_service \<times> flt list \<times> power_effect list) option" where
  "power_run vt e rb 0 s = Some (s, [], [])"
| "power_run vt e rb (Suc n) s = do {
     (s1, rs, es) \<leftarrow> power_run vt e rb n s;
     (s2, es2) \<leftarrow> charger_tick vt e rb s1;
     Some (s2, rs @ reading s1 s2, es @ es2) }"

definition too_low :: "robot \<Rightarrow> flt \<Rightarrow> bool" where
  "too_low rb v \<longleftrightarrow> flt_less v (Power_GetAbsoluteMinVoltage rb)"

definition low_streak :: "robot \<Rightarrow> flt list \<Rightarrow> nat" where
  "low_streak rb rs = length (takeWhile (too_low rb) (rev rs))"

text \<open>The last command to the line that powers the high-level computer, if any.\<close>

fun line_after :: "bool option \<Rightarrow> power_effect list \<Rightarrow> bool option" where
  "line_after l [] = l"
| "line_after l (PalSetLine # es) = line_after (Some True) es"
| "line_after l (PalClearLine # es) = line_after (Some False) es"
| "line_after l (_ # es) = line_after l es"

definition powered :: "robot \<Rightarrow> flt list \<Rightarrow> bool option" where
  "powered rb rs = (if 10 < low_streak rb rs then Some False
                    else if list_ex (\<lambda>v. \<not> too_low rb v) rs then Some True else None)"

lemma line_after_append: "line_after l (es @ fs) = line_after (line_after l es) fs"
  by (induction l es rule: line_after.induct) simp_all

lemma line_after_warn [simp]: "line_after l (warn ok msg) = l" "line_after l (warn ok msg @ es) = line_after l es"
  by (simp_all add: warn_def)

lemma low_streak_snoc: "low_streak rb (rs @ [v]) = (if too_low rb v then Suc (low_streak rb rs) else 0)"
  by (simp add: low_streak_def)

lemma powered_snoc:
  "powered rb (rs @ [v]) =
     (if too_low rb v then if 10 < Suc (low_streak rb rs) then Some False else powered rb rs else Some True)"
  by (auto simp: powered_def low_streak_snoc)

lemma low_streak_le: "low_streak rb rs \<le> length rs"
  unfolding low_streak_def using length_takeWhile_le [of "too_low rb" "rev rs"] by simp

text \<open>A robot whose charge current can be set.\<close>

definition robot_ok :: "robot \<Rightarrow> bool" where
  "robot_ok rb \<longleftrightarrow> (\<exists>a. Power_GetDefaultChargeCurrent rb = Fin False a \<and> 0 \<le> a \<and> a \<le> 5)"

definition power_inv :: "robot \<Rightarrow> 'c power_service \<Rightarrow> flt list \<Rightarrow> power_effect list \<Rightarrow> bool" where
  "power_inv rb s rs es \<longleftrightarrow>
     the_charger s \<noteq> None \<and> critical_count s = int (low_streak rb rs) \<and> line_after None es = powered rb rs"

lemma critical_inv:
  assumes "critical_count s = int (low_streak rb rs)" "line_after None es = powered rb rs" "length rs < 2 ^ 31 - 1"
  shows "\<exists>s' es'. critical rb s = Some (s', es') \<and> battery_volts s' = battery_volts s \<and>
    charger_configured s' = charger_configured s \<and> the_charger s' = the_charger s \<and>
    critical_count s' = int (low_streak rb (rs @ [battery_volts s])) \<and>
    line_after None (es @ es') = powered rb (rs @ [battery_volts s])"
proof -
  have "critical_count s + 1 < 2 ^ 31" using assms(1,3) low_streak_le [of rb rs] by simp
  then show ?thesis
    using assms(1,2)
    by (auto simp: critical_def too_low_def [symmetric] low_streak_snoc powered_snoc line_after_append)
qed

context charger
begin

lemma monitor_inv:
  assumes inv: "power_inv rb s rs es" and c: "the_charger s = Some c" and conf: "charger_configured s"
    and len: "length rs < 2 ^ 31 - 1"
  shows "\<exists>s' es'. monitor vt e rb c s = Some (s', es') \<and> power_inv rb s' (rs @ reading s s') (es @ es')"
proof -
  obtain watchdog c1 where 1: "vt_resetWatchdog vt c = (watchdog, c1)" by fastforce
  obtain cur c2 where 2: "vt_readChargeCurrent vt c1 = (cur, c2)" by fastforce
  obtain bat c3 where 3: "vt_readBatteryVoltage vt c2 = (bat, c3)" by fastforce
  obtain av c4 where 4: "vt_readAdapterVoltage vt c3 = (av, c4)" by fastforce
  obtain ac c5 where 5: "vt_readAdapterCurrent vt c4 = (ac, c5)" by fastforce
  obtain st c6 where 6: "vt_getChargerStatus vt c5 = (st, c6)" by fastforce
  define good where "good \<longleftrightarrow> watchdog \<and> cur \<noteq> None \<and> bat \<noteq> None \<and> av \<noteq> None \<and> ac \<noteq> None \<and> st \<noteq> COMMS_ERROR"
  note ev = monitor_def 1 2 3 4 5 6 Let_def split_def fst_conv snd_conv
  show ?thesis
  proof (cases good)
    case True
    then obtain v1 v2 v3 v4 where v: "cur = Some v1" "bat = Some v2" "av = Some v3" "ac = Some v4"
      and ok: watchdog "st \<noteq> COMMS_ERROR" by (auto simp: good_def)
    let ?s = "s\<lparr>charge_current := v1, battery_volts := v2, adapter_volts := v3, adapter_current := v4,
      battery_percent := percentage e rb v2, charger_status := st, the_charger := Some c6\<rparr>"
    have m: "monitor vt e rb c s = critical rb ?s"
      using ok by (simp add: ev v warn_def split: option.splits)
    show ?thesis
      using critical_inv [of ?s rb rs es] inv len conf by (auto simp: m power_inv_def reading_def)
  next
    case False
    then show ?thesis
      using inv conf
      by (auto simp: ev good_def power_inv_def reading_def line_after_append split: option.splits)
  qed
qed

lemma charger_tick_inv:
  assumes "power_inv rb s rs es" "length rs < 2 ^ 31 - 1" "robot_ok rb"
  shows "\<exists>s' es'. charger_tick vt e rb s = Some (s', es') \<and> power_inv rb s' (rs @ reading s s') (es @ es')"
proof -
  obtain c where c: "the_charger s = Some c" using assms(1) by (auto simp: power_inv_def)
  show ?thesis
  proof (cases "charger_configured s")
    case True
    then show ?thesis using monitor_inv [OF assms(1) c _ assms(2), of e] c by (simp add: charger_tick_def)
  next
    case False
    obtain a where a: "Power_GetDefaultChargeCurrent rb = Fin False a" "0 \<le> a" "a \<le> 5"
      using assms(3) by (auto simp: robot_ok_def)
    have q: "flt_lit binary32 (1 / 4) = Fin False (1 / 4)" by code_simp
    have "configure vt rb c \<noteq> None"
    proof -
      obtain present c1 where 1: "vt_init vt c = (present, c1)" by fastforce
      obtain s1 c2 where 2: "vt_setPreChargeCurrent vt (Fin False (1 / 4)) c1 = (s1, c2)" by fastforce
      obtain s2 c3 where 3: "vt_setTerminationCurrent vt (Fin False (1 / 4)) c2 = Some (s2, c3)"
        using set_termination_defined [of "1 / 4" c2] by auto
      obtain s3 c4 where 4: "vt_setChargingCurrent vt (Fin False a) False c3 = Some (s3, c4)"
        using set_charging_defined [of a False c3] a(2,3) by auto
      show ?thesis by (cases present) (simp_all add: configure_def q 1 2 3 4 a(1) split_def Let_def)
    qed
    then show ?thesis
      using assms(1) c False
      by (auto simp: charger_tick_def power_inv_def reading_def line_after_append)
  qed
qed

lemma power_run_inv:
  assumes "robot_ok rb" "n < 2 ^ 31"
  shows "\<exists>s rs es. power_run vt e rb n (SetDriver (Some c) power_init) = Some (s, rs, es) \<and>
    power_inv rb s rs es \<and> length rs \<le> n"
  using assms(2)
proof (induction n)
  case 0
  then show ?case by (simp add: power_inv_def SetDriver_def power_init_def low_streak_def powered_def)
next
  case (Suc n)
  then obtain s rs es where r: "power_run vt e rb n (SetDriver (Some c) power_init) = Some (s, rs, es)"
    "power_inv rb s rs es" "length rs \<le> n" by auto
  moreover have "length rs < 2 ^ 31 - 1" using r(3) Suc.prems by simp
  ultimately obtain s' es' where "charger_tick vt e rb s = Some (s', es')"
    "power_inv rb s' (rs @ reading s s') (es @ es')"
    using charger_tick_inv [OF _ _ assms(1)] by blast
  then show ?case using r by (simp add: reading_def)
qed

end

lemma xBotRobot_values:
  "xBotRobot = \<lparr>Power_GetDefaultBatteryFullVoltage = Fin False (4404019 / 262144),
     Power_GetDefaultBatteryEmptyVoltage = Fin False (13841203 / 1048576),
     Power_GetDefaultChargeCurrent = Fin False 1, Power_GetAbsoluteMinVoltage = Fin False 12\<rparr>"
proof -
  have "fmul binary32 (flt_lit binary32 4) (flt_lit binary32 (42 / 10)) = Fin False (4404019 / 262144)"
    "fmul binary32 (flt_lit binary32 4) (flt_lit binary32 (33 / 10)) = Fin False (13841203 / 1048576)"
    "flt_lit binary32 4 = Fin False 4"
    by code_simp+
  moreover have "flt_lit binary64 1 = Fin False 1" "flt_lit binary64 3 = Fin False 3"
    using flt_lit_int [of 1 binary64] flt_lit_int [of 3 binary64] representable_small(2) [of 1] representable_small(2) [of 3]
    by simp_all
  moreover have "fround binary64 s 4 = Fin s 4" "fround binary64 s 12 = Fin s 12"
    "fround binary32 s 1 = Fin s 1" "fround binary32 s 12 = Fin s 12" for s
    using fround_representable representable_small(1) [of 1] representable_small(1) [of 12]
      representable_small(2) [of 4] representable_small(2) [of 12] by simp_all
  ultimately show ?thesis by (simp only: xBotRobot_def) simp
qed

lemma xBotRobot_ok: "robot_ok xBotRobot"
  by (simp add: robot_ok_def xBotRobot_values)

text \<open>
  C26: For every behaviour of the I2C bus and any number of seconds (below \<open>2 ^ 31\<close>), the charger
  task of the power service always has a defined outcome; its counter is the number of the most
  recent complete readings that were below 12 V in a row; and the high-level computer is switched
  off exactly as long as there are more than ten of them, and switched on by the first reading
  that is not. Seconds in which a reading fails neither count nor reset the counter.
\<close>

theorem brownout_protection:
  assumes "n < 2 ^ 31"
  shows "\<exists>s rs es. power_run (bq_vt tr) e xBotRobot n (SetDriver (Some c) power_init) = Some (s, rs, es) \<and>
    critical_count s = int (low_streak xBotRobot rs) \<and>
    line_after None es = (if 10 < low_streak xBotRobot rs then Some False
                          else if list_ex (\<lambda>v. \<not> too_low xBotRobot v) rs then Some True else None)"
proof -
  obtain s rs es where "power_run (bq_vt tr) e xBotRobot n (SetDriver (Some c) power_init) = Some (s, rs, es)"
    "power_inv xBotRobot s rs es"
    using bq.power_run_inv [OF xBotRobot_ok assms, of tr e c] by blast
  then show ?thesis unfolding power_inv_def powered_def by blast
qed

definition example_bus :: "nat \<Rightarrow> u8 \<Rightarrow> bytes \<Rightarrow> nat \<Rightarrow> nat \<Rightarrow> bool \<times> (nat \<Rightarrow> u8) \<times> nat" where
  "example_bus d a tx n b = (True, (\<lambda>k. if tx = [REG_VBAT_ADC] \<and> k = 0 then 0x28 else 0), b + 1)"

text \<open>The second tick reads 10.24 V: one reading that is too low, and no command yet.\<close>

theorem brownout_protection_witness:
  "(\<exists>s rs es. power_run (bq_vt example_bus) \<lparr>etl_min = \<lambda>a b. a, etl_max = \<lambda>a b. a\<rparr> xBotRobot 2
      (SetDriver (Some \<lparr>i2c_driver = Some 0, i2c_bus = 0\<rparr>) power_init) = Some (s, rs, es) \<and>
    critical_count s = 1 \<and> line_after None es = None)"
proof -
  let ?run = "power_run (bq_vt example_bus) \<lparr>etl_min = \<lambda>a b. a, etl_max = \<lambda>a b. a\<rparr> xBotRobot 2
      (SetDriver (Some \<lparr>i2c_driver = Some 0, i2c_bus = 0\<rparr>) power_init)"
  obtain s rs es where r: "?run = Some (s, rs, es)" "critical_count s = int (low_streak xBotRobot rs)"
    "line_after None es = (if 10 < low_streak xBotRobot rs then Some False
       else if list_ex (\<lambda>v. \<not> too_low xBotRobot v) rs then Some True else None)"
    using brownout_protection [of 2 example_bus "\<lparr>etl_min = \<lambda>a b. a, etl_max = \<lambda>a b. a\<rparr>" "\<lparr>i2c_driver = Some 0, i2c_bus = 0\<rparr>"]
    by fastforce
  have "map_option (\<lambda>(s, rs, es). (low_streak xBotRobot rs, list_ex (\<lambda>v. \<not> too_low xBotRobot v) rs)) ?run = Some (1, False)"
    unfolding xBotRobot_values by code_simp
  then have "low_streak xBotRobot rs = 1" "\<not> list_ex (\<lambda>v. \<not> too_low xBotRobot v) rs" using r(1) by simp_all
  then show ?thesis using r by simp
qed


subsection \<open>The battery percentage\<close>

lemma unit_interval_eq:
  "is_minmax e \<Longrightarrow> unit_interval e x =
     (if flt_less x (Fin False 1) then if flt_less (Fin False 0) x then x else Fin False 0 else Fin False 1)"
  by (simp add: unit_interval_def is_minmax_def)

definition battery_span :: rat where "battery_span = 3774873 / 1048576"

lemma percentage_eq:
  "percentage e xBotRobot v =
     unit_interval e (fdiv binary32 (fsub binary32 v (Fin False (13841203 / 1048576))) (Fin False battery_span))"
proof -
  have "fsub binary32 (Fin False (4404019 / 262144)) (Fin False (13841203 / 1048576)) = Fin False battery_span"
    by code_simp
  then show ?thesis by (simp add: percentage_def xBotRobot_values)
qed

lemma span_facts: "0 < battery_span" "representable binary32 battery_span"
  by code_simp+

lemma fround_sign:
  assumes "0 \<le> m"
  obtains "fround f s m = Inf s" | m' where "fround f s m = Fin s m'" "0 \<le> m'"
  using proper_fround [OF assms, of f s] by (auto simp: fround_def Let_def split: if_splits)

lemma unit_interval_negative:
  assumes "is_minmax e" "0 \<le> m"
  shows "unit_interval e (fround f True m) = Fin False 0"
  using assms(2) by (rule fround_sign [of m f True]) (use assms(1) in \<open>simp_all add: unit_interval_eq\<close>)

lemma unit_interval_positive:
  assumes "is_minmax e" "0 \<le> m"
  shows "\<exists>p. unit_interval e (fround f False m) = Fin False p \<and> 0 \<le> p \<and> p \<le> 1"
  using assms(2) by (rule fround_sign [of m f False]) (use assms(1) in \<open>auto simp: unit_interval_eq\<close>)

text \<open>
  The reported percentage is a number between 0 and 1 for every battery voltage the charger
  can report (up to 66 V); it is 0 up to the empty voltage (3.3 V per cell, as a float) and 1
  from the full voltage (4.2 V per cell).
\<close>

theorem battery_percentage_scale:
  assumes "is_minmax e" "0 \<le> v" "v \<le> 66"
  shows "\<exists>p. percentage e xBotRobot (Fin False v) = Fin False p \<and> 0 \<le> p \<and> p \<le> 1 \<and>
    (v \<le> 13841203 / 1048576 \<longrightarrow> p = 0) \<and> (4404019 / 262144 \<le> v \<longrightarrow> p = 1)"
proof -
  let ?empty = "13841203 / 1048576 :: rat"
  have pe: "percentage e xBotRobot (Fin False v) =
      unit_interval e (fdiv binary32 (of_rat_flt binary32 False (v - ?empty)) (Fin False battery_span))"
    by (simp add: percentage_eq fsub_def)
  have span: "0 < battery_span" "battery_span \<noteq> 0" using span_facts(1) by simp_all
  show ?thesis
  proof (cases "v \<le> ?empty")
    case True
    let ?m = "\<bar>v - ?empty\<bar>"
    have "fdiv binary32 (of_rat_flt binary32 False (v - ?empty)) (Fin False battery_span) = Fin False 0
      \<or> fdiv binary32 (of_rat_flt binary32 False (v - ?empty)) (Fin False battery_span) = Inf True
      \<or> (\<exists>m \<ge> 0. fdiv binary32 (of_rat_flt binary32 False (v - ?empty)) (Fin False battery_span) = fround binary32 True m)"
    proof (cases "v = ?empty")
      case True
      then show ?thesis using span by (simp add: of_rat_flt_def fround_def)
    next
      case False
      then have "of_rat_flt binary32 False (v - ?empty) = fround binary32 True ?m"
        using True by (simp add: of_rat_flt_def)
      moreover have "fround binary32 True ?m = Inf True \<or> (\<exists>m' \<ge> 0. fround binary32 True ?m = Fin True m')"
        by (rule fround_sign [of ?m binary32 True]) auto
      moreover have "0 \<le> m' / battery_span" if "0 \<le> m'" for m' using that span by simp
      ultimately show ?thesis using span by (elim disjE exE) fastforce+
    qed
    then have "percentage e xBotRobot (Fin False v) = Fin False 0"
      unfolding pe using unit_interval_negative [OF assms(1)] unit_interval_eq [OF assms(1), of "Fin False 0"]
        unit_interval_eq [OF assms(1), of "Inf True"] by auto
    then show ?thesis using True by auto
  next
    case False
    have rv: "representable binary32 66" by (rule representable_limits(1))
    obtain m where m: "of_rat_flt binary32 False (v - ?empty) = Fin False m" "0 \<le> m"
      using fround_le [OF rv, of "v - ?empty" False] False assms(3) by (auto simp: of_rat_flt_def)
    have one: "p = 1" if full: "4404019 / 262144 \<le> v" and p: "unit_interval e (fround binary32 False (m / battery_span)) = Fin False p" for p
    proof -
      have "battery_span \<le> v - ?empty" using full by (simp add: battery_span_def)
      then have "battery_span \<le> m"
        using fround_ge [OF span_facts(2,1), of "v - ?empty" False] m(1) False by (auto simp: of_rat_flt_def)
      then have "1 \<le> m / battery_span" using span by (simp add: le_divide_eq)
      then show ?thesis
        using fround_ge [OF representable_1, of "m / battery_span" False] p
        by (auto simp: unit_interval_eq [OF assms(1)])
    qed
    show ?thesis
      using unit_interval_positive [OF assms(1), of "m / battery_span" binary32] one m span False by (auto simp: pe)
  qed
qed

theorem battery_percentage_scale_witness:
  "(\<exists>p. percentage \<lparr>etl_min = \<lambda>a b. if flt_less b a then b else a, etl_max = \<lambda>a b. if flt_less a b then b else a\<rparr>
     xBotRobot (Fin False 17) = Fin False p \<and> p = 1)"
  using battery_percentage_scale [of "\<lparr>etl_min = \<lambda>a b. if flt_less b a then b else a, etl_max = \<lambda>a b. if flt_less a b then b else a\<rparr>" 17]
  by (auto simp: is_minmax_def)

end
