(* ===== verification/Json_Stream.thy ===== *)
theory Json_Stream
  imports Prelude
begin

text \<open>
  Streaming a JSON text through a parser (\<open>src/json_stream.*\<close>). The parser (lwjson) is
  another project: \<open>parse\<close> is what it does with one byte, its new state, its result code and
  the callbacks it makes, each with the view of its stack and buffers the callback reads. The
  source of bytes (decompressed by xbot-service) is the sequence of bytes it delivers. A write
  outside the line buffer of the error report is \<^term>\<open>None\<close>.
\<close>

subsection \<open>The parser's interface\<close>

datatype lwjson_stream_type =
    TY_NONE | TY_OBJECT | TY_OBJECT_END | TY_ARRAY | TY_ARRAY_END | TY_KEY | TY_STRING | TY_TRUE
  | TY_FALSE | TY_NULL | TY_NUMBER

datatype lwjsonr =
    lwjsonOK | lwjsonERR | lwjsonERRJSON | lwjsonERRMEM | lwjsonERRPAR | lwjsonSTREAMWAITFIRSTCHAR
  | lwjsonSTREAMDONE | lwjsonSTREAMINPROG

text \<open>What a callback sees: depth, the name at each level of the stack, the string and the number buffer.\<close>

record jsp =
  stack_pos :: nat
  stack_name :: "nat \<Rightarrow> string"
  str_buff :: string
  prim_buff :: string

type_synonym json_event = "jsp \<times> lwjson_stream_type"

type_synonym 'p lwjson = "'p \<Rightarrow> u8 \<Rightarrow> 'p \<times> lwjsonr \<times> json_event list"

text \<open>A callback: its answer and the new state; \<^term>\<open>None\<close> for a null dereference.\<close>

type_synonym 'd json_callback = "jsp \<Rightarrow> lwjson_stream_type \<Rightarrow> 'd \<Rightarrow> (bool \<times> 'd) option"

subsection \<open>Helpers\<close>

text \<open>\<open>strchr\<close> also finds the terminator, so a NUL byte counts as white space.\<close>

fun OnlyWhitespaceRemaining :: "bytes \<Rightarrow> bool" where
  "OnlyWhitespaceRemaining [] \<longleftrightarrow> True"
| "OnlyWhitespaceRemaining (c # cs) \<longleftrightarrow> c \<in> {32, 9, 13, 10, 0} \<and> OnlyWhitespaceRemaining cs"

fun IsError :: "lwjsonr \<Rightarrow> bool" where
  "IsError lwjsonERR \<longleftrightarrow> True"
| "IsError lwjsonERRJSON \<longleftrightarrow> True"
| "IsError lwjsonERRMEM \<longleftrightarrow> True"
| "IsError lwjsonERRPAR \<longleftrightarrow> True"
| "IsError _ \<longleftrightarrow> False"

definition LINE_BUF :: nat where "LINE_BUF = 128"

fun put_all :: "bytes \<Rightarrow> nat \<Rightarrow> bytes \<Rightarrow> (bytes \<times> nat) option" where
  "put_all buf pos [] = Some (buf, pos)"
| "put_all buf pos (c # cs) = do { buf' \<leftarrow> aput buf pos c; put_all buf' (Suc pos) cs }"

text \<open>
  The loop of \<open>LogErrorPosition\<close>: \<open>position\<close> bytes have been read, \<open>cs\<close> are left; the result
  is the list of logged lines.
\<close>

fun log_loop :: "nat \<Rightarrow> nat \<Rightarrow> bytes \<Rightarrow> bytes \<Rightarrow> nat \<Rightarrow> bytes list option" where
  "log_loop error_pos position [] line_buf line_pos = Some []"
| "log_loop error_pos position (c # cs) line_buf line_pos = do {
     (b1, p1) \<leftarrow> (if c \<noteq> 10 then put_all line_buf line_pos [c] else Some (line_buf, line_pos));
     (b2, p2) \<leftarrow> (if Suc position = error_pos then put_all b1 p1 (cstr ''<ERROR>'') else Some (b1, p1));
     let split_line = LINE_BUF - 7 \<le> p2;
     (b3, p3) \<leftarrow> (if split_line then put_all b2 p2 (cstr ''<SPLIT>'') else Some (b2, p2));
     (if c = 10 \<or> cs = [] \<or> split_line
      then map_option ((#) (take p3 b3)) (log_loop error_pos (Suc position) cs b3 0)
      else log_loop error_pos (Suc position) cs b3 p3) }"

text \<open>The buffer is not initialised: \<open>junk\<close> is what it holds at first.\<close>

definition LogErrorPosition :: "bytes \<Rightarrow> bytes \<Rightarrow> nat \<Rightarrow> bytes list option" where
  "LogErrorPosition junk json error_pos = log_loop error_pos 0 json (take LINE_BUF (junk @ replicate LINE_BUF 0)) 0"

fun run_callbacks :: "'d json_callback \<Rightarrow> json_event list \<Rightarrow> bool \<times> 'd \<Rightarrow> (bool \<times> 'd) option" where
  "run_callbacks cb [] (failed, d) = Some (failed, d)"
| "run_callbacks cb ((j, t) # es) (failed, d) = do {
     (ok, d') \<leftarrow> cb j t d;
     run_callbacks cb es (failed \<or> \<not> ok, d') }"

subsection \<open>The loop over the text\<close>

datatype json_end = Complete | Extra nat | CallbackFailed nat | ParseError nat | EndNotFound nat

text \<open>How the loop ends, with the position of the source at that moment, and the state the callbacks left.\<close>

fun process_loop :: "'p lwjson \<Rightarrow> 'd json_callback \<Rightarrow> 'p \<Rightarrow> nat \<Rightarrow> bytes \<Rightarrow> bool \<times> 'd \<Rightarrow> (json_end \<times> 'd) option" where
  "process_loop parse cb p pos [] (failed, d) = Some (EndNotFound pos, d)"
| "process_loop parse cb p pos (c # cs) (failed, d) =
     (case parse p c of (p', res, es) \<Rightarrow> do {
        (failed', d') \<leftarrow> run_callbacks cb es (failed, d);
        (if res = lwjsonSTREAMDONE then
           Some (if OnlyWhitespaceRemaining cs then Complete
                 else Extra (Suc pos + Suc (length (takeWhile (\<lambda>c. c \<in> {32, 9, 13, 10, 0}) cs))), d')
         else if failed' then Some (CallbackFailed (Suc pos), d')
         else if IsError res then Some (ParseError (Suc pos), d')
         else process_loop parse cb p' (Suc pos) cs (failed', d')) })"

text \<open>\<open>ProcessJson\<close>: its result, the logged lines and the final state.\<close>

definition ProcessJson :: "bytes \<Rightarrow> 'p lwjson \<Rightarrow> 'p \<Rightarrow> 'd json_callback \<Rightarrow> bytes \<Rightarrow> 'd \<Rightarrow> (bool \<times> bytes list \<times> 'd) option" where
  "ProcessJson junk parse p0 cb json d = do {
     (e, d') \<leftarrow> process_loop parse cb p0 0 json (False, d);
     (case e of
        Complete \<Rightarrow> Some (True, [], d')
      | Extra pos \<Rightarrow> do {
          ls \<leftarrow> LogErrorPosition junk json pos;
          Some (False, cstr ''Input config JSON parsing failed: extra characters after end'' # ls, d') }
      | CallbackFailed pos \<Rightarrow> do { ls \<leftarrow> LogErrorPosition junk json pos; Some (False, ls, d') }
      | ParseError pos \<Rightarrow> do {
          ls \<leftarrow> LogErrorPosition junk json pos;
          Some (False, cstr ''Input config JSON parsing failed'' # ls, d') }
      | EndNotFound pos \<Rightarrow> do {
          ls \<leftarrow> LogErrorPosition junk json pos;
          Some (True, cstr ''Input config JSON parsing failed: end not found'' # ls, d') }) }"

subsection \<open>Typed access for callbacks\<close>

definition JsonExpectType :: "lwjson_stream_type \<Rightarrow> lwjson_stream_type \<Rightarrow> bool" where
  "JsonExpectType expected type \<longleftrightarrow> type = expected"

definition JsonExpectTypeOrEnd :: "lwjson_stream_type \<Rightarrow> lwjson_stream_type \<Rightarrow> lwjson_stream_type \<Rightarrow> bool" where
  "JsonExpectTypeOrEnd expected expected_end type \<longleftrightarrow> type = expected \<or> type = expected_end"

text \<open>The number is parsed by the ETL library: \<open>to_arithmetic\<close>.\<close>

definition JsonGetNumber :: "(string \<Rightarrow> 'n option) \<Rightarrow> jsp \<Rightarrow> lwjson_stream_type \<Rightarrow> 'n option" where
  "JsonGetNumber to_arithmetic j type = (if JsonExpectType TY_NUMBER type then to_arithmetic (prim_buff j) else None)"

fun JsonGetBool :: "lwjson_stream_type \<Rightarrow> bool option" where
  "JsonGetBool TY_TRUE = Some True"
| "JsonGetBool TY_FALSE = Some False"
| "JsonGetBool _ = None"


subsection \<open>Interface: a client of the JSON stream\<close>

text \<open>What a callback keeps at every event holds after the whole text, whatever the parser delivers.\<close>

locale json_client =
  fixes cb :: "'d json_callback" and inv :: "'d \<Rightarrow> bool"
  assumes cb_keeps: "inv d \<Longrightarrow> cb j t d = Some (ok, d') \<Longrightarrow> inv d'"
begin

lemma run_callbacks_keeps:
  "run_callbacks cb es (failed, d) = Some (failed', d') \<Longrightarrow> inv d \<Longrightarrow> inv d'"
proof (induction es arbitrary: failed d)
  case (Cons e es)
  obtain j t where "e = (j, t)" by fastforce
  then show ?case using Cons cb_keeps by (auto simp: bind_eq_Some_conv)
qed simp

lemma process_loop_keeps:
  "process_loop parse cb p pos cs (failed, d) = Some (e, d') \<Longrightarrow> inv d \<Longrightarrow> inv d'"
proof (induction cs arbitrary: p pos failed d)
  case (Cons c cs)
  obtain p' res es where pr: "parse p c = (p', res, es)" by (metis prod_cases3)
  obtain f1 d1 where r: "run_callbacks cb es (failed, d) = Some (f1, d1)"
    using Cons.prems(1) pr by (auto simp: bind_eq_Some_conv)
  then have "inv d1" using run_callbacks_keeps Cons.prems(2) by blast
  then show ?case using Cons.prems(1) pr r Cons.IH by (auto split: if_splits)
qed simp

lemma ProcessJson_keeps:
  "ProcessJson junk parse p0 cb json d = Some (ok, logged, d') \<Longrightarrow> inv d \<Longrightarrow> inv d'"
proof -
  assume h: "ProcessJson junk parse p0 cb json d = Some (ok, logged, d')" "inv d"
  obtain e d1 where e: "process_loop parse cb p0 0 json (False, d) = Some (e, d1)"
    using h(1) by (auto simp: ProcessJson_def bind_eq_Some_conv)
  then have "d' = d1" using h(1) by (cases e) (auto simp: ProcessJson_def bind_eq_Some_conv)
  then show "inv d'" using process_loop_keeps [OF e h(2)] by simp
qed

end

subsection \<open>The error report stays inside its buffer\<close>

definition column :: "bytes \<Rightarrow> nat" where
  "column seen = length (takeWhile (\<lambda>c. c \<noteq> 10) (rev seen))"

lemma column_simps [simp]: "column [] = 0" "column (seen @ [c]) = (if c = 10 then 0 else Suc (column seen))"
  by (simp_all add: column_def)

lemma put_all_in:
  "pos + length cs \<le> length buf \<Longrightarrow> \<exists>buf'. put_all buf pos cs = Some (buf', pos + length cs) \<and> length buf' = length buf"
proof (induction cs arbitrary: buf pos)
  case (Cons c cs)
  then have "aput buf pos c = Some (buf[pos := c])" by (simp add: aput_in)
  then show ?case using Cons.IH [of "Suc pos" "buf[pos := c]"] Cons.prems by auto
qed simp

lemma log_loop_safe:
  assumes "length buf = LINE_BUF" "line_pos \<le> 120" "length seen < error_pos \<longrightarrow> line_pos \<le> column seen"
    "length seen < error_pos \<longrightarrow> column (take (error_pos - 1) (seen @ cs)) \<le> 113"
  shows "log_loop error_pos (length seen) cs buf line_pos \<noteq> None"
  using assms
proof (induction cs arbitrary: seen buf line_pos)
  case (Cons c cs)
  let ?seen = "seen @ [c]"
  define p1 where "p1 = (if c \<noteq> 10 then Suc line_pos else line_pos)"
  have "\<exists>b1. (if c \<noteq> 10 then put_all buf line_pos [c] else Some (buf, line_pos)) = Some (b1, p1) \<and> length b1 = LINE_BUF"
    using put_all_in [of line_pos "[c]" buf] Cons.prems(1,2) by (cases "c = 10") (auto simp: p1_def LINE_BUF_def)
  then obtain b1 where b1: "(if c \<noteq> 10 then put_all buf line_pos [c] else Some (buf, line_pos)) = Some (b1, p1)" "length b1 = LINE_BUF"
    by blast
  define p2 where "p2 = (if Suc (length seen) = error_pos then p1 + 7 else p1)"
  have p1_bound: "p1 \<le> 114" if "Suc (length seen) = error_pos"
  proof -
    have "take (error_pos - 1) (seen @ c # cs) = seen" using that by auto
    then show ?thesis using Cons.prems(3,4) that by (auto simp: p1_def)
  qed
  have p2: "p2 \<le> 121" using p1_bound Cons.prems(2) by (auto simp: p2_def p1_def)
  have "\<exists>b2. (if Suc (length seen) = error_pos then put_all b1 p1 (cstr ''<ERROR>'') else Some (b1, p1)) = Some (b2, p2)
      \<and> length b2 = LINE_BUF"
    using put_all_in [of p1 "cstr ''<ERROR>''" b1] p1_bound b1(2)
    by (cases "Suc (length seen) = error_pos") (auto simp: p2_def LINE_BUF_def simp del: list.map)
  then obtain b2 where b2: "(if Suc (length seen) = error_pos then put_all b1 p1 (cstr ''<ERROR>'') else Some (b1, p1)) = Some (b2, p2)"
    "length b2 = LINE_BUF" by blast
  define p3 where "p3 = (if LINE_BUF - 7 \<le> p2 then p2 + 7 else p2)"
  have "\<exists>b3. (if LINE_BUF - 7 \<le> p2 then put_all b2 p2 (cstr ''<SPLIT>'') else Some (b2, p2)) = Some (b3, p3) \<and> length b3 = LINE_BUF"
    using put_all_in [of p2 "cstr ''<SPLIT>''" b2] p2 b2(2)
    by (cases "LINE_BUF - 7 \<le> p2") (auto simp: p3_def LINE_BUF_def simp del: list.map)
  then obtain b3 where b3: "(if LINE_BUF - 7 \<le> p2 then put_all b2 p2 (cstr ''<SPLIT>'') else Some (b2, p2)) = Some (b3, p3)"
    "length b3 = LINE_BUF" by blast
  let ?brk = "c = 10 \<or> cs = [] \<or> LINE_BUF - 7 \<le> p2"
  have "log_loop error_pos (length ?seen) cs b3 (if ?brk then 0 else p3) \<noteq> None"
  proof (rule Cons.IH [OF b3(2)])
    show "(if ?brk then 0 else p3) \<le> 120" by (auto simp: p3_def LINE_BUF_def)
    show "length ?seen < error_pos \<longrightarrow> (if ?brk then 0 else p3) \<le> column ?seen"
      using Cons.prems(3) by (auto simp: p3_def p2_def p1_def)
    show "length ?seen < error_pos \<longrightarrow> column (take (error_pos - 1) (?seen @ cs)) \<le> 113"
      using Cons.prems(4) by auto
  qed
  then show ?case
    unfolding log_loop.simps b1(1) b2(1) Option.bind.bind_lunit prod.case Let_def b3(1)
    by (cases ?brk) auto
qed simp

text \<open>
  Reporting the position of an error never writes outside the 128-byte line buffer,
  provided the offending character is among the first 114 of its line.
\<close>

theorem LogErrorPosition_safe:
  assumes "column (take (error_pos - 1) json) \<le> 113"
  shows "LogErrorPosition junk json error_pos \<noteq> None"
  unfolding LogErrorPosition_def
  using log_loop_safe [of "take LINE_BUF (junk @ replicate LINE_BUF 0)" 0 "[]" error_pos json] assms by simp

text \<open>Without that bound the two markers do not fit: the report of an error in column 115 writes behind the buffer.\<close>

lemma LogErrorPosition_overflow: "LogErrorPosition [] (replicate 115 65) 115 = None"
  by code_simp

theorem LogErrorPosition_safe_witness:
  "LogErrorPosition [] (cstr ''{\"gpio\": 1}'') 10 \<noteq> None \<and> LogErrorPosition [] (replicate 114 65) 114 \<noteq> None"
proof -
  have "column (take (10 - 1) (cstr ''{\"gpio\": 1}'')) \<le> 113" "column (take (114 - 1) (replicate 114 65)) \<le> 113"
    by code_simp+
  then show ?thesis using LogErrorPosition_safe by blast
qed

end
