(* ===== verification/Input_Config.thy ===== *)
theory Input_Config
  imports Emergency Json_Stream
begin

text \<open>
  The configuration of the inputs: \<open>OnRegisterInputConfigsChanged\<close> and the JSON callback of
  \<open>src/services/input_service/input_service.cpp\<close>, and the attributes the drivers understand
  (\<open>OnInputConfigValue\<close>). The JSON parser delivers events (theory \<open>Json_Stream\<close>); the lookup
  of an I/O line by name is an argument here and defined in \<open>Board_Lines\<close>; the parser of
  numbers belongs to the ETL library.
\<close>

record input_config_json_data =
  jd_driver :: "string option"
  jd_current_input :: "nat option"
  jd_next_idx :: u8

definition json_data_init :: input_config_json_data where
  "json_data_init = \<lparr>jd_driver = None, jd_current_input = None, jd_next_idx = 0\<rparr>"

definition NUM_VIRTUAL_INPUTS :: nat where "NUM_VIRTUAL_INPUTS = 1"
definition MAX_INPUTS :: nat where "MAX_INPUTS = 30 + NUM_VIRTUAL_INPUTS"
definition DRIVER_KEY_MAX_SIZE :: nat where "DRIVER_KEY_MAX_SIZE = 10"

text \<open>Writing a field of the input a pointer refers to; \<^term>\<open>None\<close> for a null pointer.\<close>

definition modify_input :: "nat option \<Rightarrow> (input \<Rightarrow> input) \<Rightarrow> input_service \<Rightarrow> input_service option" where
  "modify_input p f s =
     (case p of None \<Rightarrow> None
      | Some i \<Rightarrow> if i < length (all_inputs s)
                 then Some (s\<lparr>all_inputs := (all_inputs s)[i := f (all_inputs s ! i)]\<rparr>) else None)"

fun set_driver :: "string \<Rightarrow> input_driver \<Rightarrow> (string \<times> input_driver) list \<Rightarrow> (string \<times> input_driver) list" where
  "set_driver k d [] = []"
| "set_driver k d ((k', d') # ds) = (if k' = k then (k', d) # ds else (k', d') # set_driver k d ds)"

definition PAL_NOLINE :: u32 where "PAL_NOLINE = 0"

text \<open>
  \<open>OnInputConfigValue\<close> of the GPIO driver. Note that the line is written before it is checked.
\<close>

definition Gpio_OnInputConfigValue ::
  "(string \<Rightarrow> u32) \<Rightarrow> jsp \<Rightarrow> string \<Rightarrow> lwjson_stream_type \<Rightarrow> input \<Rightarrow> bool \<times> input" where
  "Gpio_OnInputConfigValue GetIoLineByName j key type inp =
     (if key = ''line'' then
        if \<not> JsonExpectType TY_STRING type then (False, inp)
        else let inp' = inp\<lparr>gpio_line := GetIoLineByName (str_buff j)\<rparr>
             in (gpio_line inp' \<noteq> PAL_NOLINE, inp')
      else if key = ''active'' then
        if \<not> JsonExpectType TY_STRING type then (False, inp)
        else if str_buff j = ''high'' then (True, inp\<lparr>invert := False\<rparr>)
        else if str_buff j = ''low'' then (True, inp\<lparr>invert := True\<rparr>)
        else (False, inp)
      else (False, inp))"

definition Simulated_OnInputConfigValue :: "jsp \<Rightarrow> string \<Rightarrow> lwjson_stream_type \<Rightarrow> input \<Rightarrow> bool \<times> input" where
  "Simulated_OnInputConfigValue j key type inp = (False, inp)"

definition OnInputConfigValue ::
  "(string \<Rightarrow> u32) \<Rightarrow> driver_kind \<Rightarrow> jsp \<Rightarrow> string \<Rightarrow> lwjson_stream_type \<Rightarrow> input \<Rightarrow> bool \<times> input" where
  "OnInputConfigValue lines k j key type inp =
     (case k of GpioInputDriver \<Rightarrow> Gpio_OnInputConfigValue lines j key type inp
      | SimulatedInputDriver \<Rightarrow> Simulated_OnInputConfigValue j key type inp)"

subsection \<open>The callback, by depth\<close>

type_synonym config_state = "input_service \<times> input_config_json_data"

definition driver_key :: "jsp \<Rightarrow> config_state \<Rightarrow> (bool \<times> config_state) option" where
  "driver_key j = (\<lambda>(s, data).
     let k = str_buff j
     in if length k \<le> DRIVER_KEY_MAX_SIZE
        then (case map_of (drivers s) k of
                None \<Rightarrow> Some (False, s, data)
              | Some _ \<Rightarrow> Some (True, s, data\<lparr>jd_driver := Some k\<rparr>))
        else Some (False, s, data))"

definition one_input :: "lwjson_stream_type \<Rightarrow> config_state \<Rightarrow> (bool \<times> config_state) option" where
  "one_input type = (\<lambda>(s, data).
     if \<not> JsonExpectTypeOrEnd TY_OBJECT TY_OBJECT_END type then Some (False, s, data)
     else if type = TY_OBJECT then
       if length (all_inputs s) \<ge> MAX_INPUTS then Some (False, s, data)
       else
         let i = length (all_inputs s);
             ins = all_inputs s @ [new_input\<lparr>idx := jd_next_idx data\<rparr>];
             data' = data\<lparr>jd_current_input := Some i, jd_next_idx := jd_next_idx data + 1\<rparr>
         in do {
           k \<leftarrow> jd_driver data;
           d \<leftarrow> map_of (drivers s) k;
           (d', ins') \<leftarrow> AddInput i d ins;
           Some (True, s\<lparr>all_inputs := ins', drivers := set_driver k d' (drivers s)\<rparr>, data') }
     else Some (True, s, data\<lparr>jd_current_input := None\<rparr>))"

definition input_value ::
  "(string \<Rightarrow> u32) \<Rightarrow> jsp \<Rightarrow> lwjson_stream_type \<Rightarrow> config_state \<Rightarrow> (bool \<times> config_state) option" where
  "input_value lines j type = (\<lambda>(s, data).
     let key = stack_name j 4
     in if key = ''invert'' then
          (case JsonGetBool type of
             None \<Rightarrow> Some (False, s, data)
           | Some b \<Rightarrow> do { s' \<leftarrow> modify_input (jd_current_input data) (\<lambda>inp. inp\<lparr>invert := b\<rparr>) s; Some (True, s', data) })
        else if key = ''emergency'' then
          if \<not> JsonExpectTypeOrEnd TY_OBJECT TY_OBJECT_END type then Some (False, s, data)
          else if type = TY_OBJECT then do {
            s' \<leftarrow> modify_input (jd_current_input data) (\<lambda>inp. inp\<lparr>emergency_reason := LATCH\<rparr>) s;
            Some (True, s', data) }
          else Some (True, s, data)
        else do {
          k \<leftarrow> jd_driver data;
          d \<leftarrow> map_of (drivers s) k;
          i \<leftarrow> jd_current_input data;
          inp \<leftarrow> aget (all_inputs s) i;
          let (ok, inp') = OnInputConfigValue lines (driver_kind d) j key type inp;
          Some (ok, s\<lparr>all_inputs := (all_inputs s)[i := inp']\<rparr>, data) })"

definition add_reason :: "u16 \<Rightarrow> config_state \<Rightarrow> (bool \<times> config_state) option" where
  "add_reason r = (\<lambda>(s, data). do {
     s' \<leftarrow> modify_input (jd_current_input data) (\<lambda>inp. inp\<lparr>emergency_reason := emergency_reason inp OR r\<rparr>) s;
     Some (True, s', data) })"

definition emergency_value ::
  "(string \<Rightarrow> u16 option) \<Rightarrow> jsp \<Rightarrow> lwjson_stream_type \<Rightarrow> config_state \<Rightarrow> (bool \<times> config_state) option" where
  "emergency_value to_u16 j type = (\<lambda>(s, data).
     let parent_key = stack_name j 4; key = stack_name j 6
     in if parent_key = ''emergency'' then
          if key = ''reason'' then
            if \<not> JsonExpectType TY_STRING type then Some (False, s, data)
            else if str_buff j = ''stop'' then add_reason STOP (s, data)
            else if str_buff j = ''lift'' then add_reason LIFT (s, data)
            else if str_buff j = ''collision'' then add_reason COLLISION (s, data)
            else Some (False, s, data)
          else if key = ''delay'' then
            (case JsonGetNumber to_u16 j type of
               None \<Rightarrow> Some (False, s, data)
             | Some n \<Rightarrow> do { s' \<leftarrow> modify_input (jd_current_input data) (\<lambda>inp. inp\<lparr>emergency_delay_ms := n\<rparr>) s; Some (True, s', data) })
          else if key = ''latch'' then
            if type = TY_FALSE then do {
              s' \<leftarrow> modify_input (jd_current_input data) (\<lambda>inp. inp\<lparr>emergency_reason := emergency_reason inp AND NOT LATCH\<rparr>) s;
              Some (True, s', data) }
            else Some (type = TY_TRUE, s, data)
          else Some (False, s, data)
        else Some (False, s, data))"

definition InputConfigsJsonCallback ::
  "(string \<Rightarrow> u32) \<Rightarrow> (string \<Rightarrow> u16 option) \<Rightarrow> config_state json_callback" where
  "InputConfigsJsonCallback lines to_u16 j type st =
     (if stack_pos j = 0 then Some (JsonExpectTypeOrEnd TY_OBJECT TY_OBJECT_END type, st)
      else if stack_pos j = 1 then driver_key j st
      else if stack_pos j = 2 then Some (JsonExpectTypeOrEnd TY_ARRAY TY_ARRAY_END type, st)
      else if stack_pos j = 3 then one_input type st
      else if stack_pos j = 5 then input_value lines j type st
      else if stack_pos j = 7 then emergency_value to_u16 j type st
      else Some (True, st))"

subsection \<open>The register handler\<close>

definition virtual_lift :: input where
  "virtual_lift = new_input\<lparr>idx := VIRTUAL, emergency_reason := LIFT_MULTIPLE OR LATCH, emergency_delay_ms := 10\<rparr>"

definition reset_inputs :: "input_service \<Rightarrow> input_service" where
  "reset_inputs s = s\<lparr>all_inputs := [virtual_lift],
     drivers := map (\<lambda>(k, d). (k, ClearInputs d)) (drivers s),
     num_active_lift := 0, lift_multiple_input := Some 0\<rparr>"

definition OnRegisterInputConfigsChanged ::
  "(string \<Rightarrow> u32) \<Rightarrow> (string \<Rightarrow> u16 option) \<Rightarrow> 'p lwjson \<Rightarrow> 'p \<Rightarrow> bytes \<Rightarrow> bytes \<Rightarrow> input_service
    \<Rightarrow> (bool \<times> bytes list \<times> input_service) option" where
  "OnRegisterInputConfigsChanged lines to_u16 parse p0 junk json s = do {
     (ok, logged, s', data) \<leftarrow> ProcessJson junk parse p0 (InputConfigsJsonCallback lines to_u16) json (reset_inputs s, json_data_init);
     Some (ok, logged, s') }"

definition OnSimulatedInputsChanged ::
  "(nat \<Rightarrow> u32) \<Rightarrow> u64 \<Rightarrow> input_service \<Rightarrow> (input_service \<times> input_effect list) option" where
  "OnSimulatedInputsChanged now new_value s = do {
     d \<leftarrow> map_of (drivers s) ''simulated'';
     SetActiveInputs now new_value d s }"

definition OnInputsChangedEvent :: "input_service \<Rightarrow> input_effect list option" where
  "OnInputsChangedEvent s = InputService_SendStatus s"


subsection \<open>What a configuration always satisfies\<close>

definition input_ok :: "nat \<Rightarrow> input \<Rightarrow> bool" where
  "input_ok i inp \<longleftrightarrow> \<not> active inp \<and> emergency_reason inp AND NOT (input_reasons OR LATCH) = 0 \<and>
     (if i = 0 then idx inp = VIRTUAL \<and> \<not> invert inp else idx inp = of_nat (i - 1))"

definition inputs_ok :: "input list \<Rightarrow> bool" where
  "inputs_ok ins \<longleftrightarrow> (\<forall>i < length ins. input_ok i (ins ! i))"

text \<open>Every input but the virtual one belongs to one driver, whose list has its inputs in the order they were configured.\<close>

definition owned :: "(nat \<Rightarrow> string) \<Rightarrow> input list \<Rightarrow> (string \<times> input_driver) list \<Rightarrow> bool" where
  "owned owner ins ds \<longleftrightarrow> distinct (map fst ds) \<and>
     (\<forall>i \<in> {1..<length ins}. owner i \<in> fst ` set ds) \<and>
     (\<forall>(k, d) \<in> set ds. chain ins (inputs_head d) (filter (\<lambda>i. owner i = k) [1..<length ins]))"

definition config_inv :: "config_state \<Rightarrow> bool" where
  "config_inv st \<longleftrightarrow> (case st of (s, data) \<Rightarrow>
     1 \<le> length (all_inputs s) \<and> length (all_inputs s) \<le> MAX_INPUTS \<and> inputs_ok (all_inputs s) \<and>
     lift_multiple_input s = Some 0 \<and> num_active_lift s = 0 \<and>
     (\<exists>owner. owned owner (all_inputs s) (drivers s)) \<and>
     jd_next_idx data = of_nat (length (all_inputs s) - 1) \<and>
     (\<forall>i. jd_current_input data = Some i \<longrightarrow> 0 < i \<and> i < length (all_inputs s)))"

lemma chain_snoc_inputs: "chain ins p xs \<Longrightarrow> chain (ins @ [x]) p xs"
  by (induction xs arbitrary: p) (auto simp: nth_append)

lemma owned_cong:
  assumes "owned owner ins ds" "length ins' = length ins"
    "\<And>i. i < length ins \<Longrightarrow> next_for_driver (ins' ! i) = next_for_driver (ins ! i)"
  shows "owned owner ins' ds"
proof -
  have "chain ins' (inputs_head d) (filter (\<lambda>i. owner i = k) [1..<length ins])" if "(k, d) \<in> set ds" for k d
  proof (rule chain_cong [OF _ assms(2)])
    show "chain ins (inputs_head d) (filter (\<lambda>i. owner i = k) [1..<length ins])"
      using assms(1) that by (auto simp: owned_def)
  qed (simp add: assms(3))
  then show ?thesis using assms(1,2) by (auto simp: owned_def)
qed

text \<open>Changing the configuration of the current input.\<close>

lemma config_inv_change:
  assumes "config_inv (s, data)" "jd_current_input data = Some i"
    "input_ok i x" "next_for_driver x = next_for_driver (all_inputs s ! i)"
  shows "config_inv (s\<lparr>all_inputs := (all_inputs s)[i := x]\<rparr>, data)"
proof -
  obtain owner where o: "owned owner (all_inputs s) (drivers s)" and ok: "inputs_ok (all_inputs s)"
    using assms(1) by (auto simp: config_inv_def)
  have i: "i < length (all_inputs s)" using assms(1,2) by (auto simp: config_inv_def)
  have "owned owner ((all_inputs s)[i := x]) (drivers s)"
    using i assms(4) by (intro owned_cong [OF o]) (simp_all add: nth_list_update)
  moreover have "inputs_ok ((all_inputs s)[i := x])"
    using ok assms(3) i by (simp add: inputs_ok_def nth_list_update)
  ultimately show ?thesis using assms(1) by (auto simp: config_inv_def)
qed

lemma modify_input_inv:
  assumes "config_inv (s, data)" "modify_input (jd_current_input data) f s = Some s'"
    "\<And>inp i. 0 < i \<Longrightarrow> input_ok i inp \<Longrightarrow> input_ok i (f inp)" "\<And>inp. next_for_driver (f inp) = next_for_driver inp"
  shows "config_inv (s', data)"
proof -
  obtain i where i: "jd_current_input data = Some i" "i < length (all_inputs s)"
    "s' = s\<lparr>all_inputs := (all_inputs s)[i := f (all_inputs s ! i)]\<rparr>"
    using assms(2) by (auto simp: modify_input_def split: option.splits if_splits)
  have "0 < i" "input_ok i (all_inputs s ! i)" using assms(1) i by (auto simp: config_inv_def inputs_ok_def)
  then show ?thesis using config_inv_change [OF assms(1) i(1)] assms(3,4) i(3) by simp
qed

text \<open>The reasons an input can be given.\<close>

lemma reason_bits_ok:
  fixes r a n :: u16
  assumes "r AND n = 0"
  shows "(r AND l) AND n = 0" "a AND n = 0 \<Longrightarrow> (r OR a) AND n = 0"
proof -
  have "(r AND l) AND n = (r AND n) AND l" by (simp add: and.assoc and.commute and.left_commute)
  then show "(r AND l) AND n = 0" using assms by simp
  show "a AND n = 0 \<Longrightarrow> (r OR a) AND n = 0" using assms by (simp add: and_or_distrib_mask)
qed

lemma reasons_allowed:
  "LATCH AND NOT (input_reasons OR LATCH) = 0" "STOP AND NOT (input_reasons OR LATCH) = 0"
  "LIFT AND NOT (input_reasons OR LATCH) = 0" "COLLISION AND NOT (input_reasons OR LATCH) = 0"
  "(LIFT_MULTIPLE OR LATCH) AND NOT (input_reasons OR LATCH) = 0"
  by (simp_all add: input_reasons_def emergency_reason_defs)

lemma set_driver_keys [simp]: "map fst (set_driver k d ds) = map fst ds"
  by (induction ds) auto

lemma set_driver_mem:
  "distinct (map fst ds) \<Longrightarrow> (k', d') \<in> set (set_driver k d ds) \<Longrightarrow>
   (k' = k \<and> d' = d) \<or> (k' \<noteq> k \<and> (k', d') \<in> set ds)"
  by (induction ds) (auto split: if_splits dest: image_eqI [of _ fst] simp: rev_image_eqI)

lemma update_link:
  "j < length ins \<Longrightarrow> \<exists>nx. ins[y := (ins ! y)\<lparr>next_for_driver := p\<rparr>] ! j = (ins ! j)\<lparr>next_for_driver := nx\<rparr>"
proof (cases "y = j")
  case True
  then show "j < length ins \<Longrightarrow> ?thesis" by auto
next
  case False
  then show ?thesis by (intro exI [of _ "next_for_driver (ins ! j)"]) simp
qed

lemma AddInput_fields:
  assumes "AddInput i d ins = Some (d', ins')" "j < length ins"
  shows "length ins' = length ins" "\<exists>nx. ins' ! j = (ins ! j)\<lparr>next_for_driver := nx\<rparr>"
proof -
  have "ins' = ins \<or> (\<exists>y. ins' = ins[y := (ins ! y)\<lparr>next_for_driver := Some i\<rparr>])"
    using assms(1) by (auto simp: AddInput_def bind_eq_Some_conv split: option.splits)
  moreover have "\<exists>nx. ins ! j = (ins ! j)\<lparr>next_for_driver := nx\<rparr>"
    by (rule exI [of _ "next_for_driver (ins ! j)"]) simp
  ultimately show "length ins' = length ins" "\<exists>nx. ins' ! j = (ins ! j)\<lparr>next_for_driver := nx\<rparr>"
    using update_link [OF assms(2)] by auto
qed

text \<open>A new input goes to the end of its driver's list and leaves the other lists alone.\<close>

lemma owned_add:
  assumes "owned owner ins ds" "map_of ds k = Some d" "1 \<le> length ins" "next_for_driver x = None"
  shows "\<exists>d' ins'. AddInput (length ins) d (ins @ [x]) = Some (d', ins') \<and> length ins' = Suc (length ins) \<and>
    owned (owner(length ins := k)) ins' (set_driver k d' ds)"
proof -
  let ?n = "length ins" and ?xs = "\<lambda>k. filter (\<lambda>i. owner i = k) [1..<length ins]"
  have kd: "(k, d) \<in> set ds" using assms(2) by (rule map_of_SomeD)
  have ch: "chain (ins @ [x]) (inputs_head d') (?xs k')" if "(k', d') \<in> set ds" for k' d'
    using assms(1) that by (auto simp: owned_def intro: chain_snoc_inputs)
  obtain d' ins' where add: "AddInput ?n d (ins @ [x]) = Some (d', ins')" "chain ins' (inputs_head d') (?xs k @ [?n])"
    "length ins' = length (ins @ [x])" "\<forall>j. j \<noteq> last (?xs k) \<or> ?xs k = [] \<longrightarrow> ins' ! j = (ins @ [x]) ! j"
    using AddInput_chain [OF ch [OF kd], of ?n] assms(4) by auto
  have new: "filter (\<lambda>i. (owner(?n := k)) i = k') [1..<length ins'] = ?xs k' @ (if k' = k then [?n] else [])" for k'
  proof -
    have "[1..<length ins'] = [1..<?n] @ [?n]" using add(3) assms(3) by simp
    moreover have "filter (\<lambda>i. (owner(?n := k)) i = k') [1..<?n] = ?xs k'" by (rule filter_cong) auto
    ultimately show ?thesis by simp
  qed
  have other: "chain ins' (inputs_head e) (?xs k')" if "(k', e) \<in> set ds" "k' \<noteq> k" for k' e
  proof (rule chain_cong [OF ch [OF that(1)] add(3)])
    fix i assume i: "i \<in> set (?xs k')"
    then have "?xs k = [] \<or> i \<noteq> last (?xs k)" using that(2) last_in_set [of "?xs k"] by auto
    then show "next_for_driver (ins' ! i) = next_for_driver ((ins @ [x]) ! i)" using add(4) by auto
  qed
  have keys: "fst ` set (set_driver k d' ds) = fst ` set ds"
    by (metis set_driver_keys list.set_map)
  have dist: "distinct (map fst ds)" using assms(1) by (simp add: owned_def)
  have "chain ins' (inputs_head e) (filter (\<lambda>i. (owner(?n := k)) i = k') [1..<length ins'])"
    if "(k', e) \<in> set (set_driver k d' ds)" for k' e
    unfolding new using set_driver_mem [OF dist that] add(2) other by auto
  moreover have "(owner(?n := k)) i \<in> fst ` set ds" if "i \<in> {1..<length ins'}" for i
    using that add(3) assms(1) kd by (force simp: owned_def)
  ultimately have "owned (owner(?n := k)) ins' (set_driver k d' ds)"
    using dist keys by (auto simp: owned_def simp del: fun_upd_apply)
  then show ?thesis using add(1,3) by auto
qed

lemma input_ok_link [simp]: "input_ok i (x\<lparr>next_for_driver := nx\<rparr>) = input_ok i x"
  by (simp add: input_ok_def)

lemma one_input_inv:
  assumes "config_inv st" "one_input type st = Some (ok, st')"
  shows "config_inv st'"
proof -
  obtain s data where st: "st = (s, data)" by (cases st)
  show ?thesis
  proof (cases "type = TY_OBJECT \<and> length (all_inputs s) < MAX_INPUTS")
    case False
    then show ?thesis using assms
      by (auto simp: st one_input_def JsonExpectTypeOrEnd_def config_inv_def split: if_splits)
  next
    case True
    let ?n = "length (all_inputs s)" and ?x = "new_input\<lparr>idx := jd_next_idx data\<rparr>"
    obtain owner where o: "owned owner (all_inputs s) (drivers s)" using assms(1) by (auto simp: st config_inv_def)
    obtain k d d' ins' where r: "map_of (drivers s) k = Some d" "AddInput ?n d (all_inputs s @ [?x]) = Some (d', ins')"
      "st' = (s\<lparr>all_inputs := ins', drivers := set_driver k d' (drivers s)\<rparr>,
              data\<lparr>jd_current_input := Some ?n, jd_next_idx := jd_next_idx data + 1\<rparr>)"
      using assms(2) True by (auto simp: st one_input_def JsonExpectTypeOrEnd_def Let_def bind_eq_Some_conv)
    have one: "1 \<le> ?n" using assms(1) by (auto simp: st config_inv_def)
    have own: "owned (owner(?n := k)) ins' (set_driver k d' (drivers s))" and len: "length ins' = Suc ?n"
      using owned_add [OF o r(1) one, of ?x] r(2) by (auto simp: new_input_def)
    have "input_ok i (ins' ! i)" if "i < length ins'" for i
    proof -
      have i: "i < length (all_inputs s @ [?x])" using that len by simp
      obtain nx where nx: "ins' ! i = ((all_inputs s @ [?x]) ! i)\<lparr>next_for_driver := nx\<rparr>"
        using AddInput_fields(2) [OF r(2) i] by blast
      have "input_ok i ((all_inputs s @ [?x]) ! i)"
      proof (cases "i < ?n")
        case True
        then show ?thesis using assms(1) by (auto simp: st config_inv_def inputs_ok_def nth_append)
      next
        case False
        then have "i = ?n" using i by simp
        then show ?thesis using assms(1) one by (auto simp: st config_inv_def input_ok_def new_input_def)
      qed
      then show ?thesis by (simp only: nx input_ok_link)
    qed
    moreover have "jd_next_idx data + 1 = of_nat ?n" using assms(1) one by (auto simp: st config_inv_def)
    ultimately show ?thesis
      using own len True one assms(1) by (auto simp: r(3) st config_inv_def inputs_ok_def)
  qed
qed


lemma input_ok_config:
  assumes "0 < i" "input_ok i inp"
  shows "input_ok i (inp\<lparr>invert := b\<rparr>)" "input_ok i (inp\<lparr>gpio_line := l\<rparr>)" "input_ok i (inp\<lparr>emergency_delay_ms := n\<rparr>)"
    "input_ok i (inp\<lparr>emergency_reason := LATCH\<rparr>)" "input_ok i (inp\<lparr>emergency_reason := emergency_reason inp AND NOT LATCH\<rparr>)"
    "a AND NOT (input_reasons OR LATCH) = 0 \<Longrightarrow> input_ok i (inp\<lparr>emergency_reason := emergency_reason inp OR a\<rparr>)"
  using assms reasons_allowed(1) reason_bits_ok [of "emergency_reason inp" "NOT (input_reasons OR LATCH)"]
  unfolding input_ok_def by (simp_all del: bit.de_Morgan_disj)

lemma OnInputConfigValue_ok:
  assumes "0 < i" "input_ok i inp"
  shows "input_ok i (snd (OnInputConfigValue lines k j key type inp)) \<and>
    next_for_driver (snd (OnInputConfigValue lines k j key type inp)) = next_for_driver inp"
  using input_ok_config [OF assms] assms(2)
  by (auto simp: OnInputConfigValue_def Gpio_OnInputConfigValue_def Simulated_OnInputConfigValue_def Let_def
      split: driver_kind.split)

lemma input_value_inv:
  assumes "config_inv st" "input_value lines j type st = Some (ok, st')"
  shows "config_inv st'"
proof -
  obtain s data where st: "st = (s, data)" by (cases st)
  note inv = assms(1) [unfolded st]
  consider "st' = st"
    | f s' where "st' = (s', data)" "modify_input (jd_current_input data) f s = Some s'"
        "\<And>inp i. 0 < i \<Longrightarrow> input_ok i inp \<Longrightarrow> input_ok i (f inp)" "\<And>inp. next_for_driver (f inp) = next_for_driver inp"
    | i k where "jd_current_input data = Some i" "i < length (all_inputs s)"
        "st' = (s\<lparr>all_inputs := (all_inputs s)[i := snd (OnInputConfigValue lines k j (stack_name j 4) type (all_inputs s ! i))]\<rparr>, data)"
  proof -
    assume c1: "st' = st \<Longrightarrow> thesis"
      and c2: "\<And>s' f. st' = (s', data) \<Longrightarrow> modify_input (jd_current_input data) f s = Some s' \<Longrightarrow>
        (\<And>inp i. 0 < i \<Longrightarrow> input_ok i inp \<Longrightarrow> input_ok i (f inp)) \<Longrightarrow> (\<And>inp. next_for_driver (f inp) = next_for_driver inp) \<Longrightarrow> thesis"
      and c3: "\<And>i k. jd_current_input data = Some i \<Longrightarrow> i < length (all_inputs s) \<Longrightarrow>
        st' = (s\<lparr>all_inputs := (all_inputs s)[i := snd (OnInputConfigValue lines k j (stack_name j 4) type (all_inputs s ! i))]\<rparr>, data) \<Longrightarrow> thesis"
    show thesis
    proof (cases "stack_name j 4 = ''invert'' \<or> stack_name j 4 = ''emergency''")
      case True
      then show thesis
        using assms(2) c1 input_ok_config
        by (auto simp: st input_value_def Let_def bind_eq_Some_conv split: option.splits if_splits
            intro: c2 [of _ "\<lambda>inp. inp\<lparr>invert := b\<rparr>" for b] c2 [of _ "\<lambda>inp. inp\<lparr>emergency_reason := LATCH\<rparr>"])
    next
      case False
      then show thesis
        using assms(2)
        by (auto simp: st input_value_def Let_def bind_eq_Some_conv aget_def split_def split: if_splits intro: c3)
    qed
  qed
  then show ?thesis
  proof cases
    case 1
    then show ?thesis using assms(1) by simp
  next
    case (2 f s')
    then show ?thesis using modify_input_inv [OF inv] by blast
  next
    case (3 i k)
    have "0 < i" "input_ok i (all_inputs s ! i)" using inv 3(1,2) by (auto simp: config_inv_def inputs_ok_def)
    then show ?thesis unfolding 3(3) using config_inv_change [OF inv 3(1)] OnInputConfigValue_ok by blast
  qed
qed


lemma add_reason_inv:
  assumes "config_inv (s, data)" "add_reason r (s, data) = Some (ok, st')" "r AND NOT (input_reasons OR LATCH) = 0"
  shows "config_inv st'"
proof -
  obtain s' where "st' = (s', data)"
    "modify_input (jd_current_input data) (\<lambda>inp. inp\<lparr>emergency_reason := emergency_reason inp OR r\<rparr>) s = Some s'"
    using assms(2) by (auto simp: add_reason_def bind_eq_Some_conv)
  then show ?thesis using modify_input_inv [OF assms(1)] input_ok_config(6) assms(3) by fastforce
qed

lemma emergency_value_inv:
  assumes "config_inv st" "emergency_value to_u16 j type st = Some (ok, st')"
  shows "config_inv st'"
proof -
  obtain s data where st: "st = (s, data)" by (cases st)
  note inv = assms(1) [unfolded st]
  have delay: "config_inv (s', data)"
    if "modify_input (jd_current_input data) (\<lambda>inp. inp\<lparr>emergency_delay_ms := n\<rparr>) s = Some s'" for n s'
    by (rule modify_input_inv [OF inv that]) (simp_all add: input_ok_config)
  have latch: "config_inv (s', data)"
    if "modify_input (jd_current_input data) (\<lambda>inp. inp\<lparr>emergency_reason := emergency_reason inp AND NOT LATCH\<rparr>) s = Some s'" for s'
    by (rule modify_input_inv [OF inv that]) (simp_all add: input_ok_config)
  show ?thesis
    using assms(2) inv delay latch add_reason_inv [OF inv] reasons_allowed
    by (auto simp: st emergency_value_def Let_def bind_eq_Some_conv split: option.splits if_splits)
qed

lemma driver_key_inv: "config_inv st \<Longrightarrow> driver_key j st = Some (ok, st') \<Longrightarrow> config_inv st'"
  by (cases st) (auto simp: driver_key_def config_inv_def Let_def split: if_splits option.splits)

lemmas config_invs = driver_key_inv one_input_inv input_value_inv emergency_value_inv

lemma callback_inv:
  "config_inv st \<Longrightarrow> InputConfigsJsonCallback lines to_u16 j type st = Some (ok, st') \<Longrightarrow> config_inv st'"
  by (auto simp: InputConfigsJsonCallback_def split: if_splits intro: config_invs)


interpretation input_config: json_client "InputConfigsJsonCallback lines to_u16" config_inv
  by unfold_locales (rule callback_inv)

lemma reset_inv:
  assumes "distinct (map fst (drivers s))"
  shows "config_inv (reset_inputs s, json_data_init)"
proof -
  have "inputs_ok [virtual_lift]"
    using reasons_allowed(5) by (simp add: inputs_ok_def input_ok_def virtual_lift_def new_input_def)
  moreover have "map fst (map (\<lambda>(k, d). (k, ClearInputs d)) (drivers s)) = map fst (drivers s)"
    by (simp add: comp_def split_def)
  then have "owned owner [virtual_lift] (map (\<lambda>(k, d). (k, ClearInputs d)) (drivers s))" for owner
    using assms by (auto simp: owned_def ClearInputs_def simp del: map_map)
  ultimately show ?thesis
    by (simp add: config_inv_def reset_inputs_def json_data_init_def MAX_INPUTS_def NUM_VIRTUAL_INPUTS_def)
qed

lemma inactive_num_lift: "inputs_ok ins \<Longrightarrow> num_lift ins = 0"
  by (auto simp: num_lift_def filter_empty_conv lift_active_def in_set_conv_nth inputs_ok_def input_ok_def)

lemma config_inv_wf:
  assumes "config_inv (s, data)"
  shows "wf_inputs s \<and> wf_reasons s \<and> wf_idx (all_inputs s)"
proof -
  have ok: "inputs_ok (all_inputs s)" and len: "1 \<le> length (all_inputs s)" "length (all_inputs s) \<le> 31"
    using assms by (auto simp: config_inv_def MAX_INPUTS_def NUM_VIRTUAL_INPUTS_def)
  have 0: "input_ok 0 (all_inputs s ! 0)" using ok len(1) by (simp add: inputs_ok_def Suc_le_eq)
  have "wf_inputs s"
    using assms len 0 inactive_num_lift [OF ok] by (auto simp: wf_inputs_def config_inv_def input_ok_def)
  moreover have "wf_reasons s"
    using ok by (auto simp: wf_reasons_def in_set_conv_nth inputs_ok_def input_ok_def)
  moreover have "idx inp = VIRTUAL \<or> unat (idx inp) < 30" if "inp \<in> set (all_inputs s)" for inp
  proof -
    obtain i where i: "i < length (all_inputs s)" "inp = all_inputs s ! i"
      using \<open>inp \<in> set (all_inputs s)\<close> by (auto simp: in_set_conv_nth)
    then have io: "input_ok i inp" using ok by (simp add: inputs_ok_def)
    show ?thesis
    proof (cases "i = 0")
      case False
      then have "idx inp = of_nat (i - 1)" "i - 1 < 30" using io i(1) len(2) by (auto simp: input_ok_def)
      then show ?thesis by (simp add: unat_of_nat)
    qed (use io in \<open>simp add: input_ok_def\<close>)
  qed
  ultimately show ?thesis by (simp add: wf_idx_def)
qed

lemma registered_inv:
  assumes "OnRegisterInputConfigsChanged lines to_u16 parse p0 junk json s = Some (ok, logged, s')" "distinct (map fst (drivers s))"
  shows "\<exists>data. config_inv (s', data)"
proof -
  obtain data where "ProcessJson junk parse p0 (InputConfigsJsonCallback lines to_u16) json (reset_inputs s, json_data_init)
      = Some (ok, logged, s', data)"
    using assms(1) by (auto simp: OnRegisterInputConfigsChanged_def bind_eq_Some_conv)
  from input_config.ProcessJson_keeps [OF this reset_inv [OF assms(2)]] show ?thesis by blast
qed


text \<open>A parser that delivers a prepared list of events, one group per byte.\<close>

fun scripted :: "json_event list list lwjson" where
  "scripted [] c = ([], lwjsonERR, [])"
| "scripted [es] c = ([], lwjsonSTREAMDONE, es)"
| "scripted (es # p) c = (p, lwjsonSTREAMINPROG, es)"

definition ev :: "nat \<Rightarrow> string \<Rightarrow> string \<Rightarrow> string \<Rightarrow> lwjson_stream_type \<Rightarrow> json_event" where
  "ev pos k4 k6 buf type = (\<lparr>stack_pos = pos, stack_name = (\<lambda>i. if i = 4 then k4 else k6), str_buff = buf, prim_buff = buf\<rparr>, type)"

definition example_script :: "json_event list list" where
  "example_script = [[ev 0 '''' '''' '''' TY_OBJECT, ev 1 '''' '''' ''gpio'' TY_KEY],
     [ev 2 '''' '''' '''' TY_ARRAY, ev 3 '''' '''' '''' TY_OBJECT, ev 5 ''active'' '''' ''low'' TY_STRING,
      ev 5 ''emergency'' '''' '''' TY_OBJECT, ev 7 ''emergency'' ''reason'' ''lift'' TY_STRING,
      ev 5 ''emergency'' '''' '''' TY_OBJECT_END, ev 3 '''' '''' '''' TY_OBJECT_END],
     [ev 2 '''' '''' '''' TY_ARRAY_END, ev 0 '''' '''' '''' TY_OBJECT_END]]"


end
