(* ===== verification/Board_Lines.thy ===== *)
theory Board_Lines
  imports Input_Config
begin

text \<open>
  Names of I/O lines and of serial ports (\<open>boards/XCORE/board_utils.cpp\<close>). The firmware stores
  only a 16-bit checksum of each name; the checksum is the ETL library's, an argument here. The
  table is meant to repeat the line definitions of \<open>boards/XCORE/board.h\<close>, which are given as
  \<open>board_h_lines\<close>.
\<close>

subsection \<open>Lines\<close>

record LineParams =
  lp_crc :: u16
  lp_port :: nat
  lp_pad :: nat

definition ports :: "u32 list" where
  "ports = [0x58020000, 0x58020400, 0x58020800, 0x58020C00, 0x58021000, 0x58021400, 0x58021800, 0x58021C00]"

definition port_idx :: "char \<Rightarrow> nat" where
  "port_idx gpio = of_char gpio - of_char CHR ''A''"

definition PAL_LINE :: "u32 \<Rightarrow> nat \<Rightarrow> u32" where
  "PAL_LINE port pad = port OR of_nat pad"

definition line_table :: "(string \<times> char \<times> nat) list" where
  "line_table =
    [(''AGPIO0'', CHR ''A'', 0), (''RMII_REF_CLK'', CHR ''A'', 1), (''RMII_MDIO'', CHR ''A'', 2),
     (''AGPIO1'', CHR ''A'', 3), (''AGPIO2'', CHR ''A'', 4), (''SPI1_SCK'', CHR ''A'', 5),
     (''AGPIO3'', CHR ''A'', 6), (''RMII_CRS_DV'', CHR ''A'', 7), (''UART7_RX'', CHR ''A'', 8),
     (''UART1_TX'', CHR ''A'', 9), (''UART1_RX'', CHR ''A'', 10), (''UART4_RX'', CHR ''A'', 11),
     (''UART4_TX'', CHR ''A'', 12), (''SWDIO'', CHR ''A'', 13), (''SWCLK'', CHR ''A'', 14),
     (''I2S6_WS'', CHR ''A'', 15), (''AGPIO4'', CHR ''B'', 0), (''AGPIO5'', CHR ''B'', 1),
     (''SPI3_MOSI'', CHR ''B'', 2), (''SPI3_SCK'', CHR ''B'', 3), (''SPI3_MISO'', CHR ''B'', 4),
     (''I2S6_SDO'', CHR ''B'', 5), (''I2C1_SCL'', CHR ''B'', 6), (''I2C1_SDA'', CHR ''B'', 7),
     (''FDCAN1_RX'', CHR ''B'', 8), (''FDCAN1_TX'', CHR ''B'', 9), (''I2C2_SCL'', CHR ''B'', 10),
     (''I2C2_SDA'', CHR ''B'', 11), (''RMII_TXD0'', CHR ''B'', 12),
     (''OCTOSPI_IO2'', CHR ''B'', 13), (''SPI2_MISO'', CHR ''B'', 14),
     (''SPI2_MOSI'', CHR ''B'', 15), (''RMII_MDC'', CHR ''C'', 1), (''RMII_RXD0'', CHR ''C'', 4),
     (''RMII_RXD1'', CHR ''C'', 5), (''UART6_TX'', CHR ''C'', 6), (''UART6_RX'', CHR ''C'', 7),
     (''HIGH_LEVEL_RUN_PG'', CHR ''C'', 13), (''HIGH_LEVEL_GLOBAL_EN'', CHR ''C'', 14),
     (''IMU_CS'', CHR ''C'', 15), (''SPI2_SCK'', CHR ''D'', 3), (''GPIO0'', CHR ''D'', 4),
     (''UART2_TX'', CHR ''D'', 5), (''UART2_RX'', CHR ''D'', 6), (''SPI1_MOSI'', CHR ''D'', 7),
     (''GPIO8'', CHR ''D'', 8), (''GPIO15'', CHR ''D'', 9), (''GPIO10'', CHR ''D'', 10),
     (''GPIO1'', CHR ''D'', 11), (''I2C4_SCL'', CHR ''D'', 12), (''I2C4_SDA'', CHR ''D'', 13),
     (''IMU_INTERRUPT'', CHR ''D'', 15), (''UART8_RX'', CHR ''E'', 0), (''UART8_TX'', CHR ''E'', 1),
     (''UART10_RX'', CHR ''E'', 2), (''UART10_TX'', CHR ''E'', 3), (''GPIO2'', CHR ''E'', 4),
     (''GPIO3'', CHR ''E'', 5), (''GPIO4'', CHR ''E'', 6), (''GPIO21'', CHR ''E'', 7),
     (''GPIO22'', CHR ''E'', 8), (''GPIO23'', CHR ''E'', 9), (''GPIO9'', CHR ''E'', 10),
     (''GPIO20'', CHR ''E'', 11), (''GPIO19'', CHR ''E'', 12), (''GPIO18'', CHR ''E'', 13),
     (''GPIO17'', CHR ''E'', 14), (''GPIO16'', CHR ''E'', 15),
     (''HEARTBEAT_LED_RED'', CHR ''F'', 0), (''HEARTBEAT_LED_GREEN'', CHR ''F'', 1),
     (''HEARTBEAT_LED_BLUE'', CHR ''F'', 2), (''RESET_PHY'', CHR ''F'', 3),
     (''OCTOSPI_IO3'', CHR ''F'', 6), (''UART7_TX'', CHR ''F'', 7), (''OCTOSPI_IO0'', CHR ''F'', 8),
     (''OCTOSPI_IO1'', CHR ''F'', 9), (''OCTOSPI_CLK'', CHR ''F'', 10),
     (''STATUS_LED_RED'', CHR ''F'', 11), (''STATUS_LED_GREEN'', CHR ''F'', 12),
     (''STATUS_LED'', CHR ''F'', 12), (''STATUS_LED_BLUE'', CHR ''F'', 13),
     (''GPIO14'', CHR ''G'', 2), (''GPIO5'', CHR ''G'', 3), (''GPIO13'', CHR ''G'', 4),
     (''GPIO12'', CHR ''G'', 5), (''OCTOSPI_NCS'', CHR ''G'', 6), (''GPIO6'', CHR ''G'', 7),
     (''GPIO11'', CHR ''G'', 8), (''SPI1_MISO'', CHR ''G'', 9), (''GPIO7'', CHR ''G'', 10),
     (''RMII_TX_EN'', CHR ''G'', 11), (''I2S6_SDI'', CHR ''G'', 12), (''I2S6_CK'', CHR ''G'', 13),
     (''RMII_TXD1'', CHR ''G'', 14), (''OSC_IN'', CHR ''H'', 0), (''OSC_OUT'', CHR ''H'', 1)]"

text \<open>\<open>port\<close> and \<open>pad\<close> are 4-bit fields.\<close>

definition line_params :: "(string \<Rightarrow> u16) \<Rightarrow> string \<times> char \<times> nat \<Rightarrow> LineParams" where
  "line_params crc16 = (\<lambda>(n, p, k). \<lparr>lp_crc = crc16 n, lp_port = port_idx p mod 16, lp_pad = k mod 16\<rparr>)"

definition lines :: "(string \<Rightarrow> u16) \<Rightarrow> LineParams list" where
  "lines crc16 = map (line_params crc16) line_table"

text \<open>The compile-time check that the checksums are different.\<close>

fun crcs_unique :: "LineParams list \<Rightarrow> bool" where
  "crcs_unique [] \<longleftrightarrow> True"
| "crcs_unique (l # ls) \<longleftrightarrow> list_all (\<lambda>m. lp_crc l \<noteq> lp_crc m) ls \<and> crcs_unique ls"

fun find_line :: "u16 \<Rightarrow> LineParams list \<Rightarrow> u32 option" where
  "find_line crc [] = Some PAL_NOLINE"
| "find_line crc (l # ls) =
     (if lp_crc l = crc then do { port \<leftarrow> aget ports (lp_port l); Some (PAL_LINE port (lp_pad l)) }
      else find_line crc ls)"

definition GetIoLineByName :: "(string \<Rightarrow> u16) \<Rightarrow> string \<Rightarrow> u32 option" where
  "GetIoLineByName crc16 name = find_line (crc16 name) (lines crc16)"

subsection \<open>Serial ports\<close>

text \<open>The ports enabled in \<open>mcuconf.h\<close>.\<close>

definition GetUARTDriverByIndex :: "u8 \<Rightarrow> nat option" where
  "GetUARTDriverByIndex index =
     (if index = 1 then Some 1 else if index = 2 then Some 2 else if index = 4 then Some 4
      else if index = 6 then Some 6 else if index = 7 then Some 7 else if index = 8 then Some 8
      else if index = 10 then Some 10 else None)"

subsection \<open>The definitions of the board\<close>

definition board_h_lines :: "(string \<times> char \<times> nat) list" where
  "board_h_lines =
    [(''AGPIO0'', CHR ''A'', 0), (''RMII_REF_CLK'', CHR ''A'', 1), (''RMII_MDIO'', CHR ''A'', 2),
     (''AGPIO1'', CHR ''A'', 3), (''AGPIO2'', CHR ''A'', 4), (''SPI1_SCK'', CHR ''A'', 5),
     (''AGPIO3'', CHR ''A'', 6), (''RMII_CRS_DV'', CHR ''A'', 7), (''UART7_RX'', CHR ''A'', 8),
     (''UART1_TX'', CHR ''A'', 9), (''UART1_RX'', CHR ''A'', 10), (''UART4_RX'', CHR ''A'', 11),
     (''UART4_TX'', CHR ''A'', 12), (''SWDIO'', CHR ''A'', 13), (''SWCLK'', CHR ''A'', 14),
     (''I2S6_WS'', CHR ''A'', 15), (''AGPIO4'', CHR ''B'', 0), (''AGPIO5'', CHR ''B'', 1),
     (''SPI3_MOSI'', CHR ''B'', 2), (''SPI3_SCK'', CHR ''B'', 3), (''SPI3_MISO'', CHR ''B'', 4),
     (''I2S6_SDO'', CHR ''B'', 5), (''I2C1_SCL'', CHR ''B'', 6), (''I2C1_SDA'', CHR ''B'', 7),
     (''FDCAN1_RX'', CHR ''B'', 8), (''FDCAN1_TX'', CHR ''B'', 9), (''I2C2_SCL'', CHR ''B'', 10),
     (''I2C2_SDA'', CHR ''B'', 11), (''RMII_TXD0'', CHR ''B'', 12),
     (''OCTOSPI_IO2'', CHR ''B'', 13), (''SPI2_MISO'', CHR ''B'', 14),
     (''SPI2_MOSI'', CHR ''B'', 15), (''RMII_MDC'', CHR ''C'', 1), (''RMII_RXD0'', CHR ''C'', 4),
     (''RMII_RXD1'', CHR ''C'', 5), (''UART6_TX'', CHR ''C'', 6), (''UART6_RX'', CHR ''C'', 7),
     (''HIGH_LEVEL_RUN_PG'', CHR ''C'', 13), (''HIGH_LEVEL_GLOBAL_EN'', CHR ''C'', 14),
     (''IMU_CS'', CHR ''C'', 15), (''SPI2_SCK'', CHR ''D'', 3), (''GPIO0'', CHR ''D'', 4),
     (''UART2_TX'', CHR ''D'', 5), (''UART2_RX'', CHR ''D'', 6), (''SPI1_MOSI'', CHR ''D'', 7),
     (''GPIO8'', CHR ''D'', 8), (''GPIO15'', CHR ''D'', 9), (''GPIO10'', CHR ''D'', 10),
     (''GPIO1'', CHR ''D'', 11), (''I2C4_SCL'', CHR ''D'', 12), (''I2C4_SDA'', CHR ''D'', 13),
     (''IMU_INTERRUPT'', CHR ''D'', 15), (''UART8_RX'', CHR ''E'', 0), (''UART8_TX'', CHR ''E'', 1),
     (''UART10_RX'', CHR ''E'', 2), (''UART10_TX'', CHR ''E'', 3), (''GPIO2'', CHR ''E'', 4),
     (''GPIO3'', CHR ''E'', 5), (''GPIO4'', CHR ''E'', 6), (''GPIO21'', CHR ''E'', 7),
     (''GPIO22'', CHR ''E'', 8), (''GPIO23'', CHR ''E'', 9), (''GPIO9'', CHR ''E'', 10),
     (''GPIO20'', CHR ''E'', 11), (''GPIO19'', CHR ''E'', 12), (''GPIO18'', CHR ''E'', 13),
     (''GPIO17'', CHR ''E'', 14), (''GPIO16'', CHR ''E'', 15),
     (''HEARTBEAT_LED_RED'', CHR ''F'', 0), (''HEARTBEAT_LED_GREEN'', CHR ''F'', 1),
     (''HEARTBEAT_LED_BLUE'', CHR ''F'', 2), (''RESET_PHY'', CHR ''F'', 3),
     (''OCTOSPI_IO3'', CHR ''F'', 6), (''UART7_TX'', CHR ''F'', 7), (''OCTOSPI_IO0'', CHR ''F'', 8),
     (''OCTOSPI_IO1'', CHR ''F'', 9), (''OCTOSPI_CLK'', CHR ''F'', 10),
     (''STATUS_LED_RED'', CHR ''F'', 11), (''STATUS_LED_GREEN'', CHR ''F'', 12),
     (''STATUS_LED'', CHR ''F'', 12), (''STATUS_LED_BLUE'', CHR ''F'', 13),
     (''GPIO14'', CHR ''G'', 2), (''GPIO5'', CHR ''G'', 3), (''GPIO13'', CHR ''G'', 4),
     (''GPIO12'', CHR ''G'', 5), (''OCTOSPI_NCS'', CHR ''G'', 6), (''GPIO6'', CHR ''G'', 7),
     (''GPIO11'', CHR ''G'', 8), (''SPI1_MISO'', CHR ''G'', 9), (''GPIO7'', CHR ''G'', 10),
     (''RMII_TX_EN'', CHR ''G'', 11), (''I2S6_SDI'', CHR ''G'', 12), (''I2S6_CK'', CHR ''G'', 13),
     (''RMII_TXD1'', CHR ''G'', 14), (''OSC_IN'', CHR ''H'', 0), (''OSC_OUT'', CHR ''H'', 1)]"

definition GPIO_BASE :: "char \<Rightarrow> u32" where
  "GPIO_BASE p = 0x58020000 + 0x400 * of_nat (of_char p - of_char CHR ''A'')"


subsection \<open>A name finds the line of the board\<close>

lemma same_lines: "board_h_lines = line_table"
  by (simp only: board_h_lines_def line_table_def)

lemma table_ports:
  "list_all (\<lambda>(n, p, k). aget ports (port_idx p mod 16) = Some (GPIO_BASE p) \<and> k mod 16 = k) line_table"
  by code_simp

lemma find_line_unique:
  "crcs_unique ls \<Longrightarrow> l \<in> set ls \<Longrightarrow> find_line (lp_crc l) ls = map_option (\<lambda>port. PAL_LINE port (lp_pad l)) (aget ports (lp_port l))"
proof (induction ls)
  case (Cons m ls)
  then show ?case by (cases "aget ports (lp_port l)") (auto simp: list_all_iff)
qed simp

lemma find_line_none: "crc \<notin> lp_crc ` set ls \<Longrightarrow> find_line crc ls = Some PAL_NOLINE"
  by (induction ls) auto

text \<open>
  As long as the checksums of the names are different, which the build checks, every line
  name of the board is translated into the port and pad \<open>board.h\<close> gives it, and a name whose
  checksum is not in the table into no line.
\<close>

theorem GetIoLineByName_correct:
  assumes "crcs_unique (lines crc16)"
  shows "(\<forall>(n, p, k) \<in> set board_h_lines. GetIoLineByName crc16 n = Some (PAL_LINE (GPIO_BASE p) k)) \<and>
    (\<forall>n. crc16 n \<notin> lp_crc ` set (lines crc16) \<longrightarrow> GetIoLineByName crc16 n = Some PAL_NOLINE)"
proof -
  have "GetIoLineByName crc16 n = Some (PAL_LINE (GPIO_BASE p) k)" if "(n, p, k) \<in> set line_table" for n p k
  proof -
    have "aget ports (port_idx p mod 16) = Some (GPIO_BASE p)" "k mod 16 = k"
      using table_ports that by (auto simp: list_all_iff)
    moreover have "line_params crc16 (n, p, k) \<in> set (lines crc16)"
      unfolding lines_def set_map using that by (rule imageI)
    ultimately show ?thesis
      using find_line_unique [OF assms] by (fastforce simp: GetIoLineByName_def line_params_def)
  qed
  then show ?thesis
    using find_line_none [of "crc16 n" for n] by (auto simp: same_lines GetIoLineByName_def)
qed

text \<open>A checksum that tells the names of the table apart.\<close>

definition name_sum :: "string \<Rightarrow> int" where
  "name_sum s = fold (\<lambda>ch a. (13 * a + of_char ch) mod 65521) s 0"

lemma name_sums_distinct: "distinct (map (\<lambda>x. name_sum (fst x)) line_table)"
  by code_simp

lemma name_sum_range: "0 \<le> name_sum s \<and> name_sum s < 65521"
proof (induction s rule: rev_induct)
  case (snoc c s)
  then show ?case by (simp add: name_sum_def)
qed (simp add: name_sum_def)

lemma crcs_unique_distinct: "crcs_unique ls \<longleftrightarrow> distinct (map lp_crc ls)"
  by (induction ls) (auto simp: list_all_iff)

theorem GetIoLineByName_correct_witness:
  "GetIoLineByName (of_int \<circ> name_sum) ''GPIO16'' = Some (PAL_LINE 0x58021000 15)"
proof -
  have "inj_on (\<lambda>i. of_int i :: u16) (range name_sum)"
  proof (rule inj_onI)
    fix i j assume ij: "i \<in> range name_sum" "j \<in> range name_sum" "(of_int i :: u16) = of_int j"
    then have eq: "i mod 65536 = j mod 65536" by (simp add: word_of_int_eq_iff take_bit_eq_mod)
    obtain x y where xy: "i = name_sum x" "j = name_sum y" using ij(1,2) by blast
    then show "i = j" using eq name_sum_range [of x] name_sum_range [of y] by (simp add: mod_pos_pos_trivial)
  qed
  then have "distinct (map (\<lambda>x. of_int (name_sum (fst x)) :: u16) line_table)"
    using name_sums_distinct by (auto simp: distinct_map inj_on_def)
  then have "crcs_unique (lines (of_int \<circ> name_sum))"
    by (simp add: crcs_unique_distinct lines_def line_params_def split_def comp_def)
  moreover have "(''GPIO16'', CHR ''E'', 15) \<in> set board_h_lines" by (simp add: board_h_lines_def)
  moreover have "GPIO_BASE CHR ''E'' = 0x58021000" by code_simp
  ultimately show ?thesis using GetIoLineByName_correct by fastforce
qed

end
