(* ===== verification/C_String.thy ===== *)
theory C_String
  imports Prelude
begin

text \<open>
  The functions of \<open>string.h\<close> the firmware and its web server call, on byte arrays. A
  string argument is the array from the pointer on; reading past its end is \<^term>\<open>None\<close>.
  \<open>lit s\<close> is a string literal with its terminator.
\<close>

definition lit :: "string \<Rightarrow> bytes" where
  "lit s = cstr s @ [0]"

fun strlen :: "bytes \<Rightarrow> nat option" where
  "strlen [] = None"
| "strlen (c # cs) = (if c = 0 then Some 0 else map_option Suc (strlen cs))"

fun strncmp :: "bytes \<Rightarrow> bytes \<Rightarrow> nat \<Rightarrow> int option" where
  "strncmp a b 0 = Some 0"
| "strncmp (x # a) (y # b) (Suc n) =
     (if x \<noteq> y then Some (uint x - uint y)
      else if x = 0 then Some 0
      else strncmp a b n)"
| "strncmp _ _ (Suc n) = None"

fun strcmp :: "bytes \<Rightarrow> bytes \<Rightarrow> int option" where
  "strcmp (x # a) (y # b) =
     (if x \<noteq> y then Some (uint x - uint y)
      else if x = 0 then Some 0
      else strcmp a b)"
| "strcmp _ _ = None"

fun memcmp :: "bytes \<Rightarrow> bytes \<Rightarrow> nat \<Rightarrow> int option" where
  "memcmp a b 0 = Some 0"
| "memcmp (x # a) (y # b) (Suc n) = (if x \<noteq> y then Some (uint x - uint y) else memcmp a b n)"
| "memcmp _ _ (Suc n) = None"

text \<open>What \<open>strncpy(dst, src, n)\<close> writes: the string, then zeros up to \<open>n\<close> bytes.\<close>

fun strncpy_bytes :: "bytes \<Rightarrow> nat \<Rightarrow> bytes option" where
  "strncpy_bytes src 0 = Some []"
| "strncpy_bytes [] (Suc n) = None"
| "strncpy_bytes (c # cs) (Suc n) =
     (if c = 0 then Some (replicate (Suc n) 0) else map_option ((#) c) (strncpy_bytes cs n))"

definition strncpy :: "bytes \<Rightarrow> nat \<Rightarrow> bytes \<Rightarrow> nat \<Rightarrow> bytes option" where
  "strncpy dst pos src n = do { bs \<leftarrow> strncpy_bytes src n; awrite dst pos bs }"

definition nul_free :: "bytes \<Rightarrow> bool" where
  "nul_free s \<longleftrightarrow> 0 \<notin> set s"

lemma nul_free_simps [simp]:
  "nul_free []" "nul_free (c # cs) \<longleftrightarrow> c \<noteq> 0 \<and> nul_free cs"
  by (auto simp: nul_free_def)

lemma uint_eq_iff_byte [simp]:
  "uint (x :: u8) = uint y \<longleftrightarrow> x = y" "uint (x :: u8) = 0 \<longleftrightarrow> x = 0"
  by (simp_all add: word_uint_eq_iff)

lemma strlen_terminated: "nul_free s \<Longrightarrow> strlen (s @ 0 # rest) = Some (length s)"
  by (induction s) auto

lemma strcmp_terminated:
  "nul_free s \<Longrightarrow> nul_free t \<Longrightarrow> strcmp (s @ 0 # x) (t @ 0 # y) = Some 0 \<longleftrightarrow> s = t"
proof (induction s arbitrary: t)
  case Nil
  then show ?case by (cases t) auto
next
  case (Cons c s)
  then show ?case by (cases t) auto
qed

lemma strncmp_terminated:
  "nul_free s \<Longrightarrow> nul_free t \<Longrightarrow> length s < n \<Longrightarrow>
   strncmp (s @ 0 # x) (t @ 0 # y) n = Some 0 \<longleftrightarrow> s = t"
proof (induction s arbitrary: t n)
  case Nil
  then show ?case by (cases t; cases n) auto
next
  case (Cons c s)
  then show ?case by (cases t; cases n) auto
qed

lemma memcmp_0_iff:
  "n \<le> length a \<Longrightarrow> n \<le> length b \<Longrightarrow> memcmp a b n = Some 0 \<longleftrightarrow> take n a = take n b"
proof (induction n arbitrary: a b)
  case 0
  then show ?case by simp
next
  case (Suc n)
  then show ?case by (cases a; cases b) auto
qed

lemma strncpy_bytes_terminated:
  "nul_free s \<Longrightarrow> length s < n \<Longrightarrow>
   strncpy_bytes (s @ 0 # rest) n = Some (s @ replicate (n - length s) 0)"
proof (induction s arbitrary: n)
  case Nil
  then show ?case by (cases n) auto
next
  case (Cons c s)
  then show ?case by (cases n) auto
qed

lemma length_strncpy_bytes: "strncpy_bytes s n = Some bs \<Longrightarrow> length bs = n"
  by (induction s n arbitrary: bs rule: strncpy_bytes.induct) (auto split: if_splits)

end
