(* ===== verification/Id_Eeprom.thy ===== *)
theory Id_Eeprom
  imports C_String
begin

text \<open>
  The identification EEPROMs (\<open>src/id_eeprom.c\<close>): MAC address, board and carrier board
  information, and the hardware check of \<open>robots/src/xbot_robot.cpp\<close> that rests on them.

  The I2C bus is a parameter: \<open>i2c addr tx n\<close> is the outcome of \<open>i2cMasterTransmit\<close> to
  device \<open>addr\<close> with transmit bytes \<open>tx\<close> and \<open>n\<close> receive bytes, as whether it returned
  \<open>MSG_OK\<close> and the receive buffer afterwards. The packed structs are their bytes.
\<close>

type_synonym i2c_bus = "u8 \<Rightarrow> bytes \<Rightarrow> nat \<Rightarrow> bool \<times> bytes"

definition EEPROM_DEVICE_ADDRESS :: u8 where "EEPROM_DEVICE_ADDRESS = 0x53"
definition CARRIER_EEPROM_DEVICE_ADDRESS :: u8 where "CARRIER_EEPROM_DEVICE_ADDRESS = 0x50"
definition BOOTLOADER_INFO_ADDRESS :: u8 where "BOOTLOADER_INFO_ADDRESS = 0x00"
definition BOARD_INFO_ADDRESS :: u8 where "BOARD_INFO_ADDRESS = 0x40"
definition CARRIER_BOARD_INFO_ADDRESS :: u8 where "CARRIER_BOARD_INFO_ADDRESS = 0x00"

subsection \<open>Packed structs\<close>

definition sizeof_bootloader_info :: nat where "sizeof_bootloader_info = 1 + 4 + 8 * 4"
definition sizeof_board_info :: nat where "sizeof_board_info = 1 + 32 + 1 + 1 + 2 + 2"

definition board_id :: "bytes \<Rightarrow> bytes" where "board_id b = take 32 (drop 1 b)"
definition version_major :: "bytes \<Rightarrow> u8" where "version_major b = b ! 33"
definition version_minor :: "bytes \<Rightarrow> u8" where "version_minor b = b ! 34"
definition version_patch :: "bytes \<Rightarrow> u16" where
  "version_patch b = ucast (b ! 35) OR push_bit 8 (ucast (b ! 36))"
definition stored_checksum :: "bytes \<Rightarrow> u16" where
  "stored_checksum b = ucast (b ! 37) OR push_bit 8 (ucast (b ! 38))"

subsection \<open>Operations\<close>

fun checksum_loop :: "nat \<Rightarrow> bytes \<Rightarrow> u16 \<Rightarrow> u16" where
  "checksum_loop i [] acc = acc"
| "checksum_loop i (d # ds) acc =
     (if i mod 2 = 0 then checksum_loop (Suc i) ds (acc XOR ucast d)
      else checksum_loop (Suc i) ds (acc XOR push_bit 8 (ucast d)))"

definition checksum :: "bytes \<Rightarrow> u16" where
  "checksum ds = checksum_loop 0 ds 0"

text \<open>The debug assertion on the buffer size fails for more than 256 bytes.\<close>

definition ID_EEPROM_GetMacAddress :: "i2c_bus \<Rightarrow> bytes \<Rightarrow> nat \<Rightarrow> (bool \<times> bytes) option" where
  "ID_EEPROM_GetMacAddress i2c buf buflen =
     (if buflen \<le> 256 then
        let (success, rx) = i2c EEPROM_DEVICE_ADDRESS [0xFA] buflen
        in if success then do { buf' \<leftarrow> awrite buf 0 (take buflen rx); Some (success, buf') }
           else Some (success, buf)
      else None)"

definition ID_EEPROM_GetBootloaderInfo :: "i2c_bus \<Rightarrow> bool \<times> bytes" where
  "ID_EEPROM_GetBootloaderInfo i2c =
     i2c EEPROM_DEVICE_ADDRESS [BOOTLOADER_INFO_ADDRESS] sizeof_bootloader_info"

definition default_info :: bytes where
  "default_info = 0 # cstr ''N/A'' @ replicate 29 0 @ replicate 6 0"

definition checked_info :: "bool \<Rightarrow> bytes \<Rightarrow> bytes" where
  "checked_info success b =
     (if \<not> success \<or> checksum (take (sizeof_board_info - 2) b) \<noteq> stored_checksum b
      then default_info else b)"

definition ID_EEPROM_GetBoardInfo :: "i2c_bus \<Rightarrow> bool \<times> bytes" where
  "ID_EEPROM_GetBoardInfo i2c =
     (let (success, b) = i2c EEPROM_DEVICE_ADDRESS [BOARD_INFO_ADDRESS] sizeof_board_info
      in (success, checked_info success b))"

definition ID_EEPROM_GetCarrierBoardInfo :: "i2c_bus \<Rightarrow> bool \<times> bytes" where
  "ID_EEPROM_GetCarrierBoardInfo i2c =
     (let (success, b) = i2c CARRIER_EEPROM_DEVICE_ADDRESS [CARRIER_BOARD_INFO_ADDRESS] sizeof_board_info
      in (success, checked_info success b))"

definition IsHardwareSupported :: "bytes \<Rightarrow> bool" where
  "IsHardwareSupported carrier_board_info \<longleftrightarrow>
     strncmp (lit ''hw-xbot-mainboard'') (board_id carrier_board_info) 32 = Some 0 \<and>
     version_major carrier_board_info = 0"

subsection \<open>The checksum\<close>

definition contribution :: "nat \<Rightarrow> u8 \<Rightarrow> u16" where
  "contribution i d = (if i mod 2 = 0 then ucast d else push_bit 8 (ucast d))"

lemma checksum_loop_acc: "checksum_loop i ds acc = acc XOR checksum_loop i ds 0"
proof (induction ds arbitrary: i acc)
  case Nil
  then show ?case by simp
next
  case (Cons d ds)
  show ?case
    using Cons[of "Suc i" "acc XOR contribution i d"] Cons[of "Suc i" "contribution i d"]
    by (cases "i mod 2 = 0") (simp_all add: contribution_def xor.assoc)
qed

lemma checksum_loop_Cons:
  "checksum_loop i (d # ds) 0 = contribution i d XOR checksum_loop (Suc i) ds 0"
  by (simp add: contribution_def checksum_loop_acc[of "Suc i" ds "ucast d"]
      checksum_loop_acc[of "Suc i" ds "push_bit 8 (ucast d)"])

lemma contribution_inj: "contribution i a = contribution i b \<longleftrightarrow> a = b"
proof
  assume eq: "contribution i a = contribution i b"
  show "a = b"
  proof (rule bit_word_eqI)
    fix n assume n: "n < LENGTH(8)"
    have "bit (contribution i x) (if i mod 2 = 0 then n else n + 8) = bit x n" for x
      using n by (simp add: contribution_def bit_push_bit_iff bit_ucast_iff)
    then show "bit a n = bit b n" using eq by metis
  qed
qed simp

lemma xor_cancel_left: "(a :: 'a::len word) XOR b = a XOR c \<longleftrightarrow> b = c"
  by (metis xor.assoc xor_self_eq xor.left_neutral)

lemma checksum_loop_update:
  "j < length ds \<Longrightarrow>
   checksum_loop i (ds[j := y]) 0 = checksum_loop i ds 0 \<longleftrightarrow> y = ds ! j"
proof (induction ds arbitrary: i j)
  case Nil
  then show ?case by simp
next
  case (Cons d ds)
  show ?case
  proof (cases j)
    case 0
    have "contribution i y XOR r = contribution i d XOR r \<longleftrightarrow> y = d" for r
      by (metis contribution_inj xor.commute xor_cancel_left)
    then show ?thesis using 0 by (simp add: checksum_loop_Cons del: checksum_loop.simps)
  next
    case (Suc k)
    then show ?thesis
      using Cons.IH[of k "Suc i"] Cons.prems
      by (simp add: checksum_loop_Cons xor_cancel_left del: checksum_loop.simps)
  qed
qed

lemma not_supported_default: "\<not> IsHardwareSupported default_info"
  by code_simp

subsection \<open>Properties\<close>

text \<open>
  The checksum detects every change of a single byte: replacing one byte of the data
  keeps the checksum only if the byte is the same.
\<close>

theorem checksum_detects_byte:
  assumes "i < length ds"
  shows "checksum (ds[i := y]) = checksum ds \<longleftrightarrow> y = ds ! i"
  unfolding checksum_def using assms by (rule checksum_loop_update)

theorem checksum_detects_byte_witness: "checksum ([1, 2, 3][1 := 7]) \<noteq> checksum [1, 2, 3]"
  using checksum_detects_byte[of 1 "[1, 2, 3]" 7] by simp



end
