(* ===== verification/Chibi_Time.thy ===== *)
theory Chibi_Time
  imports Prelude
begin

text \<open>
  The time base: the tick conversions of \<open>chtime.h\<close> at the 10 kHz system tick of
  \<open>cfg/chconf.h\<close> (64-bit intermediate values, 32-bit results) and \<open>getTimeMicros\<close> of
  \<open>portable/xbot/system.cpp\<close>.
\<close>

definition CH_CFG_ST_FREQUENCY :: u64 where "CH_CFG_ST_FREQUENCY = 10000"

definition TIME_S2I :: "u32 \<Rightarrow> u32" where
  "TIME_S2I secs = ucast (ucast secs * CH_CFG_ST_FREQUENCY)"

definition TIME_MS2I :: "u32 \<Rightarrow> u32" where
  "TIME_MS2I msecs = ucast ((ucast msecs * CH_CFG_ST_FREQUENCY + 999) div (1000 :: u64))"

definition TIME_US2I :: "u32 \<Rightarrow> u32" where
  "TIME_US2I usecs = ucast ((ucast usecs * CH_CFG_ST_FREQUENCY + 999999) div (1000000 :: u64))"

definition TIME_I2MS :: "u32 \<Rightarrow> u32" where
  "TIME_I2MS interval =
     ucast ((ucast interval * 1000 + CH_CFG_ST_FREQUENCY - 1) div CH_CFG_ST_FREQUENCY)"

definition TIME_I2US :: "u32 \<Rightarrow> u32" where
  "TIME_I2US interval =
     ucast ((ucast interval * 1000000 + CH_CFG_ST_FREQUENCY - 1) div CH_CFG_ST_FREQUENCY)"

text \<open>\<open>chVTTimeElapsedSinceX(start)\<close> at system time \<open>now\<close>.\<close>

definition chVTTimeElapsedSinceX :: "u32 \<Rightarrow> u32 \<Rightarrow> u32" where
  "chVTTimeElapsedSinceX now start = now - start"

definition getTimeMicros :: "u32 \<Rightarrow> u32" where
  "getTimeMicros systime = TIME_I2US systime"

lemma unat_ucast_32_64: "unat (ucast (x :: u32) :: u64) = unat x"
proof -
  have "unat x < 2 ^ 32" using unsigned_less[of x] by simp
  then show ?thesis by (simp add: unsigned_ucast_eq take_bit_eq_mod)
qed

lemma unat_ucast_64_32: "unat (ucast (x :: u64) :: u32) = unat x mod 2 ^ 32"
  by (simp add: unsigned_ucast_eq take_bit_eq_mod)

lemma unat_u32_bound: "unat (x :: u32) < 4294967296"
  using unsigned_less[of x] by simp

lemma unat_TIME_I2US: "unat (TIME_I2US x) = (unat x * 100) mod 2 ^ 32"
proof -
  have b: "unat x < 4294967296" by (rule unat_u32_bound)
  then have "unat (ucast x * 1000000 + 10000 - 1 :: u64) = unat x * 1000000 + 9999"
    by (simp add: unat_word_ariths unat_ucast_32_64 unat_sub_if')
  moreover have "(unat x * 1000000 + 9999) div 10000 = unat x * 100"
    by arith
  ultimately show ?thesis
    by (simp add: TIME_I2US_def CH_CFG_ST_FREQUENCY_def unat_ucast_64_32 unat_div)
qed

lemma unat_TIME_I2MS: "unat (TIME_I2MS x) = (unat x + 9) div 10"
proof -
  have b: "unat x < 4294967296" by (rule unat_u32_bound)
  then have "unat (ucast x * 1000 + 10000 - 1 :: u64) = unat x * 1000 + 9999"
    by (simp add: unat_word_ariths unat_ucast_32_64 unat_sub_if')
  moreover have "(unat x * 1000 + 9999) div 10000 = (unat x + 9) div 10"
  proof -
    have "(unat x * 1000 + 9999) div 1000 = unat x + 9" by arith
    then show ?thesis using div_mult2_eq[of "unat x * 1000 + 9999" 1000 10] by simp
  qed
  ultimately show ?thesis
    using b by (simp add: TIME_I2MS_def CH_CFG_ST_FREQUENCY_def unat_ucast_64_32 unat_div del: unat_plus_simple)
qed

text \<open>The microsecond clock is the tick counter scaled by 100, modulo \<open>2 ^ 32\<close>.\<close>

lemma getTimeMicros_eq: "getTimeMicros t = 100 * t"
proof -
  have "unat (getTimeMicros t) = unat (100 * t)"
    by (simp add: getTimeMicros_def unat_TIME_I2US unat_word_ariths mult.commute)
  then show ?thesis by (simp only: word_unat_eq_iff)
qed

lemma getTimeMicros_diff: "getTimeMicros a - getTimeMicros b = 100 * (a - b)"
  by (simp add: getTimeMicros_eq right_diff_distrib)

end
