(* ===== verification/Leds.thy ===== *)
theory Leds
  imports Chibi_Time
begin

text \<open>
  The two indicator LEDs: the heartbeat (\<open>src/heartbeat.c\<close>) and the status LED
  (\<open>src/status_led.c\<close>), both driven by a virtual timer that re-arms itself. The LEDs are
  active low: a line that is low is a lit LED. \<open>armed\<close> is the interval, in ticks, of the
  last \<open>chVTSetI\<close>.
\<close>

subsection \<open>Heartbeat\<close>

record heartbeat =
  blink_state :: u8
  red_line :: bool
  green_line :: bool
  armed :: u32

definition HEARTBEAT_RECENT_MS :: u32 where "HEARTBEAT_RECENT_MS = 100"

definition show_idle :: "bool \<Rightarrow> heartbeat \<Rightarrow> heartbeat" where
  "show_idle elapsed h =
     (if elapsed then h\<lparr>red_line := False, green_line := True\<rparr>
      else h\<lparr>green_line := False, red_line := True\<rparr>)"

definition heartbeat_timer_cb :: "u32 \<Rightarrow> u32 \<Rightarrow> heartbeat \<Rightarrow> heartbeat" where
  "heartbeat_timer_cb now last_idle_tick h =
     (let elapsed = TIME_I2MS (chVTTimeElapsedSinceX now last_idle_tick) > HEARTBEAT_RECENT_MS
      in if blink_state h = 0 then
           let h1 = show_idle elapsed h
           in h1\<lparr>armed := TIME_MS2I 100, blink_state := blink_state h + 1\<rparr>
         else if blink_state h = 1 then
           h\<lparr>green_line := True, red_line := True, armed := TIME_MS2I 100,
             blink_state := blink_state h + 1\<rparr>
         else if blink_state h = 2 then
           let h1 = show_idle elapsed h
           in h1\<lparr>armed := TIME_MS2I 100, blink_state := blink_state h + 1\<rparr>
         else
           h\<lparr>green_line := True, red_line := True, armed := TIME_MS2I 500, blink_state := 0\<rparr>)"

definition InitHeartbeat :: "heartbeat \<Rightarrow> heartbeat" where
  "InitHeartbeat h = h\<lparr>armed := TIME_MS2I 100\<rparr>"

text \<open>The idle task ran within the last 100 ms (1000 ticks).\<close>

definition idle_recent :: "u32 \<Rightarrow> u32 \<Rightarrow> bool" where
  "idle_recent now last_idle_tick \<longleftrightarrow> unat (now - last_idle_tick) \<le> 1000"

lemma elapsed_iff:
  "TIME_I2MS (chVTTimeElapsedSinceX now l) > HEARTBEAT_RECENT_MS \<longleftrightarrow> \<not> idle_recent now l"
  by (simp add: word_less_nat_alt unat_TIME_I2MS HEARTBEAT_RECENT_MS_def chVTTimeElapsedSinceX_def
      idle_recent_def) arith

lemma TIME_MS2I_consts [simp]: "TIME_MS2I 100 = 1000" "TIME_MS2I 500 = 5000" "TIME_MS2I 50 = 500"
  by (simp_all add: TIME_MS2I_def CH_CFG_ST_FREQUENCY_def)

subsection \<open>Status LED\<close>

datatype LED_MODE = LED_MODE_OFF | LED_MODE_ON | LED_MODE_BLINK_FAST | LED_MODE_BLINK_SLOW
datatype LED_COLOR = RED | GREEN

record status_led =
  current_mode :: LED_MODE
  current_color :: LED_COLOR
  slow_count :: u8
  led_red :: bool
  led_green :: bool
  timer_armed :: u32

definition toggle_color :: "status_led \<Rightarrow> status_led" where
  "toggle_color s =
     (if current_color s = RED then s\<lparr>led_red := \<not> led_red s, led_green := True\<rparr>
      else s\<lparr>led_green := \<not> led_green s, led_red := True\<rparr>)"

definition status_led_timer_cb :: "status_led \<Rightarrow> status_led" where
  "status_led_timer_cb s =
     (let s1 = (case current_mode s of
          LED_MODE_OFF \<Rightarrow> s\<lparr>led_red := True, led_green := True\<rparr>
        | LED_MODE_ON \<Rightarrow> s\<lparr>led_red := (current_color s \<noteq> RED), led_green := (current_color s \<noteq> GREEN)\<rparr>
        | LED_MODE_BLINK_FAST \<Rightarrow> toggle_color s
        | LED_MODE_BLINK_SLOW \<Rightarrow>
            let s0 = s\<lparr>slow_count := slow_count s + 1\<rparr>
            in if slow_count s mod 10 = 0 then toggle_color s0 else s0)
      in s1\<lparr>timer_armed := TIME_MS2I 50\<rparr>)"

definition InitStatusLed :: "status_led \<Rightarrow> status_led" where
  "InitStatusLed s = s\<lparr>current_mode := LED_MODE_OFF, current_color := RED, timer_armed := TIME_MS2I 100\<rparr>"

definition SetStatusLedMode :: "LED_MODE \<Rightarrow> status_led \<Rightarrow> status_led" where
  "SetStatusLedMode m s = s\<lparr>current_mode := m\<rparr>"

definition SetStatusLedColor :: "LED_COLOR \<Rightarrow> status_led \<Rightarrow> status_led" where
  "SetStatusLedColor c s = s\<lparr>current_color := c\<rparr>"

text \<open>Any interleaving of the timer and of the setters.\<close>

inductive led_step :: "status_led \<Rightarrow> status_led \<Rightarrow> bool" where
  led_timer: "led_step s (status_led_timer_cb s)"
| led_mode: "led_step s (SetStatusLedMode m s)"
| led_color: "led_step s (SetStatusLedColor c s)"

inductive_cases led_stepE: "led_step s s'"

definition not_both_lit :: "status_led \<Rightarrow> bool" where
  "not_both_lit s \<longleftrightarrow> led_red s \<or> led_green s"

lemma timer_cb_not_both_lit: "not_both_lit s \<Longrightarrow> not_both_lit (status_led_timer_cb s)"
  by (cases "current_mode s"; cases "current_color s")
    (auto simp: status_led_timer_cb_def toggle_color_def not_both_lit_def Let_def)

lemma setters_not_both_lit [simp]:
  "not_both_lit (SetStatusLedMode m s) = not_both_lit s"
  "not_both_lit (SetStatusLedColor c s) = not_both_lit s"
  by (simp_all add: SetStatusLedMode_def SetStatusLedColor_def not_both_lit_def)

lemma led_step_not_both_lit: "led_step s s' \<Longrightarrow> not_both_lit s \<Longrightarrow> not_both_lit s'"
  by (auto elim!: led_stepE simp: timer_cb_not_both_lit)

subsection \<open>Properties\<close>

text \<open>
  The heartbeat pattern. From state 0 the timer callback runs through a cycle of four:
  flash, dark, flash, dark, re-armed after 100, 100, 100 and 500 ms; a flash is green if the
  idle task ran within the last 100 ms and red otherwise, never both.
\<close>

theorem heartbeat_cycle:
  assumes "blink_state h = 0"
  shows "let h1 = heartbeat_timer_cb t1 l1 h; h2 = heartbeat_timer_cb t2 l2 h1;
             h3 = heartbeat_timer_cb t3 l3 h2; h4 = heartbeat_timer_cb t4 l4 h3
    in map armed [h1, h2, h3, h4] = [1000, 1000, 1000, 5000]
     \<and> (green_line h1, red_line h1) = (\<not> idle_recent t1 l1, idle_recent t1 l1)
     \<and> (green_line h2, red_line h2) = (True, True)
     \<and> (green_line h3, red_line h3) = (\<not> idle_recent t3 l3, idle_recent t3 l3)
     \<and> (green_line h4, red_line h4) = (True, True)
     \<and> blink_state h4 = 0"
  using assms by (simp add: heartbeat_timer_cb_def elapsed_iff show_idle_def Let_def)

theorem heartbeat_cycle_witness:
  "blink_state (heartbeat_timer_cb 4 0 (heartbeat_timer_cb 3 0 (heartbeat_timer_cb 2 0
     (heartbeat_timer_cb 1 0 \<lparr>blink_state = 0, red_line = True, green_line = True, armed = 0\<rparr>)))) = 0"
  using heartbeat_cycle[of "\<lparr>blink_state = 0, red_line = True, green_line = True, armed = 0\<rparr>" 1 0 2 0 3 0 4 0]
  by (simp add: Let_def)

text \<open>
  Whatever order the timer and the setters run in, the red and the green status LED are
  never lit together.
\<close>

theorem status_led_exclusive:
  assumes "led_step\<^sup>*\<^sup>* s s'" and "led_red s \<or> led_green s"
  shows "led_red s' \<or> led_green s'"
  using assms led_step_not_both_lit
  by (induction rule: rtranclp_induct) (auto simp: not_both_lit_def)

theorem status_led_exclusive_witness:
  "let s = \<lparr>current_mode = LED_MODE_ON, current_color = GREEN, slow_count = 0, led_red = False,
            led_green = True, timer_armed = 0\<rparr>
   in led_red (status_led_timer_cb s) \<or> led_green (status_led_timer_cb s)"
  unfolding Let_def
  by (rule status_led_exclusive[OF r_into_rtranclp[of led_step, OF led_timer]]) simp

end
