(* ===== verification/Flash.thy ===== *)
theory Flash
  imports Prelude
begin

text \<open>
  The serial flash: the W25Q driver of \<open>boards/XCORE/hal_flash_device.c\<close> and the block
  device that \<open>src/filesystem/filesystem.cpp\<close> gives to the file system.

  The WSPI bus is a log of the transfers the driver makes. What the chip answers is a
  parameter: \<open>status n\<close> is its status register at the \<open>n\<close>-th status read since reset and
  \<open>rd addr n\<close> the \<open>n\<close> bytes a read command at \<open>addr\<close> delivers. Command bytes that differ
  only in their line modes are logged by their purpose.
\<close>

datatype wspi_op =
    ResetEnable
  | Reset
  | ReadId
  | ReadStatus
  | WriteEnable
  | PageProgram u32 bytes
  | BulkErase
  | SectorErase u32
  | ReadData u32 nat
  | SleepMs u32

datatype flash_error = FLASH_NO_ERROR | FLASH_BUSY_ERASING | FLASH_ERROR_PROGRAM | FLASH_ERROR_VERIFY

record snor =
  bus_log :: "wspi_op list"
  polls :: nat
  ready :: bool

definition emit :: "wspi_op \<Rightarrow> snor \<Rightarrow> snor" where
  "emit x d = d\<lparr>bus_log := bus_log d @ [x]\<rparr>"

definition read_status :: "(nat \<Rightarrow> u8) \<Rightarrow> snor \<Rightarrow> u8 \<times> snor" where
  "read_status status d = (status (polls d), (emit ReadStatus d)\<lparr>polls := Suc (polls d)\<rparr>)"

definition PAGE_SIZE :: u32 where "PAGE_SIZE = 256"
definition PAGE_MASK :: u32 where "PAGE_MASK = PAGE_SIZE - 1"
definition SECTOR_SIZE :: u32 where "SECTOR_SIZE = 0x1000"
definition W25Q_FLAGS_BUSY :: u8 where "W25Q_FLAGS_BUSY = 0x01"
definition W25Q_COMPARE_BUFFER_SIZE :: nat where "W25Q_COMPARE_BUFFER_SIZE = 32"

definition busy :: "u8 \<Rightarrow> bool" where
  "busy st \<longleftrightarrow> st AND W25Q_FLAGS_BUSY \<noteq> 0"

subsection \<open>The driver\<close>

fun w25q_find_id :: "u8 list \<Rightarrow> u8 \<Rightarrow> bool" where
  "w25q_find_id [] element = False"
| "w25q_find_id (x # xs) element = (if x = element then True else w25q_find_id xs element)"

text \<open>The \<open>do ... while (--timeout)\<close> loop; the result is the value of \<open>timeout\<close> after it.\<close>

fun poll_loop :: "(nat \<Rightarrow> u8) \<Rightarrow> nat \<Rightarrow> snor \<Rightarrow> nat \<times> snor" where
  "poll_loop status 0 d = (0, d)"
| "poll_loop status (Suc t) d =
     (let (st, d') = read_status status d
      in if \<not> busy st then (Suc t, d')
         else let d'' = emit (SleepMs 1) d'
              in if t = 0 then (0, d'') else poll_loop status t d'')"

definition w25q_poll_status :: "(nat \<Rightarrow> u8) \<Rightarrow> snor \<Rightarrow> flash_error \<times> snor" where
  "w25q_poll_status status d =
     (let (timeout, d') = poll_loop status 100 d
      in (if timeout = 0 then FLASH_ERROR_PROGRAM else FLASH_NO_ERROR, d'))"

definition w25q_reset_memory :: "snor \<Rightarrow> snor" where
  "w25q_reset_memory d = emit Reset (emit ResetEnable d)"

definition w25q_manufacturer_ids :: "u8 list" where "w25q_manufacturer_ids = [0xEF]"
definition w25q_memory_type_ids :: "u8 list" where "w25q_memory_type_ids = [0x40, 0x60]"

text \<open>
  \<open>snor_device_init\<close> with the three identification bytes the chip returns: the assertions
  on the identifiers, and the sector count and size (a capacity code of 32 or more would
  shift an \<open>unsigned\<close> out of range). \<^term>\<open>None\<close> where the code halts or is undefined.
\<close>

definition snor_device_init :: "u8 \<Rightarrow> u8 \<Rightarrow> u8 \<Rightarrow> snor \<Rightarrow> (u32 \<times> u32 \<times> snor) option" where
  "snor_device_init id0 id1 id2 d =
     (let d' = emit ReadId (w25q_reset_memory d)
      in if w25q_find_id w25q_manufacturer_ids id0 \<and> w25q_find_id w25q_memory_type_ids id1
            \<and> unat id2 < 32
         then let sectors_count = push_bit (unat id2) 1 div SECTOR_SIZE
              in Some (sectors_count, sectors_count * SECTOR_SIZE, d')
         else None)"

definition snor_device_read :: "(u32 \<Rightarrow> nat \<Rightarrow> bytes) \<Rightarrow> u32 \<Rightarrow> nat \<Rightarrow> snor \<Rightarrow> flash_error \<times> bytes \<times> snor" where
  "snor_device_read rd offset n d = (FLASH_NO_ERROR, rd offset n, emit (ReadData offset n) d)"

definition chunk_size :: "u32 \<Rightarrow> nat \<Rightarrow> nat" where
  "chunk_size offset n =
     (let chunk = unat (((offset OR PAGE_MASK) + 1) - offset)
      in if chunk > n then n else chunk)"

lemma chunk_room: "unat (((offset OR PAGE_MASK) + 1) - offset) = 256 - unat offset mod 256"
proof -
  have "offset = (offset AND NOT PAGE_MASK) + (offset AND PAGE_MASK)"
    by (subst disjunctive_add_eq_or) (auto simp: bit_eq_iff bit_and_iff bit_or_iff bit_not_iff)
  moreover have "offset OR PAGE_MASK = (offset AND NOT PAGE_MASK) + PAGE_MASK"
    by (subst disjunctive_add_eq_or) (auto simp: bit_eq_iff bit_and_iff bit_or_iff bit_not_iff)
  ultimately have or: "offset OR PAGE_MASK = offset - (offset AND PAGE_MASK) + PAGE_MASK"
    by (metis add_diff_cancel_right')
  have "offset AND PAGE_MASK = take_bit 8 offset"
    by (simp add: PAGE_MASK_def PAGE_SIZE_def take_bit_eq_mask mask_eq_decr_exp)
  then have "unat (offset AND PAGE_MASK) = take_bit 8 (unat offset)"
    by (simp only: unsigned_take_bit_eq)
  then have m: "unat (offset AND PAGE_MASK) = unat offset mod 256"
    by (simp add: take_bit_eq_mod)
  have "((offset OR PAGE_MASK) + 1) - offset = 256 - (offset AND PAGE_MASK)"
  proof -
    have "PAGE_MASK + 1 = 256" by (simp add: PAGE_MASK_def PAGE_SIZE_def)
    then show ?thesis unfolding or by (simp add: algebra_simps)
  qed
  moreover have "unat (256 - (offset AND PAGE_MASK)) = 256 - unat offset mod 256"
    using m by (simp add: unat_sub_if' word_le_nat_alt)
  ultimately show ?thesis by (simp only:)
qed

lemma chunk_size_eq: "chunk_size offset n = min n (256 - unat offset mod 256)"
  unfolding chunk_size_def chunk_room by (simp add: Let_def min_def)

lemma chunk_size_pos: "0 < n \<Longrightarrow> 0 < chunk_size offset n"
  by (simp add: chunk_size_eq)

function (sequential) snor_device_program ::
  "(nat \<Rightarrow> u8) \<Rightarrow> u32 \<Rightarrow> bytes \<Rightarrow> snor \<Rightarrow> flash_error \<times> snor" where
  "snor_device_program status offset [] d = (FLASH_NO_ERROR, d)"
| "snor_device_program status offset (p # pp) d =
     (let chunk = chunk_size offset (length (p # pp));
          d1 = emit WriteEnable d;
          d2 = emit (PageProgram offset (take chunk (p # pp))) d1;
          (err, d3) = w25q_poll_status status d2
      in if err \<noteq> FLASH_NO_ERROR then (err, d3)
         else snor_device_program status (offset + of_nat chunk) (drop chunk (p # pp)) d3)"
  by pat_completeness auto
termination
  by (relation "measure (\<lambda>(status, offset, pp, d). length pp)") (auto simp: chunk_size_eq)

definition snor_device_start_erase_all :: "snor \<Rightarrow> flash_error \<times> snor" where
  "snor_device_start_erase_all d = (FLASH_NO_ERROR, emit BulkErase (emit WriteEnable d))"

definition snor_device_start_erase_sector :: "u32 \<Rightarrow> snor \<Rightarrow> flash_error \<times> snor" where
  "snor_device_start_erase_sector sector d =
     (let offset = sector * SECTOR_SIZE
      in (FLASH_NO_ERROR, emit (SectorErase offset) (emit WriteEnable d)))"

text \<open>The outer loop of \<open>snor_device_verify_erase\<close>; \<open>n\<close> counts the buffers left to read.\<close>

fun verify_loop :: "(u32 \<Rightarrow> nat \<Rightarrow> bytes) \<Rightarrow> nat \<Rightarrow> u32 \<Rightarrow> snor \<Rightarrow> flash_error \<times> snor" where
  "verify_loop rd 0 offset d = (FLASH_NO_ERROR, d)"
| "verify_loop rd (Suc n) offset d =
     (let (_, cmpbuf, d') = snor_device_read rd offset W25Q_COMPARE_BUFFER_SIZE d
      in if \<exists>p \<in> set cmpbuf. p \<noteq> 0xFF then (FLASH_ERROR_VERIFY, d'\<lparr>ready := True\<rparr>)
         else verify_loop rd n (offset + of_nat W25Q_COMPARE_BUFFER_SIZE) d')"

definition snor_device_verify_erase ::
  "(u32 \<Rightarrow> nat \<Rightarrow> bytes) \<Rightarrow> u32 \<Rightarrow> snor \<Rightarrow> flash_error \<times> snor" where
  "snor_device_verify_erase rd sector d =
     verify_loop rd (unat SECTOR_SIZE div W25Q_COMPARE_BUFFER_SIZE) (sector * SECTOR_SIZE) d"

text \<open>The second component is \<open>*msec\<close>, written only when the chip is busy.\<close>

definition snor_device_query_erase ::
  "(nat \<Rightarrow> u8) \<Rightarrow> u32 option \<Rightarrow> snor \<Rightarrow> flash_error \<times> u32 option \<times> snor" where
  "snor_device_query_erase status msec d =
     (let (st, d') = read_status status d
      in if busy st then (FLASH_BUSY_ERASING, map_option (\<lambda>_. 1) msec, d')
         else (FLASH_NO_ERROR, msec, d'))"

subsection \<open>The block device of the file system\<close>

datatype lfs_error = LFS_ERR_OK | LFS_ERR_IO

definition block_size :: u32 where "block_size = 4096"
definition block_count :: u32 where "block_count = 4096"

definition read_flash ::
  "(u32 \<Rightarrow> nat \<Rightarrow> bytes) \<Rightarrow> u32 \<Rightarrow> u32 \<Rightarrow> nat \<Rightarrow> snor \<Rightarrow> lfs_error \<times> bytes \<times> snor" where
  "read_flash rd block off sz d =
     (let (err, buf, d') = snor_device_read rd (block * block_size + off) sz d
      in (if err = FLASH_NO_ERROR then LFS_ERR_OK else LFS_ERR_IO, buf, d'))"

definition write_flash ::
  "(nat \<Rightarrow> u8) \<Rightarrow> u32 \<Rightarrow> u32 \<Rightarrow> bytes \<Rightarrow> snor \<Rightarrow> lfs_error \<times> snor" where
  "write_flash status block off buffer d =
     (let (err, d') = snor_device_program status (block * block_size + off) buffer d
      in (if err = FLASH_NO_ERROR then LFS_ERR_OK else LFS_ERR_IO, d'))"

text \<open>The wait loop of \<open>erase_flash\<close>: \<^term>\<open>None\<close> if the chip never becomes ready.\<close>

partial_function (option) erase_wait :: "(nat \<Rightarrow> u8) \<Rightarrow> u32 \<Rightarrow> snor \<Rightarrow> snor option" where
  "erase_wait status wait d =
     (case snor_device_query_erase status (Some wait) d of
        (err, msec, d') \<Rightarrow>
          if err \<noteq> FLASH_NO_ERROR then let wait' = the msec in erase_wait status wait' (emit (SleepMs wait') d')
          else Some d')"

definition erase_flash :: "(nat \<Rightarrow> u8) \<Rightarrow> u32 \<Rightarrow> snor \<Rightarrow> (lfs_error \<times> snor) option" where
  "erase_flash status block d =
     (let (err, d') = snor_device_start_erase_sector block d
      in if err \<noteq> FLASH_NO_ERROR then Some (LFS_ERR_IO, d')
         else do { d'' \<leftarrow> erase_wait status 0 d'; Some (LFS_ERR_OK, d'') })"

text \<open>
  \<open>InitFS\<close>: mount, and format and mount again if that fails. The file system is a
  parameter: \<open>mount\<close> and \<open>format\<close> act on the medium and return the error code.
\<close>

definition InitFS :: "('m \<Rightarrow> int \<times> 'm) \<Rightarrow> ('m \<Rightarrow> int \<times> 'm) \<Rightarrow> 'm \<Rightarrow> bool \<times> 'm" where
  "InitFS lfs_mount lfs_format m =
     (let (err, m1) = lfs_mount m
      in if err \<noteq> 0 then
           let (_, m2) = lfs_format m1; (err', m3) = lfs_mount m2 in (err' = 0, m3)
         else (err = 0, m1))"


subsection \<open>The file object\<close>

text \<open>
  \<open>File\<close> wraps a file handle of the file system. The calls of the file system are
  parameters on the volume and the handle: \<open>lfs_open vol path flags\<close> gives the error code
  and the new handle.
\<close>

record 'h File =
  file_handle :: 'h
  is_open :: bool

definition LFS_ERR_INVAL :: int where "LFS_ERR_INVAL = -22"

definition File_open ::
  "('v \<Rightarrow> bytes \<Rightarrow> int \<Rightarrow> int \<times> 'h \<times> 'v) \<Rightarrow> bytes \<Rightarrow> int \<Rightarrow> 'v \<Rightarrow> 'h File \<Rightarrow> int \<times> 'v \<times> 'h File" where
  "File_open lfs_open path flags vol f =
     (if is_open f then (LFS_ERR_INVAL, vol, f)
      else let (result, h, vol') = lfs_open vol path flags
           in (result, vol', f\<lparr>file_handle := h, is_open := (result = 0)\<rparr>))"

definition File_close :: "('v \<Rightarrow> 'h \<Rightarrow> 'v) \<Rightarrow> 'v \<Rightarrow> 'h File \<Rightarrow> 'v \<times> 'h File" where
  "File_close lfs_close vol f =
     (if is_open f then (lfs_close vol (file_handle f), f\<lparr>is_open := False\<rparr>) else (vol, f))"

definition File_destroy :: "('v \<Rightarrow> 'h \<Rightarrow> 'v) \<Rightarrow> 'v \<Rightarrow> 'h File \<Rightarrow> 'v" where
  "File_destroy lfs_close vol f = (if is_open f then fst (File_close lfs_close vol f) else vol)"

definition isOpen :: "'h File \<Rightarrow> bool" where "isOpen f = is_open f"

subsection \<open>What programming sends to the chip\<close>

text \<open>
  The cells a transfer log programs: the data bytes with their addresses, in order. The
  chip keeps the upper address bits during a page program, so this reading is right for a
  command that stays inside its page (\<open>in_page\<close>).
\<close>

fun cells :: "u32 \<Rightarrow> bytes \<Rightarrow> (u32 \<times> u8) list" where
  "cells a [] = []"
| "cells a (b # bs) = (a, b) # cells (a + 1) bs"

fun programmed :: "wspi_op list \<Rightarrow> (u32 \<times> u8) list" where
  "programmed [] = []"
| "programmed (PageProgram a bs # xs) = cells a bs @ programmed xs"
| "programmed (_ # xs) = programmed xs"

fun in_page :: "wspi_op \<Rightarrow> bool" where
  "in_page (PageProgram a bs) \<longleftrightarrow> bs \<noteq> [] \<and> unat a mod 256 + length bs \<le> 256"
| "in_page _ \<longleftrightarrow> True"

lemma programmed_append [simp]: "programmed (xs @ ys) = programmed xs @ programmed ys"
  by (induction xs rule: programmed.induct) auto

lemma cells_append: "cells a (xs @ ys) = cells a xs @ cells (a + of_nat (length xs)) ys"
  by (induction xs arbitrary: a) (auto simp: algebra_simps)

lemma length_cells [simp]: "length (cells a xs) = length xs"
  by (induction xs arbitrary: a) auto

lemma bus_log_emit [simp]: "bus_log (emit x d) = bus_log d @ [x]"
  and polls_emit [simp]: "polls (emit x d) = polls d"
  by (simp_all add: emit_def)

lemma read_status_simps [simp]:
  "fst (read_status status d) = status (polls d)"
  "bus_log (snd (read_status status d)) = bus_log d @ [ReadStatus]"
  "polls (snd (read_status status d)) = Suc (polls d)"
  by (simp_all add: read_status_def)

text \<open>A wait only reads the status register and sleeps.\<close>

definition waits :: "wspi_op list \<Rightarrow> bool" where
  "waits xs \<longleftrightarrow> list_all (\<lambda>x. x = ReadStatus \<or> x = SleepMs 1) xs"

lemma waits_programmed: "waits xs \<Longrightarrow> programmed xs = []"
  and waits_in_page: "waits xs \<Longrightarrow> list_all in_page xs"
  by (induction xs) (auto simp: waits_def)

lemma poll_loop_log:
  "\<exists>es. bus_log (snd (poll_loop status n d)) = bus_log d @ es \<and> waits es"
proof (induction status n d rule: poll_loop.induct)
  case (1 status d)
  show ?case by (rule exI [of _ "[]"]) (simp add: waits_def)
next
  case (2 status t d)
  obtain st d' where r: "read_status status d = (st, d')" by fastforce
  then have d': "bus_log d' = bus_log d @ [ReadStatus]"
    using read_status_simps(2) [of status d] by simp
  show ?case
  proof (cases "busy st \<and> t \<noteq> 0")
    case True
    then obtain es where "bus_log (snd (poll_loop status t (emit (SleepMs 1) d'))) =
        bus_log (emit (SleepMs 1) d') @ es" "waits es"
      using 2 [OF r [symmetric] refl, of "emit (SleepMs 1) d'"] r by auto
    then show ?thesis using True r d' by (auto simp: waits_def)
  next
    case False
    then show ?thesis using r d' by (auto simp: waits_def)
  qed
qed

lemma poll_loop_ready:
  "\<lbrakk> k < n; \<not> busy (status (polls d + k)) \<rbrakk> \<Longrightarrow> fst (poll_loop status n d) \<noteq> 0"
proof (induction status n d arbitrary: k rule: poll_loop.induct)
  case (1 status d)
  then show ?case by simp
next
  case (2 status t d)
  obtain st d' where r: "read_status status d = (st, d')" by fastforce
  then have st: "st = status (polls d)" and p: "polls d' = Suc (polls d)"
    using read_status_simps(1,3) [of status d] by simp_all
  show ?case
  proof (cases "busy st")
    case True
    then have "k \<noteq> 0" using 2(3) st by (cases k) auto
    then obtain j where "k = Suc j" "j < t" using 2(2) by (cases k) auto
    then show ?thesis
      using 2(1) [OF r [symmetric] refl _ refl, of j] 2(3) True r p by simp
  qed (simp add: r)
qed

lemma w25q_poll_status_log:
  "\<exists>es. bus_log (snd (w25q_poll_status status d)) = bus_log d @ es \<and> waits es"
  using poll_loop_log [of status 100 d] by (simp add: w25q_poll_status_def case_prod_unfold Let_def)


lemma program_log:
  "\<exists>es k. bus_log (snd (snor_device_program status offset pp d)) = bus_log d @ es
     \<and> list_all in_page es \<and> k \<le> length pp \<and> programmed es = take k (cells offset pp)
     \<and> (fst (snor_device_program status offset pp d) = FLASH_NO_ERROR \<longrightarrow> k = length pp)"
proof (induction status offset pp d rule: snor_device_program.induct)
  case (1 status offset d)
  show ?case by (rule exI [of _ "[]"]) simp
next
  case (2 status offset p pp d)
  define chunk where "chunk = chunk_size offset (length (p # pp))"
  define d2 where "d2 = emit (PageProgram offset (take chunk (p # pp))) (emit WriteEnable d)"
  obtain err d3 where poll: "w25q_poll_status status d2 = (err, d3)" by fastforce
  obtain ws where ws: "bus_log d3 = bus_log d2 @ ws" "waits ws"
    using w25q_poll_status_log [of status d2] poll by auto
  have chunk: "chunk = min (length (p # pp)) (256 - unat offset mod 256)"
    by (simp only: chunk_def chunk_size_eq)
  have page: "in_page (PageProgram offset (take chunk (p # pp)))"
    using chunk by simp
  have step: "snor_device_program status offset (p # pp) d =
      (if err \<noteq> FLASH_NO_ERROR then (err, d3)
       else snor_device_program status (offset + of_nat chunk) (drop chunk (p # pp)) d3)"
    using poll by (simp add: Let_def chunk_def d2_def)
  let ?es = "[WriteEnable, PageProgram offset (take chunk (p # pp))] @ ws"
  have log3: "bus_log d3 = bus_log d @ ?es" using ws(1) by (simp add: d2_def)
  have page3: "list_all in_page ?es" using page waits_in_page [OF ws(2)] by simp
  have cells3: "programmed ?es = cells offset (take chunk (p # pp))"
    using waits_programmed [OF ws(2)] by simp
  have split: "cells offset (p # pp) =
      cells offset (take chunk (p # pp)) @ cells (offset + of_nat chunk) (drop chunk (p # pp))"
    using cells_append [of offset "take chunk (p # pp)" "drop chunk (p # pp)"] chunk by simp
  have len: "length (cells offset (take chunk (p # pp))) = chunk" "chunk \<le> length (p # pp)"
    using chunk by simp_all
  show ?case
  proof (cases "err = FLASH_NO_ERROR")
    case False
    have "programmed ?es = take chunk (cells offset (p # pp))"
      unfolding split using cells3 len waits_programmed [OF ws(2)] by simp
    then show ?thesis unfolding step using False log3 page3 len by fastforce
  next
    case True
    obtain es k where ih:
      "bus_log (snd (snor_device_program status (offset + of_nat chunk) (drop chunk (p # pp)) d3)) =
         bus_log d3 @ es" "list_all in_page es" "k \<le> length (drop chunk (p # pp))"
      "programmed es = take k (cells (offset + of_nat chunk) (drop chunk (p # pp)))"
      "fst (snor_device_program status (offset + of_nat chunk) (drop chunk (p # pp)) d3) =
         FLASH_NO_ERROR \<longrightarrow> k = length (drop chunk (p # pp))"
      using 2 [OF chunk_def refl d2_def poll [symmetric]] True by blast
    have "programmed (?es @ es) = take (chunk + k) (cells offset (p # pp))"
      unfolding split using ih(4) len waits_programmed [OF ws(2)] by simp
    moreover have "chunk + k \<le> length (p # pp)" using ih(3) len by simp
    moreover have "bus_log (snd (snor_device_program status offset (p # pp) d)) = bus_log d @ (?es @ es)"
      unfolding step using True ih(1) log3 by simp
    moreover have "list_all in_page (?es @ es)" using page3 ih(2) by simp
    moreover have "fst (snor_device_program status offset (p # pp) d) = FLASH_NO_ERROR \<longrightarrow>
        chunk + k = length (p # pp)"
      unfolding step using True ih(5) len by simp
    ultimately show ?thesis by (intro exI conjI) assumption+
  qed
qed

lemma write_flash_eq:
  "write_flash status block off buffer d =
     (if fst (snor_device_program status (block * 4096 + off) buffer d) = FLASH_NO_ERROR
      then LFS_ERR_OK else LFS_ERR_IO,
      snd (snor_device_program status (block * 4096 + off) buffer d))"
  by (simp add: write_flash_def block_size_def case_prod_unfold Let_def)

text \<open>A chip that finishes every page within the 100 polls of the driver.\<close>

definition ready_in_time :: "(nat \<Rightarrow> u8) \<Rightarrow> bool" where
  "ready_in_time status \<longleftrightarrow> (\<forall>n. \<exists>k<100. \<not> busy (status (n + k)))"

lemma poll_ready: "ready_in_time status \<Longrightarrow> fst (w25q_poll_status status d) = FLASH_NO_ERROR"
proof -
  assume "ready_in_time status"
  then obtain k where "k < 100" "\<not> busy (status (polls d + k))" unfolding ready_in_time_def by blast
  then have "fst (poll_loop status 100 d) \<noteq> 0" by (rule poll_loop_ready)
  then show ?thesis by (simp add: w25q_poll_status_def case_prod_unfold Let_def)
qed

lemma program_ok:
  "ready_in_time status \<Longrightarrow> fst (snor_device_program status offset pp d) = FLASH_NO_ERROR"
proof (induction status offset pp d rule: snor_device_program.induct)
  case (2 status offset p pp d)
  define d2 where "d2 = emit (PageProgram offset (take (chunk_size offset (length (p # pp))) (p # pp)))
    (emit WriteEnable d)"
  obtain err d3 where poll: "w25q_poll_status status d2 = (err, d3)" by fastforce
  then have "err = FLASH_NO_ERROR" using poll_ready [OF 2(2), of d2] by simp
  then show ?case using 2(1) [OF refl refl d2_def poll [symmetric]] 2(2) poll
    by (simp add: Let_def d2_def)
qed simp

text \<open>
  C14: When the chip finishes each page within the driver's 100 polls, \<open>write_flash\<close>
  succeeds, and the commands it sends program exactly the bytes of the buffer to
  consecutive addresses from the block's start plus the offset, every page-program command
  staying inside one 256-byte page.
\<close>

theorem write_flash_programs_all:
  assumes "ready_in_time status"
  shows "\<exists>es d'. write_flash status block off buffer d = (LFS_ERR_OK, d')
     \<and> bus_log d' = bus_log d @ es \<and> list_all in_page es
     \<and> programmed es = cells (block * 4096 + off) buffer"
proof -
  obtain es k where
    "bus_log (snd (snor_device_program status (block * 4096 + off) buffer d)) = bus_log d @ es"
    "list_all in_page es" "programmed es = take k (cells (block * 4096 + off) buffer)"
    "k = length buffer"
    using program_log [of status "block * 4096 + off" buffer d] program_ok [OF assms] by blast
  then show ?thesis
    using program_ok [OF assms, of "block * 4096 + off" buffer d]
    by (auto simp: write_flash_eq)
qed

theorem write_flash_programs_all_witness:
  "\<exists>es d'. write_flash (\<lambda>n. if even n then 1 else 0) 2 250 [1, 2, 3, 4, 5, 6, 7] \<lparr>bus_log = [], polls = 0, ready = True\<rparr>
        = (LFS_ERR_OK, d')
     \<and> bus_log d' = es \<and> list_all in_page es \<and> programmed es = cells 8442 [1, 2, 3, 4, 5, 6, 7]"
proof -
  have "\<exists>k<100. \<not> busy (if even (n + k) then 1 else 0)" for n :: nat
    by (cases "even n"; intro exI [of _ "if even n then 1 else 0"])
       (auto simp: busy_def W25Q_FLAGS_BUSY_def)
  then have r: "ready_in_time (\<lambda>n. if even n then 1 else 0)" by (simp add: ready_in_time_def)
  show ?thesis using write_flash_programs_all
      [OF r, of 2 250 "[1, 2, 3, 4, 5, 6, 7]" "\<lparr>bus_log = [], polls = 0, ready = True\<rparr>"] by simp
qed

text \<open>
  Whether or not the chip reports ready in time, \<open>write_flash\<close> programs a prefix of the
  buffer in order, never crosses a page inside a command, and answers \<open>LFS_ERR_OK\<close> only
  after the whole buffer was sent.
\<close>

theorem write_flash_prefix:
  "\<exists>es k. bus_log (snd (write_flash status block off buffer d)) = bus_log d @ es
     \<and> list_all in_page es \<and> k \<le> length buffer
     \<and> programmed es = take k (cells (block * 4096 + off) buffer)
     \<and> (fst (write_flash status block off buffer d) = LFS_ERR_OK \<longrightarrow> k = length buffer)"
  using program_log [of status "block * 4096 + off" buffer d] unfolding write_flash_eq
  by (auto split: if_splits)

theorem write_flash_prefix_witness:
  "fst (write_flash (\<lambda>n. 0) 1 0 [9] \<lparr>bus_log = [], polls = 0, ready = True\<rparr>) = LFS_ERR_OK \<and>
   (\<exists>es. bus_log (snd (write_flash (\<lambda>n. 0) 1 0 [9] \<lparr>bus_log = [], polls = 0, ready = True\<rparr>)) = es
     \<and> list_all in_page es \<and> programmed es = [(4096, 9)])"
proof -
  have ok: "fst (write_flash (\<lambda>n. 0) 1 0 [9] \<lparr>bus_log = [], polls = 0, ready = True\<rparr>) = LFS_ERR_OK"
    by code_simp
  then show ?thesis
    using write_flash_prefix [of "\<lambda>n. 0" 1 0 "[9]" "\<lparr>bus_log = [], polls = 0, ready = True\<rparr>"] by force
qed


subsection \<open>Erasing\<close>

text \<open>The chip read as a memory: what a read command delivers.\<close>

definition mem_read :: "(u32 \<Rightarrow> u8) \<Rightarrow> u32 \<Rightarrow> nat \<Rightarrow> bytes" where
  "mem_read m a n = map (\<lambda>i. m (a + of_nat i)) [0..<n]"

lemma verify_loop_iff:
  "fst (verify_loop (mem_read m) n offset d) = FLASH_NO_ERROR \<longleftrightarrow>
     (\<forall>i < n * 32. m (offset + of_nat i) = 0xFF)"
proof (induction n arbitrary: offset d)
  case (Suc n)
  have split: "(\<forall>i < Suc n * 32. P i) \<longleftrightarrow> (\<forall>i < 32. P i) \<and> (\<forall>i < n * 32. P (32 + i))"
    for P :: "nat \<Rightarrow> bool"
    by (auto, metis add.commute add_diff_inverse_nat less_diff_conv2 not_less)
  have "(\<exists>p \<in> set (mem_read m offset 32). p \<noteq> 0xFF) \<longleftrightarrow> \<not> (\<forall>i < 32. m (offset + of_nat i) = 0xFF)"
    by (auto simp: mem_read_def)
  then show ?case
    unfolding split using Suc
    by (auto simp: snor_device_read_def W25Q_COMPARE_BUFFER_SIZE_def algebra_simps)
qed simp

text \<open>
  \<open>snor_device_verify_erase\<close> accepts a sector exactly when all of its 4096 bytes read
  back as 0xFF.
\<close>

theorem verify_erase_exact:
  "fst (snor_device_verify_erase (mem_read m) sector d) = FLASH_NO_ERROR \<longleftrightarrow>
     (\<forall>i < 4096. m (sector * 4096 + of_nat i) = 0xFF)"
  unfolding snor_device_verify_erase_def verify_loop_iff
  by (simp add: SECTOR_SIZE_def W25Q_COMPARE_BUFFER_SIZE_def)

theorem verify_erase_exact_witness:
  "fst (snor_device_verify_erase (mem_read (\<lambda>a. 0xFF)) 3 \<lparr>bus_log = [], polls = 0, ready = False\<rparr>)
      = FLASH_NO_ERROR \<and>
   fst (snor_device_verify_erase (mem_read (\<lambda>a. if a = 12289 then 0xFE else 0xFF)) 3
      \<lparr>bus_log = [], polls = 0, ready = False\<rparr>) \<noteq> FLASH_NO_ERROR"
proof -
  have "(\<lambda>a :: u32. if a = 12289 then 0xFE else 0xFF :: u8) (3 * 4096 + of_nat 1) \<noteq> 0xFF" by simp
  then have "\<not> (\<forall>i < 4096. (\<lambda>a :: u32. if a = 12289 then 0xFE else 0xFF :: u8) (3 * 4096 + of_nat i) = 0xFF)"
    by (metis one_less_numeral_iff semiring_norm(76))
  then show ?thesis
    unfolding verify_erase_exact by simp
qed

lemma erase_wait_ready:
  "\<lbrakk> \<not> busy (status (polls d + k)); \<forall>j<k. busy (status (polls d + j)) \<rbrakk> \<Longrightarrow>
   \<exists>d'. erase_wait status w d = Some d'
      \<and> bus_log d' = bus_log d @ concat (replicate k [ReadStatus, SleepMs 1]) @ [ReadStatus]"
proof (induction k arbitrary: w d)
  case 0
  then show ?case
    by (subst erase_wait.simps) (simp add: snor_device_query_erase_def read_status_def)
next
  case (Suc k)
  define d1 where "d1 = emit (SleepMs 1) (snd (read_status status d))"
  have p: "polls d1 = Suc (polls d)" and l: "bus_log d1 = bus_log d @ [ReadStatus, SleepMs 1]"
    by (simp_all add: d1_def)
  have "busy (status (polls d + 0))" using Suc.prems(2) by blast
  then have step: "erase_wait status w d = erase_wait status 1 d1"
    by (subst erase_wait.simps) (simp add: snor_device_query_erase_def read_status_def d1_def)
  have "\<forall>j<k. busy (status (polls d1 + j))" using Suc.prems(2) p by auto
  then obtain d' where "erase_wait status 1 d1 = Some d'"
    "bus_log d' = bus_log d1 @ concat (replicate k [ReadStatus, SleepMs 1]) @ [ReadStatus]"
    using Suc.IH [of d1 1] Suc.prems(1) p by auto
  then show ?case using step l by simp
qed

text \<open>
  C15: If the chip eventually reports ready, \<open>erase_flash\<close> returns \<open>LFS_ERR_OK\<close>: it has sent
  write-enable and one sector erase at the start of the block, and then polled until the
  first status that is not busy, sleeping one millisecond between polls.
\<close>

theorem erase_flash_returns:
  assumes "\<not> busy (status (polls d + k))"
  shows "\<exists>d' j. erase_flash status block d = Some (LFS_ERR_OK, d') \<and> j \<le> k
     \<and> bus_log d' = bus_log d @ [WriteEnable, SectorErase (block * 4096)]
          @ concat (replicate j [ReadStatus, SleepMs 1]) @ [ReadStatus]"
proof -
  define j where "j = (LEAST j. \<not> busy (status (polls d + j)))"
  have j: "\<not> busy (status (polls d + j))" "j \<le> k" "\<forall>i<j. busy (status (polls d + i))"
    unfolding j_def using assms LeastI [of "\<lambda>j. \<not> busy (status (polls d + j))"]
      Least_le [of "\<lambda>j. \<not> busy (status (polls d + j))"] not_less_Least by blast+
  then show ?thesis
    using erase_wait_ready [of status "emit (SectorErase (block * 4096)) (emit WriteEnable d)" j 0]
    by (auto simp: erase_flash_def snor_device_start_erase_sector_def SECTOR_SIZE_def)
qed

theorem erase_flash_returns_witness:
  "\<exists>d' j. erase_flash (\<lambda>n. if n < 2 then 1 else 0) 5 \<lparr>bus_log = [], polls = 0, ready = True\<rparr>
      = Some (LFS_ERR_OK, d') \<and> j \<le> 2
     \<and> bus_log d' = [WriteEnable, SectorErase 20480]
          @ concat (replicate j [ReadStatus, SleepMs 1]) @ [ReadStatus]"
proof -
  show ?thesis
    using erase_flash_returns [of "\<lambda>n. if n < 2 then 1 else 0"
      "\<lparr>bus_log = [], polls = 0, ready = True\<rparr>" 2 5] by (simp add: busy_def)
qed

text \<open>
  Every address the file system can name (a block below the block count and an offset
  inside the block) stays inside the 16 MB of the chip, does not wrap, and determines its
  block and offset; a sector erase for a block starts at that block's first address.
\<close>

theorem fs_addresses_in_chip:
  assumes "block < block_count" "off < block_size"
  shows "unat (block * block_size + off) = unat block * 4096 + unat off
    \<and> block * block_size + off < 0x1000000
    \<and> block * SECTOR_SIZE = block * block_size"
proof -
  have b: "unat block < 4096" "unat off < 4096"
    using assms by (simp_all add: block_count_def block_size_def word_less_nat_alt)
  then have "unat block * 4096 + unat off < 2 ^ 24" by simp
  then have "unat (block * block_size + off) = unat block * 4096 + unat off"
    by (simp add: unat_word_ariths block_size_def)
  then show ?thesis
    using b by (simp add: word_less_nat_alt SECTOR_SIZE_def block_size_def)
qed

theorem fs_addresses_in_chip_witness:
  "unat (4095 * block_size + 4095) = 16777215 \<and> 4095 * block_size + 4095 < 0x1000000
   \<and> 4095 * SECTOR_SIZE = 4095 * block_size"
  using fs_addresses_in_chip [of 4095 4095] by (simp add: block_count_def block_size_def)

end
