(* ===== verification/Boot.thy ===== *)
theory Boot
  imports Safety Power_Management Board_Lines Id_Eeprom Leds Flash
begin

text \<open>
  Start-up: the platform of the robot (\<open>robots/src/xbot_robot.cpp\<close>), the start of the services
  (\<open>src/services.cpp\<close>), the globals (\<open>src/globals.cpp\<close>) and \<open>main\<close> (\<open>src/main.cpp\<close>) up to
  the event loop, which is the theory \<open>Safety\<close>. The endless loops in which \<open>main\<close> stays when it
  refuses to start are outcomes of their own. The drivers a robot owns are handed to the services
  by pointer and used by nobody else, so the model moves them. The starting of a service is an
  effect: the framework that runs it is a submodule.
\<close>

subsection \<open>Lines of the robot\<close>

definition LINE :: "string \<Rightarrow> u32" where
  "LINE n = (case map_of board_h_lines n of Some (p, k) \<Rightarrow> PAL_LINE (GPIO_BASE p) k | None \<Rightarrow> PAL_NOLINE)"

definition LINE_MOTOR1_PWM1 :: u32 where "LINE_MOTOR1_PWM1 = LINE ''UART1_RX''"
definition LINE_MOTOR1_PWM2 :: u32 where "LINE_MOTOR1_PWM2 = LINE ''UART1_TX''"
definition LINE_MOTOR1_ENCODER_A :: u32 where "LINE_MOTOR1_ENCODER_A = LINE ''GPIO16''"
definition LINE_MOTOR1_ENCODER_B :: u32 where "LINE_MOTOR1_ENCODER_B = LINE ''GPIO17''"
definition LINE_MOTOR2_PWM1 :: u32 where "LINE_MOTOR2_PWM1 = LINE ''UART6_RX''"
definition LINE_MOTOR2_PWM2 :: u32 where "LINE_MOTOR2_PWM2 = LINE ''UART6_TX''"
definition LINE_MOTOR2_ENCODER_A :: u32 where "LINE_MOTOR2_ENCODER_A = LINE ''GPIO18''"
definition LINE_MOTOR2_ENCODER_B :: u32 where "LINE_MOTOR2_ENCODER_B = LINE ''GPIO19''"

text \<open>The PWM units by their number.\<close>

definition MOTOR1_PWM :: nat where "MOTOR1_PWM = 1"
definition MOTOR1_PWM_CHANNEL_1 :: nat where "MOTOR1_PWM_CHANNEL_1 = 1"
definition MOTOR1_PWM_CHANNEL_2 :: nat where "MOTOR1_PWM_CHANNEL_2 = 2"
definition MOTOR2_PWM :: nat where "MOTOR2_PWM = 3"
definition MOTOR2_PWM_CHANNEL_1 :: nat where "MOTOR2_PWM_CHANNEL_1 = 0"
definition MOTOR2_PWM_CHANNEL_2 :: nat where "MOTOR2_PWM_CHANNEL_2 = 1"

definition power_lines :: "(u32 \<times> bool) list" where
  "power_lines = [(LINE ''GPIO8'', True), (LINE ''GPIO9'', True), (LINE ''GPIO10'', True), (LINE ''GPIO11'', False),
     (LINE ''GPIO12'', True), (LINE ''GPIO13'', False), (LINE ''GPIO14'', True), (LINE ''GPIO15'', False)]"

lemmas motor_pin_defs =
  MOTOR1_PWM_def MOTOR1_PWM_CHANNEL_1_def MOTOR1_PWM_CHANNEL_2_def
  MOTOR2_PWM_def MOTOR2_PWM_CHANNEL_1_def MOTOR2_PWM_CHANNEL_2_def

subsection \<open>The platform\<close>

datatype line_mode = PAL_MODE_ALTERNATE nat | PAL_MODE_OUTPUT_PUSHPULL | PAL_MODE_INPUT

record PWMConfig =
  frequency :: u32
  period :: u32
  active_low :: "nat list"

datatype boot_effect =
    PalSetLineMode u32 line_mode
  | PwmStart nat PWMConfig
  | PwmSet pwm_cmd
  | LwipInit bytes
  | InitBootloaderServiceDiscovery
  | InitSystem
  | StartRemoteLogging
  | InitRestAPI
  | IoStart
  | StartService u16

definition pwm_config :: "nat \<Rightarrow> nat \<Rightarrow> PWMConfig" where
  "pwm_config ch1 ch2 = \<lparr>frequency = 275000000, period = 0xFFF * 4, active_low = [ch1, ch2]\<rparr>"

record 'b xbot_robot =
  robot_charger :: "'b bq2579"
  left_pwm_motor_driver :: pwm_motor_driver
  right_pwm_motor_driver :: pwm_motor_driver

definition GetRobot :: "'b \<Rightarrow> 'b xbot_robot" where
  "GetRobot bus = \<lparr>robot_charger = \<lparr>i2c_driver = None, i2c_bus = bus\<rparr>,
     left_pwm_motor_driver = pwm_motor_init, right_pwm_motor_driver = pwm_motor_init\<rparr>"

text \<open>\<open>a1\<close> and \<open>a2\<close>: the two configurations could be allocated.\<close>

definition InitPlatform ::
  "bool \<Rightarrow> bool \<Rightarrow> bool \<Rightarrow> 'b xbot_robot \<Rightarrow> pwm_motor_driver diff_drive \<Rightarrow> 'b bq2579 power_service \<Rightarrow>
   (pwm_motor_driver diff_drive \<times> 'b bq2579 power_service \<times> boot_effect list) option" where
  "InitPlatform dbg a1 a2 rb drive_service pw = do {
     chDbgAssert dbg a1;
     chDbgAssert dbg a2;
     (if a1 \<and> a2 then Some () else None);
     let left = SetEncoder LINE_MOTOR1_ENCODER_A LINE_MOTOR1_ENCODER_B
                  (SetPWM (Some MOTOR1_PWM) MOTOR1_PWM_CHANNEL_1 MOTOR1_PWM_CHANNEL_2 (left_pwm_motor_driver rb));
     let right = SetEncoder LINE_MOTOR2_ENCODER_A LINE_MOTOR2_ENCODER_B
                  (SetPWM (Some MOTOR2_PWM) MOTOR2_PWM_CHANNEL_1 MOTOR2_PWM_CHANNEL_2 (right_pwm_motor_driver rb));
     Some (SetDrivers (Some left) (Some right) drive_service,
       SetDriver (Some (setI2C (Some 1) (robot_charger rb))) pw,
       [PalSetLineMode LINE_MOTOR1_PWM1 (PAL_MODE_ALTERNATE 1), PalSetLineMode LINE_MOTOR1_PWM2 (PAL_MODE_ALTERNATE 1),
        PalSetLineMode LINE_MOTOR2_PWM1 (PAL_MODE_ALTERNATE 2), PalSetLineMode LINE_MOTOR2_PWM2 (PAL_MODE_ALTERNATE 2),
        PwmStart MOTOR1_PWM (pwm_config MOTOR1_PWM_CHANNEL_1 MOTOR1_PWM_CHANNEL_2)]
       @ (if MOTOR1_PWM \<noteq> MOTOR2_PWM
          then [PwmStart MOTOR2_PWM (pwm_config MOTOR2_PWM_CHANNEL_1 MOTOR2_PWM_CHANNEL_2)] else [])
       @ [PwmSet (EnableChannel MOTOR1_PWM MOTOR1_PWM_CHANNEL_1 0), PwmSet (EnableChannel MOTOR1_PWM MOTOR1_PWM_CHANNEL_2 0),
          PwmSet (EnableChannel MOTOR2_PWM MOTOR2_PWM_CHANNEL_1 0), PwmSet (EnableChannel MOTOR2_PWM MOTOR2_PWM_CHANNEL_2 0)]
       @ map (\<lambda>(l, out). PalSetLineMode l (if out then PAL_MODE_OUTPUT_PUSHPULL else PAL_MODE_INPUT)) power_lines) }"

subsection \<open>Services\<close>

definition EMERGENCY :: u16 where "EMERGENCY = 1"
definition DIFF_DRIVE :: u16 where "DIFF_DRIVE = 2"
definition IMU :: u16 where "IMU = 4"
definition POWER :: u16 where "POWER = 5"
definition INPUT :: u16 where "INPUT = 7"

definition NeedsService :: "u16 \<Rightarrow> bool" where
  "NeedsService i = True"

definition START_IF_NEEDED :: "(u16 \<Rightarrow> bool) \<Rightarrow> u16 \<Rightarrow> boot_effect list" where
  "START_IF_NEEDED needs i = (if needs i then [StartService i] else [])"

definition StartServices ::
  "bool \<Rightarrow> (u16 \<Rightarrow> bool) \<Rightarrow> input_service \<Rightarrow> input_service \<times> boot_effect list" where
  "StartServices debug_build needs ins =
     ((if needs INPUT then
         let ds = RegisterInputDriver ''gpio'' \<lparr>driver_kind = GpioInputDriver, inputs_head = None\<rparr> (drivers ins)
         in ins\<lparr>drivers := (if debug_build
              then RegisterInputDriver ''simulated'' \<lparr>driver_kind = SimulatedInputDriver, inputs_head = None\<rparr> ds else ds)\<rparr>
       else ins),
      START_IF_NEEDED needs EMERGENCY @ START_IF_NEEDED needs IMU @ START_IF_NEEDED needs POWER
      @ START_IF_NEEDED needs DIFF_DRIVE @ START_IF_NEEDED needs INPUT)"

subsection \<open>The main program\<close>

record 'b firmware =
  board_info :: bytes
  carrier_board_info :: bytes
  the_heartbeat :: heartbeat
  the_status_led :: status_led
  the_drive :: "pwm_motor_driver diff_drive"
  the_power :: "'b bq2579 power_service"
  the_inputs :: input_service
  done_so_far :: "boot_effect list"

definition did :: "boot_effect list \<Rightarrow> 'b firmware \<Rightarrow> 'b firmware" where
  "did es f = f\<lparr>done_so_far := done_so_far f @ es\<rparr>"

definition set_led :: "(status_led \<Rightarrow> status_led) \<Rightarrow> 'b firmware \<Rightarrow> 'b firmware" where
  "set_led g f = f\<lparr>the_status_led := g (the_status_led f)\<rparr>"

definition InitGlobals :: "i2c_bus \<Rightarrow> 'b firmware \<Rightarrow> 'b firmware" where
  "InitGlobals i2c f = f\<lparr>board_info := snd (ID_EEPROM_GetBoardInfo i2c),
     carrier_board_info := snd (ID_EEPROM_GetCarrierBoardInfo i2c)\<rparr>"

text \<open>The world \<open>main\<close> runs in: the EEPROM bus, the file system, memory, and number formatting.\<close>

record ('b, 'm) boot_env =
  env_i2c :: i2c_bus
  env_mount :: "'m \<Rightarrow> int \<times> 'm"
  env_format :: "'m \<Rightarrow> int \<times> 'm"
  env_volume :: 'm
  env_charger_bus :: 'b
  env_alloc1 :: bool
  env_alloc2 :: bool
  env_dbg :: bool
  env_debug_build :: bool
  env_to_string :: "nat \<Rightarrow> bytes"

datatype 'b main_end =
    NoMacAddress "'b firmware"
  | NoFilesystem "'b firmware"
  | UnsupportedBoard bytes "'b firmware"
  | Dispatching "'b firmware"

text \<open>The message is built in an \<open>etl::string<100>\<close>, which drops what does not fit.\<close>

definition unsupported_info :: "(nat \<Rightarrow> bytes) \<Rightarrow> bytes \<Rightarrow> bytes option" where
  "unsupported_info to_string carrier = do {
     n \<leftarrow> strlen (drop 1 carrier);
     Some (take 100 (cstr ''Carrier board not supported for this firmware: '' @ take n (drop 1 carrier) @ cstr '' v''
       @ to_string (unat (version_major carrier)) @ cstr ''.'' @ to_string (unat (version_minor carrier)) @ cstr ''.''
       @ to_string (unat (version_patch carrier)))) }"

definition main_program :: "('b, 'm) boot_env \<Rightarrow> 'b firmware \<Rightarrow> 'b main_end option" where
  "main_program env f0 = do {
     let f1 = InitGlobals (env_i2c env) f0;
     let f2 = f1\<lparr>the_heartbeat := InitHeartbeat (the_heartbeat f1)\<rparr>;
     let f3 = set_led (SetStatusLedColor RED \<circ> SetStatusLedMode LED_MODE_ON \<circ> InitStatusLed) f2;
     (has_mac, mac_address) \<leftarrow> ID_EEPROM_GetMacAddress (env_i2c env) (replicate 6 0) 6;
     if \<not> has_mac then Some (NoMacAddress f3)
     else do {
       let f4 = did [LwipInit mac_address, InitBootloaderServiceDiscovery, InitSystem, StartRemoteLogging] f3;
       if \<not> fst (InitFS (env_mount env) (env_format env) (env_volume env))
       then Some (NoFilesystem (set_led (SetStatusLedColor RED \<circ> SetStatusLedMode LED_MODE_BLINK_SLOW) f4))
       else do {
         let f5 = did [InitRestAPI] f4;
         let rb = GetRobot (env_charger_bus env);
         if \<not> IsHardwareSupported (carrier_board_info f5)
         then do {
           let f6 = set_led (SetStatusLedColor RED \<circ> SetStatusLedMode LED_MODE_BLINK_FAST) f5;
           info \<leftarrow> unsupported_info (env_to_string env) (carrier_board_info f6);
           Some (UnsupportedBoard info f6) }
         else do {
           (d, p, es) \<leftarrow> InitPlatform (env_dbg env) (env_alloc1 env) (env_alloc2 env) rb (the_drive f5) (the_power f5);
           let f6 = did (es @ [IoStart]) (f5\<lparr>the_drive := d, the_power := p\<rparr>);
           let (ins, es') = StartServices (env_debug_build env) NeedsService (the_inputs f6);
           Some (Dispatching (set_led (SetStatusLedColor GREEN) (did es' (f6\<lparr>the_inputs := ins\<rparr>)))) } } } }"


subsection \<open>What a refused start has done\<close>

fun moves_motors :: "boot_effect \<Rightarrow> bool" where
  "moves_motors (PwmStart _ _) \<longleftrightarrow> True"
| "moves_motors (PwmSet _) \<longleftrightarrow> True"
| "moves_motors (PalSetLineMode _ _) \<longleftrightarrow> True"
| "moves_motors (StartService _) \<longleftrightarrow> True"
| "moves_motors _ \<longleftrightarrow> False"

fun end_state :: "'b main_end \<Rightarrow> 'b firmware" where
  "end_state (NoMacAddress f) = f"
| "end_state (NoFilesystem f) = f"
| "end_state (UnsupportedBoard _ f) = f"
| "end_state (Dispatching f) = f"

definition checks_pass :: "('b, 'm) boot_env \<Rightarrow> bool" where
  "checks_pass env \<longleftrightarrow>
     fst (env_i2c env EEPROM_DEVICE_ADDRESS [0xFA] 6) \<and>
     fst (InitFS (env_mount env) (env_format env) (env_volume env)) \<and>
     IsHardwareSupported (snd (ID_EEPROM_GetCarrierBoardInfo (env_i2c env)))"

lemma boot_fields [simp]:
  "done_so_far (did es f) = done_so_far f @ es" "done_so_far (set_led g f) = done_so_far f"
  "the_drive (did es f) = the_drive f" "the_drive (set_led g f) = the_drive f"
  "the_power (did es f) = the_power f" "the_power (set_led g f) = the_power f"
  "the_inputs (did es f) = the_inputs f" "the_inputs (set_led g f) = the_inputs f"
  "carrier_board_info (did es f) = carrier_board_info f" "carrier_board_info (set_led g f) = carrier_board_info f"
  "the_status_led (did es f) = the_status_led f" "the_status_led (set_led g f) = g (the_status_led f)"
  by (simp_all add: did_def set_led_def)

lemma InitGlobals_fields [simp]:
  "done_so_far (InitGlobals i2c f) = done_so_far f" "the_drive (InitGlobals i2c f) = the_drive f"
  "the_power (InitGlobals i2c f) = the_power f" "the_inputs (InitGlobals i2c f) = the_inputs f"
  "carrier_board_info (InitGlobals i2c f) = snd (ID_EEPROM_GetCarrierBoardInfo i2c)"
  by (simp_all add: InitGlobals_def)

lemma mac_address_read:
  "ID_EEPROM_GetMacAddress i2c (replicate 6 0) 6 =
     (let (ok, rx) = i2c EEPROM_DEVICE_ADDRESS [0xFA] 6
      in Some (ok, if ok then take 6 rx @ drop (min (length rx) 6) (replicate 6 0) else replicate 6 0))"
  by (simp add: ID_EEPROM_GetMacAddress_def awrite_def split: prod.splits)

text \<open>
  C25: The firmware starts its services and touches the pins of the robot only when the MAC
  address could be read, the file system is mounted and the carrier board is one it supports:
  in every other case it stays in one of its error loops with nothing of this done and the
  status LED red.
\<close>

theorem refused_boot_is_inert:
  assumes "main_program env f = Some r" "\<not> checks_pass env" "\<not> list_ex moves_motors (done_so_far f)"
  shows "(\<forall>f'. r \<noteq> Dispatching f') \<and> \<not> list_ex moves_motors (done_so_far (end_state r)) \<and>
    the_drive (end_state r) = the_drive f \<and> current_color (the_status_led (end_state r)) = RED"
  using assms
  by (auto simp: main_program_def mac_address_read checks_pass_def Let_def split_def bind_eq_Some_conv
      SetStatusLedColor_def SetStatusLedMode_def split: if_splits)


subsection \<open>What a start has set up\<close>

fun boot_cmds :: "boot_effect list \<Rightarrow> pwm_cmd list" where
  "boot_cmds [] = []"
| "boot_cmds (PwmSet c # es) = c # boot_cmds es"
| "boot_cmds (_ # es) = boot_cmds es"

lemma boot_cmds_append [simp]: "boot_cmds (es @ fs) = boot_cmds es @ boot_cmds fs"
  by (induction es rule: boot_cmds.induct) simp_all

lemma boot_cmds_other [simp]:
  "boot_cmds (map (\<lambda>(l, out). PalSetLineMode l (h out)) xs) = []"
  by (induction xs) auto

lemma encoder_lines:
  "LINE_MOTOR1_ENCODER_A \<noteq> 0" "LINE_MOTOR1_ENCODER_B \<noteq> 0" "LINE_MOTOR2_ENCODER_A \<noteq> 0" "LINE_MOTOR2_ENCODER_B \<noteq> 0"
  by code_simp+

text \<open>Creating the drive service starts drivers that have not been started.\<close>

definition startable :: "pwm_motor_driver \<Rightarrow> bool" where
  "startable m \<longleftrightarrow> \<not> started m \<and> pwm m \<noteq> None \<and> line_encoder_a m \<noteq> 0 \<and> line_encoder_b m \<noteq> 0"

lemma OnCreate_starts:
  assumes "left_esc_driver d = Some l" "right_esc_driver d = Some r" "startable l" "startable r"
  shows "DiffDrive_OnCreate (pwm_vt dbg) dbg d =
    Some (d\<lparr>left_esc_driver := Some (l\<lparr>state_callback := Some LeftESC, started := True\<rparr>),
            right_esc_driver := Some (r\<lparr>state_callback := Some RightESC, started := True\<rparr>)\<rparr>)"
  using assms
  by (auto simp: DiffDrive_OnCreate_def pwm_vt_def SetStateCallback_def Pwm_Start_def MotorDriver_Start_def startable_def)

definition left_motor :: pwm_motor_driver where
  "left_motor = SetEncoder LINE_MOTOR1_ENCODER_A LINE_MOTOR1_ENCODER_B
     (SetPWM (Some MOTOR1_PWM) MOTOR1_PWM_CHANNEL_1 MOTOR1_PWM_CHANNEL_2 pwm_motor_init)"

definition right_motor :: pwm_motor_driver where
  "right_motor = SetEncoder LINE_MOTOR2_ENCODER_A LINE_MOTOR2_ENCODER_B
     (SetPWM (Some MOTOR2_PWM) MOTOR2_PWM_CHANNEL_1 MOTOR2_PWM_CHANNEL_2 pwm_motor_init)"

lemmas motor_defs = left_motor_def right_motor_def SetEncoder_def SetPWM_def pwm_motor_init_def motor_pin_defs

lemma platform_result:
  assumes "InitPlatform dbg a1 a2 (GetRobot bus) d pw = Some (d', pw', es)"
  shows "d' = SetDrivers (Some left_motor) (Some right_motor) d"
    "boot_cmds es = [EnableChannel 1 1 0, EnableChannel 1 2 0, EnableChannel 3 0 0, EnableChannel 3 1 0]"
    "the_charger pw' = Some \<lparr>i2c_driver = Some 1, i2c_bus = bus\<rparr>"
  using assms
  by (auto simp: InitPlatform_def bind_eq_Some_conv GetRobot_def SetDriver_def setI2C_def left_motor_def right_motor_def
      motor_pin_defs Let_def split: if_splits)

lemma platform_ready:
  assumes "InitPlatform dbg a1 a2 (GetRobot bus) d pw = Some (d', pw', es)"
  shows "\<exists>d2. DiffDrive_OnCreate (pwm_vt dbg) dbg d' = Some d2 \<and> pwm_drives d2 \<and>
    (\<forall>hw0. motors_off pwm_ports d2 (run_cmds (boot_cmds es) hw0))"
proof -
  have "startable left_motor" "startable right_motor"
    using encoder_lines by (simp_all add: startable_def motor_defs)
  then show ?thesis
    using OnCreate_starts [of d' left_motor right_motor dbg] platform_result [OF assms]
    by (simp add: SetDrivers_def drives_def pwm_ready_def motors_off_def motor_ports_def motor_defs)
qed


subsection \<open>Examples\<close>

definition example_carrier :: bytes where
  "example_carrier = [0] @ cstr ''hw-xbot-mainboard'' @ replicate 15 0 @ [0, 1, 2, 0, 94, 50]"

definition example_env :: "bytes \<Rightarrow> (unit, unit) boot_env" where
  "example_env carrier = \<lparr>env_i2c = (\<lambda>a tx n. (True, if a = CARRIER_EEPROM_DEVICE_ADDRESS then carrier else replicate n 0)),
     env_mount = (\<lambda>m. (0, m)), env_format = (\<lambda>m. (0, m)), env_volume = (), env_charger_bus = (),
     env_alloc1 = True, env_alloc2 = True, env_dbg = True, env_debug_build = False, env_to_string = (\<lambda>n. [])\<rparr>"

definition example_firmware :: "unit firmware" where
  "example_firmware = \<lparr>board_info = [], carrier_board_info = [],
     the_heartbeat = \<lparr>blink_state = 0, red_line = True, green_line = True, armed = 0\<rparr>,
     the_status_led = \<lparr>current_mode = LED_MODE_OFF, current_color = RED, slow_count = 0, led_red = True,
       led_green = True, timer_armed = 0\<rparr>,
     the_drive = diff_drive_init, the_power = power_init,
     the_inputs = \<lparr>drivers = [], all_inputs = [], num_active_lift = 0, lift_multiple_input = None\<rparr>, done_so_far = []\<rparr>"

lemma example_checks: "checks_pass (example_env example_carrier)" "\<not> checks_pass (example_env (replicate 39 0))"
  by code_simp+

lemma example_refused: "\<exists>r. main_program (example_env (replicate 39 0)) f = Some r"
proof -
  have carrier: "snd (ID_EEPROM_GetCarrierBoardInfo (env_i2c (example_env (replicate 39 0)))) = replicate 39 0"
    and mac: "fst (env_i2c (example_env (replicate 39 0)) EEPROM_DEVICE_ADDRESS [0xFA] 6)"
    and unsupported: "\<not> IsHardwareSupported (replicate 39 0)" and len: "strlen (drop 1 (replicate 39 0)) = Some 0"
    by code_simp+
  have "\<exists>info. unsupported_info (env_to_string (example_env (replicate 39 0))) (replicate 39 0) = Some info"
    unfolding unsupported_info_def len by (simp only: bind.bind_lunit option.inject) blast
  then show ?thesis
    using carrier mac unsupported by (auto simp: main_program_def mac_address_read Let_def split_def)
qed

theorem refused_boot_is_inert_witness:
  "\<exists>r. main_program (example_env (replicate 39 0)) example_firmware = Some r \<and>
    the_drive (end_state r) = diff_drive_init \<and> current_color (the_status_led (end_state r)) = RED"
proof -
  obtain r where "main_program (example_env (replicate 39 0)) example_firmware = Some r" using example_refused by blast
  then show ?thesis
    using refused_boot_is_inert [OF _ example_checks(2)] by (auto simp: example_firmware_def)
qed


end
