(* ===== verification/Reaction.thy ===== *)
theory Reaction
  imports Safety Input_Config
begin

text \<open>
  From an input to the motors. The system of \<open>Safety\<close> together with the inputs and the other half
  of the dispatcher of \<open>src/main.cpp\<close>: when an input changes, the input service broadcasts
  \<open>INPUTS_CHANGED\<close>; the dispatcher fetches the flags, first handles a changed emergency, then reports
  the inputs and lets the emergency service check them, which may broadcast \<open>EMERGENCY_CHANGED\<close> in
  turn. An update of one input is a step, its broadcasts follow later, and everything may happen in
  between. The reasons the high-level computer has cleared since the inputs were last checked are
  kept in \<open>overridden\<close>, for the properties only.
\<close>

subsection \<open>The system\<close>

record reaction =
  sys :: system
  in_service :: input_service
  in_pending :: nat
  in_todo :: bool
  overridden :: u16

definition in_broadcasts :: "input_effect list \<Rightarrow> nat" where
  "in_broadcasts es = length (filter (\<lambda>e. e = BroadcastFlags INPUTS_CHANGED) es)"

text \<open>The emergency service replaces its reasons and will broadcast the change.\<close>

definition set_reasons :: "emergency_service \<times> emergency_effect list \<Rightarrow> reaction \<Rightarrow> reaction" where
  "set_reasons r s = s\<lparr>sys := (sys s)\<lparr>emergency := fst r, Safety.pending := Safety.pending (sys s) + (if snd r = [] then 0 else 1)\<rparr>\<rparr>"

text \<open>Work under way: broadcasts, the dispatcher and the operations of the drive service.\<close>

inductive react :: "bool \<Rightarrow> reaction \<Rightarrow> reaction \<Rightarrow> bool" for dbg where
  drive_work: "internal dbg (sys s) t \<Longrightarrow> \<not> (dispatch (sys s) = Waiting \<and> dispatch t = Taken) \<Longrightarrow> react dbg s (s\<lparr>sys := t\<rparr>)"
| in_broadcast: "in_pending s = Suc n \<Longrightarrow>
    react dbg s (s\<lparr>in_pending := n, sys := (sys s)\<lparr>flags := flags (sys s) OR INPUTS_CHANGED\<rparr>\<rparr>)"
| fetch: "dispatch (sys s) = Waiting \<Longrightarrow> \<not> in_todo s \<Longrightarrow> flags (sys s) \<noteq> 0 \<Longrightarrow>
    react dbg s (s\<lparr>in_todo := (flags (sys s) AND INPUTS_CHANGED \<noteq> 0),
      sys := (sys s)\<lparr>flags := 0, dispatch := (if flags (sys s) AND EMERGENCY_CHANGED \<noteq> 0 then Taken else Waiting)\<rparr>\<rparr>)"
| check: "dispatch (sys s) = Waiting \<Longrightarrow> in_todo s \<Longrightarrow> OnInputsChangedEvent (in_service s) = Some es \<Longrightarrow>
    react dbg s ((set_reasons (snd (CheckInputs (in_service s) now (emergency (sys s)))) s)\<lparr>in_todo := False, overridden := 0\<rparr>)"

text \<open>What happens to the system: commands, edges and restarts of the drive service, changes of an
  input, a new configuration (with a parser whose state is a number), the loop of the emergency service, messages of the high-level computer.\<close>

inductive stimulus :: "reaction \<Rightarrow> reaction \<Rightarrow> bool" where
  drive_event: "external (sys s) t \<Longrightarrow> emergency t = emergency (sys s) \<Longrightarrow> stimulus s (s\<lparr>sys := t\<rparr>)"
| input_change: "i < length (all_inputs (in_service s)) \<Longrightarrow> idx (all_inputs (in_service s) ! i) \<noteq> VIRTUAL \<Longrightarrow>
    Update now i level (in_service s) = Some (changed, ins, es) \<Longrightarrow>
    stimulus s (s\<lparr>in_service := ins, in_pending := in_pending s + in_broadcasts es\<rparr>)"
| configure: "OnRegisterInputConfigsChanged lines to_u16 (parse :: nat lwjson) p0 junk json (in_service s) = Some (ok, logged, ins) \<Longrightarrow>
    distinct (map fst (drivers (in_service s))) \<Longrightarrow> stimulus s (s\<lparr>in_service := ins\<rparr>)"
| loop_inputs: "stimulus s ((set_reasons (snd (CheckInputs (in_service s) now (emergency (sys s)))) s)\<lparr>overridden := 0\<rparr>)"
| loop_timeouts: "stimulus s (set_reasons (snd (CheckTimeouts now (emergency (sys s)))) s)"
| stop: "stimulus s (set_reasons (Emergency_OnStop (emergency (sys s))) s)"
| high_level: "OnHighLevelEmergencyChanged now [add, clear] (emergency (sys s)) = Some r \<Longrightarrow>
    stimulus s ((set_reasons r s)\<lparr>overridden := overridden s OR clear\<rparr>)"

inductive react_reachable :: "bool \<Rightarrow> reaction \<Rightarrow> bool" for dbg where
  init: "pwm_drives d \<Longrightarrow> motors_off pwm_ports d h \<Longrightarrow> wf_inputs ins \<Longrightarrow> wf_reasons ins \<Longrightarrow> wf_idx (all_inputs ins) \<Longrightarrow>
    \<forall>inp \<in> set (all_inputs ins). \<not> active inp \<Longrightarrow>
    react_reachable dbg \<lparr>sys = \<lparr>emergency = emergency_init, pending = 0, flags = 0, dispatch = Waiting, drive = d, busy = None, hw = h\<rparr>,
      in_service = ins, in_pending = 0, in_todo = False, overridden = 0\<rparr>"
| react_step: "react_reachable dbg s \<Longrightarrow> react dbg s t \<Longrightarrow> react_reachable dbg t"
| stimulus_step: "react_reachable dbg s \<Longrightarrow> stimulus s t \<Longrightarrow> react_reachable dbg t"

subsection \<open>The invariant\<close>

definition in_event :: "reaction \<Rightarrow> bool" where
  "in_event s \<longleftrightarrow> 0 < in_pending s \<or> flags (sys s) AND INPUTS_CHANGED \<noteq> 0 \<or> in_todo s"

text \<open>An active input without delay has been noticed.\<close>

definition noticed :: "reaction \<Rightarrow> input \<Rightarrow> bool" where
  "noticed s inp \<longleftrightarrow> (counts inp \<and> delay_us inp = 0 \<longrightarrow>
     (\<forall>k. bit (emergency_reason inp) k \<longrightarrow> bit (reasons (emergency (sys s))) k \<or> bit (overridden s) k))"

definition wf_service :: "input_service \<Rightarrow> bool" where
  "wf_service ins \<longleftrightarrow> wf_inputs ins \<and> wf_reasons ins \<and> wf_idx (all_inputs ins)"

definition react_inv :: "reaction \<Rightarrow> bool" where
  "react_inv s \<longleftrightarrow> safe_inv (sys s) \<and> wf_service (in_service s) \<and>
     (in_event s \<or> (\<forall>inp \<in> set (all_inputs (in_service s)). noticed s inp))"

lemma other_flag:
  "(f OR INPUTS_CHANGED) AND EMERGENCY_CHANGED = f AND EMERGENCY_CHANGED"
  "(f OR EMERGENCY_CHANGED) AND INPUTS_CHANGED = f AND INPUTS_CHANGED"
  "(f OR INPUTS_CHANGED) AND INPUTS_CHANGED \<noteq> 0"
proof -
  have b: "bit INPUTS_CHANGED k \<longleftrightarrow> k = 1" "bit EMERGENCY_CHANGED k \<longleftrightarrow> k = 0" for k
    by (auto simp: event_flag_defs bit_simps)
  show "(f OR INPUTS_CHANGED) AND EMERGENCY_CHANGED = f AND EMERGENCY_CHANGED"
    "(f OR EMERGENCY_CHANGED) AND INPUTS_CHANGED = f AND INPUTS_CHANGED"
    by (rule bit_word_eqI; auto simp: bit_simps b)+
  have "bit ((f OR INPUTS_CHANGED) AND INPUTS_CHANGED) 1" by (simp add: bit_simps b)
  then show "(f OR INPUTS_CHANGED) AND INPUTS_CHANGED \<noteq> 0" by auto
qed

text \<open>The invariant of \<open>Safety\<close> looks at the emergency flag only.\<close>

lemma safe_inv_flags:
  "f AND EMERGENCY_CHANGED = flags s AND EMERGENCY_CHANGED \<Longrightarrow> safe_inv (s\<lparr>flags := f\<rparr>) = safe_inv s"
  by (simp add: safe_defs)

lemma set_reasons_sel [simp]:
  "in_service (set_reasons r s) = in_service s" "in_pending (set_reasons r s) = in_pending s"
  "in_todo (set_reasons r s) = in_todo s" "overridden (set_reasons r s) = overridden s"
  "flags (sys (set_reasons r s)) = flags (sys s)" "emergency (sys (set_reasons r s)) = fst r"
  by (simp_all add: set_reasons_def)

lemma set_reasons_safe:
  assumes "safe_inv (sys s)" and "UpdateEmergency add clear (emergency (sys s)) = r"
  shows "safe_inv (sys (set_reasons r s))"
  using external_safe [OF external.update [of add clear "sys s" "fst r" "snd r"] assms(1)] assms(2)
  by (simp add: set_reasons_def)

lemma CheckInputs_update:
  "snd (CheckInputs ins now e) = UpdateEmergency (fst (GetEmergencyReasons ins now)) input_reasons e"
  by (simp add: CheckInputs_def split_def Let_def)

lemma CheckTimeouts_update:
  "\<exists>rs. snd (CheckTimeouts now e) = UpdateEmergency rs timeout_reasons e"
  by (simp add: CheckTimeouts_def split_def Let_def) blast

text \<open>After the inputs were checked, nothing that is due is missing.\<close>

lemma checked_noticed:
  assumes "inp \<in> set (all_inputs ins)" and "counts inp" and "delay_us inp = 0" and "bit (emergency_reason inp) k"
  shows "bit (reasons (fst (snd (CheckInputs ins now e)))) k"
proof -
  have "k < 16" using bit_imp_le_length [OF assms(4)] by simp
  moreover have "bit (fst (GetEmergencyReasons ins now)) k"
    unfolding GetEmergencyReasons_bits using assms by (auto simp: due_def)
  ultimately show ?thesis unfolding CheckInputs_update by (simp add: bit_reasons_UpdateEmergency)
qed

lemma configured_quiet:
  assumes "OnRegisterInputConfigsChanged lines to_u16 parse p0 junk json s = Some (ok, logged, s')" "distinct (map fst (drivers s))"
  shows "wf_service s' \<and> (\<forall>inp \<in> set (all_inputs s'). \<not> active inp)"
proof -
  obtain data where c: "config_inv (s', data)" using registered_inv [OF assms] by blast
  then have "inputs_ok (all_inputs s')" by (simp add: config_inv_def)
  then show ?thesis using config_inv_wf [OF c] by (auto simp: wf_service_def inputs_ok_def input_ok_def in_set_conv_nth)
qed

text \<open>An update of an input changes nothing, or is followed by a broadcast.\<close>

lemma update_broadcasts:
  assumes "Update now i level s = Some (changed, s', es)"
  shows "if changed then 0 < in_broadcasts es else s' = s"
  using assms by (auto simp: Update_def in_broadcasts_def Let_def numeral_eq_Suc bind_eq_Some_conv split: if_splits simp del: OnInputChanged.simps)

lemma update_wf:
  assumes wf: "wf_service s" and i: "i < length (all_inputs s)" "idx (all_inputs s ! i) \<noteq> VIRTUAL"
    and u: "Update now i level s = Some (changed, s', es)"
  shows "wf_service s' \<and> same_config s s'"
proof -
  obtain b where s': "s' = spec_update now i b s" using Update_spec [OF _ i, of now level] wf u by (auto simp: wf_service_def)
  have c: "same_config s s'" unfolding s' by (rule same_config_spec_update)
  have l: "length (all_inputs s') = length (all_inputs s)" by (rule same_config_length [OF c])
  have f: "emergency_reason (all_inputs s' ! j) = emergency_reason (all_inputs s ! j) \<and> idx (all_inputs s' ! j) = idx (all_inputs s ! j)"
    if "j < length (all_inputs s)" for j
    using config_of_eqD [OF same_config_nth [OF c that]] by simp
  have "wf_inputs s'" unfolding s' by (rule wf_spec_update [OF _ i]) (use wf in \<open>simp add: wf_service_def\<close>)
  moreover have "wf_reasons s'" "wf_idx (all_inputs s')"
    using wf f l unfolding wf_service_def wf_reasons_def wf_idx_def all_set_conv_all_nth by simp_all
  ultimately show ?thesis using c by (simp add: wf_service_def)
qed

lemma internal_in_flag:
  assumes "internal dbg s t" and "\<not> (dispatch s = Waiting \<and> dispatch t = Taken)"
  shows "flags t AND INPUTS_CHANGED = flags s AND INPUTS_CHANGED"
  using assms by (cases rule: internal.cases) (simp_all add: other_flag)

lemma external_flags: "external s t \<Longrightarrow> flags t = flags s"
  by (induction rule: external.induct) simp_all

lemma react_keeps:
  assumes "react dbg s t" and "react_inv s"
  shows "react_inv t"
  using assms
proof (cases rule: react.cases)
  case (drive_work t')
  then show ?thesis
    using assms(2) internal_safe [OF drive_work(2)] internal_emergency [OF drive_work(2)] internal_in_flag [OF drive_work(2,3)]
    by (simp add: react_inv_def in_event_def noticed_def)
next
  case (in_broadcast n)
  have "INPUTS_CHANGED \<noteq> 0" by (simp add: INPUTS_CHANGED_def)
  then show ?thesis
    using in_broadcast assms(2) by (simp add: react_inv_def in_event_def other_flag safe_inv_flags)
next
  case fetch
  have "safe_inv ((sys s)\<lparr>flags := 0, dispatch := if flags (sys s) AND EMERGENCY_CHANGED \<noteq> 0 then Taken else Waiting\<rparr>)"
  proof (cases "flags (sys s) AND EMERGENCY_CHANGED = 0")
    case True
    then show ?thesis using fetch(2) assms(2) by (simp add: react_inv_def safe_defs)
  next
    case False
    then show ?thesis
      using internal_safe [OF internal.take [OF fetch(2) False]] assms(2) by (simp add: react_inv_def)
  qed
  then show ?thesis using assms(2) fetch(3) by (auto simp: fetch(1) react_inv_def in_event_def noticed_def)
next
  case (check es now)
  then show ?thesis
    using assms(2) set_reasons_safe [OF _ CheckInputs_update [symmetric]] checked_noticed
    by (auto simp: react_inv_def noticed_def)
qed

lemma timeouts_keep:
  assumes inv: "react_inv s"
  shows "react_inv (set_reasons (snd (CheckTimeouts now (emergency (sys s)))) s)" (is "react_inv ?t")
proof -
  obtain rs where r: "snd (CheckTimeouts now (emergency (sys s))) = UpdateEmergency rs timeout_reasons (emergency (sys s))"
    using CheckTimeouts_update by blast
  have "noticed ?t inp" if inp: "inp \<in> set (all_inputs (in_service s))" and n: "noticed s inp" for inp
  proof -
    have "\<not> bit timeout_reasons k" if "bit (emergency_reason inp) k" for k
      using wf_reasons_bits [OF _ inp that] inv
      by (auto simp: react_inv_def wf_service_def bit_timeout_reasons bit_input_reasons)
    then show ?thesis
      using n bit_imp_le_length [of "emergency_reason inp"]
      by (auto simp: noticed_def r bit_reasons_UpdateEmergency)
  qed
  then show ?thesis
    using inv set_reasons_safe [OF _ r [symmetric]] by (auto simp: react_inv_def in_event_def)
qed

lemma high_level_keeps:
  fixes s now
  defines "e \<equiv> (emergency (sys s))\<lparr>last_high_level_emergency_message := now\<rparr>"
  assumes inv: "react_inv s"
  shows "react_inv ((set_reasons (UpdateEmergency add clear e) s)\<lparr>overridden := overridden s OR clear\<rparr>)"
    (is "react_inv ?t")
proof -
  have "safe_inv ((sys s)\<lparr>emergency := e\<rparr>)"
    using external_safe [OF external.message] inv by (simp add: react_inv_def e_def)
  then have "safe_inv (sys (set_reasons (UpdateEmergency add clear e) (s\<lparr>sys := (sys s)\<lparr>emergency := e\<rparr>\<rparr>)))"
    by (intro set_reasons_safe [where add = add and clear = clear]) simp_all
  moreover have "noticed ?t inp" if "noticed s inp" for inp
    using that bit_imp_le_length [of "emergency_reason inp"]
    by (auto simp: noticed_def bit_reasons_UpdateEmergency bit_or_iff e_def)
  ultimately show ?thesis
    using inv by (auto simp: react_inv_def in_event_def set_reasons_def)
qed

lemma stimulus_keeps:
  assumes "stimulus s t" and "react_inv s"
  shows "react_inv t"
  using assms
proof (cases rule: stimulus.cases)
  case (drive_event t')
  then show ?thesis
    using assms(2) external_safe [OF drive_event(2)] external_flags [OF drive_event(2)]
    by (simp add: react_inv_def in_event_def noticed_def)
next
  case (input_change i now level changed ins es)
  have wf: "wf_service ins" using update_wf [OF _ input_change(2-4)] assms(2) by (simp add: react_inv_def)
  show ?thesis
  proof (cases changed)
    case True
    then show ?thesis
      using wf assms(2) update_broadcasts [OF input_change(4)] by (simp add: input_change(1) react_inv_def in_event_def)
  next
    case False
    then show ?thesis
      using assms(2) update_broadcasts [OF input_change(4)] by (auto simp: input_change(1) react_inv_def in_event_def noticed_def)
  qed
next
  case (configure lines to_u16 parse p0 junk json ok logged ins)
  then show ?thesis
    using assms(2) configured_quiet [OF configure(2,3)] by (auto simp: react_inv_def noticed_def counts_def)
next
  case (loop_inputs now)
  then show ?thesis
    using assms(2) set_reasons_safe [OF _ CheckInputs_update [symmetric]] checked_noticed
    by (auto simp: react_inv_def noticed_def)
next
  case (loop_timeouts now)
  then show ?thesis using timeouts_keep [OF assms(2)] by simp
next
  case stop
  have "noticed t inp" if "noticed s inp" for inp
    using that bit_imp_le_length [of "emergency_reason inp"]
    by (auto simp: stop noticed_def Emergency_OnStop_def bit_reasons_UpdateEmergency)
  then show ?thesis
    using assms(2) set_reasons_safe [OF _ Emergency_OnStop_def [symmetric]] by (auto simp: stop react_inv_def in_event_def)
next
  case (high_level now add clear r)
  then have "r = UpdateEmergency add clear ((emergency (sys s))\<lparr>last_high_level_emergency_message := now\<rparr>)"
    by (simp add: OnHighLevelEmergencyChanged_def aget_def)
  then show ?thesis using high_level_keeps [OF assms(2), where add = add and clear = clear and now = now] high_level(1) by simp
qed

lemma react_reachable_inv: "react_reachable dbg s \<Longrightarrow> react_inv s"
proof (induction rule: react_reachable.induct)
  case (init d h ins)
  then show ?case by (auto simp: react_inv_def wf_service_def noticed_def counts_def safe_defs)
qed (auto intro: react_keeps stimulus_keeps)

subsection \<open>The work comes to an end\<close>

definition react_work :: "reaction \<Rightarrow> nat" where
  "react_work s = 20 * in_pending s + (if flags (sys s) AND INPUTS_CHANGED \<noteq> 0 then 18 else 0) + (if in_todo s then 16 else 0)
     + 2 * work (sys s) + (if flags (sys s) \<noteq> 0 then 1 else 0)"

lemma work_set_reasons: "work (sys (set_reasons r s)) \<le> work (sys s) + 6"
  by (simp add: set_reasons_def work_def)

lemma work_in_flag: "work (s\<lparr>flags := flags s OR INPUTS_CHANGED\<rparr>) = work s"
  by (simp add: work_def other_flag)

lemma react_decreases:
  assumes "react dbg s t" and "react_inv s"
  shows "react_work t < react_work s"
  using assms
proof (cases rule: react.cases)
  case (drive_work t')
  have "work t' < work (sys s)" using internal_work [OF drive_work(2)] assms(2) by (simp add: react_inv_def)
  then show ?thesis using internal_in_flag [OF drive_work(2,3)] by (simp add: drive_work(1) react_work_def)
next
  case (in_broadcast n)
  then show ?thesis by (simp add: react_work_def work_in_flag other_flag)
next
  case fetch
  have "work ((sys s)\<lparr>flags := 0, dispatch := if flags (sys s) AND EMERGENCY_CHANGED \<noteq> 0 then Taken else Waiting\<rparr>) \<le> work (sys s)"
    using fetch(2) by (simp add: work_def)
  then show ?thesis using fetch by (simp add: react_work_def)
next
  case (check es now)
  then show ?thesis
    using work_set_reasons [of "snd (CheckInputs (in_service s) now (emergency (sys s)))" s] by (simp add: react_work_def)
qed

text \<open>What the work under way leaves alone, and what it brings about.\<close>

lemma react_frame:
  assumes "react dbg s t" and "react_inv s"
  shows "in_service t = in_service s" and "completes dbg (sys s) \<Longrightarrow> completes dbg (sys t)"
    and "in_event s \<or> overridden s = 0 \<Longrightarrow> in_event t \<or> overridden t = 0"
proof -
  show "in_service t = in_service s" using assms(1) by (cases rule: react.cases) simp_all
  show "completes dbg (sys t)" if c: "completes dbg (sys s)"
    using assms(1)
  proof (cases rule: react.cases)
    case (drive_work t')
    then show ?thesis using internal_completes [OF drive_work(2)] c assms(2) by (simp add: react_inv_def)
  qed (use c in \<open>auto simp: completes_def set_reasons_def split: option.splits\<close>)
  show "in_event t \<or> overridden t = 0" if e: "in_event s \<or> overridden s = 0"
    using assms(1)
  proof (cases rule: react.cases)
    case (drive_work t')
    then show ?thesis using internal_in_flag [OF drive_work(2,3)] e by (simp add: in_event_def)
  next
    case (in_broadcast n)
    then show ?thesis using other_flag(3) by (simp add: in_event_def)
  next
    case fetch
    then show ?thesis using e by (auto simp: in_event_def)
  qed simp
qed

lemma react_run:
  assumes "(react dbg)\<^sup>*\<^sup>* s t" and "react_inv s"
  shows "react_inv t \<and> in_service t = in_service s \<and> (completes dbg (sys s) \<longrightarrow> completes dbg (sys t)) \<and>
    (in_event s \<or> overridden s = 0 \<longrightarrow> in_event t \<or> overridden t = 0)"
  using assms(1)
proof (induction rule: rtranclp_induct)
  case (step u v)
  then show ?case using react_keeps react_frame [OF step(2)] by metis
qed (simp add: assms(2))

lemma react_terminates: "react_inv s \<Longrightarrow> \<exists>t. (react dbg)\<^sup>*\<^sup>* s t \<and> (\<nexists>u. react dbg t u)"
proof (induction "react_work s" arbitrary: s rule: less_induct)
  case less
  show ?case
  proof (cases "\<exists>u. react dbg s u")
    case True
    then obtain u where u: "react dbg s u" by blast
    then obtain t where "(react dbg)\<^sup>*\<^sup>* u t" "\<nexists>v. react dbg t v"
      using less(1) [OF react_decreases [OF u less(2)]] react_keeps [OF u less(2)] by blast
    then show ?thesis using u converse_rtranclp_into_rtranclp [of "react dbg"] by blast
  qed blast
qed

lemma react_bounded: "(react dbg ^^ n) s t \<Longrightarrow> react_inv s \<Longrightarrow> n + react_work t \<le> react_work s"
proof (induction n arbitrary: t)
  case (Suc n)
  then obtain u where u: "(react dbg ^^ n) s u" "react dbg u t" by auto
  then have "react_inv u" using react_run relpowp_imp_rtranclp Suc.prems(2) by metis
  then show ?case using Suc.IH [OF u(1) Suc.prems(2)] react_decreases [OF u(2)] by simp
qed simp

text \<open>When nothing is under way any more, every event has been handled.\<close>

lemma react_quiet:
  assumes inv: "react_inv s" and c: "completes dbg (sys s)" and q: "\<nexists>t. react dbg s t"
  shows "\<not> alarm (sys s) \<and> \<not> in_event s"
proof -
  have i: "dispatch (sys s) = Waiting \<and> dispatch t = Taken" if "internal dbg (sys s) t" for t
    using q react.drive_work that by blast
  have b: "busy (sys s) = None"
  proof (rule ccontr)
    assume "busy (sys s) \<noteq> None"
    then obtain op em d' es where "busy (sys s) = Some (op, em)" "run_op dbg em op (drive (sys s)) = Some (d', es)"
      using c by (auto simp: completes_def)
    from i [OF internal.finish [OF this]] show False by (auto split: if_splits)
  qed
  have p: "Safety.pending (sys s) = 0" using i [OF internal.broadcast] by (cases "Safety.pending (sys s)") auto
  have "dispatch (sys s) \<noteq> Taken" using i [OF internal.check_on] i [OF internal.check_off] by auto
  moreover have "dispatch (sys s) \<noteq> Stopping" using i [OF internal.lock [OF _ b]] by auto
  moreover have "dispatch (sys s) \<noteq> Running" using inv b by (simp add: react_inv_def safe_inv_def)
  ultimately have w: "dispatch (sys s) = Waiting" by (cases "dispatch (sys s)") auto
  have "OnInputsChangedEvent (in_service s) \<noteq> None"
    using active_inputs_mask_bits [of "all_inputs (in_service s)" 0] inv
    by (auto simp: OnInputsChangedEvent_def InputService_SendStatus_def react_inv_def wf_service_def)
  then have t: "\<not> in_todo s" using q react.check [OF w] by blast
  then have f: "flags (sys s) = 0" using q react.fetch [OF w] by blast
  have "in_pending s = 0" using q react.in_broadcast by (cases "in_pending s") auto
  then show ?thesis using p w t f by (simp add: alarm_def in_event_def)
qed

lemma quiet_noticed:
  assumes "react_inv s" and "\<not> alarm (sys s)" and "\<not> in_event s" and "overridden s = 0"
    and "inp \<in> set (all_inputs (in_service s))" and "counts inp" and "delay_us inp = 0"
  shows "GetEmergency (emergency (sys s)) \<and> stopped (sys s) \<and>
    (\<forall>k. bit (emergency_reason inp) k \<longrightarrow> bit (reasons (emergency (sys s))) k)"
proof -
  have n: "\<forall>k. bit (emergency_reason inp) k \<longrightarrow> bit (reasons (emergency (sys s))) k"
    using assms by (auto simp: react_inv_def noticed_def)
  obtain k where "bit (emergency_reason inp) k" using assms(6) by (auto simp: counts_def bit_eq_iff)
  then have "GetEmergency (emergency (sys s))" using n by (auto simp: GetEmergency_def)
  then show ?thesis using n assms(1,2) by (simp add: react_inv_def safe_inv_def)
qed

subsection \<open>From the input to the motors\<close>


text \<open>The second of two lift sensors is lifted right after the start.\<close>

definition reaction_start :: reaction where
  "reaction_start = \<lparr>sys = boot_state, in_service = example_inputs, in_pending = 0, in_todo = False, overridden = 0\<rparr>"

lemma reaction_start_reachable: "react_reachable dbg reaction_start"
  unfolding reaction_start_def boot_state_def
proof (rule react_reachable.init)
  show "wf_idx (all_inputs example_inputs)" "\<forall>inp\<in>set (all_inputs example_inputs). \<not> active inp"
    by (simp_all add: wf_idx_def example_inputs_def new_input_def)
qed (simp_all add: example_drive_ok motors_off_def wf_example_inputs wf_reasons_example)


end
