(* ===== verification/Packets.thy ===== *)
theory Packets
  imports Globals
begin

text \<open>
  The packets of the service framework (\<open>portable/xbot/packet.cpp\<close>): a pool of 25 buffers, a
  memory pool of lwIP (\<open>ChibiOS/ext/lwip/src/core/memp.c\<close>) guarded by a counting semaphore of the
  kernel (\<open>ChibiOS/os/rt/src/chsem.c\<close>). An element of the pool is its number; the list of free
  elements is linked through the elements themselves, as in the code. Threads are numbers.
\<close>

subsection \<open>Linked lists in a pointer store\<close>

fun links :: "(nat \<Rightarrow> nat option) \<Rightarrow> nat option \<Rightarrow> nat list \<Rightarrow> bool" where
  "links nx p [] \<longleftrightarrow> p = None"
| "links nx p (i # is) \<longleftrightarrow> p = Some i \<and> links nx (nx i) is"

lemma links_update [simp]: "i \<notin> set is \<Longrightarrow> links (nx(i := v)) p is = links nx p is"
  by (induction nx p "is" rule: links.induct) auto

lemma links_None [simp]: "links nx None is \<longleftrightarrow> is = []"
  by (cases "is") auto

lemma links_Some: "links nx (Some i) is \<longleftrightarrow> (\<exists>is'. is = i # is' \<and> links nx (nx i) is')"
  by (cases "is") auto

subsection \<open>Memory pools\<close>

record memp_pool =
  memp_tab :: "nat option"
  memp_next :: "nat \<Rightarrow> nat option"

definition memp_link :: "nat \<Rightarrow> memp_pool \<Rightarrow> memp_pool" where
  "memp_link i p = p\<lparr>memp_next := (memp_next p)(i := memp_tab p), memp_tab := Some i\<rparr>"

fun memp_init_loop :: "nat \<Rightarrow> nat \<Rightarrow> memp_pool \<Rightarrow> memp_pool" where
  "memp_init_loop 0 i p = p"
| "memp_init_loop (Suc n) i p = memp_init_loop n (Suc i) (memp_link i p)"

definition memp_init_pool :: "nat \<Rightarrow> memp_pool \<Rightarrow> memp_pool" where
  "memp_init_pool num p = memp_init_loop num 0 (p\<lparr>memp_tab := None\<rparr>)"

definition memp_malloc_pool :: "memp_pool \<Rightarrow> nat option \<times> memp_pool" where
  "memp_malloc_pool p =
     (case memp_tab p of None \<Rightarrow> (None, p) | Some m \<Rightarrow> (Some m, p\<lparr>memp_tab := memp_next p m\<rparr>))"

definition memp_free_pool :: "nat \<Rightarrow> memp_pool \<Rightarrow> memp_pool" where
  "memp_free_pool m p = memp_link m p"

subsection \<open>Semaphores\<close>

record semaphore =
  sem_cnt :: int
  sem_queue :: "nat list"

definition chSemObjectInit :: "int \<Rightarrow> semaphore" where
  "chSemObjectInit n = \<lparr>sem_cnt = n, sem_queue = []\<rparr>"

definition sem_consistent :: "semaphore \<Rightarrow> bool" where
  "sem_consistent s \<longleftrightarrow> 0 \<le> sem_cnt s \<and> sem_queue s = [] \<or> sem_cnt s < 0 \<and> sem_queue s \<noteq> []"

text \<open>Whether the calling thread passes or is put to sleep.\<close>

definition chSemWaitS :: "bool \<Rightarrow> nat \<Rightarrow> semaphore \<Rightarrow> (bool \<times> semaphore) option" where
  "chSemWaitS dbg t s = do {
     chDbgAssert dbg (sem_consistent s);
     let s1 = s\<lparr>sem_cnt := sem_cnt s - 1\<rparr>;
     Some (if sem_cnt s1 < 0 then (False, s1\<lparr>sem_queue := sem_queue s1 @ [t]\<rparr>) else (True, s1)) }"

text \<open>The thread that is woken up, if any; taking one from an empty queue is undefined.\<close>

definition chSemSignal :: "bool \<Rightarrow> semaphore \<Rightarrow> (nat option \<times> semaphore) option" where
  "chSemSignal dbg s = do {
     chDbgAssert dbg (sem_consistent s);
     let s1 = s\<lparr>sem_cnt := sem_cnt s + 1\<rparr>;
     if sem_cnt s1 \<le> 0
     then (case sem_queue s1 of [] \<Rightarrow> None | t # q \<Rightarrow> Some (Some t, s1\<lparr>sem_queue := q\<rparr>))
     else Some (None, s1) }"

subsection \<open>Packets\<close>

definition XBOT_PACKET_POOL_SIZE :: nat where "XBOT_PACKET_POOL_SIZE = 25"

record packet =
  used_data :: u32
  packet_buffer :: bytes

text \<open>
  \<open>allocatePacket\<close> after the semaphore has let the thread pass: \<^term>\<open>None\<close> is the endless loop on
  an empty pool.
\<close>

definition allocatePacket_rest ::
  "memp_pool \<Rightarrow> packet list \<Rightarrow> (nat \<times> memp_pool \<times> packet list) option" where
  "allocatePacket_rest p pkts = do {
     let (m, p') = memp_malloc_pool p;
     i \<leftarrow> m;
     pkt \<leftarrow> aget pkts i;
     Some (i, p', pkts[i := pkt\<lparr>used_data := 0\<rparr>]) }"

text \<open>\<open>size + packet->used_data\<close> is computed in 32 bits.\<close>

definition packetAppendData :: "u32 \<Rightarrow> packet option \<Rightarrow> bytes \<Rightarrow> u32 \<Rightarrow> (bool \<times> packet option) option" where
  "packetAppendData max_packet_size pkt buf n =
     (case pkt of None \<Rightarrow> Some (False, None)
      | Some p \<Rightarrow>
          (if max_packet_size < n + used_data p then Some (False, Some p)
           else do {
             (if length buf < unat n then None else Some ());
             b \<leftarrow> awrite (packet_buffer p) (unat (used_data p)) (take (unat n) buf);
             Some (True, Some (p\<lparr>packet_buffer := b, used_data := used_data p + n\<rparr>)) }))"

definition packetGetData :: "packet option \<Rightarrow> (bytes \<times> u32) option" where
  "packetGetData pkt = map_option (\<lambda>p. (packet_buffer p, used_data p)) pkt"

subsection \<open>Threads using the pool\<close>

text \<open>
  The sections between which threads can be switched: passing or waiting at the semaphore, taking
  an element, putting one back, and signalling. \<open>granted\<close> threads have passed the semaphore and
  not yet taken their element, \<open>freed\<close> ones have put theirs back and not yet signalled.
\<close>

record pool_state =
  pool :: memp_pool
  sema :: semaphore
  packets :: "packet list"
  granted :: nat
  freed :: nat
  in_use :: "nat set"

definition pool_init :: "packet list \<Rightarrow> memp_pool \<Rightarrow> pool_state" where
  "pool_init pkts junk = \<lparr>pool = memp_init_pool XBOT_PACKET_POOL_SIZE junk,
     sema = chSemObjectInit (int XBOT_PACKET_POOL_SIZE), packets = pkts, granted = 0, freed = 0, in_use = {}\<rparr>"

inductive pool_step :: "bool \<Rightarrow> pool_state \<Rightarrow> pool_state \<Rightarrow> bool" for dbg where
  pass: "chSemWaitS dbg t (sema s) = Some (True, m) \<Longrightarrow>
    pool_step dbg s (s\<lparr>sema := m, granted := granted s + 1\<rparr>)"
| sleep: "chSemWaitS dbg t (sema s) = Some (False, m) \<Longrightarrow> pool_step dbg s (s\<lparr>sema := m\<rparr>)"
| allocate: "granted s = Suc g \<Longrightarrow> allocatePacket_rest (pool s) (packets s) = Some (i, p, pkts) \<Longrightarrow>
    pool_step dbg s (s\<lparr>pool := p, packets := pkts, granted := g, in_use := insert i (in_use s)\<rparr>)"
| release: "i \<in> in_use s \<Longrightarrow>
    pool_step dbg s (s\<lparr>pool := memp_free_pool i (pool s), in_use := in_use s - {i}, freed := freed s + 1\<rparr>)"
| signal: "freed s = Suc f \<Longrightarrow> chSemSignal dbg (sema s) = Some (woken, m) \<Longrightarrow>
    pool_step dbg s (s\<lparr>sema := m, freed := f, granted := granted s + (if woken = None then 0 else 1)\<rparr>)"

inductive pool_reachable :: "bool \<Rightarrow> pool_state \<Rightarrow> bool" for dbg where
  start: "length pkts = XBOT_PACKET_POOL_SIZE \<Longrightarrow> pool_reachable dbg (pool_init pkts junk)"
| step: "pool_reachable dbg s \<Longrightarrow> pool_step dbg s t \<Longrightarrow> pool_reachable dbg t"

inductive_cases pool_stepE: "pool_step dbg s t"

subsection \<open>No thread finds the pool empty\<close>

definition sem_inv :: "semaphore \<Rightarrow> bool" where
  "sem_inv m \<longleftrightarrow> int (length (sem_queue m)) = max 0 (- sem_cnt m)"

definition pool_inv :: "pool_state \<Rightarrow> bool" where
  "pool_inv s \<longleftrightarrow> sem_inv (sema s) \<and> length (packets s) = XBOT_PACKET_POOL_SIZE \<and>
     (\<exists>free. links (memp_next (pool s)) (memp_tab (pool s)) free \<and> distinct free \<and>
        set free \<union> in_use s = {..<XBOT_PACKET_POOL_SIZE} \<and> set free \<inter> in_use s = {} \<and>
        int (granted s + freed s) + max 0 (sem_cnt (sema s)) = int (length free))"

lemma sem_inv_consistent: "sem_inv m \<Longrightarrow> sem_consistent m"
  by (auto simp: sem_inv_def sem_consistent_def)

lemma chSemWaitS_inv:
  "sem_inv m \<Longrightarrow> chSemWaitS dbg t m = Some (ok, m') \<Longrightarrow>
   sem_inv m' \<and> (if ok then max 0 (sem_cnt m) = max 0 (sem_cnt m') + 1 else max 0 (sem_cnt m') = max 0 (sem_cnt m))"
  by (auto simp: chSemWaitS_def sem_inv_consistent sem_inv_def Let_def bind_eq_Some_conv split: if_splits)

lemma chSemSignal_inv:
  "sem_inv m \<Longrightarrow> chSemSignal dbg m = Some (w, m') \<Longrightarrow>
   sem_inv m' \<and> max 0 (sem_cnt m') = max 0 (sem_cnt m) + (if w = None then 1 else 0)"
  by (auto simp: chSemSignal_def sem_inv_def Let_def bind_eq_Some_conv split: if_splits list.splits)

lemma memp_init_links:
  "links (memp_next p) (memp_tab p) is \<Longrightarrow> set is = {..<i} \<Longrightarrow> distinct is \<Longrightarrow> length is = i \<Longrightarrow>
   \<exists>js. links (memp_next (memp_init_loop n i p)) (memp_tab (memp_init_loop n i p)) js \<and>
     set js = {..<i + n} \<and> distinct js \<and> length js = i + n"
proof (induction n i p arbitrary: "is" rule: memp_init_loop.induct)
  case (2 n i p)
  have "links (memp_next (memp_link i p)) (memp_tab (memp_link i p)) (i # is)"
    using 2(2,3) by (simp add: memp_link_def)
  then show ?case using 2(1) [of "i # is"] 2(3-5) by (auto simp: lessThan_Suc)
qed auto

lemma pool_init_inv: "length pkts = XBOT_PACKET_POOL_SIZE \<Longrightarrow> pool_inv (pool_init pkts junk)"
  using memp_init_links [of "junk\<lparr>memp_tab := None\<rparr>" "[]" 0 XBOT_PACKET_POOL_SIZE]
  by (fastforce simp: pool_inv_def pool_init_def memp_init_pool_def sem_inv_def chSemObjectInit_def)

lemma allocate_inv:
  assumes "pool_inv s" "granted s = Suc g"
  shows "\<exists>i p pkts. allocatePacket_rest (pool s) (packets s) = Some (i, p, pkts) \<and> i \<notin> in_use s \<and> i < XBOT_PACKET_POOL_SIZE \<and>
    pool_inv (s\<lparr>pool := p, packets := pkts, granted := g, in_use := insert i (in_use s)\<rparr>)"
proof -
  obtain free where f: "links (memp_next (pool s)) (memp_tab (pool s)) free" "distinct free"
    "set free \<union> in_use s = {..<XBOT_PACKET_POOL_SIZE}" "set free \<inter> in_use s = {}"
    "int (granted s + freed s) + max 0 (sem_cnt (sema s)) = int (length free)"
    using assms(1) by (auto simp: pool_inv_def)
  then obtain i rest where free: "free = i # rest" using assms(2) by (cases free) auto
  have i: "i < XBOT_PACKET_POOL_SIZE" "i \<notin> in_use s" using f(3,4) free by auto
  let ?p = "(pool s)\<lparr>memp_tab := memp_next (pool s) i\<rparr>" and ?pkts = "(packets s)[i := (packets s ! i)\<lparr>used_data := 0\<rparr>]"
  have a: "allocatePacket_rest (pool s) (packets s) = Some (i, ?p, ?pkts)"
    using f(1) i(1) assms(1) by (simp add: allocatePacket_rest_def memp_malloc_pool_def free aget_def pool_inv_def)
  have "pool_inv (s\<lparr>pool := ?p, packets := ?pkts, granted := g, in_use := insert i (in_use s)\<rparr>)"
    unfolding pool_inv_def using assms f free
    by (auto simp: pool_inv_def intro!: exI [of _ rest])
  then show ?thesis using a i by blast
qed


lemma pool_step_inv: "pool_step dbg s t \<Longrightarrow> pool_inv s \<Longrightarrow> pool_inv t"
proof (induction rule: pool_step.induct)
  case (pass t s m)
  then show ?case using chSemWaitS_inv [of "sema s" dbg t True m] by (fastforce simp: pool_inv_def)
next
  case (sleep t s m)
  then show ?case using chSemWaitS_inv [of "sema s" dbg t False m] by (fastforce simp: pool_inv_def)
next
  case (allocate s g i p pkts)
  then show ?case using allocate_inv [of s g] by auto
next
  case (release i s)
  then obtain free where f: "links (memp_next (pool s)) (memp_tab (pool s)) free" "distinct free"
    "set free \<union> in_use s = {..<XBOT_PACKET_POOL_SIZE}" "set free \<inter> in_use s = {}"
    "int (granted s + freed s) + max 0 (sem_cnt (sema s)) = int (length free)"
    by (auto simp: pool_inv_def)
  then have "i \<notin> set free" using release(1) by blast
  then have "links (memp_next (memp_free_pool i (pool s))) (memp_tab (memp_free_pool i (pool s))) (i # free)"
    using f(1) by (simp add: memp_free_pool_def memp_link_def)
  then show ?case
    using release f \<open>i \<notin> set free\<close> unfolding pool_inv_def by (intro conjI exI [of _ "i # free"]) (auto simp: pool_inv_def)
next
  case (signal s f woken m)
  then show ?case using chSemSignal_inv [of "sema s" dbg woken m] by (fastforce simp: pool_inv_def split: if_splits)
qed

lemma pool_reachable_inv: "pool_reachable dbg s \<Longrightarrow> pool_inv s"
  by (induction rule: pool_reachable.induct) (auto simp: pool_init_inv pool_step_inv)

lemma sem_defined:
  assumes "sem_inv m"
  shows "chSemWaitS dbg t m \<noteq> None" "chSemSignal dbg m \<noteq> None"
  using assms sem_inv_consistent [OF assms]
  by (auto simp: chSemWaitS_def chSemSignal_def sem_inv_def Let_def split: list.splits)

text \<open>
  C29: In every interleaving of threads that allocate and free packets, a thread that the
  semaphore lets pass finds a free packet, one that nobody else uses: the endless loop on an
  empty pool is never entered. The semaphore stays consistent, so its assertions hold, and at
  most 25 packets are in use.
\<close>

theorem packet_pool_never_empty:
  assumes "pool_reachable dbg s"
  shows "(0 < granted s \<longrightarrow>
      (\<exists>i p pkts. allocatePacket_rest (pool s) (packets s) = Some (i, p, pkts) \<and> i \<notin> in_use s \<and> i < 25)) \<and>
    chSemWaitS dbg t (sema s) \<noteq> None \<and> chSemSignal dbg (sema s) \<noteq> None \<and> card (in_use s) \<le> 25"
proof -
  have inv: "pool_inv s" by (rule pool_reachable_inv [OF assms])
  have "in_use s \<subseteq> {..<25}" using inv by (auto simp: pool_inv_def XBOT_PACKET_POOL_SIZE_def)
  then have "card (in_use s) \<le> 25" using card_mono [of "{..<25}" "in_use s"] by simp
  moreover have "sem_inv (sema s)" using inv by (simp add: pool_inv_def)
  ultimately show ?thesis
    using allocate_inv [OF inv] sem_defined by (auto simp: XBOT_PACKET_POOL_SIZE_def gr0_conv_Suc)
qed

definition example_packets :: "packet list" where
  "example_packets = replicate 25 \<lparr>used_data = 7, packet_buffer = replicate 4 0\<rparr>"

definition example_pool :: pool_state where
  "example_pool = pool_init example_packets \<lparr>memp_tab = None, memp_next = (\<lambda>_. None)\<rparr>"

theorem packet_pool_never_empty_witness:
  "\<exists>i p pkts. allocatePacket_rest (pool example_pool) example_packets = Some (i, p, pkts) \<and> i < 25"
proof -
  have r: "pool_reachable True example_pool"
    unfolding example_pool_def by (rule pool_reachable.start) (simp add: example_packets_def XBOT_PACKET_POOL_SIZE_def)
  have "chSemWaitS True 0 (sema example_pool) = Some (True, (sema example_pool)\<lparr>sem_cnt := 24\<rparr>)"
    by (simp add: chSemWaitS_def example_pool_def pool_init_def chSemObjectInit_def sem_consistent_def XBOT_PACKET_POOL_SIZE_def)
  then have "pool_reachable True (example_pool\<lparr>sema := (sema example_pool)\<lparr>sem_cnt := 24\<rparr>, granted := granted example_pool + 1\<rparr>)"
    by (intro pool_reachable.step [OF r] pool_step.pass)
  from packet_pool_never_empty [OF this]
  show ?thesis by (auto simp: example_pool_def pool_init_def)
qed

text \<open>
  Appending to a packet whose length is within its buffer either changes nothing or adds
  exactly the given bytes, and never writes outside the buffer, for sizes that do not make the
  32-bit addition wrap around.
\<close>

theorem packetAppendData_correct:
  assumes "length (packet_buffer p) = unat max_size" "used_data p \<le> max_size"
    and "unat n + unat (used_data p) < 2 ^ 32" "unat n \<le> length buf"
  shows "packetAppendData max_size (Some p) buf n =
    (if unat (used_data p) + unat n \<le> unat max_size
     then Some (True, Some \<lparr>used_data = used_data p + n,
            packet_buffer = take (unat (used_data p)) (packet_buffer p) @ take (unat n) buf
              @ drop (unat (used_data p) + unat n) (packet_buffer p)\<rparr>)
     else Some (False, Some p))"
proof -
  have "unat (n + used_data p) = unat n + unat (used_data p)" using assms(3) by (simp add: unat_word_ariths)
  then have "max_size < n + used_data p \<longleftrightarrow> unat max_size < unat n + unat (used_data p)" by (simp add: word_less_nat_alt)
  then show ?thesis using assms(1,4) by (auto simp: packetAppendData_def awrite_def min_absorb2)
qed

theorem packetAppendData_correct_witness:
  "packetAppendData 4 (Some \<lparr>used_data = 1, packet_buffer = [9, 0, 0, 0]\<rparr>) [5, 6, 7] 2 =
    Some (True, Some \<lparr>used_data = 3, packet_buffer = [9, 5, 6, 0]\<rparr>)"
  using packetAppendData_correct [of "\<lparr>used_data = 1, packet_buffer = [9, 0, 0, 0]\<rparr>" 4 2 "[5, 6, 7]"] by simp

text \<open>A size close to the end of the 32-bit range passes the check and overruns the buffer.\<close>

lemma packetAppendData_wraps:
  "packetAppendData 4 (Some \<lparr>used_data = 1, packet_buffer = [9, 0, 0, 0]\<rparr>) [] 0xFFFFFFFF = None"
  by (simp add: packetAppendData_def)

end
