(* ===== verification/Event_Sources.thy ===== *)
theory Event_Sources
  imports Packets
begin

text \<open>
  Events of the kernel (\<open>ChibiOS/os/rt/src/chevents.c\<close>) and the loop of the dispatcher over them
  (\<open>src/main.cpp\<close>). A thread and a listener are their numbers; the listeners of a source are linked
  through themselves, \<^term>\<open>None\<close> standing for the link back to the source.
\<close>

subsection \<open>Threads and listeners\<close>

datatype thread_state = CH_STATE_READY | CH_STATE_WTOREVT | CH_STATE_WTANDEVT

record ev_thread =
  t_state :: thread_state
  epending :: u32
  ewmask :: u32

record event_listener =
  el_next :: "nat option"
  el_listener :: nat
  el_events :: u32
  el_flags :: u32
  el_wflags :: u32

record event_source =
  es_next :: "nat option"
  es_listeners :: "event_listener list"
  es_threads :: "ev_thread list"

definition chEvtObjectInit :: "event_source \<Rightarrow> event_source" where
  "chEvtObjectInit s = s\<lparr>es_next := None\<rparr>"

definition chEvtIsListeningI :: "event_source \<Rightarrow> bool" where
  "chEvtIsListeningI s \<longleftrightarrow> es_next s \<noteq> None"

definition chEvtRegisterMaskWithFlagsI :: "nat \<Rightarrow> nat \<Rightarrow> u32 \<Rightarrow> u32 \<Rightarrow> event_source \<Rightarrow> event_source option" where
  "chEvtRegisterMaskWithFlagsI currtp elp events wflags s = do {
     ls \<leftarrow> aput (es_listeners s) elp
       \<lparr>el_next = es_next s, el_listener = currtp, el_events = events, el_flags = 0, el_wflags = wflags\<rparr>;
     Some (s\<lparr>es_listeners := ls, es_next := Some elp\<rparr>) }"

definition chEvtRegister :: "nat \<Rightarrow> nat \<Rightarrow> Events \<Rightarrow> event_source \<Rightarrow> event_source option" where
  "chEvtRegister currtp elp event = chEvtRegisterMaskWithFlagsI currtp elp (EVENT_MASK event) (-1)"

text \<open>The walk of \<open>chEvtUnregister\<close> from the listener \<open>p\<close> behind the first one.\<close>

fun unregister_from :: "nat \<Rightarrow> nat \<Rightarrow> nat \<Rightarrow> event_listener list \<Rightarrow> event_listener list option" where
  "unregister_from 0 elp p ls = None"
| "unregister_from (Suc fuel) elp p ls = do {
     l \<leftarrow> aget ls p;
     (case el_next l of
        None \<Rightarrow> Some ls
      | Some q \<Rightarrow>
          if q = elp then do { e \<leftarrow> aget ls elp; aput ls p (l\<lparr>el_next := el_next e\<rparr>) }
          else unregister_from fuel elp q ls) }"

definition chEvtUnregister :: "nat \<Rightarrow> event_source \<Rightarrow> event_source option" where
  "chEvtUnregister elp s =
     (case es_next s of
        None \<Rightarrow> Some s
      | Some p \<Rightarrow>
          if p = elp then do { e \<leftarrow> aget (es_listeners s) elp; Some (s\<lparr>es_next := el_next e\<rparr>) }
          else do { ls \<leftarrow> unregister_from (length (es_listeners s) + 1) elp p (es_listeners s); Some (s\<lparr>es_listeners := ls\<rparr>) })"

subsection \<open>Pending events\<close>

definition chEvtGetAndClearEventsI :: "u32 \<Rightarrow> ev_thread \<Rightarrow> u32 \<times> ev_thread" where
  "chEvtGetAndClearEventsI events t = (epending t AND events, t\<lparr>epending := epending t AND NOT events\<rparr>)"

definition chEvtAddEventsI :: "u32 \<Rightarrow> ev_thread \<Rightarrow> u32 \<times> ev_thread" where
  "chEvtAddEventsI events t = (epending t OR events, t\<lparr>epending := epending t OR events\<rparr>)"

definition chEvtGetAndClearFlags :: "event_listener \<Rightarrow> u32 \<times> event_listener" where
  "chEvtGetAndClearFlags elp = (el_flags elp AND el_wflags elp, elp\<lparr>el_flags := 0\<rparr>)"

definition chEvtSignalI :: "u32 \<Rightarrow> ev_thread \<Rightarrow> ev_thread" where
  "chEvtSignalI events t =
     (let t1 = t\<lparr>epending := epending t OR events\<rparr>
      in if t_state t1 = CH_STATE_WTOREVT \<and> epending t1 AND ewmask t1 \<noteq> 0 \<or>
            t_state t1 = CH_STATE_WTANDEVT \<and> epending t1 AND ewmask t1 = ewmask t1
         then t1\<lparr>t_state := CH_STATE_READY\<rparr> else t1)"

fun broadcast_from :: "nat \<Rightarrow> u32 \<Rightarrow> nat option \<Rightarrow> event_source \<Rightarrow> event_source option" where
  "broadcast_from fuel flags None s = Some s"
| "broadcast_from 0 flags (Some elp) s = None"
| "broadcast_from (Suc fuel) flags (Some elp) s = do {
     l \<leftarrow> aget (es_listeners s) elp;
     ls \<leftarrow> aput (es_listeners s) elp (l\<lparr>el_flags := el_flags l OR flags\<rparr>);
     ts \<leftarrow> (if flags = 0 \<or> flags AND el_wflags l \<noteq> 0
           then do { t \<leftarrow> aget (es_threads s) (el_listener l); aput (es_threads s) (el_listener l) (chEvtSignalI (el_events l) t) }
           else Some (es_threads s));
     broadcast_from fuel flags (el_next l) (s\<lparr>es_listeners := ls, es_threads := ts\<rparr>) }"

definition chEvtBroadcastFlagsI :: "u32 \<Rightarrow> event_source \<Rightarrow> event_source option" where
  "chEvtBroadcastFlagsI flags s = broadcast_from (length (es_listeners s)) flags (es_next s) s"

subsection \<open>Waiting\<close>

text \<open>
  A wait is split where the thread goes to sleep: the first part gives the result, or \<^term>\<open>None\<close> when
  it sleeps, the second what follows when it is woken (\<open>ok\<close>) or times out.
\<close>

definition chEvtWaitAnyTimeout :: "bool \<Rightarrow> u32 \<Rightarrow> ev_thread \<Rightarrow> u32 option \<times> ev_thread" where
  "chEvtWaitAnyTimeout immediate events t =
     (let m = epending t AND events
      in if m = 0 then if immediate then (Some 0, t) else (None, t\<lparr>ewmask := events, t_state := CH_STATE_WTOREVT\<rparr>)
         else (Some m, t\<lparr>epending := epending t AND NOT m\<rparr>))"

definition WaitAny_resume :: "bool \<Rightarrow> u32 \<Rightarrow> ev_thread \<Rightarrow> u32 \<times> ev_thread" where
  "WaitAny_resume ok events t =
     (if \<not> ok then (0, t) else let m = epending t AND events in (m, t\<lparr>epending := epending t AND NOT m\<rparr>))"

definition chEvtWaitOneTimeout :: "bool \<Rightarrow> u32 \<Rightarrow> ev_thread \<Rightarrow> u32 option \<times> ev_thread" where
  "chEvtWaitOneTimeout immediate events t =
     (let m = epending t AND events
      in if m = 0 then if immediate then (Some 0, t) else (None, t\<lparr>ewmask := events, t_state := CH_STATE_WTOREVT\<rparr>)
         else let m1 = m XOR (m AND (m - 1)) in (Some m1, t\<lparr>epending := epending t AND NOT m1\<rparr>))"

definition chEvtWaitAllTimeout :: "bool \<Rightarrow> u32 \<Rightarrow> ev_thread \<Rightarrow> u32 option \<times> ev_thread" where
  "chEvtWaitAllTimeout immediate events t =
     (if epending t AND events \<noteq> events
      then if immediate then (Some 0, t) else (None, t\<lparr>ewmask := events, t_state := CH_STATE_WTANDEVT\<rparr>)
      else (Some events, t\<lparr>epending := epending t AND NOT events\<rparr>))"

subsection \<open>The dispatcher\<close>

text \<open>
  The loop of \<open>DispatchEvents\<close> in the thread 0 with the listener 0: before the wait, asleep in it,
  behind it with the events it returned. The flags broadcast since the last fetch are kept in
  \<open>owed\<close>, for the properties only.
\<close>

datatype loop_point = AtWait | Asleep | Woken u32

record dispatch_loop =
  loop_at :: loop_point
  source :: event_source
  owed :: u32

definition start_dispatcher :: "event_source \<Rightarrow> dispatch_loop option" where
  "start_dispatcher s = do { s1 \<leftarrow> chEvtRegister 0 0 GLOBAL s; Some \<lparr>loop_at = AtWait, source = s1, owed = 0\<rparr> }"

definition set_thread :: "ev_thread \<Rightarrow> dispatch_loop \<Rightarrow> dispatch_loop" where
  "set_thread t d = d\<lparr>source := (source d)\<lparr>es_threads := (es_threads (source d))[0 := t]\<rparr>\<rparr>"

text \<open>A step of the dispatcher: the flags fetched, if any; \<^term>\<open>None\<close> while it sleeps.\<close>

definition dispatch_step :: "dispatch_loop \<Rightarrow> (u32 option \<times> dispatch_loop) option" where
  "dispatch_step d = do {
     t \<leftarrow> aget (es_threads (source d)) 0;
     (case loop_at d of
        AtWait \<Rightarrow>
          (case chEvtWaitAnyTimeout False (ids_to_mask [GLOBAL]) t of
             (None, t') \<Rightarrow> Some (None, (set_thread t' d)\<lparr>loop_at := Asleep\<rparr>)
           | (Some m, t') \<Rightarrow> Some (None, (set_thread t' d)\<lparr>loop_at := Woken m\<rparr>))
      | Asleep \<Rightarrow>
          if t_state t \<noteq> CH_STATE_READY then None
          else (case WaitAny_resume True (ids_to_mask [GLOBAL]) t of
                  (m, t') \<Rightarrow> Some (None, (set_thread t' d)\<lparr>loop_at := Woken m\<rparr>))
      | Woken events \<Rightarrow>
          if events AND EVENT_MASK GLOBAL \<noteq> 0 then do {
            l \<leftarrow> aget (es_listeners (source d)) 0;
            let (flags, l') = chEvtGetAndClearFlags l;
            Some (Some flags, d\<lparr>loop_at := AtWait, source := (source d)\<lparr>es_listeners := (es_listeners (source d))[0 := l']\<rparr>, owed := 0\<rparr>) }
          else Some (None, d\<lparr>loop_at := AtWait\<rparr>)) }"

inductive loop_step :: "dispatch_loop \<Rightarrow> dispatch_loop \<Rightarrow> bool" where
  dispatcher: "dispatch_step d = Some (r, d') \<Longrightarrow> loop_step d d'"
| broadcast: "chEvtBroadcastFlagsI flags (source d) = Some s \<Longrightarrow>
    loop_step d (d\<lparr>source := s, owed := owed d OR flags\<rparr>)"

inductive loop_reachable :: "dispatch_loop \<Rightarrow> bool" where
  start: "start_dispatcher (chEvtObjectInit s) = Some d \<Longrightarrow> es_threads s = [\<lparr>t_state = CH_STATE_READY, epending = 0, ewmask = w\<rparr>] \<Longrightarrow>
    length (es_listeners s) = 1 \<Longrightarrow> loop_reachable d"
| step: "loop_reachable d \<Longrightarrow> loop_step d d' \<Longrightarrow> loop_reachable d'"

inductive_cases loop_stepE: "loop_step d d'"


subsection \<open>No flag is lost\<close>

definition loop_inv :: "dispatch_loop \<Rightarrow> bool" where
  "loop_inv d \<longleftrightarrow> (\<exists>t p w. es_threads (source d) = [\<lparr>t_state = t, epending = p, ewmask = w\<rparr>] \<and> es_next (source d) = Some 0 \<and>
     es_listeners (source d) = [\<lparr>el_next = None, el_listener = 0, el_events = 1, el_flags = owed d, el_wflags = -1\<rparr>] \<and>
     (case loop_at d of
        AtWait \<Rightarrow> t = CH_STATE_READY \<and> (owed d \<noteq> 0 \<longrightarrow> p AND 1 \<noteq> 0)
      | Asleep \<Rightarrow> (if t = CH_STATE_READY then p AND 1 \<noteq> 0 else t = CH_STATE_WTOREVT \<and> w = 1 \<and> p AND 1 = 0 \<and> owed d = 0)
      | Woken m \<Rightarrow> t = CH_STATE_READY \<and> m AND 1 \<noteq> 0))"

lemma global_mask: "EVENT_MASK GLOBAL = 1" "ids_to_mask [GLOBAL] = 1"
  by (simp_all add: EVENT_MASK_def)

lemma u32_or_eq_0 [simp]: "(a OR b :: u32) = 0 \<longleftrightarrow> a = 0 \<and> b = 0"
  by (rule word_or_eq_0_iff)

lemma or_1_and_1 [simp]: "(a OR 1) AND 1 = (1 :: u32)"
  by (rule bit_word_eqI) (auto simp: bit_simps)

lemma start_inv:
  assumes "start_dispatcher (chEvtObjectInit s) = Some d" "es_threads s = [\<lparr>t_state = CH_STATE_READY, epending = 0, ewmask = w\<rparr>]"
    "length (es_listeners s) = 1"
  shows "loop_inv d"
proof -
  obtain l where "es_listeners s = [l]" using assms(3) by (cases "es_listeners s") auto
  then show ?thesis
    using assms by (auto simp: start_dispatcher_def chEvtObjectInit_def chEvtRegister_def chEvtRegisterMaskWithFlagsI_def
      aput_def loop_inv_def EVENT_MASK_def)
qed

lemma broadcast_inv:
  assumes "loop_inv d" "chEvtBroadcastFlagsI flags (source d) = Some s"
  shows "loop_inv (d\<lparr>source := s, owed := owed d OR flags\<rparr>)"
proof -
  obtain t p w where d: "es_threads (source d) = [\<lparr>t_state = t, epending = p, ewmask = w\<rparr>]" "es_next (source d) = Some 0"
    "es_listeners (source d) = [\<lparr>el_next = None, el_listener = 0, el_events = 1, el_flags = owed d, el_wflags = -1\<rparr>]"
    using assms(1) by (auto simp: loop_inv_def)
  have s: "s = (source d)\<lparr>es_listeners := [\<lparr>el_next = None, el_listener = 0, el_events = 1, el_flags = owed d OR flags, el_wflags = -1\<rparr>],
      es_threads := [chEvtSignalI 1 \<lparr>t_state = t, epending = p, ewmask = w\<rparr>]\<rparr>"
    using assms(2) d by (auto simp: chEvtBroadcastFlagsI_def aget_def aput_def)
  show ?thesis
    using assms(1) d unfolding s loop_inv_def by (auto simp: chEvtSignalI_def Let_def split: loop_point.splits if_splits)
qed

lemma dispatch_inv:
  assumes "loop_inv d" "dispatch_step d = Some (r, d')"
  shows "loop_inv d'"
  using assms
  by (auto simp: loop_inv_def dispatch_step_def aget_def global_mask set_thread_def chEvtWaitAnyTimeout_def WaitAny_resume_def
      chEvtGetAndClearFlags_def Let_def split: loop_point.splits if_splits)

lemma loop_reachable_inv: "loop_reachable d \<Longrightarrow> loop_inv d"
proof (induction rule: loop_reachable.induct)
  case (step d d')
  then show ?case by (auto elim!: loop_stepE intro: dispatch_inv broadcast_inv)
qed (rule start_inv)

text \<open>The results of the next \<open>n\<close> steps of the dispatcher.\<close>

fun dispatch_run :: "nat \<Rightarrow> dispatch_loop \<Rightarrow> u32 option list" where
  "dispatch_run 0 d = []"
| "dispatch_run (Suc n) d = (case dispatch_step d of None \<Rightarrow> [] | Some (r, d') \<Rightarrow> r # dispatch_run n d')"

lemma woken_fetches:
  assumes "loop_inv d" "loop_at d = Woken m"
  shows "\<exists>d'. dispatch_step d = Some (Some (owed d), d')"
  using assms by (auto simp: loop_inv_def dispatch_step_def aget_def global_mask chEvtGetAndClearFlags_def)

lemma pending_woken:
  assumes "loop_inv d" "owed d \<noteq> 0" "loop_at d = AtWait \<or> loop_at d = Asleep"
  shows "\<exists>d' m. dispatch_step d = Some (None, d') \<and> loop_at d' = Woken m \<and> owed d' = owed d"
  using assms
  by (auto simp: loop_inv_def dispatch_step_def aget_def global_mask set_thread_def chEvtWaitAnyTimeout_def WaitAny_resume_def
      Let_def split: if_splits)

text \<open>
  C7: In every interleaving of broadcasts with the loop of the dispatcher, the flags kept for it are
  exactly those broadcast since it last fetched them, and while there are any it is not
  blocked: its next steps fetch exactly these flags. No wake-up and no flag is lost.
\<close>

theorem dispatcher_gets_every_flag:
  assumes "loop_reachable d"
  shows "map el_flags (es_listeners (source d)) = [owed d] \<and>
    (owed d = 0 \<or> dispatch_run 1 d = [Some (owed d)] \<or> dispatch_run 2 d = [None, Some (owed d)])"
proof -
  have inv: "loop_inv d" by (rule loop_reachable_inv [OF assms])
  have "dispatch_run 1 d = [Some (owed d)] \<or> dispatch_run 2 d = [None, Some (owed d)]" if o: "owed d \<noteq> 0"
  proof (cases "loop_at d")
    case (Woken m)
    then show ?thesis using woken_fetches [OF inv] by fastforce
  next
    case AtWait
    then obtain d' m where d': "dispatch_step d = Some (None, d')" "loop_at d' = Woken m" "owed d' = owed d"
      using pending_woken [OF inv o] by blast
    then show ?thesis using woken_fetches [OF dispatch_inv [OF inv d'(1)] d'(2)] by (auto simp: numeral_2_eq_2)
  next
    case Asleep
    then obtain d' m where d': "dispatch_step d = Some (None, d')" "loop_at d' = Woken m" "owed d' = owed d"
      using pending_woken [OF inv o] by blast
    then show ?thesis using woken_fetches [OF dispatch_inv [OF inv d'(1)] d'(2)] by (auto simp: numeral_2_eq_2)
  qed
  then show ?thesis using inv by (auto simp: loop_inv_def)
qed

definition example_source :: event_source where
  "example_source = \<lparr>es_next = None,
     es_listeners = [\<lparr>el_next = None, el_listener = 0, el_events = 0, el_flags = 0, el_wflags = 0\<rparr>],
     es_threads = [\<lparr>t_state = CH_STATE_READY, epending = 0, ewmask = 0\<rparr>]\<rparr>"

definition example_loop :: dispatch_loop where
  "example_loop = \<lparr>loop_at = Asleep,
     source = \<lparr>es_next = Some 0,
       es_listeners = [\<lparr>el_next = None, el_listener = 0, el_events = 1, el_flags = EMERGENCY_CHANGED, el_wflags = -1\<rparr>],
       es_threads = [\<lparr>t_state = CH_STATE_READY, epending = 1, ewmask = 1\<rparr>]\<rparr>,
     owed = EMERGENCY_CHANGED\<rparr>"

lemma example_loop_reachable: "loop_reachable example_loop"
proof -
  obtain d0 where d0: "start_dispatcher (chEvtObjectInit example_source) = Some d0" "d0 = \<lparr>loop_at = AtWait,
      source = \<lparr>es_next = Some 0, es_listeners = [\<lparr>el_next = None, el_listener = 0, el_events = 1, el_flags = 0, el_wflags = -1\<rparr>],
        es_threads = [\<lparr>t_state = CH_STATE_READY, epending = 0, ewmask = 0\<rparr>]\<rparr>, owed = 0\<rparr>"
    by (simp add: start_dispatcher_def chEvtObjectInit_def chEvtRegister_def chEvtRegisterMaskWithFlagsI_def aput_def example_source_def
        EVENT_MASK_def)
  have "loop_reachable d0" by (rule loop_reachable.start [OF d0(1)]) (simp_all add: example_source_def)
  moreover have "dispatch_step d0 = Some (None, \<lparr>loop_at = Asleep,
      source = \<lparr>es_next = Some 0, es_listeners = [\<lparr>el_next = None, el_listener = 0, el_events = 1, el_flags = 0, el_wflags = -1\<rparr>],
        es_threads = [\<lparr>t_state = CH_STATE_WTOREVT, epending = 0, ewmask = 1\<rparr>]\<rparr>, owed = 0\<rparr>)" (is "_ = Some (None, ?d1)")
    by (simp add: d0(2) dispatch_step_def aget_def global_mask set_thread_def chEvtWaitAnyTimeout_def)
  ultimately have "loop_reachable ?d1" by (blast intro: loop_reachable.step loop_step.dispatcher)
  moreover have "chEvtBroadcastFlagsI EMERGENCY_CHANGED (source ?d1) = Some (source example_loop)"
    by (simp add: chEvtBroadcastFlagsI_def aget_def aput_def chEvtSignalI_def example_loop_def EMERGENCY_CHANGED_def)
  then have "loop_step ?d1 (?d1\<lparr>source := source example_loop, owed := owed ?d1 OR EMERGENCY_CHANGED\<rparr>)" by (rule loop_step.broadcast)
  then have "loop_step ?d1 example_loop" by (simp add: example_loop_def)
  ultimately show ?thesis by (rule loop_reachable.step)
qed

theorem dispatcher_gets_every_flag_witness:
  "map el_flags (es_listeners (source example_loop)) = [EMERGENCY_CHANGED] \<and> dispatch_run 2 example_loop = [None, Some EMERGENCY_CHANGED]"
proof -
  have "owed example_loop = EMERGENCY_CHANGED" "EMERGENCY_CHANGED \<noteq> 0" "dispatch_run 1 example_loop \<noteq> [Some (owed example_loop)]"
    by (simp_all add: example_loop_def EMERGENCY_CHANGED_def dispatch_step_def aget_def WaitAny_resume_def global_mask)
  then show ?thesis using dispatcher_gets_every_flag [OF example_loop_reachable] by simp
qed

subsection \<open>Sources with several listeners\<close>

definition el_next_of :: "event_listener list \<Rightarrow> nat \<Rightarrow> nat option" where
  "el_next_of ls i = (if i < length ls then el_next (ls ! i) else None)"

definition listening :: "event_source \<Rightarrow> nat list \<Rightarrow> bool" where
  "listening s is \<longleftrightarrow> links (el_next_of (es_listeners s)) (es_next s) is \<and> distinct is \<and>
     (\<forall>i \<in> set is. i < length (es_listeners s) \<and> el_listener (es_listeners s ! i) < length (es_threads s))"

text \<open>
  Registering puts a listener in front; unregistering takes out exactly this one; a broadcast adds its
  flags to every listener, and only to them.
\<close>

lemma register_listening:
  assumes "listening s is" "i \<notin> set is" "i < length (es_listeners s)" "currtp < length (es_threads s)"
  shows "\<exists>s'. chEvtRegisterMaskWithFlagsI currtp i events wflags s = Some s' \<and> listening s' (i # is)"
proof -
  let ?l = "\<lparr>el_next = es_next s, el_listener = currtp, el_events = events, el_flags = 0, el_wflags = wflags\<rparr>"
  have "el_next_of ((es_listeners s)[i := ?l]) = (el_next_of (es_listeners s))(i := es_next s)"
    using assms(3) by (auto simp: el_next_of_def fun_eq_iff)
  then show ?thesis
    using assms by (auto simp: chEvtRegisterMaskWithFlagsI_def aput_def listening_def nth_list_update)
qed

lemma broadcast_from_all:
  "links (el_next_of (es_listeners s)) p is \<Longrightarrow> distinct is \<Longrightarrow> length is \<le> fuel \<Longrightarrow>
   \<forall>i \<in> set is. i < length (es_listeners s) \<and> el_listener (es_listeners s ! i) < length (es_threads s) \<Longrightarrow>
   \<exists>s'. broadcast_from fuel flags p s = Some s' \<and> es_next s' = es_next s \<and> length (es_listeners s') = length (es_listeners s) \<and>
     length (es_threads s') = length (es_threads s) \<and>
     (\<forall>i < length (es_listeners s). es_listeners s' ! i = (if i \<in> set is
        then (es_listeners s ! i)\<lparr>el_flags := el_flags (es_listeners s ! i) OR flags\<rparr> else es_listeners s ! i))"
proof (induction "is" arbitrary: p s fuel)
  case (Cons i js)
  then obtain f where f: "fuel = Suc f" by (cases fuel) auto
  let ?l = "es_listeners s ! i"
  let ?ls = "(es_listeners s)[i := ?l\<lparr>el_flags := el_flags ?l OR flags\<rparr>]"
  have i: "p = Some i" "i < length (es_listeners s)" "el_listener ?l < length (es_threads s)" "i \<notin> set js"
    using Cons.prems by auto
  obtain ts where ts: "(if flags = 0 \<or> flags AND el_wflags ?l \<noteq> 0
      then do { t \<leftarrow> aget (es_threads s) (el_listener ?l); aput (es_threads s) (el_listener ?l) (chEvtSignalI (el_events ?l) t) }
      else Some (es_threads s)) = Some ts" "length ts = length (es_threads s)"
    using i(3) by (cases "flags = 0 \<or> flags AND el_wflags ?l \<noteq> 0") (auto simp: aget_def aput_def)
  let ?s = "s\<lparr>es_listeners := ?ls, es_threads := ts\<rparr>"
  have nx: "el_next_of ?ls = el_next_of (es_listeners s)" using i(2) by (auto simp: el_next_of_def fun_eq_iff nth_list_update)
  have l: "links (el_next_of (es_listeners ?s)) (el_next ?l) js" 
  proof -
    have "el_next_of (es_listeners s) i = el_next ?l" using i(2) by (simp add: el_next_of_def)
    then show ?thesis using Cons.prems(1) by (simp add: nx)
  qed
  have b: "broadcast_from fuel flags p s = broadcast_from f flags (el_next ?l) ?s"
    using f i ts(1) by (simp add: aget_def aput_def)
  have "\<forall>j \<in> set js. j < length (es_listeners ?s) \<and> el_listener (es_listeners ?s ! j) < length (es_threads ?s)"
    using Cons.prems(4) ts(2) i by (auto simp: nth_list_update)
  from Cons.IH [OF l _ _ this, of f] obtain s' where "broadcast_from f flags (el_next ?l) ?s = Some s'"
    "es_next s' = es_next s" "length (es_listeners s') = length (es_listeners s)" "length (es_threads s') = length (es_threads s)"
    "\<forall>j < length (es_listeners s). es_listeners s' ! j = (if j \<in> set js
        then (?ls ! j)\<lparr>el_flags := el_flags (?ls ! j) OR flags\<rparr> else ?ls ! j)"
    using Cons.prems(2,3) f ts(2) by auto
  then show ?case unfolding b using i by (auto simp: nth_list_update)
qed simp

lemma broadcast_listeners:
  assumes "listening s is"
  shows "\<exists>s'. chEvtBroadcastFlagsI flags s = Some s' \<and> es_next s' = es_next s \<and>
    (\<forall>i < length (es_listeners s). es_listeners s' ! i = (if i \<in> set is
        then (es_listeners s ! i)\<lparr>el_flags := el_flags (es_listeners s ! i) OR flags\<rparr> else es_listeners s ! i))"
proof -
  have "length is \<le> length (es_listeners s)"
    using assms card_mono [of "{..<length (es_listeners s)}" "set is"] by (auto simp: listening_def distinct_card)
  then show ?thesis
    using broadcast_from_all [of s "es_next s" "is" "length (es_listeners s)" flags] assms
    by (auto simp: listening_def chEvtBroadcastFlagsI_def)
qed

lemma unregister_from_removes:
  "links (el_next_of ls) (Some p) (p # js) \<Longrightarrow> distinct (p # js) \<Longrightarrow> \<forall>i \<in> set (p # js). i < length ls \<Longrightarrow> length js < fuel \<Longrightarrow>
   \<exists>ls'. unregister_from fuel elp p ls = Some ls' \<and> length ls' = length ls \<and> links (el_next_of ls') (Some p) (p # remove1 elp js) \<and>
     (\<forall>i. i \<notin> set (p # js) \<longrightarrow> el_next_of ls' i = el_next_of ls i) \<and> map el_listener ls' = map el_listener ls"
proof (induction js arbitrary: p fuel)
  case Nil
  then show ?case by (cases fuel) (auto simp: aget_def el_next_of_def)
next
  case (Cons q qs)
  then obtain f where f: "fuel = Suc f" by (cases fuel) auto
  have p: "p < length ls" "el_next (ls ! p) = Some q" "q < length ls" using Cons.prems(1,3) by (auto simp: el_next_of_def)
  show ?case
  proof (cases "q = elp")
    case True
    let ?ls = "ls[p := (ls ! p)\<lparr>el_next := el_next (ls ! elp)\<rparr>]"
    have nx: "el_next_of ?ls = (el_next_of ls)(p := el_next_of ls elp)" using p True by (auto simp: el_next_of_def fun_eq_iff)
    have "unregister_from fuel elp p ls = Some ?ls" using f p True by (simp add: aget_def aput_def)
    moreover have "links (el_next_of ?ls) (Some p) (p # qs)" using Cons.prems(1,2) True unfolding nx by simp
    moreover have "map el_listener ?ls = map el_listener ls"
      using p(1) by (intro nth_equalityI) (auto simp: nth_list_update)
    ultimately show ?thesis using True p(1) nx by auto
  next
    case False
    have u: "unregister_from fuel elp p ls = unregister_from f elp q ls" using f p False by (simp add: aget_def)
    have "links (el_next_of ls) (Some q) (q # qs)" using Cons.prems(1) by simp
    then obtain ls' where ls': "unregister_from f elp q ls = Some ls'" "length ls' = length ls"
      "links (el_next_of ls') (Some q) (q # remove1 elp qs)" "\<forall>i. i \<notin> set (q # qs) \<longrightarrow> el_next_of ls' i = el_next_of ls i"
      "map el_listener ls' = map el_listener ls"
      using Cons.IH [of q f] Cons.prems f by auto
    have "el_next_of ls' p = Some q" using ls'(4) Cons.prems(2) p by (simp add: el_next_of_def)
    then show ?thesis unfolding u using ls' False by auto
  qed
qed

lemma unregister_listening:
  assumes "listening s is" "elp \<in> set is"
  shows "\<exists>s'. chEvtUnregister elp s = Some s' \<and> listening s' (remove1 elp is)"
proof -
  obtain p js where l: "is = p # js" using assms(2) by (cases "is") auto
  have len: "length is \<le> length (es_listeners s)"
    using assms card_mono [of "{..<length (es_listeners s)}" "set is"] by (auto simp: listening_def distinct_card)
  show ?thesis
  proof (cases "p = elp")
    case True
    then show ?thesis using assms l by (auto simp: listening_def chEvtUnregister_def aget_def el_next_of_def)
  next
    case False
    have pre: "links (el_next_of (es_listeners s)) (Some p) (p # js)" "distinct (p # js)" "\<forall>i \<in> set (p # js). i < length (es_listeners s)"
      "es_next s = Some p" using assms(1) l by (auto simp: listening_def)
    then obtain ls' where ls': "unregister_from (length (es_listeners s) + 1) elp p (es_listeners s) = Some ls'"
      "length ls' = length (es_listeners s)" "links (el_next_of ls') (Some p) (p # remove1 elp js)"
      "map el_listener ls' = map el_listener (es_listeners s)"
      using unregister_from_removes [OF pre(1-3), of "length (es_listeners s) + 1" elp] len l by auto
    have "el_listener (ls' ! i) = el_listener (es_listeners s ! i)" if "i < length (es_listeners s)" for i
      using arg_cong [OF ls'(4), of "\<lambda>x. x ! i"] that ls'(2) by simp
    then have "listening (s\<lparr>es_listeners := ls'\<rparr>) (p # remove1 elp js)"
      using assms(1) l ls'(2,3) pre(4) by (auto simp: listening_def notin_set_remove1 dest!: set_remove1_subset [THEN subsetD])
    then show ?thesis using ls'(1) pre(4) False l by (simp add: chEvtUnregister_def del: unregister_from.simps)
  qed
qed

end
