(* ===== verification/Delta_List.thy ===== *)
theory Delta_List
  imports Prelude
begin

text \<open>
  The delta lists of the kernel (\<open>ChibiOS/os/rt/include/chlists.h\<close>): circular lists linked both
  ways, kept in the order of their times, each element holding the distance to the one before it.
  Elements live in a memory that maps addresses to nodes, the header at \<^term>\<open>0::nat\<close>; a null
  \<open>next\<close> is \<^term>\<open>None\<close>. The list that a memory holds is stated by \<open>dlist_holds\<close>, and each operation
  is shown to be the corresponding operation on a list of (element, time) pairs.
\<close>

subsection \<open>Nodes\<close>

record dnode =
  d_next :: "nat option"
  d_prev :: nat
  d_delta :: u32

type_synonym 'z dmem = "nat \<Rightarrow> 'z dnode_scheme"

abbreviation dlhp :: nat where "dlhp \<equiv> 0"

definition set_next :: "nat \<Rightarrow> nat option \<Rightarrow> 'z dmem \<Rightarrow> 'z dmem" where
  "set_next p q m = m(p := (m p)\<lparr>d_next := q\<rparr>)"

definition set_prev :: "nat \<Rightarrow> nat \<Rightarrow> 'z dmem \<Rightarrow> 'z dmem" where
  "set_prev p q m = m(p := (m p)\<lparr>d_prev := q\<rparr>)"

definition set_delta :: "nat \<Rightarrow> u32 \<Rightarrow> 'z dmem \<Rightarrow> 'z dmem" where
  "set_delta p d m = m(p := (m p)\<lparr>d_delta := d\<rparr>)"

subsection \<open>Operations\<close>

definition ch_dlist_init :: "'z dmem \<Rightarrow> 'z dmem" where
  "ch_dlist_init m = set_delta dlhp (-1) (set_prev dlhp dlhp (set_next dlhp (Some dlhp) m))"

definition ch_dlist_isempty :: "'z dmem \<Rightarrow> bool" where
  "ch_dlist_isempty m \<longleftrightarrow> Some dlhp = d_next (m dlhp)"

definition ch_dlist_isfirst :: "nat \<Rightarrow> 'z dmem \<Rightarrow> bool" where
  "ch_dlist_isfirst p m \<longleftrightarrow> d_next (m dlhp) = Some p"

definition ch_dlist_insert_after :: "nat \<Rightarrow> nat \<Rightarrow> u32 \<Rightarrow> 'z dmem \<Rightarrow> 'z dmem option" where
  "ch_dlist_insert_after hp p delta m = do {
     let m1 = set_prev p hp (set_delta p delta m);
     let m2 = set_next p (d_next (m1 (d_prev (m1 p)))) m1;
     q \<leftarrow> d_next (m2 p);
     Some (set_next hp (Some p) (set_prev q p m2)) }"

definition ch_dlist_insert_before :: "nat \<Rightarrow> nat \<Rightarrow> u32 \<Rightarrow> 'z dmem \<Rightarrow> 'z dmem" where
  "ch_dlist_insert_before hp p delta m =
     (let m1 = set_next p (Some hp) (set_delta p delta m);
          m2 = set_prev p (d_prev (m1 hp)) m1
      in set_prev hp p (set_next (d_prev (m2 p)) (Some p) m2))"

text \<open>The scan of \<open>ch_dlist_insert\<close>: the element the new one goes in front of, and what is left of
  its time there.\<close>

partial_function (option) dlist_seek :: "'z dmem \<Rightarrow> nat \<Rightarrow> u32 \<Rightarrow> (nat \<times> u32) option" where
  "dlist_seek m p delta =
     (if d_delta (m p) < delta
      then do { q \<leftarrow> d_next (m p); dlist_seek m q (delta - d_delta (m p)) }
      else Some (p, delta))"

definition ch_dlist_insert :: "nat \<Rightarrow> u32 \<Rightarrow> 'z dmem \<Rightarrow> 'z dmem option" where
  "ch_dlist_insert p delta m = do {
     q \<leftarrow> d_next (m dlhp);
     (q, delta) \<leftarrow> dlist_seek m q delta;
     let m1 = ch_dlist_insert_before q p delta m;
     Some (set_delta dlhp (-1) (set_delta q (d_delta (m1 q) - delta) m1)) }"

definition ch_dlist_remove_first :: "'z dmem \<Rightarrow> (nat \<times> 'z dmem) option" where
  "ch_dlist_remove_first m = do {
     p \<leftarrow> d_next (m dlhp);
     let m1 = set_next dlhp (d_next (m p)) m;
     q \<leftarrow> d_next (m1 dlhp);
     Some (p, set_prev q dlhp m1) }"

definition ch_dlist_dequeue :: "nat \<Rightarrow> 'z dmem \<Rightarrow> 'z dmem option" where
  "ch_dlist_dequeue p m = do {
     let m1 = set_next (d_prev (m p)) (d_next (m p)) m;
     q \<leftarrow> d_next (m1 p);
     Some (set_prev q (d_prev (m1 p)) m1) }"

subsection \<open>The list a memory holds\<close>

text \<open>\<open>seg m p xs q\<close>: from \<open>p\<close> the links lead through the elements of \<open>xs\<close>, with their deltas, to \<open>q\<close>
  and back.\<close>

fun seg :: "'z dmem \<Rightarrow> nat \<Rightarrow> (nat \<times> u32) list \<Rightarrow> nat \<Rightarrow> bool" where
  "seg m p [] q \<longleftrightarrow> d_next (m p) = Some q \<and> d_prev (m q) = p"
| "seg m p ((t, d) # xs) q \<longleftrightarrow>
     d_next (m p) = Some t \<and> d_prev (m t) = p \<and> d_delta (m t) = d \<and> seg m t xs q"

definition dlist_holds :: "'z dmem \<Rightarrow> (nat \<times> u32) list \<Rightarrow> bool" where
  "dlist_holds m xs \<longleftrightarrow> seg m dlhp xs dlhp \<and> distinct (dlhp # map fst xs) \<and> d_delta (m dlhp) = -1"

fun delta_insert :: "nat \<Rightarrow> u32 \<Rightarrow> (nat \<times> u32) list \<Rightarrow> (nat \<times> u32) list" where
  "delta_insert p d [] = [(p, d)]"
| "delta_insert p d ((t, e) # xs) =
     (if e < d then (t, e) # delta_insert p (d - e) xs else (p, d) # (t, e - d) # xs)"

fun delta_remove :: "nat \<Rightarrow> (nat \<times> u32) list \<Rightarrow> (nat \<times> u32) list" where
  "delta_remove p [] = []"
| "delta_remove p [(t, e)] = (if t = p then [] else [(t, e)])"
| "delta_remove p ((t, e) # (s, f) # xs) =
     (if t = p then (s, f + e) # xs else (t, e) # delta_remove p ((s, f) # xs))"

lemmas dmem_defs = set_next_def set_prev_def set_delta_def

lemma distinct_apart: "distinct (us @ vs) \<Longrightarrow> x \<in> set us \<Longrightarrow> x \<notin> set vs"
  by auto

lemma seg_append:
  "seg m p (xs @ (t, d) # ys) q \<longleftrightarrow> seg m p xs t \<and> d_delta (m t) = d \<and> seg m t ys q"
  by (induction xs arbitrary: p) auto

lemma seg_cong:
  assumes "\<And>t. t \<in> set (p # map fst xs) \<Longrightarrow> d_next (m t) = d_next (m' t)"
    and "\<And>t. t \<in> set (q # map fst xs) \<Longrightarrow> d_prev (m t) = d_prev (m' t)"
    and "\<And>t. t \<in> set (map fst xs) \<Longrightarrow> d_delta (m t) = d_delta (m' t)"
  shows "seg m p xs q \<longleftrightarrow> seg m' p xs q"
  using assms
proof (induction xs arbitrary: p)
  case (Cons x xs)
  obtain t d where x: "x = (t, d)" by (cases x)
  have "seg m t xs q \<longleftrightarrow> seg m' t xs q"
    by (rule Cons.IH) (use Cons.prems x in auto)
  then show ?case using Cons.prems x by simp
qed simp

lemma dlist_init_holds: "dlist_holds (ch_dlist_init m) []"
  by (simp add: dlist_holds_def ch_dlist_init_def dmem_defs)

lemma dlist_empty_iff: "dlist_holds m xs \<Longrightarrow> ch_dlist_isempty m \<longleftrightarrow> xs = []"
  by (cases xs) (auto simp: dlist_holds_def ch_dlist_isempty_def)

lemma dlist_first_iff:
  "dlist_holds m xs \<Longrightarrow> p \<noteq> dlhp \<Longrightarrow> ch_dlist_isfirst p m \<longleftrightarrow> xs \<noteq> [] \<and> fst (hd xs) = p"
  by (cases xs) (auto simp: dlist_holds_def ch_dlist_isfirst_def)

text \<open>The next element after a prefix.\<close>

definition first_of :: "(nat \<times> u32) list \<Rightarrow> nat" where
  "first_of xs = (case xs of [] \<Rightarrow> dlhp | (t, d) # ys \<Rightarrow> t)"

lemma seg_next: "seg m p xs dlhp \<Longrightarrow> d_next (m p) = Some (first_of xs)"
  by (cases xs) (auto simp: first_of_def)


lemma seg_split:
  "seg m p (ys @ zs) dlhp \<longleftrightarrow> seg m p ys (first_of zs) \<and>
     (case zs of [] \<Rightarrow> True | (t, d) # us \<Rightarrow> d_delta (m t) = d \<and> seg m t us dlhp)"
  by (cases zs) (auto simp: first_of_def seg_append split: prod.splits)

lemma seg_prev: "seg m p xs q \<Longrightarrow> d_prev (m q) = last (p # map fst xs)"
  by (induction xs arbitrary: p) auto

lemma dlist_seek_splits:
  assumes "seg m p xs dlhp" and "d_delta (m dlhp) = -1"
  shows "\<exists>ys zs e. xs = ys @ zs \<and> dlist_seek m (first_of xs) d = Some (first_of zs, e) \<and>
     (\<forall>t. delta_insert t d xs = ys @ delta_insert t e zs) \<and> (zs = [] \<or> \<not> snd (hd zs) < e)"
  using assms
proof (induction xs arbitrary: p d)
  case Nil
  have "\<not> (-1 :: u32) < d" using word_n1_ge[of d] by simp
  with Nil show ?case
    by (simp add: first_of_def dlist_seek.simps[of m dlhp d])
next
  case (Cons x xs)
  obtain t c where x: "x = (t, c)" by (cases x)
  with Cons.prems have tl: "seg m t xs dlhp" "d_delta (m t) = c" by auto
  show ?case
  proof (cases "c < d")
    case True
    from Cons.IH[OF tl(1) Cons.prems(2), of "d - c"] obtain ys zs e where
      i: "xs = ys @ zs" "dlist_seek m (first_of xs) (d - c) = Some (first_of zs, e)"
        "\<forall>t. delta_insert t (d - c) xs = ys @ delta_insert t e zs" "zs = [] \<or> \<not> snd (hd zs) < e" by blast
    have "dlist_seek m t d = Some (first_of zs, e)"
      using True tl i(2) seg_next[OF tl(1)] by (simp add: dlist_seek.simps[of m t d])
    then show ?thesis
      using x True i(1,3,4) by (intro exI[of _ "x # ys"] exI[of _ zs] exI[of _ e]) (simp add: first_of_def)
  next
    case False
    then show ?thesis
      using x tl by (intro exI[of _ "[]"] exI[of _ "x # xs"] exI[of _ d])
        (simp add: first_of_def dlist_seek.simps[of m t d])
  qed
qed

lemma insert_before_memory:
  assumes "p \<noteq> q" and "p \<noteq> d_prev (m q)"
  shows "ch_dlist_insert_before q p d m = (\<lambda>t.
     (m t)\<lparr>d_next := (if t = d_prev (m q) then Some p else if t = p then Some q else d_next (m t)),
            d_prev := (if t = q then p else if t = p then d_prev (m q) else d_prev (m t)),
            d_delta := (if t = p then d else d_delta (m t))\<rparr>)"
  using assms by (auto simp: ch_dlist_insert_before_def dmem_defs Let_def fun_eq_iff)

lemma insert_before_seg:
  assumes "seg m p ys q" and "e \<notin> set (p # q # map fst ys)" and "distinct (p # map fst ys)" and "q \<notin> set (map fst ys)"
  shows "seg (ch_dlist_insert_before q e d m) p (ys @ [(e, d)]) q"
proof -
  let ?m = "ch_dlist_insert_before q e d m"
  let ?l = "d_prev (m q)"
  have l: "?l = last (p # map fst ys)" using seg_prev[OF assms(1)] .
  then have "?l \<in> set (p # map fst ys)" by (metis last_in_set list.distinct(1))
  with assms(2) have e: "e \<noteq> q" "e \<noteq> ?l" by auto
  note m = insert_before_memory[of e q m, OF e]
  have "seg ?m p ys e"
  proof (cases ys rule: rev_cases)
    case Nil
    then show ?thesis using assms e by (auto simp: m)
  next
    case (snoc us x)
    obtain t c where x: "x = (t, c)" by (cases x)
    with snoc assms(1) have s: "seg m p us t" "d_delta (m t) = c" "d_next (m t) = Some q" "d_prev (m q) = t"
      by (simp_all add: seg_append)
    have "seg ?m p us t \<longleftrightarrow> seg m p us t"
      by (rule seg_cong) (use assms snoc x s(4) e in \<open>auto simp: m image_iff\<close>)
    then show ?thesis using snoc x s assms e by (auto simp: seg_append m)
  qed
  then show ?thesis using e by (simp add: seg_append m)
qed

text \<open>\<open>ch_dlist_insert\<close> returns and leaves the list with the new element in its place.\<close>

lemma dlist_insert_holds:
  assumes h: "dlist_holds m xs" and p: "p \<notin> set (dlhp # map fst xs)"
  obtains m' where "ch_dlist_insert p d m = Some m'" and "dlist_holds m' (delta_insert p d xs)"
    and "\<forall>t. dnode.more (m' t) = dnode.more (m t)"
    and "\<forall>t. t \<notin> set (dlhp # p # map fst xs) \<longrightarrow> m' t = m t"
proof -
  from h have s: "seg m dlhp xs dlhp" and di: "distinct (dlhp # map fst xs)" and hd: "d_delta (m dlhp) = -1"
    by (auto simp: dlist_holds_def)
  obtain ys zs e where xs: "xs = ys @ zs" and k: "dlist_seek m (first_of xs) d = Some (first_of zs, e)"
    and i: "delta_insert p d xs = ys @ delta_insert p e zs" and le: "zs = [] \<or> \<not> snd (hd zs) < e"
    using dlist_seek_splits[OF s hd, of d] by blast
  let ?q = "first_of zs"
  let ?m1 = "ch_dlist_insert_before ?q p e m"
  let ?m' = "set_delta dlhp (-1) (set_delta ?q (d_delta (?m1 ?q) - e) ?m1)"
  have r: "ch_dlist_insert p d m = Some ?m'"
    using k seg_next[OF s] by (simp add: ch_dlist_insert_def Let_def)
  have sy: "seg m dlhp ys ?q" using s xs by (simp add: seg_split)
  have q: "?q \<notin> set (map fst ys)" and pq: "p \<notin> set (dlhp # ?q # map fst ys)"
    using di p xs by (auto simp: first_of_def split: list.splits)
  have l: "d_prev (m ?q) = last (dlhp # map fst ys)" by (rule seg_prev[OF sy])
  then have lin: "d_prev (m ?q) \<in> set (dlhp # map fst ys)" by (metis last_in_set list.distinct(1))
  with pq have e2: "p \<noteq> ?q" "p \<noteq> d_prev (m ?q)" by auto
  note m1 = insert_before_memory[of p ?q m, OF e2]
  have s1: "seg ?m1 dlhp (ys @ [(p, e)]) ?q"
    by (rule insert_before_seg[OF sy pq _ q]) (use di xs in auto)
  have "seg ?m' dlhp (ys @ [(p, e)]) ?q \<longleftrightarrow> seg ?m1 dlhp (ys @ [(p, e)]) ?q"
    by (rule seg_cong) (use di p xs q pq in \<open>auto simp: dmem_defs image_iff\<close>)
  with s1 have s2: "seg ?m' dlhp ys p" "d_delta (?m' p) = e" "d_next (?m' p) = Some ?q" "d_prev (?m' ?q) = p"
    by (simp_all add: seg_append)
  have "dlist_holds ?m' (ys @ delta_insert p e zs)"
  proof (cases zs)
    case Nil
    then show ?thesis
      using s2 di p xs by (auto simp: dlist_holds_def seg_append first_of_def dmem_defs)
  next
    case (Cons z us)
    obtain t c where z: "z = (t, c)" by (cases z)
    with Cons xs s have su: "d_delta (m t) = c" "seg m t us dlhp" by (simp_all add: seg_append)
    have tq: "?q = t" using Cons z by (simp add: first_of_def)
    note mt = m1[unfolded tq]
    have ln: "d_prev (m t) \<notin> set (t # map fst us)" 
      by (rule distinct_apart[of "dlhp # map fst ys"]) (use lin di xs Cons z tq in simp_all)
    have "seg ?m' t us dlhp \<longleftrightarrow> seg m t us dlhp"
      by (rule seg_cong) (use di p xs Cons z ln tq in \<open>auto simp: dmem_defs mt image_iff\<close>)
    moreover have "d_delta (?m' t) = c - e" using di xs Cons z su tq p by (auto simp: dmem_defs mt)
    ultimately show ?thesis
      using s2 su di p xs Cons z le tq by (auto simp: dlist_holds_def seg_append dmem_defs)
  qed
  moreover have "\<forall>t. dnode.more (?m' t) = dnode.more (m t)" by (simp add: dmem_defs m1)
  moreover have "\<forall>t. t \<notin> set (dlhp # p # map fst xs) \<longrightarrow> ?m' t = m t"
  proof -
    have "?q \<in> set (dlhp # map fst xs)" "d_prev (m ?q) \<in> set (dlhp # map fst xs)"
      using lin xs by (auto simp: first_of_def split: list.splits)
    then show ?thesis by (auto simp: dmem_defs m1)
  qed
  ultimately show ?thesis using that[OF r] i by simp
qed

text \<open>Unlinking an element, its own links left as they are.\<close>

lemma dequeue_memory:
  assumes "d_next (m p) = Some q" and "p \<noteq> d_prev (m p)"
  shows "ch_dlist_dequeue p m = Some (\<lambda>t.
     (m t)\<lparr>d_next := (if t = d_prev (m p) then Some q else d_next (m t)),
            d_prev := (if t = q then d_prev (m p) else d_prev (m t))\<rparr>)"
  using assms by (auto simp: ch_dlist_dequeue_def dmem_defs Let_def fun_eq_iff)

lemma dequeue_seg:
  assumes s: "seg m dlhp (ys @ (p, d) # zs) dlhp" and di: "distinct (dlhp # map fst (ys @ (p, d) # zs))"
  obtains m' where "ch_dlist_dequeue p m = Some m'" and "seg m' dlhp (ys @ zs) dlhp"
    and "\<forall>t. d_delta (m' t) = d_delta (m t) \<and> dnode.more (m' t) = dnode.more (m t)"
    and "d_next (m' p) = Some (first_of zs)"
    and "\<forall>t. t \<notin> set (dlhp # map fst (ys @ zs)) \<longrightarrow> m' t = m t"
proof -
  from s have sy: "seg m dlhp ys p" and sz: "seg m p zs dlhp" by (simp_all add: seg_append)
  let ?l = "d_prev (m p)" and ?q = "first_of zs"
  have l: "?l = last (dlhp # map fst ys)" by (rule seg_prev[OF sy])
  then have lin: "?l \<in> set (dlhp # map fst ys)" by (metis last_in_set list.distinct(1))
  have q: "?q \<in> set (dlhp # map fst zs)" by (auto simp: first_of_def split: list.splits)
  have pl: "p \<noteq> ?l"
    using distinct_apart[of "dlhp # map fst ys" "[p]" ?l] lin di by simp
  define m' where "m' = (\<lambda>t. (m t)\<lparr>d_next := (if t = ?l then Some ?q else d_next (m t)),
     d_prev := (if t = ?q then ?l else d_prev (m t))\<rparr>)"
  have r: "ch_dlist_dequeue p m = Some m'"
    unfolding m'_def by (rule dequeue_memory[of m p, OF seg_next[OF sz] pl])
  have "seg m' dlhp ys ?q"
  proof (cases ys rule: rev_cases)
    case Nil
    then show ?thesis using l by (auto simp: m'_def)
  next
    case (snoc us x)
    obtain t c where x: "x = (t, c)" by (cases x)
    with snoc sy have u: "seg m dlhp us t" "d_delta (m t) = c" by (simp_all add: seg_append)
    have "seg m' dlhp us t \<longleftrightarrow> seg m dlhp us t"
      by (rule seg_cong) (use di snoc x l q in \<open>auto simp: m'_def image_iff\<close>)
    then show ?thesis using snoc x u l by (simp add: seg_append m'_def)
  qed
  moreover have "case zs of [] \<Rightarrow> True | (t, d) # us \<Rightarrow> d_delta (m' t) = d \<and> seg m' t us dlhp"
  proof (cases zs)
    case (Cons z us)
    obtain t c where z: "z = (t, c)" by (cases z)
    have ln: "?l \<notin> set (t # map fst us)" 
      by (rule distinct_apart[of "dlhp # map fst ys"]) (use lin di Cons z in simp_all)
    have "seg m' t us dlhp \<longleftrightarrow> seg m t us dlhp"
      by (rule seg_cong) (use di Cons z ln in \<open>auto simp: m'_def first_of_def\<close>)
    then show ?thesis using sz Cons z by (simp add: m'_def)
  qed simp
  ultimately have "seg m' dlhp (ys @ zs) dlhp" by (simp add: seg_split)
  moreover have "d_next (m' p) = Some ?q" using pl seg_next[OF sz] by (simp add: m'_def)
  moreover have "\<forall>t. t \<notin> set (dlhp # map fst (ys @ zs)) \<longrightarrow> m' t = m t"
    using lin q by (auto simp: m'_def)
  ultimately show ?thesis using that[OF r] by (simp add: m'_def)
qed

subsection \<open>Times\<close>

text \<open>The times of the elements, counted from \<open>b\<close>, and the two operations on them: an element goes in
  front of the first one that is not earlier.\<close>

fun times_from :: "nat \<Rightarrow> (nat \<times> u32) list \<Rightarrow> (nat \<times> nat) list" where
  "times_from b [] = []"
| "times_from b ((t, d) # xs) = (t, b + unat d) # times_from (b + unat d) xs"

definition timed_insert :: "nat \<Rightarrow> nat \<Rightarrow> (nat \<times> nat) list \<Rightarrow> (nat \<times> nat) list" where
  "timed_insert p d ys = takeWhile (\<lambda>y. snd y < d) ys @ (p, d) # dropWhile (\<lambda>y. snd y < d) ys"

definition timed_remove :: "nat \<Rightarrow> (nat \<times> nat) list \<Rightarrow> (nat \<times> nat) list" where
  "timed_remove p ys = filter (\<lambda>y. fst y \<noteq> p) ys"

definition delta_sum :: "(nat \<times> u32) list \<Rightarrow> nat" where
  "delta_sum xs = sum_list (map (unat \<circ> snd) xs)"

lemma map_fst_times [simp]: "map fst (times_from b xs) = map fst xs"
  by (induction b xs rule: times_from.induct) auto

lemma times_from_Nil_iff [simp]: "times_from b xs = [] \<longleftrightarrow> xs = []" "[] = times_from b xs \<longleftrightarrow> xs = []"
  by (cases xs; auto)+

lemma times_from_append: "times_from b (xs @ ys) = times_from b xs @ times_from (b + delta_sum xs) ys"
  by (induction b xs rule: times_from.induct) (auto simp: delta_sum_def add.assoc)

lemma times_from_sorted: "sorted (map snd (times_from b xs)) \<and> (\<forall>y \<in> set (times_from b xs). b \<le> snd y \<and> snd y \<le> b + delta_sum xs)"
proof (induction b xs rule: times_from.induct)
  case (2 b t d xs)
  then show ?case by (fastforce simp: delta_sum_def)
qed simp

lemma unat_sub_le: "b \<le> a \<Longrightarrow> unat ((a :: u32) - b) = unat a - unat b"
  by (simp add: unat_sub_wrap)

lemma times_from_insert: "times_from b (delta_insert p d xs) = timed_insert p (b + unat d) (times_from b xs)"
proof (induction xs arbitrary: b d)
  case Nil
  then show ?case by (simp add: timed_insert_def)
next
  case (Cons x xs)
  obtain t e where x: "x = (t, e)" by (cases x)
  show ?case
  proof (cases "e < d")
    case True
    then have "unat e < unat d" "unat (d - e) = unat d - unat e"
      by (simp_all add: word_less_nat_alt unat_sub_le word_le_nat_alt)
    with True x Cons[of "b + unat e" "d - e"] show ?thesis by (simp add: timed_insert_def)
  next
    case False
    then have "unat d \<le> unat e" "unat (e - d) = unat e - unat d"
      by (simp_all add: word_less_nat_alt unat_sub_le word_le_nat_alt)
    with False x show ?thesis by (simp add: timed_insert_def)
  qed
qed

lemma delta_sum_insert: "delta_sum (delta_insert p d xs) = max (unat d) (delta_sum xs)"
proof (induction xs arbitrary: d)
  case (Cons x xs)
  obtain t e where x: "x = (t, e)" by (cases x)
  show ?case
  proof (cases "e < d")
    case True
    then have "unat e < unat d" "unat (d - e) = unat d - unat e"
      by (simp_all add: word_less_nat_alt unat_sub_le word_le_nat_alt)
    with True x Cons[of "d - e"] show ?thesis by (simp add: delta_sum_def)
  next
    case False
    then have "unat d \<le> unat e" "unat (e - d) = unat e - unat d"
      by (simp_all add: word_less_nat_alt unat_sub_le word_le_nat_alt)
    with False x show ?thesis by (simp add: delta_sum_def)
  qed
qed (simp add: delta_sum_def)

lemma delta_remove_behind: "us \<noteq> [] \<Longrightarrow> t \<noteq> p \<Longrightarrow> delta_remove p ((t, e) # us) = (t, e) # delta_remove p us"
  by (cases us) auto

lemma delta_remove_at:
  "p \<notin> set (map fst ys) \<Longrightarrow>
   delta_remove p (ys @ (p, d) # zs) = ys @ (case zs of [] \<Rightarrow> [] | (s, f) # us \<Rightarrow> (s, f + d) # us)"
proof (induction ys)
  case Nil
  then show ?case by (auto split: list.splits)
next
  case (Cons y ys)
  then show ?case by (cases y) (simp add: delta_remove_behind)
qed

lemma map_fst_delta_remove:
  "p \<notin> set (map fst us) \<Longrightarrow> map fst (delta_remove p (us @ (p, d) # zs)) = map fst (us @ zs)"
  by (cases zs) (simp_all add: delta_remove_at split: prod.splits)

lemma times_from_remove:
  assumes "distinct (map fst (ys @ (p, d) # zs))" and "delta_sum (ys @ (p, d) # zs) < 2 ^ 32"
  shows "times_from b (delta_remove p (ys @ (p, d) # zs)) = timed_remove p (times_from b (ys @ (p, d) # zs))"
proof -
  have no: "\<And>c us. p \<notin> fst ` set us \<Longrightarrow> filter (\<lambda>y. fst y \<noteq> p) (times_from c us) = times_from c us"
    by (metis (mono_tags, lifting) filter_True image_eqI map_fst_times set_map)
  have s: "unat (f + d) = unat f + unat d" if "zs = (s, f) # us" for s f us
    using assms(2) that unat_add_lem[of f d] by (simp add: delta_sum_def)
  show ?thesis
  proof (cases zs)
    case Nil
    then show ?thesis using assms no by (simp add: delta_remove_at times_from_append timed_remove_def)
  next
    case (Cons z us)
    obtain q f where z: "z = (q, f)" by (cases z)
    show ?thesis
      using assms no[of ys] no[of us] Cons z s[of q f us]
      by (auto simp: delta_remove_at times_from_append timed_remove_def delta_sum_def ac_simps)
  qed
qed

lemma delta_sum_remove:
  assumes "distinct (map fst (ys @ (p, d) # zs))" and "delta_sum (ys @ (p, d) # zs) < 2 ^ 32"
  shows "delta_sum (delta_remove p (ys @ (p, d) # zs)) < 2 ^ 32"
proof (cases zs)
  case (Cons z us)
  obtain q f where z: "z = (q, f)" by (cases z)
  have "unat (f + d) \<le> unat f + unat d" by (simp add: unat_word_ariths)
  then show ?thesis using assms Cons z by (simp add: delta_remove_at delta_sum_def)
qed (use assms in \<open>simp add: delta_remove_at delta_sum_def\<close>)

text \<open>Taking an element out: after the unlinking its own link is cleared and its delta goes to the next.\<close>

lemma unlink_holds:
  fixes m :: "'z dmem"
  assumes h: "dlist_holds m (us @ (p, d) # zs)"
  obtains m1 where "ch_dlist_dequeue p m = Some m1" and "d_next (m1 p) = Some (first_of zs)"
    and "\<forall>t. d_delta (m1 t) = d_delta (m t) \<and> dnode.more (m1 t) = dnode.more (m t)"
    and "\<forall>t. t \<notin> set (dlhp # map fst (us @ zs)) \<longrightarrow> m1 t = m t"
    and "\<And>m2 :: 'z dmem. (\<And>t. d_prev (m2 t) = d_prev (m1 t)) \<Longrightarrow>
      (\<And>t. d_next (m2 t) = (if t = p then None else d_next (m1 t))) \<Longrightarrow>
      (\<And>t. d_delta (m2 t) = (if t = dlhp then -1 else if t = first_of zs then d_delta (m t) + d else d_delta (m t))) \<Longrightarrow>
      dlist_holds m2 (delta_remove p (us @ (p, d) # zs))"
proof -
  from h have s: "seg m dlhp (us @ (p, d) # zs) dlhp" and di: "distinct (dlhp # map fst (us @ (p, d) # zs))"
    by (simp_all add: dlist_holds_def)
  obtain m1 where m1: "ch_dlist_dequeue p m = Some m1" "seg m1 dlhp (us @ zs) dlhp"
      "\<forall>t. d_delta (m1 t) = d_delta (m t) \<and> dnode.more (m1 t) = dnode.more (m t)"
      "d_next (m1 p) = Some (first_of zs)" "\<forall>t. t \<notin> set (dlhp # map fst (us @ zs)) \<longrightarrow> m1 t = m t"
    by (rule dequeue_seg[OF s di])
  have "dlist_holds m2 (delta_remove p (us @ (p, d) # zs))"
    if pr: "\<And>t. d_prev (m2 t) = d_prev (m1 t)" and ne: "\<And>t. d_next (m2 t) = (if t = p then None else d_next (m1 t))"
      and de: "\<And>t. d_delta (m2 t) = (if t = dlhp then -1 else if t = first_of zs then d_delta (m t) + d else d_delta (m t))" for m2 :: "'z dmem"
  proof -
    have p: "p \<notin> set (dlhp # map fst us)" "p \<notin> set (map fst zs)" using di by auto
    have u: "seg m2 dlhp us (first_of zs) \<longleftrightarrow> seg m1 dlhp us (first_of zs)"
      by (rule seg_cong) (use pr ne de p m1(3) di in \<open>auto simp: first_of_def split: list.splits\<close>)
    show ?thesis
    proof (cases zs)
      case Nil
      then show ?thesis using u m1(2) de p di by (simp add: dlist_holds_def delta_remove_at first_of_def)
    next
      case (Cons z vs)
      obtain q f where z: "z = (q, f)" by (cases z)
      have w: "d_delta (m1 q) = f" "seg m1 q vs dlhp" "seg m1 dlhp us q"
        using m1(2) Cons z by (simp_all add: seg_append)
      have v: "seg m2 q vs dlhp \<longleftrightarrow> seg m1 q vs dlhp"
        by (rule seg_cong) (use pr ne de p m1(3) di Cons z in \<open>auto simp: first_of_def\<close>)
      have "d_delta (m2 q) = f + d" using de di Cons z w m1(3) by (auto simp: first_of_def)
      then show ?thesis
        using u v w Cons z p di de by (simp add: dlist_holds_def delta_remove_at first_of_def seg_append)
    qed
  qed
  then show ?thesis using that[OF m1(1,4,3,5)] by blast
qed

lemma remove_first_dequeue:
  assumes "dlist_holds m ((p, d) # zs)"
  shows "ch_dlist_remove_first m = do { m' \<leftarrow> ch_dlist_dequeue p m; Some (p, m') }"
  using assms by (auto simp: dlist_holds_def ch_dlist_remove_first_def ch_dlist_dequeue_def dmem_defs Let_def)

end
