(* ===== verification/Virtual_Timers.thy ===== *)
theory Virtual_Timers
  imports Delta_List Chibi_Time
begin

text \<open>
  The virtual timers of the kernel (\<open>ChibiOS/os/rt/src/chvt.c\<close>, the tickless variant that
  \<open>cfg/chconf.h\<close> selects): sleeping, the timeouts of every wait and the heartbeat run on them. One
  hardware alarm serves all timers, which wait in a delta list behind \<open>lasttime\<close>. The clock is a
  parameter, the sequence of its readings; the alarm register, the collected faults and the
  callbacks that were entered are part of the state. Callbacks are a parameter of the ticker, for
  they may call any of these functions.
\<close>

subsection \<open>State\<close>

record virtual_timer = dnode +
  vt_func :: nat
  vt_par :: nat
  vt_reload :: u32

record virtual_timers =
  vt_mem :: "nat \<Rightarrow> virtual_timer"
  vt_lasttime :: u32
  vt_laststamp :: u64
  st_alarm :: "u32 option"
  rfcu_mask :: u32
  clk_reads :: nat
  vt_calls :: "(nat \<times> u32) list"

type_synonym clock = "nat \<Rightarrow> u32"

definition CH_CFG_ST_TIMEDELTA :: u32 where "CH_CFG_ST_TIMEDELTA = 10"
definition CH_RFCU_VT_INSUFFICIENT_DELTA :: u32 where "CH_RFCU_VT_INSUFFICIENT_DELTA = 1"
definition CH_RFCU_VT_SKIPPED_DEADLINE :: u32 where "CH_RFCU_VT_SKIPPED_DEADLINE = 2"

definition chVTGetSystemTimeX :: "clock \<Rightarrow> virtual_timers \<Rightarrow> u32 \<times> virtual_timers" where
  "chVTGetSystemTimeX clk s = (clk (clk_reads s), s\<lparr>clk_reads := Suc (clk_reads s)\<rparr>)"

definition chTimeAddX :: "u32 \<Rightarrow> u32 \<Rightarrow> u32" where
  "chTimeAddX systime interval = systime + interval"

definition chTimeDiffX :: "u32 \<Rightarrow> u32 \<Rightarrow> u32" where
  "chTimeDiffX start stop = stop - start"

definition port_timer_set_alarm :: "u32 \<Rightarrow> virtual_timers \<Rightarrow> virtual_timers" where
  "port_timer_set_alarm t s = s\<lparr>st_alarm := Some t\<rparr>"

definition chRFCUCollectFaultsI :: "u32 \<Rightarrow> virtual_timers \<Rightarrow> virtual_timers" where
  "chRFCUCollectFaultsI m s = s\<lparr>rfcu_mask := rfcu_mask s OR m\<rparr>"

definition chRFCUGetAndClearFaultsI :: "u32 \<Rightarrow> virtual_timers \<Rightarrow> u32 \<times> virtual_timers" where
  "chRFCUGetAndClearFaultsI msk s =
     (let m = rfcu_mask s AND msk in (m, s\<lparr>rfcu_mask := rfcu_mask s AND NOT m\<rparr>))"

definition vt_object_init :: "clock \<Rightarrow> virtual_timers \<Rightarrow> virtual_timers" where
  "vt_object_init clk s =
     (let s1 = s\<lparr>vt_mem := ch_dlist_init (vt_mem s), vt_lasttime := 0\<rparr>;
          (now, s2) = chVTGetSystemTimeX clk s1
      in s2\<lparr>vt_laststamp := ucast now\<rparr>)"

definition chVTObjectInit :: "nat \<Rightarrow> virtual_timers \<Rightarrow> virtual_timers" where
  "chVTObjectInit vtp s = s\<lparr>vt_mem := set_next vtp None (vt_mem s)\<rparr>"

subsection \<open>The alarm\<close>

partial_function (option) set_alarm_loop ::
    "clock \<Rightarrow> u32 \<Rightarrow> u32 \<Rightarrow> u32 \<Rightarrow> virtual_timers \<Rightarrow> (u32 \<times> virtual_timers) option" where
  "set_alarm_loop clk now delay currdelta s = (
     let (newnow, s1) = chVTGetSystemTimeX clk (port_timer_set_alarm (chTimeAddX now delay) s) in
     if chTimeDiffX now newnow < delay then Some (currdelta, s1)
     else set_alarm_loop clk newnow (currdelta + 1) (currdelta + 1) s1)"

text \<open>The check behind both loops.\<close>

definition note_skip :: "u32 \<Rightarrow> virtual_timers \<Rightarrow> virtual_timers" where
  "note_skip currdelta s =
     (if CH_CFG_ST_TIMEDELTA < currdelta then chRFCUCollectFaultsI CH_RFCU_VT_INSUFFICIENT_DELTA s else s)"

definition vt_set_alarm :: "clock \<Rightarrow> u32 \<Rightarrow> u32 \<Rightarrow> virtual_timers \<Rightarrow> virtual_timers option" where
  "vt_set_alarm clk now delay s = do {
     (currdelta, s1) \<leftarrow> set_alarm_loop clk now
        (if delay < CH_CFG_ST_TIMEDELTA then CH_CFG_ST_TIMEDELTA else delay) CH_CFG_ST_TIMEDELTA s;
     Some (note_skip currdelta s1) }"

partial_function (option) insert_first_loop ::
    "clock \<Rightarrow> u32 \<Rightarrow> u32 \<Rightarrow> u32 \<Rightarrow> virtual_timers \<Rightarrow> (u32 \<times> virtual_timers) option" where
  "insert_first_loop clk now delay currdelta s = (
     let (newnow, s1) = chVTGetSystemTimeX clk s in
     if chTimeDiffX now newnow < delay then Some (currdelta, s1)
     else insert_first_loop clk newnow (currdelta + 1) (currdelta + 1)
            (port_timer_set_alarm (chTimeAddX now (currdelta + 1)) s1))"

definition vt_insert_first :: "clock \<Rightarrow> nat \<Rightarrow> u32 \<Rightarrow> u32 \<Rightarrow> virtual_timers \<Rightarrow> virtual_timers option" where
  "vt_insert_first clk vtp now delay s = do {
     m \<leftarrow> ch_dlist_insert_after dlhp vtp delay (vt_mem s);
     let delay = (if delay < CH_CFG_ST_TIMEDELTA then CH_CFG_ST_TIMEDELTA else delay);
     let s1 = s\<lparr>vt_lasttime := now, vt_mem := m\<rparr>;
     (currdelta, s2) \<leftarrow> insert_first_loop clk now delay CH_CFG_ST_TIMEDELTA
        (port_timer_set_alarm (chTimeAddX (vt_lasttime s1) delay) s1);
     Some (note_skip currdelta s2) }"

definition vt_enqueue :: "clock \<Rightarrow> nat \<Rightarrow> u32 \<Rightarrow> virtual_timers \<Rightarrow> virtual_timers option" where
  "vt_enqueue clk vtp delay s = (
     let (now, s1) = chVTGetSystemTimeX clk s in
     if ch_dlist_isempty (vt_mem s1) then vt_insert_first clk vtp now delay s1
     else do {
       let nowdelta = chTimeDiffX (vt_lasttime s1) now;
       let delta = nowdelta + delay;
       let delta = (if delta < nowdelta then delay else delta);
       q \<leftarrow> d_next (vt_mem s1 dlhp);
       s2 \<leftarrow> (if delta < d_delta (vt_mem s1 q) then vt_set_alarm clk now delay s1 else Some s1);
       m \<leftarrow> ch_dlist_insert vtp delta (vt_mem s2);
       Some (s2\<lparr>vt_mem := m\<rparr>) })"

subsection \<open>Setting and resetting a timer\<close>

definition vt_setup :: "nat \<Rightarrow> nat \<Rightarrow> nat \<Rightarrow> u32 \<Rightarrow> virtual_timers \<Rightarrow> virtual_timers" where
  "vt_setup vtp vtfunc par reload s =
     s\<lparr>vt_mem := (vt_mem s)(vtp := (vt_mem s vtp)\<lparr>vt_par := par, vt_func := vtfunc, vt_reload := reload\<rparr>)\<rparr>"

definition chVTDoSetI :: "clock \<Rightarrow> nat \<Rightarrow> u32 \<Rightarrow> nat \<Rightarrow> nat \<Rightarrow> virtual_timers \<Rightarrow> virtual_timers option" where
  "chVTDoSetI clk vtp delay vtfunc par s = vt_enqueue clk vtp delay (vt_setup vtp vtfunc par 0 s)"

definition chVTDoSetContinuousI :: "clock \<Rightarrow> nat \<Rightarrow> u32 \<Rightarrow> nat \<Rightarrow> nat \<Rightarrow> virtual_timers \<Rightarrow> virtual_timers option" where
  "chVTDoSetContinuousI clk vtp delay vtfunc par s = vt_enqueue clk vtp delay (vt_setup vtp vtfunc par delay s)"

definition chVTIsArmedI :: "nat \<Rightarrow> virtual_timers \<Rightarrow> bool" where
  "chVTIsArmedI vtp s \<longleftrightarrow> d_next (vt_mem s vtp) \<noteq> None"

text \<open>Resetting a timer that is not the first one, and the first one.\<close>

definition reset_inner :: "nat \<Rightarrow> virtual_timers \<Rightarrow> virtual_timers option" where
  "reset_inner vtp s = do {
     m1 \<leftarrow> ch_dlist_dequeue vtp (vt_mem s);
     q \<leftarrow> d_next (m1 vtp);
     let m2 = set_delta q (d_delta (m1 q) + d_delta (m1 vtp)) m1;
     Some (s\<lparr>vt_mem := set_delta dlhp (-1) (set_next vtp None m2)\<rparr>) }"

definition reset_first :: "clock \<Rightarrow> nat \<Rightarrow> virtual_timers \<Rightarrow> virtual_timers option" where
  "reset_first clk vtp s = do {
     (_, m1) \<leftarrow> ch_dlist_remove_first (vt_mem s);
     let m2 = set_next vtp None m1;
     if ch_dlist_isempty m2 then Some (s\<lparr>vt_mem := m2, st_alarm := None\<rparr>)
     else do {
       q \<leftarrow> d_next (m2 dlhp);
       let m3 = set_delta q (d_delta (m2 q) + d_delta (m2 vtp)) m2;
       let (now, s1) = chVTGetSystemTimeX clk (s\<lparr>vt_mem := m3\<rparr>);
       let nowdelta = chTimeDiffX (vt_lasttime s1) now;
       if d_delta (m3 q) \<le> nowdelta then Some s1
       else vt_set_alarm clk now (d_delta (m3 q) - nowdelta) s1 } }"

definition chVTDoResetI :: "clock \<Rightarrow> nat \<Rightarrow> virtual_timers \<Rightarrow> virtual_timers option" where
  "chVTDoResetI clk vtp s =
     (if \<not> ch_dlist_isfirst vtp (vt_mem s) then reset_inner vtp s else reset_first clk vtp s)"

definition chVTResetI :: "clock \<Rightarrow> nat \<Rightarrow> virtual_timers \<Rightarrow> virtual_timers option" where
  "chVTResetI clk vtp s = (if chVTIsArmedI vtp s then chVTDoResetI clk vtp s else Some s)"

definition chVTSetI :: "clock \<Rightarrow> nat \<Rightarrow> u32 \<Rightarrow> nat \<Rightarrow> nat \<Rightarrow> virtual_timers \<Rightarrow> virtual_timers option" where
  "chVTSetI clk vtp delay vtfunc par s = do { s1 \<leftarrow> chVTResetI clk vtp s; chVTDoSetI clk vtp delay vtfunc par s1 }"

definition chVTSetContinuousI :: "clock \<Rightarrow> nat \<Rightarrow> u32 \<Rightarrow> nat \<Rightarrow> nat \<Rightarrow> virtual_timers \<Rightarrow> virtual_timers option" where
  "chVTSetContinuousI clk vtp delay vtfunc par s =
     do { s1 \<leftarrow> chVTResetI clk vtp s; chVTDoSetContinuousI clk vtp delay vtfunc par s1 }"

subsection \<open>Queries\<close>

definition chVTGetTimersStateI :: "clock \<Rightarrow> virtual_timers \<Rightarrow> (u32 option \<times> virtual_timers) option" where
  "chVTGetTimersStateI clk s =
     (if d_next (vt_mem s dlhp) = Some dlhp then Some (None, s)
      else do {
        q \<leftarrow> d_next (vt_mem s dlhp);
        let (now, s1) = chVTGetSystemTimeX clk s;
        Some (Some (d_delta (vt_mem s q) + CH_CFG_ST_TIMEDELTA - chTimeDiffX (vt_lasttime s1) now), s1) })"

partial_function (option) remaining_loop ::
    "clock \<Rightarrow> nat \<Rightarrow> nat \<Rightarrow> u32 \<Rightarrow> virtual_timers \<Rightarrow> (u32 \<times> virtual_timers) option" where
  "remaining_loop clk vtp dlp delta s = (
     let delta = delta + d_delta (vt_mem s dlp) in
     if dlp = vtp then
       (let (now, s1) = chVTGetSystemTimeX clk s;
            nowdelta = chTimeDiffX (vt_lasttime s1) now
        in Some (if delta < nowdelta then 0 else delta - nowdelta, s1))
     else do {
       q \<leftarrow> d_next (vt_mem s dlp);
       if q \<noteq> dlhp then remaining_loop clk vtp q delta s else Some (-1, s) })"

definition chVTGetRemainingIntervalI :: "clock \<Rightarrow> nat \<Rightarrow> virtual_timers \<Rightarrow> (u32 \<times> virtual_timers) option" where
  "chVTGetRemainingIntervalI clk vtp s = do {
     dlp \<leftarrow> d_next (vt_mem s dlhp);
     remaining_loop clk vtp dlp 0 s }"

definition chVTGetTimeStampI :: "clock \<Rightarrow> virtual_timers \<Rightarrow> u64 \<times> virtual_timers" where
  "chVTGetTimeStampI clk s =
     (let (now, s1) = chVTGetSystemTimeX clk s;
          last_stamp = vt_laststamp s1;
          stamp = last_stamp + ucast (chTimeDiffX (ucast last_stamp) now)
      in (stamp, s1\<lparr>vt_laststamp := stamp\<rparr>))"

definition chVTResetTimeStampI :: "clock \<Rightarrow> virtual_timers \<Rightarrow> virtual_timers" where
  "chVTResetTimeStampI clk s = (let (now, s1) = chVTGetSystemTimeX clk s in s1\<lparr>vt_laststamp := ucast now\<rparr>)"

subsection \<open>The ticker\<close>

type_synonym callbacks = "nat \<Rightarrow> nat \<Rightarrow> nat \<Rightarrow> virtual_timers \<Rightarrow> virtual_timers option"

text \<open>The timer at the head is due: it is taken out of the list and its callback is entered.\<close>

definition fire :: "callbacks \<Rightarrow> nat \<Rightarrow> u32 \<Rightarrow> virtual_timers \<Rightarrow> (u32 \<times> virtual_timers) option" where
  "fire cb vtp now s = do {
     let lasttime = chTimeAddX (vt_lasttime s) (d_delta (vt_mem s vtp));
     m \<leftarrow> ch_dlist_dequeue vtp (vt_mem s);
     let s1 = s\<lparr>vt_lasttime := lasttime, vt_mem := set_next vtp None m\<rparr>;
     let s2 = (if ch_dlist_isempty (vt_mem s1) then s1\<lparr>st_alarm := None\<rparr> else s1);
     s3 \<leftarrow> cb (vt_func (vt_mem s2 vtp)) vtp (vt_par (vt_mem s2 vtp)) (s2\<lparr>vt_calls := vt_calls s2 @ [(vtp, now)]\<rparr>);
     Some (lasttime, s3) }"

text \<open>Restarting a continuous timer: the delay that is left of its period.\<close>

definition reload_delay :: "nat \<Rightarrow> u32 \<Rightarrow> virtual_timers \<Rightarrow> u32 \<times> virtual_timers" where
  "reload_delay vtp nowdelta s =
     (let reload = vt_reload (vt_mem s vtp) in
      if reload < nowdelta then (0, chRFCUCollectFaultsI CH_RFCU_VT_SKIPPED_DEADLINE s)
      else (reload - nowdelta, s))"

text \<open>The loop ends at the head whose time has not come, or, after a restart into the empty list, with
  nothing left to do. The header is no timer: that the loop would enter its callback is undefined.\<close>

partial_function (option) tick_loop ::
    "callbacks \<Rightarrow> clock \<Rightarrow> virtual_timers \<Rightarrow> ((nat \<times> u32 \<times> u32) option \<times> virtual_timers) option" where
  "tick_loop cb clk s = do {
     vtp \<leftarrow> d_next (vt_mem s dlhp);
     let (now, s1) = chVTGetSystemTimeX clk s;
     let nowdelta = chTimeDiffX (vt_lasttime s1) now;
     if nowdelta < d_delta (vt_mem s1 vtp) then Some (Some (vtp, nowdelta, now), s1)
     else if vtp = dlhp then None
     else do {
       (lasttime, s2) \<leftarrow> fire cb vtp now s1;
       if 0 < vt_reload (vt_mem s2 vtp) then do {
         let (now, s3) = chVTGetSystemTimeX clk s2;
         let nowdelta = chTimeDiffX lasttime now;
         let (delay, s4) = reload_delay vtp nowdelta s3;
         if ch_dlist_isempty (vt_mem s4) then do { s5 \<leftarrow> vt_insert_first clk vtp now delay s4; Some (None, s5) }
         else do {
           let delta = nowdelta + delay;
           m \<leftarrow> ch_dlist_insert vtp (if delta < nowdelta then delay else delta) (vt_mem s4);
           tick_loop cb clk (s4\<lparr>vt_mem := m\<rparr>) } }
       else tick_loop cb clk s2 } }"

definition chVTDoTickI :: "callbacks \<Rightarrow> clock \<Rightarrow> virtual_timers \<Rightarrow> virtual_timers option" where
  "chVTDoTickI cb clk s = do {
     (r, s1) \<leftarrow> tick_loop cb clk s;
     (case r of
        None \<Rightarrow> Some s1
      | Some (vtp, nowdelta, now) \<Rightarrow>
          if ch_dlist_isempty (vt_mem s1) then Some s1
          else do {
            let s2 = s1\<lparr>vt_lasttime := vt_lasttime s1 + nowdelta,
                        vt_mem := set_delta vtp (d_delta (vt_mem s1 vtp) - nowdelta) (vt_mem s1)\<rparr>;
            vt_set_alarm clk now (d_delta (vt_mem s2 vtp)) s2 }) }"

subsection \<open>The alarm is set ahead of the clock\<close>

text \<open>\<open>settles clk i\<close>: at some point after reading \<open>i\<close>, and not after more than a thousand readings, two
  readings in a row are less than the minimum delta apart.\<close>

definition settles :: "clock \<Rightarrow> nat \<Rightarrow> bool" where
  "settles clk i \<longleftrightarrow> (\<exists>k<1000. chTimeDiffX (clk (i + k)) (clk (Suc (i + k))) < CH_CFG_ST_TIMEDELTA)"

lemmas vt_simps = chVTGetSystemTimeX_def port_timer_set_alarm_def chTimeAddX_def chTimeDiffX_def

lemma set_alarm_at_once:
  assumes "chTimeDiffX now (clk (clk_reads s)) < delay"
  shows "set_alarm_loop clk now delay currdelta s =
     Some (currdelta, s\<lparr>st_alarm := Some (now + delay), clk_reads := Suc (clk_reads s)\<rparr>)"
  using assms by (subst set_alarm_loop.simps) (simp add: vt_simps)

lemma ahead_of_reading:
  assumes "chTimeDiffX now r < delay"
  shows "\<exists>a. now + delay = r + a \<and> 0 < a \<and> a \<le> delay"
proof (intro exI conjI)
  have "unat (r - now) < unat delay" using assms by (simp add: chTimeDiffX_def word_less_nat_alt)
  then have "unat (delay - (r - now)) = unat delay - unat (r - now)" by (simp add: unat_sub_le word_le_nat_alt)
  then show "0 < delay - (r - now)" "delay - (r - now) \<le> delay"
    using \<open>unat (r - now) < unat delay\<close> by (simp_all add: word_less_nat_alt word_le_nat_alt)
  show "now + delay = r + (delay - (r - now))" by simp
qed

lemma set_alarm_loop_returns:
  assumes "chTimeDiffX (clk (i + k)) (clk (Suc (i + k))) < CH_CFG_ST_TIMEDELTA"
    and "clk_reads s = Suc i" and "CH_CFG_ST_TIMEDELTA \<le> delay" and "CH_CFG_ST_TIMEDELTA \<le> currdelta"
    and "unat currdelta + k < 2 ^ 32"
  shows "\<exists>j a. set_alarm_loop clk (clk i) delay currdelta s =
       Some (currdelta + of_nat j, s\<lparr>st_alarm := Some (clk (Suc (i + j)) + a), clk_reads := Suc (Suc (i + j))\<rparr>) \<and>
     j \<le> k \<and> 0 < a \<and> a \<le> (if j = 0 then delay else currdelta + of_nat j)"
  using assms
proof (induction k arbitrary: i delay currdelta s)
  case 0
  then have l: "chTimeDiffX (clk i) (clk (clk_reads s)) < delay" by simp
  obtain a where "clk i + delay = clk (Suc i) + a" "0 < a" "a \<le> delay"
    using ahead_of_reading[of "clk i" "clk (Suc i)" delay] l 0 by auto
  then show ?case using set_alarm_at_once[of "clk i" clk s delay, OF l] 0 by (intro exI[of _ 0] exI[of _ a]) simp
next
  case (Suc k)
  show ?case
  proof (cases "chTimeDiffX (clk i) (clk (Suc i)) < delay")
    case True
    obtain a where "clk i + delay = clk (Suc i) + a" "0 < a" "a \<le> delay"
      using ahead_of_reading[OF True] by auto
    then show ?thesis using set_alarm_at_once[of "clk i" clk s delay] True Suc.prems(2) by (intro exI[of _ 0] exI[of _ a]) simp
  next
    case False
    let ?s = "s\<lparr>st_alarm := Some (clk i + delay), clk_reads := Suc (Suc i)\<rparr>"
    have n: "unat (currdelta + 1) = Suc (unat currdelta)"
      using Suc.prems(5) by (simp add: unat_word_ariths)
    have "CH_CFG_ST_TIMEDELTA \<le> currdelta + 1"
      using Suc.prems(4) n by (simp add: word_le_nat_alt)
    with Suc.IH[of "Suc i" ?s "currdelta + 1" "currdelta + 1"] Suc.prems n obtain j a where
      r: "set_alarm_loop clk (clk (Suc i)) (currdelta + 1) (currdelta + 1) ?s =
        Some (currdelta + 1 + of_nat j, ?s\<lparr>st_alarm := Some (clk (Suc (Suc i + j)) + a), clk_reads := Suc (Suc (Suc i + j))\<rparr>)"
      and j: "j \<le> k" "0 < a" "a \<le> (if j = 0 then currdelta + 1 else currdelta + 1 + of_nat j)" by auto
    have "set_alarm_loop clk (clk i) delay currdelta s = set_alarm_loop clk (clk (Suc i)) (currdelta + 1) (currdelta + 1) ?s"
      using False Suc.prems(2) by (subst set_alarm_loop.simps) (simp add: vt_simps)
    with r j show ?thesis
      by (intro exI[of _ "Suc j"] exI[of _ a]) (auto simp: ac_simps split: if_splits)
  qed
qed

text \<open>\<open>vt_set_alarm\<close> returns and the alarm lies ahead of the last reading of the clock; when the first
  reading is in time, it is the deadline that was asked for, raised to the minimum delta.\<close>

lemma vt_set_alarm_ahead:
  assumes "settles clk i" and "clk_reads s = Suc i"
  shows "\<exists>j a f. vt_set_alarm clk (clk i) delay s =
       Some (s\<lparr>st_alarm := Some (clk (Suc (i + j)) + a), clk_reads := Suc (Suc (i + j)), rfcu_mask := f\<rparr>) \<and>
     j < 1000 \<and> 0 < a \<and> a \<le> max delay (CH_CFG_ST_TIMEDELTA + 1000) \<and> (f = rfcu_mask s \<or> 0 < j)"
proof -
  obtain k where k: "k < 1000" "chTimeDiffX (clk (i + k)) (clk (Suc (i + k))) < CH_CFG_ST_TIMEDELTA"
    using assms(1) by (auto simp: settles_def)
  let ?d = "if delay < CH_CFG_ST_TIMEDELTA then CH_CFG_ST_TIMEDELTA else delay"
  have "CH_CFG_ST_TIMEDELTA \<le> ?d" "unat CH_CFG_ST_TIMEDELTA + k < 2 ^ 32"
    using k(1) by (simp_all add: CH_CFG_ST_TIMEDELTA_def not_less)
  from set_alarm_loop_returns[OF k(2) assms(2) this(1) order_refl this(2)]
  obtain j a where r: "set_alarm_loop clk (clk i) ?d CH_CFG_ST_TIMEDELTA s =
       Some (CH_CFG_ST_TIMEDELTA + of_nat j, s\<lparr>st_alarm := Some (clk (Suc (i + j)) + a), clk_reads := Suc (Suc (i + j))\<rparr>)"
    and j: "j \<le> k" "0 < a" "a \<le> (if j = 0 then ?d else CH_CFG_ST_TIMEDELTA + of_nat j)" by blast
  have "unat (10 + of_nat j :: u32) = 10 + j"
    using j(1) k(1) by (simp add: unat_word_ariths unat_of_nat)
  with j k(1) have "a \<le> max delay (CH_CFG_ST_TIMEDELTA + 1000)"
    by (auto simp: CH_CFG_ST_TIMEDELTA_def word_le_nat_alt word_less_nat_alt max_def split: if_splits)
  moreover have "vt_set_alarm clk (clk i) delay s = Some (s\<lparr>st_alarm := Some (clk (Suc (i + j)) + a), clk_reads := Suc (Suc (i + j)),
      rfcu_mask := (if j = 0 then rfcu_mask s else rfcu_mask s OR CH_RFCU_VT_INSUFFICIENT_DELTA)\<rparr>)"
    using r \<open>unat (10 + of_nat j :: u32) = 10 + j\<close>
    by (auto simp: vt_set_alarm_def note_skip_def chRFCUCollectFaultsI_def CH_CFG_ST_TIMEDELTA_def word_less_nat_alt)
  ultimately show ?thesis using j(1,2) k(1)
    by (intro exI[of _ j] exI[of _ a] exI[of _ "if j = 0 then rfcu_mask s else rfcu_mask s OR CH_RFCU_VT_INSUFFICIENT_DELTA"]) auto
qed

lemma insert_first_loop_returns:
  assumes "chTimeDiffX (clk (i + k)) (clk (Suc (i + k))) < CH_CFG_ST_TIMEDELTA"
    and "clk_reads s = Suc i" and "CH_CFG_ST_TIMEDELTA \<le> delay" and "CH_CFG_ST_TIMEDELTA \<le> currdelta"
    and "unat currdelta + k < 2 ^ 32"
  shows "\<exists>c a j. insert_first_loop clk (clk i) delay currdelta s = Some (c, s\<lparr>st_alarm := a, clk_reads := j\<rparr>) \<and> Suc i < j"
  using assms
proof (induction k arbitrary: i delay currdelta s)
  case 0
  then have "chTimeDiffX (clk i) (clk (Suc i)) < delay" by simp
  with 0 have "insert_first_loop clk (clk i) delay currdelta s = Some (currdelta, s\<lparr>st_alarm := st_alarm s, clk_reads := Suc (Suc i)\<rparr>)"
    by (subst insert_first_loop.simps) (simp add: vt_simps)
  then show ?case by blast
next
  case (Suc k)
  show ?case
  proof (cases "chTimeDiffX (clk i) (clk (Suc i)) < delay")
    case True
    then have "insert_first_loop clk (clk i) delay currdelta s = Some (currdelta, s\<lparr>st_alarm := st_alarm s, clk_reads := Suc (Suc i)\<rparr>)"
      using Suc.prems(2) by (subst insert_first_loop.simps) (simp add: vt_simps)
    then show ?thesis by blast
  next
    case False
    let ?s = "s\<lparr>clk_reads := Suc (Suc i), st_alarm := Some (clk i + (currdelta + 1))\<rparr>"
    have n: "unat (currdelta + 1) = Suc (unat currdelta)"
      using Suc.prems(5) by (simp add: unat_word_ariths)
    have "CH_CFG_ST_TIMEDELTA \<le> currdelta + 1"
      using Suc.prems(4) n by (simp add: word_le_nat_alt)
    with Suc.IH[of "Suc i" ?s "currdelta + 1" "currdelta + 1"] Suc.prems n obtain c a j where
      r: "insert_first_loop clk (clk (Suc i)) (currdelta + 1) (currdelta + 1) ?s = Some (c, ?s\<lparr>st_alarm := a, clk_reads := j\<rparr>)"
      and "Suc (Suc i) < j" by auto
    moreover have "insert_first_loop clk (clk i) delay currdelta s =
        insert_first_loop clk (clk (Suc i)) (currdelta + 1) (currdelta + 1) ?s"
      using False Suc.prems(2) by (subst insert_first_loop.simps) (simp add: vt_simps)
    ultimately show ?thesis by (intro exI[of _ c] exI[of _ a] exI[of _ j]) simp
  qed
qed

lemma insert_first_loop_settles:
  assumes "settles clk i" and "clk_reads s = Suc i" and "CH_CFG_ST_TIMEDELTA \<le> delay"
  shows "\<exists>c a j. insert_first_loop clk (clk i) delay CH_CFG_ST_TIMEDELTA s = Some (c, s\<lparr>st_alarm := a, clk_reads := j\<rparr>) \<and> Suc i < j"
proof -
  obtain k where "k < 1000" "chTimeDiffX (clk (i + k)) (clk (Suc (i + k))) < CH_CFG_ST_TIMEDELTA"
    using assms(1) by (auto simp: settles_def)
  then show ?thesis
    using insert_first_loop_returns[of clk i k s delay CH_CFG_ST_TIMEDELTA] assms(2,3)
    by (simp add: CH_CFG_ST_TIMEDELTA_def)
qed

subsection \<open>The timers as a list of deadlines\<close>

text \<open>\<open>vt_holds L ys s\<close>: the armed timers are those of \<open>ys\<close>, in the order of their deadlines, which are
  times on the unbounded time axis; \<open>L\<close> is the time whose 32-bit value is \<open>lasttime\<close>.\<close>

definition vt_holds :: "nat \<Rightarrow> (nat \<times> nat) list \<Rightarrow> virtual_timers \<Rightarrow> bool" where
  "vt_holds L ys s \<longleftrightarrow> (\<exists>xs. dlist_holds (vt_mem s) xs \<and> delta_sum xs < 2 ^ 32 \<and> ys = times_from L xs \<and>
     vt_lasttime s = of_nat L \<and> (\<forall>t. t \<notin> set (dlhp # map fst xs) \<longrightarrow> d_next (vt_mem s t) = None))"

text \<open>The readings of the clock are the low 32 bits of the time.\<close>

abbreviation ticks :: "(nat \<Rightarrow> nat) \<Rightarrow> clock" where
  "ticks T \<equiv> (\<lambda>k. of_nat (T k))"

lemma dlist_holds_cong:
  assumes "\<And>t. d_next (m t) = d_next (m' t) \<and> d_prev (m t) = d_prev (m' t) \<and> d_delta (m t) = d_delta (m' t)"
  shows "dlist_holds m xs \<longleftrightarrow> dlist_holds m' xs"
  using seg_cong[of dlhp xs m m' dlhp] assms by (simp add: dlist_holds_def)

lemma vt_setup_holds: "vt_holds L ys (vt_setup vtp f p r s) \<longleftrightarrow> vt_holds L ys s"
proof -
  have "dlist_holds (vt_mem (vt_setup vtp f p r s)) xs \<longleftrightarrow> dlist_holds (vt_mem s) xs" for xs
    by (rule dlist_holds_cong) (simp add: vt_setup_def)
  moreover have "d_next (vt_mem (vt_setup vtp f p r s) t) = d_next (vt_mem s t)" for t
    by (simp add: vt_setup_def)
  ultimately show ?thesis by (simp add: vt_holds_def) (simp add: vt_setup_def)
qed

lemma vt_holds_mem:
  assumes "vt_mem s' = vt_mem s" and "vt_lasttime s' = vt_lasttime s"
  shows "vt_holds L ys s' \<longleftrightarrow> vt_holds L ys s"
  using assms by (simp add: vt_holds_def)

lemma elapsed_ticks:
  assumes "L \<le> N" and "N - L < 2 ^ 32"
  shows "unat (chTimeDiffX (of_nat L) (of_nat N :: u32)) = N - L"
proof -
  have "chTimeDiffX (of_nat L) (of_nat N :: u32) = of_nat (N - L)" using assms(1) by (simp add: chTimeDiffX_def of_nat_diff)
  then show ?thesis using assms(2) by (simp add: unat_of_nat)
qed

lemma insert_after_empty:
  assumes "dlist_holds m []" and "p \<noteq> dlhp"
  obtains m' where "ch_dlist_insert_after dlhp p d m = Some m'" and "dlist_holds m' [(p, d)]"
    and "\<forall>t. dnode.more (m' t) = dnode.more (m t)" and "\<forall>t. t \<notin> {dlhp, p} \<longrightarrow> m' t = m t"
  using assms by (auto simp: dlist_holds_def ch_dlist_insert_after_def dmem_defs Let_def)

lemma vt_insert_first_holds:
  assumes h: "vt_holds L [] s" and p: "vtp \<noteq> dlhp" and c: "settles (ticks T) i" "clk_reads s = Suc i"
  shows "\<exists>s'. vt_insert_first (ticks T) vtp (of_nat (T i)) delay s = Some s' \<and>
     vt_holds (T i) [(vtp, T i + unat delay)] s' \<and> vt_calls s' = vt_calls s \<and> Suc i < clk_reads s' \<and>
     (\<forall>t. dnode.more (vt_mem s' t) = dnode.more (vt_mem s t))"
proof -
  from h have e: "dlist_holds (vt_mem s) []" and n: "\<forall>t. t \<noteq> dlhp \<longrightarrow> d_next (vt_mem s t) = None"
    by (auto simp: vt_holds_def)
  obtain m where m: "ch_dlist_insert_after dlhp vtp delay (vt_mem s) = Some m" "dlist_holds m [(vtp, delay)]"
      "\<forall>t. dnode.more (m t) = dnode.more (vt_mem s t)" "\<forall>t. t \<notin> {dlhp, vtp} \<longrightarrow> m t = vt_mem s t"
    by (rule insert_after_empty[OF e p])
  let ?d = "if delay < CH_CFG_ST_TIMEDELTA then CH_CFG_ST_TIMEDELTA else delay"
  let ?s = "port_timer_set_alarm (chTimeAddX (of_nat (T i)) ?d) (s\<lparr>vt_lasttime := of_nat (T i), vt_mem := m\<rparr>)"
  have d: "CH_CFG_ST_TIMEDELTA \<le> ?d" by (simp add: not_less)
  have i: "clk_reads ?s = Suc i" using c(2) by (simp add: port_timer_set_alarm_def)
  from insert_first_loop_settles[OF c(1) i d] obtain cd a j where r: "insert_first_loop (ticks T) (of_nat (T i)) ?d CH_CFG_ST_TIMEDELTA ?s =
      Some (cd, ?s\<lparr>st_alarm := a, clk_reads := j\<rparr>)" "Suc i < j" by blast
  let ?s' = "note_skip cd (?s\<lparr>st_alarm := a, clk_reads := j\<rparr>)"
  have "vt_insert_first (ticks T) vtp (of_nat (T i)) delay s = Some ?s'"
    using m(1) r by (simp add: vt_insert_first_def Let_def)
  moreover have "vt_mem ?s' = m" "vt_lasttime ?s' = of_nat (T i)" "vt_calls ?s' = vt_calls s" "clk_reads ?s' = j"
    by (simp_all add: note_skip_def chRFCUCollectFaultsI_def port_timer_set_alarm_def)
  moreover from this have "vt_holds (T i) [(vtp, T i + unat delay)] ?s'"
    using m n unsigned_less[of delay] unfolding vt_holds_def
    by (intro exI[of _ "[(vtp, delay)]"]) (simp add: delta_sum_def)
  ultimately show ?thesis using m(3) r(2) by (intro exI[of _ ?s']) simp
qed

text \<open>Putting a timer into the list behind \<open>lasttime\<close>.\<close>

lemma vt_insert_holds:
  assumes h: "vt_holds L ys s" and p: "vtp \<notin> set (dlhp # map fst ys)"
  shows "\<exists>m. ch_dlist_insert vtp delta (vt_mem s) = Some m \<and>
     vt_holds L (timed_insert vtp (L + unat delta) ys) (s\<lparr>vt_mem := m\<rparr>) \<and>
     (\<forall>t. dnode.more (m t) = dnode.more (vt_mem s t))"
proof -
  from h obtain xs where x: "dlist_holds (vt_mem s) xs" "delta_sum xs < 2 ^ 32" "ys = times_from L xs"
      "vt_lasttime s = of_nat L" "\<forall>t. t \<notin> set (dlhp # map fst xs) \<longrightarrow> d_next (vt_mem s t) = None"
    by (auto simp: vt_holds_def)
  have p': "vtp \<notin> set (dlhp # map fst xs)" using p x(3) map_fst_times by metis
  obtain m where m: "ch_dlist_insert vtp delta (vt_mem s) = Some m" "dlist_holds m (delta_insert vtp delta xs)"
      "\<forall>t. dnode.more (m t) = dnode.more (vt_mem s t)" "\<forall>t. t \<notin> set (dlhp # vtp # map fst xs) \<longrightarrow> m t = vt_mem s t"
    by (rule dlist_insert_holds[OF x(1) p'])
  have f: "set (map fst (delta_insert vtp delta xs)) = set (vtp # map fst xs)"
    by (induction vtp delta xs rule: delta_insert.induct) auto
  have "vt_holds L (timed_insert vtp (L + unat delta) ys) (s\<lparr>vt_mem := m\<rparr>)"
    unfolding vt_holds_def using m(2,4) x f unsigned_less[of delta]
    by (intro exI[of _ "delta_insert vtp delta xs"]) (auto simp: delta_sum_insert times_from_insert)
  then show ?thesis using m by blast
qed

lemma vt_holds_first:
  assumes "vt_holds L ys s" and "ys \<noteq> []"
  shows "d_next (vt_mem s dlhp) = Some (fst (hd ys))" and "snd (hd ys) = L + unat (d_delta (vt_mem s (fst (hd ys))))"
    and "fst (hd ys) \<noteq> dlhp"
proof -
  from assms(1) obtain us where us: "ys = times_from L us" "dlist_holds (vt_mem s) us"
    by (auto simp: vt_holds_def)
  with assms(2) obtain t d xs where "us = (t, d) # xs" by (cases us) auto
  with us show "d_next (vt_mem s dlhp) = Some (fst (hd ys))" and "snd (hd ys) = L + unat (d_delta (vt_mem s (fst (hd ys))))"
    and "fst (hd ys) \<noteq> dlhp" by (auto simp: dlist_holds_def)
qed

lemma vt_holds_distinct: "vt_holds L ys s \<Longrightarrow> distinct (dlhp # map fst ys)"
  by (auto simp only: vt_holds_def dlist_holds_def map_fst_times)

lemma vt_holds_empty: "vt_holds L ys s \<Longrightarrow> ch_dlist_isempty (vt_mem s) \<longleftrightarrow> ys = []"
  by (auto simp: vt_holds_def dlist_empty_iff)

text \<open>What the timer functions leave alone.\<close>

definition keeps_timers :: "virtual_timers \<Rightarrow> virtual_timers \<Rightarrow> bool" where
  "keeps_timers s s' \<longleftrightarrow> vt_calls s' = vt_calls s \<and> clk_reads s < clk_reads s' \<and>
     (\<forall>t. dnode.more (vt_mem s' t) = dnode.more (vt_mem s t))"

lemma vt_set_alarm_frame:
  assumes "settles clk i" and "clk_reads s = Suc i"
  obtains s' where "vt_set_alarm clk (clk i) delay s = Some s'" and "vt_mem s' = vt_mem s"
    and "vt_lasttime s' = vt_lasttime s" and "vt_calls s' = vt_calls s" and "i < clk_reads s'" and "clk_reads s' \<le> i + 1001"
  using vt_set_alarm_ahead[OF assms, of delay] by auto

lemma maybe_alarm_frame:
  assumes "settles clk i" and "clk_reads s = Suc i"
  shows "\<exists>s'. (if b then Some s else vt_set_alarm clk (clk i) delay s) = Some s' \<and> vt_mem s' = vt_mem s \<and>
     vt_lasttime s' = vt_lasttime s \<and> vt_calls s' = vt_calls s \<and> i < clk_reads s' \<and> clk_reads s' \<le> i + 1001"
proof (cases b)
  case False
  obtain s' where "vt_set_alarm clk (clk i) delay s = Some s'" "vt_mem s' = vt_mem s"
      "vt_lasttime s' = vt_lasttime s" "vt_calls s' = vt_calls s" "i < clk_reads s'" "clk_reads s' \<le> i + 1001"
    by (rule vt_set_alarm_frame[OF assms])
  with False show ?thesis by simp
qed (use assms in simp)

lemma vt_enqueue_holds:
  assumes h: "vt_holds L ys s" and p: "vtp \<notin> set (dlhp # map fst ys)"
    and c: "settles (ticks T) (clk_reads s)" and L: "L \<le> T (clk_reads s)"
    and b: "T (clk_reads s) - L + unat delay < 2 ^ 32"
  shows "\<exists>s'. vt_enqueue (ticks T) vtp delay s = Some s' \<and> keeps_timers s s' \<and>
     vt_holds (if ys = [] then T (clk_reads s) else L) (timed_insert vtp (T (clk_reads s) + unat delay) ys) s'"
proof -
  let ?i = "clk_reads s" and ?s1 = "s\<lparr>clk_reads := Suc (clk_reads s)\<rparr>"
  have h1: "vt_holds L ys ?s1" using h by (simp add: vt_holds_def)
  show ?thesis
  proof (cases "ys = []")
    case True
    then have "vt_enqueue (ticks T) vtp delay s = vt_insert_first (ticks T) vtp (of_nat (T ?i)) delay ?s1"
      using vt_holds_empty[OF h] by (simp add: vt_enqueue_def vt_simps)
    then show ?thesis
      using vt_insert_first_holds[of L ?s1 vtp T ?i delay] h1 True p c
      by (auto simp: timed_insert_def keeps_timers_def)
  next
    case False
    let ?nd = "chTimeDiffX (vt_lasttime s) (of_nat (T ?i))"
    have "vt_lasttime s = of_nat L" using h by (auto simp: vt_holds_def)
    then have nd: "unat ?nd = T ?i - L" using elapsed_ticks[OF L] b by simp
    then have u: "unat (?nd + delay) = T ?i - L + unat delay" using b by (simp add: unat_word_ariths)
    then have nl: "\<not> ?nd + delay < ?nd" using nd by (simp add: word_less_nat_alt)
    have f: "d_next (vt_mem s dlhp) = Some (fst (hd ys))" by (rule vt_holds_first(1)[OF h False])
    obtain s2 where s2: "(if ?nd + delay < d_delta (vt_mem s (fst (hd ys))) then vt_set_alarm (ticks T) (of_nat (T ?i)) delay ?s1 else Some ?s1) = Some s2"
        "vt_mem s2 = vt_mem s" "vt_lasttime s2 = vt_lasttime s" "vt_calls s2 = vt_calls s" "?i < clk_reads s2"
      by (cases "?nd + delay < d_delta (vt_mem s (fst (hd ys)))")
         (auto intro: vt_set_alarm_frame[OF c, of ?s1 delay])
    have h2: "vt_holds L ys s2" using h vt_holds_mem[OF s2(2,3)] by simp
    from vt_insert_holds[OF h2 p, of "?nd + delay"] obtain m where
      m: "ch_dlist_insert vtp (?nd + delay) (vt_mem s2) = Some m"
        "vt_holds L (timed_insert vtp (L + unat (?nd + delay)) ys) (s2\<lparr>vt_mem := m\<rparr>)"
        "\<forall>t. dnode.more (m t) = dnode.more (vt_mem s2 t)" by blast
    have "vt_enqueue (ticks T) vtp delay s = Some (s2\<lparr>vt_mem := m\<rparr>)"
      using False vt_holds_empty[OF h] f s2(1) nl m(1)
      by (simp add: vt_enqueue_def chVTGetSystemTimeX_def Let_def)
    moreover have "L + unat (?nd + delay) = T ?i + unat delay" using u L by simp
    ultimately show ?thesis using False m s2 by (auto simp: keeps_timers_def)
  qed
qed

lemma vt_holds_at:
  assumes "vt_holds L ys s" and "vtp \<in> set (map fst ys)"
  obtains us d zs where "dlist_holds (vt_mem s) (us @ (vtp, d) # zs)" and "delta_sum (us @ (vtp, d) # zs) < 2 ^ 32"
    and "ys = times_from L (us @ (vtp, d) # zs)" and "vt_lasttime s = of_nat L"
    and "\<forall>t. t \<notin> set (dlhp # map fst (us @ (vtp, d) # zs)) \<longrightarrow> d_next (vt_mem s t) = None"
proof -
  from assms(1) obtain xs where x: "dlist_holds (vt_mem s) xs" "delta_sum xs < 2 ^ 32" "ys = times_from L xs"
      "vt_lasttime s = of_nat L" "\<forall>t. t \<notin> set (dlhp # map fst xs) \<longrightarrow> d_next (vt_mem s t) = None"
    by (auto simp: vt_holds_def)
  have "vtp \<in> fst ` set xs" using assms(2) x(3) by (metis list.set_map map_fst_times)
  then obtain d where "(vtp, d) \<in> set xs" by force
  then obtain us zs where "xs = us @ (vtp, d) # zs" by (meson split_list)
  with x that show ?thesis by blast
qed

lemma vt_holds_unlinked:
  assumes "dlist_holds m2 (delta_remove vtp (us @ (vtp, d) # zs))" and "delta_sum (us @ (vtp, d) # zs) < 2 ^ 32"
    and "distinct (map fst (us @ (vtp, d) # zs))" and "vt_lasttime s = of_nat L"
    and "\<forall>t. t \<notin> set (dlhp # map fst (us @ zs)) \<longrightarrow> d_next (m2 t) = None" and "vt_mem s = m2"
  shows "vt_holds L (timed_remove vtp (times_from L (us @ (vtp, d) # zs))) s"
proof -
  have "vtp \<notin> set (map fst us)" using assms(3) by auto
  then have "map fst (delta_remove vtp (us @ (vtp, d) # zs)) = map fst (us @ zs)"
    by (rule map_fst_delta_remove)
  then show ?thesis
    unfolding vt_holds_def using assms delta_sum_remove[OF assms(3,2)]
    by (intro exI[of _ "delta_remove vtp (us @ (vtp, d) # zs)"])
       (simp add: times_from_remove del: map_append)
qed

lemma reset_inner_holds:
  assumes h: "vt_holds L ys s" and p: "vtp \<in> set (map fst ys)"
  shows "\<exists>s'. reset_inner vtp s = Some s' \<and> vt_holds L (timed_remove vtp ys) s' \<and> vt_calls s' = vt_calls s \<and>
     clk_reads s' = clk_reads s \<and> (\<forall>t. dnode.more (vt_mem s' t) = dnode.more (vt_mem s t))"
proof -
  obtain us d zs where x: "dlist_holds (vt_mem s) (us @ (vtp, d) # zs)" "delta_sum (us @ (vtp, d) # zs) < 2 ^ 32"
      "ys = times_from L (us @ (vtp, d) # zs)" "vt_lasttime s = of_nat L"
      "\<forall>t. t \<notin> set (dlhp # map fst (us @ (vtp, d) # zs)) \<longrightarrow> d_next (vt_mem s t) = None"
    by (rule vt_holds_at[OF h p])
  obtain m1 where m1: "ch_dlist_dequeue vtp (vt_mem s) = Some m1" "d_next (m1 vtp) = Some (first_of zs)"
      "\<forall>t. d_delta (m1 t) = d_delta (vt_mem s t) \<and> dnode.more (m1 t) = dnode.more (vt_mem s t)"
      "\<forall>t. t \<notin> set (dlhp # map fst (us @ zs)) \<longrightarrow> m1 t = vt_mem s t"
    and k: "\<And>m2 :: nat \<Rightarrow> virtual_timer. (\<And>t. d_prev (m2 t) = d_prev (m1 t)) \<Longrightarrow>
      (\<And>t. d_next (m2 t) = (if t = vtp then None else d_next (m1 t))) \<Longrightarrow>
      (\<And>t. d_delta (m2 t) = (if t = dlhp then -1 else if t = first_of zs then d_delta (vt_mem s t) + d else d_delta (vt_mem s t))) \<Longrightarrow>
      dlist_holds m2 (delta_remove vtp (us @ (vtp, d) # zs))"
    by (rule unlink_holds[OF x(1)]) blast
  let ?q = "first_of zs"
  let ?m = "set_delta dlhp (-1) (set_next vtp None (set_delta ?q (d_delta (m1 ?q) + d_delta (m1 vtp)) m1))"
  have d: "d_delta (vt_mem s vtp) = d" and di: "distinct (dlhp # map fst (us @ (vtp, d) # zs))"
    using x(1) by (simp_all add: dlist_holds_def seg_append)
  have "dlist_holds ?m (delta_remove vtp (us @ (vtp, d) # zs))"
    by (rule k) (use m1(3) d in \<open>auto simp: dmem_defs\<close>)
  moreover have "\<forall>t. t \<notin> set (dlhp # map fst (us @ zs)) \<longrightarrow> d_next (?m t) = None"
  proof -
    have "d_next (?m t) = (if t = vtp then None else d_next (m1 t))" for t by (simp add: dmem_defs)
    then show ?thesis using m1(4) x(5) by simp
  qed
  ultimately have "vt_holds L (timed_remove vtp ys) (s\<lparr>vt_mem := ?m\<rparr>)"
    unfolding x(3) using x(2,4) di by (intro vt_holds_unlinked) simp_all
  moreover have "reset_inner vtp s = Some (s\<lparr>vt_mem := ?m\<rparr>)"
    using m1(1,2) by (simp add: reset_inner_def Let_def)
  ultimately show ?thesis using m1(3) by (auto simp: dmem_defs)
qed

text \<open>Taking the first timer out of the list, up to the new deltas.\<close>

lemma first_unlinked:
  assumes h: "vt_holds L ys s" and p: "ys \<noteq> []" "vtp = fst (hd ys)"
  obtains d zs m1 where "ys = times_from L ((vtp, d) # zs)" "ch_dlist_remove_first (vt_mem s) = Some (vtp, m1)"
    "d_delta (vt_mem s vtp) = d" "d_delta (vt_mem s dlhp) = -1" "distinct (dlhp # map fst ((vtp, d) # zs))"
    "\<forall>t. d_delta (m1 t) = d_delta (vt_mem s t) \<and> dnode.more (m1 t) = dnode.more (vt_mem s t)"
    "\<And>s'. (\<And>t. d_prev (vt_mem s' t) = d_prev (m1 t)) \<Longrightarrow> (\<And>t. d_next (vt_mem s' t) = (if t = vtp then None else d_next (m1 t))) \<Longrightarrow>
      (\<And>t. d_delta (vt_mem s' t) = (if t = dlhp then -1 else if t = first_of zs then d_delta (vt_mem s t) + d else d_delta (vt_mem s t))) \<Longrightarrow>
      vt_lasttime s' = vt_lasttime s \<Longrightarrow>
      vt_holds L (timed_remove vtp ys) s' \<and> dlist_holds (vt_mem s') (delta_remove vtp ((vtp, d) # zs))"
proof -
  obtain xs where x: "dlist_holds (vt_mem s) xs" "delta_sum xs < 2 ^ 32" "ys = times_from L xs"
      "vt_lasttime s = of_nat L" "\<forall>t. t \<notin> set (dlhp # map fst xs) \<longrightarrow> d_next (vt_mem s t) = None"
    using h by (auto simp: vt_holds_def)
  obtain d zs where xs: "xs = [] @ (vtp, d) # zs" using x(3) p by (cases xs) auto
  note h0 = x(1)[unfolded xs]
  obtain m1 where m1: "ch_dlist_dequeue vtp (vt_mem s) = Some m1"
      "\<forall>t. d_delta (m1 t) = d_delta (vt_mem s t) \<and> dnode.more (m1 t) = dnode.more (vt_mem s t)"
      "\<forall>t. t \<notin> set (dlhp # map fst ([] @ zs)) \<longrightarrow> m1 t = vt_mem s t"
    and k: "\<And>m2 :: nat \<Rightarrow> virtual_timer. (\<And>t. d_prev (m2 t) = d_prev (m1 t)) \<Longrightarrow>
      (\<And>t. d_next (m2 t) = (if t = vtp then None else d_next (m1 t))) \<Longrightarrow>
      (\<And>t. d_delta (m2 t) = (if t = dlhp then -1 else if t = first_of zs then d_delta (vt_mem s t) + d else d_delta (vt_mem s t))) \<Longrightarrow>
      dlist_holds m2 (delta_remove vtp ([] @ (vtp, d) # zs))"
    by (rule unlink_holds[OF h0]) blast
  have d: "d_delta (vt_mem s vtp) = d" "d_delta (vt_mem s dlhp) = -1" and di: "distinct (dlhp # map fst ((vtp, d) # zs))"
    using h0 by (simp_all add: dlist_holds_def)
  have rf: "ch_dlist_remove_first (vt_mem s) = Some (vtp, m1)"
    using remove_first_dequeue[of "vt_mem s" vtp d zs] h0 m1(1) by simp
  have "vt_holds L (timed_remove vtp ys) s' \<and> dlist_holds (vt_mem s') (delta_remove vtp ((vtp, d) # zs))"
    if s': "\<And>t. d_prev (vt_mem s' t) = d_prev (m1 t)" "\<And>t. d_next (vt_mem s' t) = (if t = vtp then None else d_next (m1 t))"
      "\<And>t. d_delta (vt_mem s' t) = (if t = dlhp then -1 else if t = first_of zs then d_delta (vt_mem s t) + d else d_delta (vt_mem s t))"
      "vt_lasttime s' = vt_lasttime s" for s'
  proof -
    note hm = k[of "vt_mem s'", OF s'(1-3)]
    have "vt_holds L (timed_remove vtp (times_from L ([] @ (vtp, d) # zs))) s'"
    proof (rule vt_holds_unlinked[OF hm])
      show "\<forall>t. t \<notin> set (dlhp # map fst ([] @ zs)) \<longrightarrow> d_next (vt_mem s' t) = None" using s'(2) m1(3) x(5) xs by simp
    qed (use x(2,4) s'(4) xs di in simp_all)
    then show ?thesis using hm x(3) xs by simp
  qed
  then show thesis using that[of d zs m1] x(3) xs rf d di m1(2) by simp
qed

lemma reset_first_holds:
  assumes h: "vt_holds L ys s" and p: "ys \<noteq> []" "vtp = fst (hd ys)" and c: "settles (ticks T) (clk_reads s)"
  shows "\<exists>s'. reset_first (ticks T) vtp s = Some s' \<and> vt_holds L (timed_remove vtp ys) s' \<and> vt_calls s' = vt_calls s \<and>
     clk_reads s \<le> clk_reads s' \<and> clk_reads s' \<le> clk_reads s + 1001 \<and> (\<forall>t. dnode.more (vt_mem s' t) = dnode.more (vt_mem s t)) \<and>
     (timed_remove vtp ys = [] \<longrightarrow> st_alarm s' = None)"
proof -
  obtain d zs m1 where x: "ys = times_from L ((vtp, d) # zs)" and rf: "ch_dlist_remove_first (vt_mem s) = Some (vtp, m1)"
    and d: "d_delta (vt_mem s vtp) = d" "d_delta (vt_mem s dlhp) = -1" and di: "distinct (dlhp # map fst ((vtp, d) # zs))"
    and m1: "\<forall>t. d_delta (m1 t) = d_delta (vt_mem s t) \<and> dnode.more (m1 t) = dnode.more (vt_mem s t)"
    and res: "\<And>s'. (\<And>t. d_prev (vt_mem s' t) = d_prev (m1 t)) \<Longrightarrow> (\<And>t. d_next (vt_mem s' t) = (if t = vtp then None else d_next (m1 t))) \<Longrightarrow>
      (\<And>t. d_delta (vt_mem s' t) = (if t = dlhp then -1 else if t = first_of zs then d_delta (vt_mem s t) + d else d_delta (vt_mem s t))) \<Longrightarrow>
      vt_lasttime s' = vt_lasttime s \<Longrightarrow>
      vt_holds L (timed_remove vtp ys) s' \<and> dlist_holds (vt_mem s') (delta_remove vtp ((vtp, d) # zs))"
    by (rule first_unlinked[OF h p]) blast
  let ?q = "first_of zs" and ?m2 = "set_next vtp None m1"
  let ?m3 = "set_delta ?q (d_delta (?m2 ?q) + d_delta (?m2 vtp)) ?m2"
  show ?thesis
  proof (cases zs)
    case Nil
    let ?s = "s\<lparr>vt_mem := ?m2, st_alarm := None\<rparr>"
    have r: "vt_holds L (timed_remove vtp ys) ?s \<and> dlist_holds (vt_mem ?s) (delta_remove vtp ((vtp, d) # zs))"
      by (rule res) (use m1 d Nil in \<open>auto simp: dmem_defs first_of_def\<close>)
    then have "dlist_holds ?m2 []" using Nil by simp
    then have "reset_first (ticks T) vtp s = Some ?s"
      using rf by (simp add: reset_first_def Let_def dlist_empty_iff)
    then show ?thesis using r m1 by (simp add: dmem_defs)
  next
    case (Cons z vs)
    obtain q f where z: "z = (q, f)" by (cases z)
    have q: "?q = q" "q \<noteq> dlhp" "q \<noteq> vtp" using Cons z di by (auto simp: first_of_def)
    let ?s1 = "s\<lparr>vt_mem := ?m3, clk_reads := Suc (clk_reads s)\<rparr>"
    have r: "vt_holds L (timed_remove vtp ys) s' \<and> dlist_holds (vt_mem s') (delta_remove vtp ((vtp, d) # zs))"
      if "vt_mem s' = ?m3" "vt_lasttime s' = vt_lasttime s" for s'
      by (rule res) (use that m1 d q in \<open>auto simp: dmem_defs\<close>)
    then have "d_next (?m3 dlhp) = Some q" using r[of ?s1] Cons z by (simp add: dlist_holds_def)
    then have n2: "d_next (?m2 dlhp) = Some q" by (simp add: dmem_defs split: if_splits)
    let ?nd = "chTimeDiffX (vt_lasttime s) (of_nat (T (clk_reads s)))"
    obtain s' where s': "(if d_delta (?m3 q) \<le> ?nd then Some ?s1
        else vt_set_alarm (ticks T) (of_nat (T (clk_reads s))) (d_delta (?m3 q) - ?nd) ?s1) = Some s'"
        "vt_mem s' = ?m3" "vt_lasttime s' = vt_lasttime s" "vt_calls s' = vt_calls s" "clk_reads s \<le> clk_reads s'" "clk_reads s' \<le> clk_reads s + 1001"
      using maybe_alarm_frame[OF c, of ?s1 "d_delta (?m3 q) \<le> ?nd" "d_delta (?m3 q) - ?nd"] by fastforce
    have "reset_first (ticks T) vtp s = Some s'"
      using rf n2 q s'(1)[unfolded q(1)]
      by (simp add: reset_first_def Let_def ch_dlist_isempty_def chVTGetSystemTimeX_def cong: if_cong)
    moreover have "timed_remove vtp ys \<noteq> []" using x Cons z q by (simp add: timed_remove_def)
    ultimately show ?thesis using r[OF s'(2,3)] m1 s' by (simp add: dmem_defs)
  qed
qed

lemma chVTDoResetI_holds:
  assumes h: "vt_holds L ys s" and p: "vtp \<in> set (map fst ys)" and c: "settles (ticks T) (clk_reads s)"
  shows "\<exists>s'. chVTDoResetI (ticks T) vtp s = Some s' \<and> vt_holds L (timed_remove vtp ys) s' \<and> vt_calls s' = vt_calls s \<and>
     clk_reads s \<le> clk_reads s' \<and> clk_reads s' \<le> clk_reads s + 1001 \<and>
     (\<forall>t. dnode.more (vt_mem s' t) = dnode.more (vt_mem s t)) \<and> (timed_remove vtp ys = [] \<longrightarrow> st_alarm s' = None)"
proof -
  have ne: "ys \<noteq> []" using p by auto
  have f: "ch_dlist_isfirst vtp (vt_mem s) \<longleftrightarrow> fst (hd ys) = vtp"
    using vt_holds_first(1)[OF h ne] by (auto simp: ch_dlist_isfirst_def)
  show ?thesis
  proof (cases "fst (hd ys) = vtp")
    case True
    then show ?thesis using reset_first_holds[OF h ne True[symmetric] c] f by (simp add: chVTDoResetI_def)
  next
    case False
    then have "timed_remove vtp ys \<noteq> []"
      using ne by (cases ys) (auto simp: timed_remove_def)
    then show ?thesis using reset_inner_holds[OF h p] f False by (auto simp: chVTDoResetI_def)
  qed
qed

lemma armed_iff:
  assumes "vt_holds L ys s" and "vtp \<noteq> dlhp"
  shows "chVTIsArmedI vtp s \<longleftrightarrow> vtp \<in> set (map fst ys)"
proof
  assume "vtp \<in> set (map fst ys)"
  then obtain us d zs where "dlist_holds (vt_mem s) (us @ (vtp, d) # zs)" by (rule vt_holds_at[OF assms(1)])
  then show "chVTIsArmedI vtp s" using seg_next[of "vt_mem s" vtp zs]
    by (simp add: chVTIsArmedI_def dlist_holds_def seg_append)
next
  assume "chVTIsArmedI vtp s"
  then show "vtp \<in> set (map fst ys)"
    using assms by (auto simp: vt_holds_def chVTIsArmedI_def simp flip: set_map)
qed

lemma chVTResetI_holds:
  assumes h: "vt_holds L ys s" and p: "vtp \<noteq> dlhp" and c: "settles (ticks T) (clk_reads s)"
  shows "\<exists>s'. chVTResetI (ticks T) vtp s = Some s' \<and> vt_holds L (timed_remove vtp ys) s' \<and> vt_calls s' = vt_calls s \<and>
     clk_reads s \<le> clk_reads s' \<and> clk_reads s' \<le> clk_reads s + 1001 \<and>
     (\<forall>t. dnode.more (vt_mem s' t) = dnode.more (vt_mem s t))"
proof (cases "vtp \<in> set (map fst ys)")
  case True
  then show ?thesis using chVTDoResetI_holds[OF h True c] armed_iff[OF h p] by (auto simp: chVTResetI_def)
next
  case False
  then have "timed_remove vtp ys = ys" by (auto simp: timed_remove_def intro!: filter_True)
  then show ?thesis using False h armed_iff[OF h p] by (simp add: chVTResetI_def)
qed

text \<open>\<open>good_clock T i\<close>: from reading \<open>i\<close> on the clock does not run backwards and settles.\<close>

definition good_clock :: "(nat \<Rightarrow> nat) \<Rightarrow> nat \<Rightarrow> bool" where
  "good_clock T i \<longleftrightarrow> (\<forall>j\<ge>i. T j \<le> T (Suc j) \<and> settles (ticks T) j)"

lemma good_clock_mono:
  assumes "good_clock T i" and "i \<le> j" and "j \<le> k"
  shows "T j \<le> T k"
  using assms(3)
proof (induction rule: dec_induct)
  case (step n)
  moreover have "T n \<le> T (Suc n)" using assms(1,2) step(1) by (simp add: good_clock_def)
  ultimately show ?case by simp
qed simp

text \<open>
  C37: \<open>chVTSetI\<close> returns and rearms the timer: it is taken out of its old place and put into the list
  with the deadline \<open>delay\<close> ticks after a reading of the clock made during the call, in front of the
  timers that are not due earlier; all other timers keep their deadlines. This holds across the
  wrap-around of the 32-bit clock, as long as the deadline is less than \<open>2 ^ 32\<close> ticks after the
  time the list counts from.
\<close>

theorem timer_set:
  assumes h: "vt_holds L ys s" and p: "vtp \<noteq> dlhp" and c: "good_clock T (clk_reads s)"
    and L: "L \<le> T (clk_reads s)" and b: "T (clk_reads s + 1001) - L + unat delay < 2 ^ 32"
  shows "\<exists>s' i L'. chVTSetI (ticks T) vtp delay vtfunc par s = Some s' \<and> clk_reads s \<le> i \<and> i < clk_reads s' \<and>
     vt_holds L' (timed_insert vtp (T i + unat delay) (timed_remove vtp ys)) s' \<and>
     vt_func (vt_mem s' vtp) = vtfunc \<and> vt_par (vt_mem s' vtp) = par \<and> vt_reload (vt_mem s' vtp) = 0"
proof -
  have "settles (ticks T) (clk_reads s)" using c by (simp add: good_clock_def)
  from chVTResetI_holds[OF h p this] obtain s1 where
    s1: "chVTResetI (ticks T) vtp s = Some s1" "vt_holds L (timed_remove vtp ys) s1"
      "clk_reads s \<le> clk_reads s1" "clk_reads s1 \<le> clk_reads s + 1001" by blast
  let ?s2 = "vt_setup vtp vtfunc par 0 s1"
  have i: "clk_reads ?s2 = clk_reads s1" by (simp add: vt_setup_def)
  have h2: "vt_holds L (timed_remove vtp ys) ?s2" using s1(2) by (simp add: vt_setup_holds)
  have p2: "vtp \<notin> set (dlhp # map fst (timed_remove vtp ys))" using p by (auto simp: timed_remove_def)
  have c2: "settles (ticks T) (clk_reads ?s2)" using c s1(3) i by (simp add: good_clock_def)
  have L2: "L \<le> T (clk_reads ?s2)" using L good_clock_mono[OF c order_refl s1(3)] i by simp
  have "T (clk_reads s1) \<le> T (clk_reads s + 1001)" by (rule good_clock_mono[OF c s1(3,4)])
  then have b2: "T (clk_reads ?s2) - L + unat delay < 2 ^ 32" using b i by simp
  obtain s' L' where s': "vt_enqueue (ticks T) vtp delay ?s2 = Some s'" "keeps_timers ?s2 s'"
      "vt_holds L' (timed_insert vtp (T (clk_reads s1) + unat delay) (timed_remove vtp ys)) s'"
    using vt_enqueue_holds[OF h2 p2 c2 L2 b2] i by auto
  have "dnode.more (vt_mem s' vtp) = dnode.more (vt_mem ?s2 vtp)" using s'(2) by (simp add: keeps_timers_def)
  moreover have "dnode.more (vt_mem ?s2 vtp) = \<lparr>vt_func = vtfunc, vt_par = par, vt_reload = 0\<rparr>"
    by (cases "vt_mem s1 vtp") (simp add: vt_setup_def)
  ultimately have "vt_func (vt_mem s' vtp) = vtfunc \<and> vt_par (vt_mem s' vtp) = par \<and> vt_reload (vt_mem s' vtp) = 0"
    by (cases "vt_mem s' vtp") simp
  moreover have "chVTSetI (ticks T) vtp delay vtfunc par s = Some s'"
    using s1(1) s'(1) by (simp add: chVTSetI_def chVTDoSetI_def)
  ultimately show ?thesis using s1(3) s' i by (auto simp: keeps_timers_def)
qed

subsection \<open>Firing\<close>

lemma timer_fields:
  "dnode.more (a :: virtual_timer) = dnode.more b \<Longrightarrow> vt_func a = vt_func b \<and> vt_par a = vt_par b \<and> vt_reload a = vt_reload b"
  by (cases a; cases b) simp

lemma vt_holds_Cons:
  assumes "vt_holds L ((t, D) # ys) s"
  obtains d zs where "dlist_holds (vt_mem s) ((t, d) # zs)" and "delta_sum ((t, d) # zs) < 2 ^ 32"
    and "D = L + unat d" and "ys = times_from D zs" and "vt_lasttime s = of_nat L"
    and "\<forall>u. u \<notin> set (dlhp # t # map fst zs) \<longrightarrow> d_next (vt_mem s u) = None"
proof -
  from assms obtain xs where x: "dlist_holds (vt_mem s) xs" "delta_sum xs < 2 ^ 32" "(t, D) # ys = times_from L xs"
      "vt_lasttime s = of_nat L" "\<forall>u. u \<notin> set (dlhp # map fst xs) \<longrightarrow> d_next (vt_mem s u) = None"
    by (auto simp: vt_holds_def)
  then obtain d zs where "xs = (t, d) # zs" "D = L + unat d" "ys = times_from D zs" by (cases xs) auto
  with x that show ?thesis by auto
qed

text \<open>The state in which the callback of the first timer is entered.\<close>

lemma fire_enters:
  assumes h: "vt_holds L ((t, D) # ys) s"
  shows "\<exists>s2. (\<forall>cb. fire cb t now s = do { s3 \<leftarrow> cb (vt_func (vt_mem s t)) t (vt_par (vt_mem s t)) s2; Some (of_nat D, s3) }) \<and>
     vt_holds D ys s2 \<and> vt_calls s2 = vt_calls s @ [(t, now)] \<and> clk_reads s2 = clk_reads s \<and>
     (\<forall>t. dnode.more (vt_mem s2 t) = dnode.more (vt_mem s t)) \<and> (ys = [] \<longrightarrow> st_alarm s2 = None)"
proof -
  from h obtain d zs where x: "dlist_holds (vt_mem s) ((t, d) # zs)" "delta_sum ((t, d) # zs) < 2 ^ 32"
      "D = L + unat d" "ys = times_from D zs" "vt_lasttime s = of_nat L"
      "\<forall>u. u \<notin> set (dlhp # t # map fst zs) \<longrightarrow> d_next (vt_mem s u) = None"
    by (rule vt_holds_Cons)
  from x(1) have s: "seg (vt_mem s) dlhp ([] @ (t, d) # zs) dlhp" and di: "distinct (dlhp # map fst ([] @ (t, d) # zs))"
    and td: "d_delta (vt_mem s t) = d" and hd: "d_delta (vt_mem s dlhp) = -1"
    by (simp_all add: dlist_holds_def)
  obtain m where m: "ch_dlist_dequeue t (vt_mem s) = Some m" "seg m dlhp ([] @ zs) dlhp"
      "\<forall>u. d_delta (m u) = d_delta (vt_mem s u) \<and> dnode.more (m u) = dnode.more (vt_mem s u)"
      "\<forall>u. u \<notin> set (dlhp # map fst ([] @ zs)) \<longrightarrow> m u = vt_mem s u"
    by (rule dequeue_seg[OF s di]) blast
  let ?m = "set_next t None m"
  have "seg ?m dlhp zs dlhp \<longleftrightarrow> seg m dlhp zs dlhp"
    by (rule seg_cong) (use di in \<open>auto simp: dmem_defs\<close>)
  then have hm: "dlist_holds ?m zs" using m(2,3) di hd by (simp add: dlist_holds_def dmem_defs)
  let ?s1 = "s\<lparr>vt_lasttime := of_nat D, vt_mem := ?m\<rparr>"
  let ?s2 = "(if zs = [] then ?s1\<lparr>st_alarm := None\<rparr> else ?s1)\<lparr>vt_calls := vt_calls s @ [(t, now)]\<rparr>"
  have mo: "\<forall>u. dnode.more (?m u) = dnode.more (vt_mem s u)" using m(3) by (simp add: dmem_defs)
  then have fp: "vt_func (?m t) = vt_func (vt_mem s t)" "vt_par (?m t) = vt_par (vt_mem s t)"
    using timer_fields[of "?m t" "vt_mem s t"] by simp_all
  have "fire cb t now s = do { s3 \<leftarrow> cb (vt_func (vt_mem s t)) t (vt_par (vt_mem s t)) ?s2; Some (of_nat D, s3) }" for cb
    using m(1) td x(3,5) fp dlist_empty_iff[OF hm] by (simp add: fire_def Let_def chTimeAddX_def)
  moreover have "vt_holds D ys ?s2"
    unfolding vt_holds_def using hm x di m(4)
    by (intro exI[of _ zs]) (auto simp: delta_sum_def dmem_defs)
  ultimately show ?thesis using mo x(4) by (intro exI[of _ ?s2]) simp
qed

text \<open>The loop of the ticker over one-shot timers whose callbacks leave the timers alone, as the
  wake-up of a sleeping thread does: exactly the timers at the head that are due when the clock is read
  for them are fired, in the order of their deadlines.\<close>

definition ticked :: "(nat \<Rightarrow> nat) \<Rightarrow> (nat \<times> nat) list \<Rightarrow> virtual_timers \<Rightarrow> ((nat \<times> u32 \<times> u32) option \<times> virtual_timers) option
    \<Rightarrow> nat \<Rightarrow> virtual_timers \<Rightarrow> nat \<Rightarrow> bool" where
  "ticked T ys s res k s' M \<longleftrightarrow> k \<le> length ys \<and> M \<le> T (clk_reads s + k) \<and> T (clk_reads s + k) - M < 2 ^ 32 \<and>
     res = Some (Some (case drop k ys of [] \<Rightarrow> dlhp | y # _ \<Rightarrow> fst y,
        chTimeDiffX (of_nat M) (of_nat (T (clk_reads s + k))), of_nat (T (clk_reads s + k))), s') \<and>
     (\<forall>i<k. snd (ys ! i) \<le> T (clk_reads s + i)) \<and> (k < length ys \<longrightarrow> T (clk_reads s + k) < snd (ys ! k)) \<and>
     vt_calls s' = vt_calls s @ map (\<lambda>i. (fst (ys ! i), of_nat (T (clk_reads s + i)))) [0..<k] \<and>
     clk_reads s' = Suc (clk_reads s + k) \<and> vt_holds M (drop k ys) s'"

lemma ticked_more:
  assumes k: "ticked T ys s2 res k s' M" and c: "clk_reads s2 = Suc (clk_reads s)"
    and calls: "vt_calls s2 = vt_calls s @ [(fst y, of_nat (T (clk_reads s)))]" and due: "snd y \<le> T (clk_reads s)"
  shows "ticked T (y # ys) s res (Suc k) s' M"
proof -
  have "\<forall>i<Suc k. snd ((y # ys) ! i) \<le> T (clk_reads s + i)"
    using k c due by (auto simp: ticked_def less_Suc_eq_0_disj)
  moreover have "vt_calls s' = vt_calls s @ map (\<lambda>i. (fst ((y # ys) ! i), of_nat (T (clk_reads s + i)))) [0..<Suc k]"
    using k c calls by (simp add: ticked_def upt_conv_Cons map_Suc_upt[symmetric] del: upt_Suc)
  ultimately show ?thesis using k c by (simp add: ticked_def del: upt_Suc)
qed

text \<open>The loop ends at the header and at a timer that is not due.\<close>

lemma tick_ends:
  assumes h: "vt_holds L ys s" and L: "L \<le> T (clk_reads s)" and b: "T (clk_reads s) - L < 2 ^ 32 - 1"
    and nd: "ys \<noteq> [] \<Longrightarrow> T (clk_reads s) < snd (hd ys)"
  shows "ticked T ys s (tick_loop cb (ticks T) s) 0 (s\<lparr>clk_reads := Suc (clk_reads s)\<rparr>) L"
proof -
  let ?n = "T (clk_reads s)" and ?s1 = "s\<lparr>clk_reads := Suc (clk_reads s)\<rparr>"
  have lt: "vt_lasttime s = of_nat L" using h by (auto simp: vt_holds_def)
  have h1: "vt_holds L ys ?s1" using h by (simp add: vt_holds_def)
  have el: "unat (chTimeDiffX (of_nat L) (of_nat ?n :: u32)) = ?n - L" using b by (intro elapsed_ticks[OF L]) simp
  have "\<exists>t. d_next (vt_mem s dlhp) = Some t \<and> chTimeDiffX (of_nat L) (of_nat ?n) < d_delta (vt_mem s t) \<and>
      t = (case ys of [] \<Rightarrow> dlhp | y # _ \<Rightarrow> fst y)"
  proof (cases ys)
    case Nil
    then have "d_next (vt_mem s dlhp) = Some dlhp" "d_delta (vt_mem s dlhp) = -1"
      using h by (auto simp: vt_holds_def dlist_holds_def)
    moreover have "chTimeDiffX (of_nat L) (of_nat ?n :: u32) < -1"
      using el b by (simp add: word_less_nat_alt unsigned_minus_1_eq_mask mask_eq_exp_minus_1)
    ultimately show ?thesis using Nil by simp
  next
    case (Cons y zs)
    obtain t D where y: "y = (t, D)" by (cases y)
    have f: "d_next (vt_mem s dlhp) = Some t" "D = L + unat (d_delta (vt_mem s t))"
      using vt_holds_first[OF h1[unfolded Cons y]] by simp_all
    then have "chTimeDiffX (of_nat L) (of_nat ?n) < d_delta (vt_mem s t)"
      using el nd Cons y L by (simp add: word_less_nat_alt)
    then show ?thesis using f Cons y by simp
  qed
  then obtain t where t: "d_next (vt_mem s dlhp) = Some t" "chTimeDiffX (of_nat L) (of_nat ?n) < d_delta (vt_mem s t)"
      "t = (case ys of [] \<Rightarrow> dlhp | y # _ \<Rightarrow> fst y)" by blast
  have "tick_loop cb (ticks T) s = Some (Some (t, chTimeDiffX (of_nat L) (of_nat ?n), of_nat ?n), ?s1)"
    using t lt by (subst tick_loop.simps) (simp add: chVTGetSystemTimeX_def)
  then show ?thesis using h1 L b nd t(3) by (cases ys) (auto simp: ticked_def)
qed

lemma tick_loop_fires:
  assumes cb: "\<And>f t p s. cb f t p s = Some s"
    and h: "vt_holds L ys s" and one: "\<And>t. t \<in> set (map fst ys) \<Longrightarrow> vt_reload (vt_mem s t) = 0"
    and c: "good_clock T (clk_reads s)" and L: "L \<le> T (clk_reads s)"
    and b: "T (clk_reads s + length ys) - L < 2 ^ 32 - 1"
  shows "\<exists>k s' M. ticked T ys s (tick_loop cb (ticks T) s) k s' M"
  using h one c L b
proof (induction ys arbitrary: L s)
  case Nil
  then have "ticked T [] s (tick_loop cb (ticks T) s) 0 (s\<lparr>clk_reads := Suc (clk_reads s)\<rparr>) L" by (intro tick_ends) simp_all
  then show ?case by blast
next
  case (Cons y ys)
  obtain t D where y: "y = (t, D)" by (cases y)
  let ?n = "T (clk_reads s)" and ?s1 = "s\<lparr>clk_reads := Suc (clk_reads s)\<rparr>"
  have "?n \<le> T (clk_reads s + length (y # ys))" by (rule good_clock_mono[OF Cons.prems(3)]) simp_all
  then have nl: "?n - L < 2 ^ 32 - 1" using Cons.prems(5) by simp
  show ?case
  proof (cases "?n < D")
    case True
    have "ticked T (y # ys) s (tick_loop cb (ticks T) s) 0 ?s1 L"
      by (rule tick_ends[of L "y # ys" s T, OF Cons.prems(1,4) nl]) (use True y in simp)
    then show ?thesis by blast
  next
    case False
    have h1: "vt_holds L ((t, D) # ys) ?s1" using Cons.prems(1) y by (simp add: vt_holds_def)
    have f: "d_next (vt_mem s dlhp) = Some t" "D = L + unat (d_delta (vt_mem s t))" "t \<noteq> dlhp"
      using vt_holds_first[OF h1] by simp_all
    have lt: "vt_lasttime s = of_nat L" using Cons.prems(1) by (auto simp: vt_holds_def)
    have "unat (chTimeDiffX (of_nat L) (of_nat ?n :: u32)) = ?n - L" using nl by (intro elapsed_ticks[OF Cons.prems(4)]) simp
    then have nlt: "\<not> chTimeDiffX (of_nat L) (of_nat ?n) < d_delta (vt_mem s t)"
      using False f(2) by (simp add: word_less_nat_alt)
    obtain s2 where s2: "fire cb t (of_nat ?n) ?s1 = Some (of_nat D, s2)" "vt_holds D ys s2"
        "vt_calls s2 = vt_calls s @ [(t, of_nat ?n)]" "clk_reads s2 = Suc (clk_reads s)"
        "\<forall>t. dnode.more (vt_mem s2 t) = dnode.more (vt_mem s t)"
      using fire_enters[OF h1, of "of_nat ?n"] cb by auto
    have re: "vt_reload (vt_mem s2 u) = vt_reload (vt_mem s u)" for u
      using s2(5) timer_fields[of "vt_mem s2 u" "vt_mem s u"] by simp
    have step: "tick_loop cb (ticks T) s = tick_loop cb (ticks T) s2"
      using f lt nlt s2(1) re[of t] Cons.prems(2)[of t] y
      by (subst tick_loop.simps) (simp add: chVTGetSystemTimeX_def)
    have c2: "good_clock T (clk_reads s2)" using Cons.prems(3) s2(4) by (simp add: good_clock_def)
    have "?n \<le> T (Suc (clk_reads s))" using Cons.prems(3) by (simp add: good_clock_def)
    then have L2: "D \<le> T (clk_reads s2)" using False s2(4) by simp
    have b2: "T (clk_reads s2 + length ys) - D < 2 ^ 32 - 1" using Cons.prems(5) s2(4) f(2) by simp
    obtain k s' M where "ticked T ys s2 (tick_loop cb (ticks T) s2) k s' M"
      using Cons.IH[OF s2(2) _ c2 L2 b2] re Cons.prems(2) by auto
    then have "ticked T (y # ys) s (tick_loop cb (ticks T) s) (Suc k) s' M"
      unfolding step by (rule ticked_more) (use s2(3,4) y False in simp_all)
    then show ?thesis by blast
  qed
qed

text \<open>The time slice that is not used up goes from the first delta to \<open>lasttime\<close>.\<close>

lemma advance_holds:
  assumes h: "vt_holds M ((t, D) # ys) s" and N: "M \<le> N" "N < D"
  shows "vt_holds N ((t, D) # ys) (s\<lparr>vt_lasttime := vt_lasttime s + chTimeDiffX (of_nat M) (of_nat N),
     vt_mem := set_delta t (d_delta (vt_mem s t) - chTimeDiffX (of_nat M) (of_nat N)) (vt_mem s)\<rparr>)"
    and "unat (d_delta (vt_mem s t) - chTimeDiffX (of_nat M) (of_nat N)) = D - N"
proof -
  obtain d zs where x: "dlist_holds (vt_mem s) ((t, d) # zs)" "delta_sum ((t, d) # zs) < 2 ^ 32"
      "D = M + unat d" "ys = times_from D zs" "vt_lasttime s = of_nat M"
      "\<forall>u. u \<notin> set (dlhp # t # map fst zs) \<longrightarrow> d_next (vt_mem s u) = None"
    using h by (rule vt_holds_Cons)
  let ?nd = "chTimeDiffX (of_nat M) (of_nat N :: u32)"
  have td: "d_delta (vt_mem s t) = d" and di: "distinct (dlhp # t # map fst zs)" using x(1) by (simp_all add: dlist_holds_def)
  have "N - M < 2 ^ 32" using N x(3) unat_u32_bound[of d] by simp
  then have nd: "unat ?nd = N - M" by (rule elapsed_ticks[OF N(1)])
  then have de: "unat (d - ?nd) = D - N" using N x(3) by (simp add: unat_sub_le word_le_nat_alt)
  let ?m = "set_delta t (d - ?nd) (vt_mem s)"
  have "seg ?m t zs dlhp \<longleftrightarrow> seg (vt_mem s) t zs dlhp"
    by (rule seg_cong) (use di in \<open>auto simp: dmem_defs\<close>)
  then have "dlist_holds ?m ((t, d - ?nd) # zs)"
    using x(1) di by (simp add: dlist_holds_def dmem_defs)
  moreover have "delta_sum ((t, d - ?nd) # zs) < 2 ^ 32" using x(2,3) de N by (simp add: delta_sum_def)
  moreover have "vt_lasttime s + ?nd = of_nat N" using x(5) by (simp add: chTimeDiffX_def)
  moreover have "(t, D) # ys = times_from N ((t, d - ?nd) # zs)" using x(4) de N by simp
  ultimately show "vt_holds N ((t, D) # ys) (s\<lparr>vt_lasttime := vt_lasttime s + ?nd, vt_mem := set_delta t (d_delta (vt_mem s t) - ?nd) (vt_mem s)\<rparr>)"
    unfolding vt_holds_def using x(6) td by (intro exI[of _ "(t, d - ?nd) # zs"]) (auto simp: dmem_defs)
  show "unat (d_delta (vt_mem s t) - ?nd) = D - N" using de td by simp
qed


text \<open>A continuous timer does not drift: with other timers armed, it is restarted one period after the
  deadline it was fired for, whatever time the clock shows by then.\<close>

lemma continuous_restart:
  assumes cb: "\<And>f t p s. cb f t p s = Some s"
    and h: "vt_holds L ((t, D) # ys) s" and ne: "ys \<noteq> []" and r: "0 < vt_reload (vt_mem s t)"
    and due: "L \<le> D" "D \<le> T (clk_reads s)" and c: "good_clock T (clk_reads s)" and b: "T (clk_reads s) - L < 2 ^ 32"
    and intime: "T (Suc (clk_reads s)) - D \<le> unat (vt_reload (vt_mem s t))"
  shows "\<exists>s2. tick_loop cb (ticks T) s = tick_loop cb (ticks T) s2 \<and>
     vt_holds D (timed_insert t (D + unat (vt_reload (vt_mem s t))) ys) s2 \<and>
     vt_calls s2 = vt_calls s @ [(t, of_nat (T (clk_reads s)))]"
proof -
  let ?n = "T (clk_reads s)" and ?n2 = "T (Suc (clk_reads s))" and ?r = "vt_reload (vt_mem s t)"
  let ?s1 = "s\<lparr>clk_reads := Suc (clk_reads s)\<rparr>"
  have h1: "vt_holds L ((t, D) # ys) ?s1" using h by (simp add: vt_holds_def)
  have f: "d_next (vt_mem s dlhp) = Some t" "D = L + unat (d_delta (vt_mem s t))" "t \<noteq> dlhp"
    using vt_holds_first[OF h1] by simp_all
  have lt: "vt_lasttime s = of_nat L" using h by (auto simp: vt_holds_def)
  have nlt: "\<not> chTimeDiffX (of_nat L) (of_nat ?n) < d_delta (vt_mem s t)"
    using elapsed_ticks[of L ?n] b due f(2) by (simp add: word_less_nat_alt)
  obtain s2 where s2: "fire cb t (of_nat ?n) ?s1 = Some (of_nat D, s2)" "vt_holds D ys s2"
      "vt_calls s2 = vt_calls s @ [(t, of_nat ?n)]" "clk_reads s2 = Suc (clk_reads s)"
      "\<forall>t. dnode.more (vt_mem s2 t) = dnode.more (vt_mem s t)"
    using fire_enters[OF h1, of "of_nat ?n"] cb by auto
  have re: "vt_reload (vt_mem s2 t) = ?r" using s2(5) timer_fields[of "vt_mem s2 t" "vt_mem s t"] by simp
  let ?s3 = "s2\<lparr>clk_reads := Suc (Suc (clk_reads s))\<rparr>" and ?nd = "chTimeDiffX (of_nat D) (of_nat ?n2 :: u32)"
  have "D \<le> ?n2" using due(2) c by (auto simp: good_clock_def intro: order_trans)
  then have nd: "unat ?nd = ?n2 - D" using elapsed_ticks[of D ?n2] intime unat_u32_bound[of ?r] by simp
  then have le: "\<not> ?r < ?nd" using intime by (simp add: word_less_nat_alt)
  have h3: "vt_holds D ys ?s3" using s2(2) by (simp add: vt_holds_def)
  have "t \<notin> set (dlhp # map fst ys)"
    using vt_holds_distinct[OF h] by auto
  from vt_insert_holds[OF h3 this, of ?r] obtain m where
    m: "ch_dlist_insert t ?r (vt_mem ?s3) = Some m" "vt_holds D (timed_insert t (D + unat ?r) ys) (?s3\<lparr>vt_mem := m\<rparr>)" by blast
  have "tick_loop cb (ticks T) s = tick_loop cb (ticks T) (?s3\<lparr>vt_mem := m\<rparr>)"
    using f lt nlt s2(1,4) re r le m(1) ne vt_holds_empty[OF s2(2)]
    by (subst tick_loop.simps) (simp add: chVTGetSystemTimeX_def reload_delay_def Let_def)
  then show ?thesis using m(2) s2(3) by (intro exI[of _ "?s3\<lparr>vt_mem := m\<rparr>"]) simp
qed

text \<open>\<open>vt_insert_first\<close> sets the alarm anew from the old base time: when the clock has already run more
  than the enlarged delta past it, the alarm ends up \<open>late\<close> ticks behind the clock.\<close>

lemma insert_first_skipped:
  assumes e: "dlist_holds (vt_mem s) []" "vtp \<noteq> dlhp"
    and skip: "clk (clk_reads s) = now + 11 + late" "11 \<le> 11 + late" "delay \<le> 11 + late"
    and soon: "clk (Suc (clk_reads s)) - clk (clk_reads s) < 11"
  shows "\<exists>s'. vt_insert_first clk vtp now delay s = Some s' \<and> st_alarm s' = Some (clk (clk_reads s) - late) \<and>
     clk_reads s' = Suc (Suc (clk_reads s))"
proof -
  obtain m where m: "ch_dlist_insert_after dlhp vtp delay (vt_mem s) = Some m"
    by (rule insert_after_empty[OF e]) blast
  let ?d = "if delay < CH_CFG_ST_TIMEDELTA then CH_CFG_ST_TIMEDELTA else delay"
  let ?s = "port_timer_set_alarm (now + ?d) (s\<lparr>vt_lasttime := now, vt_mem := m\<rparr>)"
  have "(10 :: u32) < 11 + late"
    by (rule less_le_trans[OF _ skip(2)]) simp
  then have "\<not> 11 + late < ?d" using skip(3) by (auto simp: CH_CFG_ST_TIMEDELTA_def)
  then have "insert_first_loop clk now ?d CH_CFG_ST_TIMEDELTA ?s =
     Some (11, ?s\<lparr>clk_reads := Suc (Suc (clk_reads s)), st_alarm := Some (now + 11)\<rparr>)"
    using skip(1) soon
    by (subst insert_first_loop.simps, subst insert_first_loop.simps)
       (simp add: vt_simps CH_CFG_ST_TIMEDELTA_def)
  then show ?thesis
    using m skip(1) by (simp add: vt_insert_first_def Let_def chTimeAddX_def note_skip_def chRFCUCollectFaultsI_def)
qed

subsection \<open>Queries\<close>

lemma remaining_loop_finds:
  assumes "seg (vt_mem s) p xs dlhp" and "distinct (dlhp # map fst xs)" and "unat acc + delta_sum xs < 2 ^ 32"
    and "(vtp, D) \<in> set (times_from (unat acc) xs)"
  shows "remaining_loop clk vtp (first_of xs) acc s =
     (let nd = chTimeDiffX (vt_lasttime s) (clk (clk_reads s)) in
      Some (of_nat (D - unat nd), s\<lparr>clk_reads := Suc (clk_reads s)\<rparr>))"
  using assms
proof (induction xs arbitrary: p acc)
  case (Cons x xs)
  obtain t d where x: "x = (t, d)" by (cases x)
  have u: "unat (acc + d) = unat acc + unat d"
    using Cons.prems(3) x by (simp add: delta_sum_def unat_word_ariths)
  have s: "d_delta (vt_mem s t) = d" "seg (vt_mem s) t xs dlhp" using Cons.prems(1) x by simp_all
  show ?case
  proof (cases "t = vtp")
    case True
    then have "vtp \<notin> set (map fst (times_from (unat acc + unat d) xs))" using Cons.prems(2) x by (simp del: set_map)
    then have "(vtp, D) \<notin> set (times_from (unat acc + unat d) xs)" by (metis fst_conv image_eqI set_map)
    then have D: "D = unat (acc + d)" using Cons.prems(4) x True u by simp
    let ?nd = "chTimeDiffX (vt_lasttime s) (clk (clk_reads s))"
    have "(if acc + d < ?nd then 0 else acc + d - ?nd) = of_nat (D - unat ?nd)"
      using D by (auto simp: word_less_nat_alt unat_sub_le word_le_nat_alt simp flip: unat_sub_le)
    then show ?thesis
      using x s True by (subst remaining_loop.simps) (simp add: first_of_def chVTGetSystemTimeX_def Let_def split: if_splits)
  next
    case False
    then have i: "(vtp, D) \<in> set (times_from (unat (acc + d)) xs)" using Cons.prems(4) x u by auto
    then have "xs \<noteq> []" by auto
    then have f: "first_of xs \<noteq> dlhp" using Cons.prems(2) x by (cases xs) (auto simp: first_of_def)
    have "remaining_loop clk vtp t acc s = remaining_loop clk vtp (first_of xs) (acc + d) s"
      using False f s seg_next[OF s(2)] by (subst remaining_loop.simps) simp
    then show ?thesis
      using Cons.IH[OF s(2) _ _ i] Cons.prems(2,3) x u by (simp add: first_of_def delta_sum_def)
  qed
qed simp

text \<open>The remaining interval of an armed timer is the time to its deadline, zero once that has passed.\<close>

lemma remaining_interval:
  assumes h: "vt_holds L ys s" and p: "(vtp, D) \<in> set ys" and L: "L \<le> T (clk_reads s)" "T (clk_reads s) - L < 2 ^ 32"
  shows "chVTGetRemainingIntervalI (ticks T) vtp s =
     Some (of_nat (D - T (clk_reads s)), s\<lparr>clk_reads := Suc (clk_reads s)\<rparr>)"
proof -
  from h obtain xs where x: "dlist_holds (vt_mem s) xs" "delta_sum xs < 2 ^ 32" "ys = times_from L xs" "vt_lasttime s = of_nat L"
    by (auto simp: vt_holds_def)
  then have sg: "seg (vt_mem s) dlhp xs dlhp" and di: "distinct (dlhp # map fst xs)" by (simp_all add: dlist_holds_def)
  have shift: "times_from L xs = map (\<lambda>(t, e). (t, L + e)) (times_from 0 xs)"
  proof -
    have "times_from (L + b) xs = map (\<lambda>(t, e). (t, L + e)) (times_from b xs)" for b
      by (induction b xs rule: times_from.induct) (auto simp: add.assoc)
    from this[of 0] show ?thesis by simp
  qed
  with p x(3) obtain E where E: "(vtp, E) \<in> set (times_from (unat (0 :: u32)) xs)" "D = L + E" by auto
  have "E - (T (clk_reads s) - L) = D - T (clk_reads s)" using E(2) L(1) by simp
  with remaining_loop_finds[OF sg di _ E(1), of "ticks T"] show ?thesis
    using x(2,4) seg_next[OF sg] elapsed_ticks[OF L]
    by (simp add: chVTGetRemainingIntervalI_def Let_def)
qed

text \<open>The 64-bit time stamp is the time itself, when it is taken at least once per turn of the clock.\<close>

lemma time_stamp:
  assumes "vt_laststamp s = of_nat S" and "S \<le> T (clk_reads s)" and "T (clk_reads s) - S < 2 ^ 32"
  shows "fst (chVTGetTimeStampI (ticks T) s) = of_nat (T (clk_reads s))"
    and "vt_laststamp (snd (chVTGetTimeStampI (ticks T) s)) = of_nat (T (clk_reads s))"
proof -
  let ?n = "T (clk_reads s)"
  have "ucast (of_nat S :: u64) = (of_nat S :: u32)"
    by (simp add: word_unat_eq_iff unat_ucast_64_32 unat_of_nat mod_mod_cancel)
  moreover have "(ucast (chTimeDiffX (of_nat S) (of_nat ?n :: u32)) :: u64) = of_nat (?n - S)"
    using elapsed_ticks[OF assms(2,3)] assms(3) by (simp add: word_unat_eq_iff unat_ucast_32_64 unat_of_nat)
  ultimately have "(of_nat S :: u64) + ucast (chTimeDiffX (ucast (of_nat S :: u64)) (of_nat ?n :: u32)) = of_nat ?n"
    using assms(2) by (simp flip: of_nat_add)
  then show "fst (chVTGetTimeStampI (ticks T) s) = of_nat ?n"
    and "vt_laststamp (snd (chVTGetTimeStampI (ticks T) s)) = of_nat ?n"
    using assms(1) by (simp_all add: chVTGetTimeStampI_def chVTGetSystemTimeX_def Let_def)
qed

subsection \<open>Concrete timers\<close>

text \<open>Memory in which no timer is armed, and the timers after their initialisation.\<close>

definition blank_timer :: virtual_timer where
  "blank_timer = \<lparr>d_next = None, d_prev = 0, d_delta = 0, vt_func = 0, vt_par = 0, vt_reload = 0\<rparr>"

definition blank_timers :: virtual_timers where
  "blank_timers = \<lparr>vt_mem = (\<lambda>_. blank_timer), vt_lasttime = 0, vt_laststamp = 0, st_alarm = None, rfcu_mask = 0,
     clk_reads = 0, vt_calls = []\<rparr>"

lemma vt_init_holds:
  assumes "\<And>t. d_next (vt_mem s t) = None"
  shows "vt_holds 0 [] (vt_object_init clk s)"
proof -
  have "dlist_holds (vt_mem (vt_object_init clk s)) []"
    by (simp add: vt_object_init_def chVTGetSystemTimeX_def Let_def dlist_init_holds)
  then show ?thesis
    using assms unfolding vt_holds_def
    by (intro exI[of _ "[]"]) (simp add: delta_sum_def vt_object_init_def chVTGetSystemTimeX_def Let_def ch_dlist_init_def dmem_defs)
qed

lemma even_clock: "good_clock (\<lambda>k. c + 5 * k) i"
proof -
  have "settles (ticks (\<lambda>k. c + 5 * k)) j" for j
    by (auto simp: settles_def chTimeDiffX_def CH_CFG_ST_TIMEDELTA_def intro!: exI[of _ 0])
  then show ?thesis by (simp add: good_clock_def)
qed

theorem timer_set_witness:
  "\<exists>s' i L'. chVTSetI (ticks (\<lambda>k. 7 + 5 * k)) 1 1000 2 3 (vt_object_init (ticks (\<lambda>k. 7 + 5 * k)) blank_timers) = Some s' \<and>
     vt_holds L' [(1, 7 + 5 * i + 1000)] s' \<and> vt_func (vt_mem s' 1) = 2"
proof -
  let ?T = "\<lambda>k. 7 + 5 * k" and ?s = "vt_object_init (ticks (\<lambda>k. 7 + 5 * k)) blank_timers"
  have h: "vt_holds 0 [] ?s" by (rule vt_init_holds) (simp add: blank_timers_def blank_timer_def)
  have r: "clk_reads ?s = 1" by (simp add: vt_object_init_def blank_timers_def chVTGetSystemTimeX_def)
  from timer_set[OF h, of 1 ?T 1000 2 3] r even_clock[of 7]
  obtain s' i L' where "chVTSetI (ticks ?T) 1 1000 2 3 ?s = Some s'"
      "vt_holds L' (timed_insert 1 (?T i + unat (1000 :: u32)) (timed_remove 1 [])) s'" "vt_func (vt_mem s' 1) = 2" by auto
  then show ?thesis by (intro exI[of _ s'] exI[of _ i] exI[of _ L']) (simp add: timed_insert_def timed_remove_def)
qed

definition two_timers :: virtual_timers where
  "two_timers = blank_timers\<lparr>vt_mem := (\<lambda>_. blank_timer)
     (0 := blank_timer\<lparr>d_next := Some 1, d_prev := 2, d_delta := -1\<rparr>,
      1 := blank_timer\<lparr>d_next := Some 2, d_prev := 0, d_delta := 100\<rparr>,
      2 := blank_timer\<lparr>d_next := Some 0, d_prev := 1, d_delta := 50\<rparr>)\<rparr>"

lemma two_timers_hold: "vt_holds 0 [(1, 100), (2, 150)] two_timers"
  unfolding vt_holds_def
  by (intro exI[of _ "[(1, 100), (2, 50)]"])
     (simp add: two_timers_def blank_timers_def blank_timer_def dlist_holds_def delta_sum_def)


end
