(* ===== verification/Scheduler.thy ===== *)
theory Scheduler
  imports Prelude
begin

text \<open>
  Threads and the ready list of the kernel (\<open>ChibiOS/os/rt/src/chschd.c\<close>), with the priority queues
  of \<open>chlists.h\<close>. A thread is its number; queues of threads are lists of numbers from the first to
  the last element. The context switch itself is the change of the current thread. A thread that
  waits for a mutex or a condition variable carries its number in the state (the source has it in
  \<open>u.wtobjp\<close>); the lock counter of a mutex is an unbounded integer.
\<close>

subsection \<open>Threads\<close>

datatype tstate =
    CH_STATE_READY
  | CH_STATE_CURRENT
  | CH_STATE_WTSTART
  | CH_STATE_SUSPENDED
  | CH_STATE_QUEUED
  | CH_STATE_WTSEM
  | CH_STATE_WTMTX nat
  | CH_STATE_WTCOND nat
  | CH_STATE_SLEEPING
  | CH_STATE_WTEXIT
  | CH_STATE_WTOREVT
  | CH_STATE_WTANDEVT
  | CH_STATE_SNDMSGQ
  | CH_STATE_SNDMSG
  | CH_STATE_WTMSG
  | CH_STATE_FINAL

record thread_t =
  th_prio :: u32
  th_realprio :: u32
  th_state :: tstate
  th_mtxlist :: "nat option"
  th_rdymsg :: int

record mutex_t =
  mx_queue :: "nat list"
  mx_owner :: "nat option"
  mx_next :: "nat option"
  mx_cnt :: int

record kernel =
  k_current :: nat
  k_ready :: "nat list"
  k_threads :: "nat \<Rightarrow> thread_t"
  k_mutexes :: "nat \<Rightarrow> mutex_t"
  k_conds :: "nat \<Rightarrow> nat list"

abbreviation prio :: "kernel \<Rightarrow> nat \<Rightarrow> u32" where
  "prio k t \<equiv> th_prio (k_threads k t)"

abbreviation state_of :: "kernel \<Rightarrow> nat \<Rightarrow> tstate" where
  "state_of k t \<equiv> th_state (k_threads k t)"

definition upd_thread :: "nat \<Rightarrow> (thread_t \<Rightarrow> thread_t) \<Rightarrow> kernel \<Rightarrow> kernel" where
  "upd_thread t f k = k\<lparr>k_threads := (k_threads k)(t := f (k_threads k t))\<rparr>"

definition upd_mutex :: "nat \<Rightarrow> (mutex_t \<Rightarrow> mutex_t) \<Rightarrow> kernel \<Rightarrow> kernel" where
  "upd_mutex m f k = k\<lparr>k_mutexes := (k_mutexes k)(m := f (k_mutexes k m))\<rparr>"

subsection \<open>Priority queues\<close>

text \<open>The place behind the threads of the same priority, and the place ahead of them. The header ends
  the scan: its priority is below that of every thread.\<close>

fun ch_pqueue_insert_behind :: "(nat \<Rightarrow> u32) \<Rightarrow> nat \<Rightarrow> nat list \<Rightarrow> nat list" where
  "ch_pqueue_insert_behind pr t [] = [t]"
| "ch_pqueue_insert_behind pr t (u # us) =
     (if pr t \<le> pr u then u # ch_pqueue_insert_behind pr t us else t # u # us)"

fun ch_pqueue_insert_ahead :: "(nat \<Rightarrow> u32) \<Rightarrow> nat \<Rightarrow> nat list \<Rightarrow> nat list" where
  "ch_pqueue_insert_ahead pr t [] = [t]"
| "ch_pqueue_insert_ahead pr t (u # us) =
     (if pr t < pr u then u # ch_pqueue_insert_ahead pr t us else t # u # us)"

fun ch_pqueue_remove_highest :: "nat list \<Rightarrow> (nat \<times> nat list) option" where
  "ch_pqueue_remove_highest [] = None"
| "ch_pqueue_remove_highest (t # ts) = Some (t, ts)"

definition ch_sch_prio_insert :: "(nat \<Rightarrow> u32) \<Rightarrow> nat \<Rightarrow> nat list \<Rightarrow> nat list" where
  "ch_sch_prio_insert pr t q = ch_pqueue_insert_behind pr t q"

definition ch_queue_dequeue :: "nat \<Rightarrow> nat list \<Rightarrow> nat list" where
  "ch_queue_dequeue t q = remove1 t q"

text \<open>The priority of the first ready thread; that of the header, zero, when there is none.\<close>

definition firstprio :: "kernel \<Rightarrow> u32" where
  "firstprio k = (case k_ready k of [] \<Rightarrow> 0 | t # _ \<Rightarrow> prio k t)"

subsection \<open>Scheduling\<close>

definition sch_ready_behind :: "nat \<Rightarrow> kernel \<Rightarrow> kernel" where
  "sch_ready_behind tp k =
     (let k1 = upd_thread tp (\<lambda>th. th\<lparr>th_state := CH_STATE_READY\<rparr>) k
      in k1\<lparr>k_ready := ch_pqueue_insert_behind (prio k1) tp (k_ready k1)\<rparr>)"

definition sch_ready_ahead :: "nat \<Rightarrow> kernel \<Rightarrow> kernel" where
  "sch_ready_ahead tp k =
     (let k1 = upd_thread tp (\<lambda>th. th\<lparr>th_state := CH_STATE_READY\<rparr>) k
      in k1\<lparr>k_ready := ch_pqueue_insert_ahead (prio k1) tp (k_ready k1)\<rparr>)"

text \<open>The first ready thread becomes the current one.\<close>

definition sch_run_first :: "kernel \<Rightarrow> kernel option" where
  "sch_run_first k = do {
     (ntp, q) \<leftarrow> ch_pqueue_remove_highest (k_ready k);
     Some ((upd_thread ntp (\<lambda>th. th\<lparr>th_state := CH_STATE_CURRENT\<rparr>) k)\<lparr>k_ready := q, k_current := ntp\<rparr>) }"

definition sch_reschedule_ahead :: "kernel \<Rightarrow> kernel option" where
  "sch_reschedule_ahead k = do {
     let otp = k_current k;
     k1 \<leftarrow> sch_run_first k;
     Some (sch_ready_ahead otp k1) }"

definition sch_reschedule_behind :: "kernel \<Rightarrow> kernel option" where
  "sch_reschedule_behind k = do {
     let otp = k_current k;
     k1 \<leftarrow> sch_run_first k;
     Some (sch_ready_behind otp k1) }"

definition chSchReadyI :: "nat \<Rightarrow> kernel \<Rightarrow> kernel" where
  "chSchReadyI tp k = sch_ready_behind tp k"

definition chSchGoSleepS :: "tstate \<Rightarrow> kernel \<Rightarrow> kernel option" where
  "chSchGoSleepS newstate k =
     sch_run_first (upd_thread (k_current k) (\<lambda>th. th\<lparr>th_state := newstate\<rparr>) k)"

definition chSchWakeupS :: "nat \<Rightarrow> int \<Rightarrow> kernel \<Rightarrow> kernel" where
  "chSchWakeupS ntp msg k =
     (let k1 = upd_thread ntp (\<lambda>th. th\<lparr>th_rdymsg := msg\<rparr>) k;
          otp = k_current k1
      in if prio k1 ntp \<le> prio k1 otp then sch_ready_behind ntp k1
         else (upd_thread ntp (\<lambda>th. th\<lparr>th_state := CH_STATE_CURRENT\<rparr>) (sch_ready_ahead otp k1))\<lparr>k_current := ntp\<rparr>)"

definition chSchRescheduleS :: "kernel \<Rightarrow> kernel option" where
  "chSchRescheduleS k = (if prio k (k_current k) < firstprio k then sch_reschedule_ahead k else Some k)"

definition chSchIsPreemptionRequired :: "kernel \<Rightarrow> bool" where
  "chSchIsPreemptionRequired k \<longleftrightarrow> prio k (k_current k) < firstprio k"

definition chSchDoPreemption :: "kernel \<Rightarrow> kernel option" where
  "chSchDoPreemption k = do {
     let otp = k_current k;
     k1 \<leftarrow> sch_run_first k;
     Some (sch_ready_ahead otp k1) }"

definition chSchPreemption :: "kernel \<Rightarrow> kernel option" where
  "chSchPreemption k = (if prio k (k_current k) < firstprio k then sch_reschedule_ahead k else Some k)"

definition chSchDoYieldS :: "kernel \<Rightarrow> kernel option" where
  "chSchDoYieldS k = (if prio k (k_current k) \<le> firstprio k then sch_reschedule_behind k else Some k)"

subsection \<open>Selectors after an update\<close>

lemma upd_thread_sel [simp]:
  "k_threads (upd_thread t f k) = (k_threads k)(t := f (k_threads k t))"
  "k_mutexes (upd_thread t f k) = k_mutexes k" "k_ready (upd_thread t f k) = k_ready k"
  "k_current (upd_thread t f k) = k_current k" "k_conds (upd_thread t f k) = k_conds k"
  by (simp_all add: upd_thread_def)

lemma upd_mutex_sel [simp]:
  "k_mutexes (upd_mutex m f k) = (k_mutexes k)(m := f (k_mutexes k m))"
  "k_threads (upd_mutex m f k) = k_threads k" "k_ready (upd_mutex m f k) = k_ready k"
  "k_current (upd_mutex m f k) = k_current k" "k_conds (upd_mutex m f k) = k_conds k"
  by (simp_all add: upd_mutex_def)

lemma ready_behind_sel [simp]:
  "k_threads (sch_ready_behind t k) = (k_threads k)(t := (k_threads k t)\<lparr>th_state := CH_STATE_READY\<rparr>)"
  "k_mutexes (sch_ready_behind t k) = k_mutexes k" "k_current (sch_ready_behind t k) = k_current k"
  "k_ready (sch_ready_behind t k) = ch_pqueue_insert_behind (prio k) t (k_ready k)"
  by (auto simp: sch_ready_behind_def Let_def intro!: arg_cong[where f = "\<lambda>p. ch_pqueue_insert_behind p t (k_ready k)"])

lemma ready_ahead_sel [simp]:
  "k_threads (sch_ready_ahead t k) = (k_threads k)(t := (k_threads k t)\<lparr>th_state := CH_STATE_READY\<rparr>)"
  "k_mutexes (sch_ready_ahead t k) = k_mutexes k" "k_current (sch_ready_ahead t k) = k_current k"
  "k_ready (sch_ready_ahead t k) = ch_pqueue_insert_ahead (prio k) t (k_ready k)"
  by (auto simp: sch_ready_ahead_def Let_def intro!: arg_cong[where f = "\<lambda>p. ch_pqueue_insert_ahead p t (k_ready k)"])

subsection \<open>Order of the queues\<close>

definition by_prio :: "(nat \<Rightarrow> u32) \<Rightarrow> nat list \<Rightarrow> bool" where
  "by_prio pr q \<longleftrightarrow> sorted_wrt (\<lambda>a b. pr b \<le> pr a) q"

lemma by_prio_Nil [simp]: "by_prio pr []"
  by (simp add: by_prio_def)

lemma by_prio_Cons [simp]: "by_prio pr (t # q) \<longleftrightarrow> (\<forall>u \<in> set q. pr u \<le> pr t) \<and> by_prio pr q"
  by (simp add: by_prio_def)

lemma insert_behind_set [simp]: "set (ch_pqueue_insert_behind pr t q) = insert t (set q)"
  by (induction q) auto

lemma insert_behind_distinct [simp]: "distinct (ch_pqueue_insert_behind pr t q) \<longleftrightarrow> t \<notin> set q \<and> distinct q"
  by (induction q) auto

lemma insert_behind_by_prio: "by_prio pr q \<Longrightarrow> by_prio pr (ch_pqueue_insert_behind pr t q)"
  by (induction q) (auto simp: not_le intro: order_trans)

lemma insert_ahead_set [simp]: "set (ch_pqueue_insert_ahead pr t q) = insert t (set q)"
  by (induction q) auto

lemma insert_ahead_distinct [simp]: "distinct (ch_pqueue_insert_ahead pr t q) \<longleftrightarrow> t \<notin> set q \<and> distinct q"
  by (induction q) auto

lemma insert_ahead_by_prio: "by_prio pr q \<Longrightarrow> by_prio pr (ch_pqueue_insert_ahead pr t q)"
  by (induction q) (auto simp: not_less intro: order_trans)

lemma by_prio_cong: "(\<And>t. t \<in> set q \<Longrightarrow> pr t = pr' t) \<Longrightarrow> by_prio pr q \<longleftrightarrow> by_prio pr' q"
  by (induction q) auto

lemma by_prio_remove1: "by_prio pr q \<Longrightarrow> by_prio pr (remove1 t q)"
  by (induction q) (auto dest: notin_set_remove1[of _ _ t])

text \<open>What both ways of inserting promise, and what follows for a thread that is put back with a new
  priority.\<close>

locale pqueue_insert =
  fixes ins :: "(nat \<Rightarrow> u32) \<Rightarrow> nat \<Rightarrow> nat list \<Rightarrow> nat list"
  assumes ins_elements: "set (ins pr t q) = insert t (set q)"
    and ins_once: "distinct (ins pr t q) \<longleftrightarrow> t \<notin> set q \<and> distinct q"
    and ins_order: "by_prio pr q \<Longrightarrow> by_prio pr (ins pr t q)"
begin

lemma requeue_order:
  assumes "by_prio pr q" and "\<And>u. u \<noteq> t \<Longrightarrow> pr' u = pr u" and "distinct q"
  shows "by_prio pr' (ins pr' t (remove1 t q))"
proof (rule ins_order)
  have "by_prio pr (remove1 t q)" by (rule by_prio_remove1[OF assms(1)])
  then show "by_prio pr' (remove1 t q)"
    using by_prio_cong[of "remove1 t q" pr pr'] assms(2,3) by (metis set_remove1_eq Diff_iff singletonI)
qed

lemma requeue_elements:
  assumes "distinct q" and "t \<in> set q"
  shows "set (ins pr t (remove1 t q)) = set q" and "distinct (ins pr t (remove1 t q))"
  using assms by (auto simp: ins_elements ins_once)

end

interpretation behind: pqueue_insert ch_pqueue_insert_behind
  by unfold_locales (auto intro: insert_behind_by_prio)

interpretation ahead: pqueue_insert ch_pqueue_insert_ahead
  by unfold_locales (auto intro: insert_ahead_by_prio)

end
