(* ===== verification/Mutexes.thy ===== *)
theory Mutexes
  imports Scheduler
begin

text \<open>
  The mutexes of the kernel (\<open>ChibiOS/os/rt/src/chmtx.c\<close>): recursive, with priority inheritance
  along chains of owners, and handed over to the first waiting thread. The services, the debug
  interfaces and the motor drivers guard their state with them (\<open>portable/xbot/mutex.cpp\<close>).
\<close>

subsection \<open>Operations\<close>

definition chMtxObjectInit :: "nat \<Rightarrow> kernel \<Rightarrow> kernel" where
  "chMtxObjectInit mp = upd_mutex mp (\<lambda>mx. mx\<lparr>mx_queue := [], mx_owner := None, mx_cnt := 0\<rparr>)"

definition chMtxQueueNotEmptyS :: "nat \<Rightarrow> kernel \<Rightarrow> bool" where
  "chMtxQueueNotEmptyS mp k \<longleftrightarrow> mx_queue (k_mutexes k mp) \<noteq> []"

text \<open>The loop of \<open>chMtxLockS\<close> that raises the owner \<open>tp\<close>, and those it waits for, to the priority
  \<open>p\<close>.\<close>

definition requeue :: "nat \<Rightarrow> nat list \<Rightarrow> kernel \<Rightarrow> nat list" where
  "requeue tp q k = ch_sch_prio_insert (prio k) tp (ch_queue_dequeue tp q)"

partial_function (option) boost :: "u32 \<Rightarrow> nat \<Rightarrow> kernel \<Rightarrow> kernel option" where
  "boost p tp k =
     (if prio k tp < p then
        (let k1 = upd_thread tp (\<lambda>th. th\<lparr>th_prio := p\<rparr>) k in
         case state_of k1 tp of
           CH_STATE_WTMTX mp \<Rightarrow> do {
             let k2 = upd_mutex mp (\<lambda>mx. mx\<lparr>mx_queue := requeue tp (mx_queue mx) k1\<rparr>) k1;
             tp' \<leftarrow> mx_owner (k_mutexes k2 mp);
             boost p tp' k2 }
         | CH_STATE_WTCOND c \<Rightarrow> Some (k1\<lparr>k_conds := (k_conds k1)(c := requeue tp (k_conds k1 c) k1)\<rparr>)
         | CH_STATE_READY \<Rightarrow> Some (chSchReadyI tp (k1\<lparr>k_ready := ch_queue_dequeue tp (k_ready k1)\<rparr>))
         | _ \<Rightarrow> Some k1)
      else Some k)"

text \<open>Taking a mutex nobody owns.\<close>

definition mtx_take :: "nat \<Rightarrow> kernel \<Rightarrow> kernel" where
  "mtx_take mp k =
     (let currtp = k_current k in
      upd_thread currtp (\<lambda>th. th\<lparr>th_mtxlist := Some mp\<rparr>)
        (upd_mutex mp (\<lambda>mx. mx\<lparr>mx_cnt := mx_cnt mx + 1, mx_owner := Some currtp,
                              mx_next := th_mtxlist (k_threads k currtp)\<rparr>) k))"

definition chMtxLockS :: "nat \<Rightarrow> kernel \<Rightarrow> kernel option" where
  "chMtxLockS mp k =
     (let currtp = k_current k in
      case mx_owner (k_mutexes k mp) of
        Some tp \<Rightarrow>
          if tp = currtp then Some (upd_mutex mp (\<lambda>mx. mx\<lparr>mx_cnt := mx_cnt mx + 1\<rparr>) k)
          else do {
            k1 \<leftarrow> boost (prio k currtp) tp k;
            let k2 = upd_mutex mp (\<lambda>mx. mx\<lparr>mx_queue := ch_sch_prio_insert (prio k1) currtp (mx_queue mx)\<rparr>) k1;
            chSchGoSleepS (CH_STATE_WTMTX mp) k2 }
      | None \<Rightarrow> Some (mtx_take mp k))"

definition chMtxTryLockS :: "nat \<Rightarrow> kernel \<Rightarrow> bool \<times> kernel" where
  "chMtxTryLockS mp k =
     (case mx_owner (k_mutexes k mp) of
        Some tp \<Rightarrow>
          if tp = k_current k then (True, upd_mutex mp (\<lambda>mx. mx\<lparr>mx_cnt := mx_cnt mx + 1\<rparr>) k)
          else (False, k)
      | None \<Rightarrow> (True, mtx_take mp k))"

text \<open>The scan of the owned mutexes for the highest waiting priority.\<close>

partial_function (option) scan_owned :: "kernel \<Rightarrow> nat option \<Rightarrow> u32 \<Rightarrow> u32 option" where
  "scan_owned k lmp newprio =
     (case lmp of
        None \<Rightarrow> Some newprio
      | Some l \<Rightarrow>
          (case mx_queue (k_mutexes k l) of
             t # _ \<Rightarrow> scan_owned k (mx_next (k_mutexes k l)) (if newprio < prio k t then prio k t else newprio)
           | [] \<Rightarrow> scan_owned k (mx_next (k_mutexes k l)) newprio))"

text \<open>Handing the mutex over to the thread that waits first.\<close>

definition mtx_hand_over :: "nat \<Rightarrow> kernel \<Rightarrow> kernel option" where
  "mtx_hand_over mp k = do {
     (tp, q) \<leftarrow> ch_pqueue_remove_highest (mx_queue (k_mutexes k mp));
     let k1 = upd_mutex mp (\<lambda>mx. mx\<lparr>mx_cnt := 1, mx_queue := q, mx_owner := Some tp,
                                   mx_next := th_mtxlist (k_threads k tp)\<rparr>) k;
     Some (chSchReadyI tp (upd_thread tp (\<lambda>th. th\<lparr>th_mtxlist := Some mp\<rparr>) k1)) }"

definition mtx_release :: "nat \<Rightarrow> kernel \<Rightarrow> kernel option" where
  "mtx_release mp k =
     (let currtp = k_current k;
          k1 = upd_thread currtp (\<lambda>th. th\<lparr>th_mtxlist := mx_next (k_mutexes k mp)\<rparr>) k
      in if chMtxQueueNotEmptyS mp k1 then do {
           newprio \<leftarrow> scan_owned k1 (th_mtxlist (k_threads k1 currtp)) (th_realprio (k_threads k1 currtp));
           mtx_hand_over mp (upd_thread currtp (\<lambda>th. th\<lparr>th_prio := newprio\<rparr>) k1) }
         else Some (upd_mutex mp (\<lambda>mx. mx\<lparr>mx_owner := None\<rparr>) k1))"

definition chMtxUnlockS :: "nat \<Rightarrow> kernel \<Rightarrow> kernel option" where
  "chMtxUnlockS mp k =
     (let k1 = upd_mutex mp (\<lambda>mx. mx\<lparr>mx_cnt := mx_cnt mx - 1\<rparr>) k
      in if mx_cnt (k_mutexes k1 mp) = 0 then mtx_release mp k1 else Some k1)"

definition chMtxUnlock :: "nat \<Rightarrow> kernel \<Rightarrow> kernel option" where
  "chMtxUnlock mp k =
     (let k1 = upd_mutex mp (\<lambda>mx. mx\<lparr>mx_cnt := mx_cnt mx - 1\<rparr>) k
      in if mx_cnt (k_mutexes k1 mp) = 0 then do {
           let waiters = chMtxQueueNotEmptyS mp k1;
           k2 \<leftarrow> mtx_release mp k1;
           if waiters then chSchRescheduleS k2 else Some k2 }
         else Some k1)"

text \<open>The loop of \<open>chMtxUnlockAllS\<close>.\<close>

partial_function (option) unlock_all :: "kernel \<Rightarrow> kernel option" where
  "unlock_all k =
     (let currtp = k_current k in
      case th_mtxlist (k_threads k currtp) of
        None \<Rightarrow> Some k
      | Some mp \<Rightarrow> do {
          let k1 = upd_thread currtp (\<lambda>th. th\<lparr>th_mtxlist := mx_next (k_mutexes k mp)\<rparr>) k;
          k2 \<leftarrow> (if chMtxQueueNotEmptyS mp k1 then mtx_hand_over mp k1
                 else Some (upd_mutex mp (\<lambda>mx. mx\<lparr>mx_cnt := 0, mx_owner := None\<rparr>) k1));
          unlock_all k2 })"

definition chMtxUnlockAllS :: "kernel \<Rightarrow> kernel option" where
  "chMtxUnlockAllS k =
     (let currtp = k_current k in
      if th_mtxlist (k_threads k currtp) \<noteq> None then do {
        k1 \<leftarrow> unlock_all k;
        chSchRescheduleS (upd_thread currtp (\<lambda>th. th\<lparr>th_prio := th_realprio th\<rparr>) k1) }
      else Some k)"

definition chMtxLock :: "nat \<Rightarrow> kernel \<Rightarrow> kernel option" where
  "chMtxLock mp k = chMtxLockS mp k"

definition chMtxTryLock :: "nat \<Rightarrow> kernel \<Rightarrow> bool \<times> kernel" where
  "chMtxTryLock mp k = chMtxTryLockS mp k"

definition chMtxUnlockAll :: "kernel \<Rightarrow> kernel option" where
  "chMtxUnlockAll k = chMtxUnlockAllS k"

text \<open>The mutexes of the service framework.\<close>

definition mutex_initialize :: "nat \<Rightarrow> kernel \<Rightarrow> bool \<times> kernel" where
  "mutex_initialize mutex k = (True, chMtxObjectInit mutex k)"

definition lockMutex :: "nat \<Rightarrow> kernel \<Rightarrow> kernel option" where
  "lockMutex mutex k = chMtxLock mutex k"

definition unlockMutex :: "nat \<Rightarrow> kernel \<Rightarrow> kernel option" where
  "unlockMutex mutex k = chMtxUnlock mutex k"

subsection \<open>The invariant\<close>

text \<open>The mutexes a thread owns, as linked from \<open>mtxlist\<close>.\<close>

fun owned_list :: "kernel \<Rightarrow> nat option \<Rightarrow> nat list \<Rightarrow> bool" where
  "owned_list k p [] \<longleftrightarrow> p = None"
| "owned_list k p (m # ms) \<longleftrightarrow> p = Some m \<and> owned_list k (mx_next (k_mutexes k m)) ms"

text \<open>\<open>N\<close> is the set of the threads. Every thread is in exactly the queue its state says, and the
  queues are ordered by priority.\<close>

definition queues_ok :: "nat set \<Rightarrow> kernel \<Rightarrow> bool" where
  "queues_ok N k \<longleftrightarrow>
     (\<forall>m. distinct (mx_queue (k_mutexes k m)) \<and> by_prio (prio k) (mx_queue (k_mutexes k m)) \<and>
        set (mx_queue (k_mutexes k m)) = {t \<in> N. state_of k t = CH_STATE_WTMTX m}) \<and>
     distinct (k_ready k) \<and> by_prio (prio k) (k_ready k) \<and>
     set (k_ready k) = {t \<in> N. state_of k t = CH_STATE_READY} \<and>
     {t \<in> N. state_of k t = CH_STATE_CURRENT} = {k_current k}"

text \<open>A mutex is free with counter zero and nobody waiting, or it is in the list of its owner.\<close>

definition owners_ok :: "nat set \<Rightarrow> kernel \<Rightarrow> bool" where
  "owners_ok N k \<longleftrightarrow>
     (\<forall>m. mx_owner (k_mutexes k m) = None \<longrightarrow> mx_cnt (k_mutexes k m) = 0 \<and> mx_queue (k_mutexes k m) = []) \<and>
     (\<forall>m t. mx_owner (k_mutexes k m) = Some t \<longrightarrow> t \<in> N \<and> 0 < mx_cnt (k_mutexes k m)) \<and>
     (\<forall>t \<in> N. \<exists>ms. owned_list k (th_mtxlist (k_threads k t)) ms \<and> distinct ms \<and>
        set ms = {m. mx_owner (k_mutexes k m) = Some t})"

text \<open>\<open>waits_for k u t\<close>: \<open>u\<close> waits for a mutex that \<open>t\<close> owns.\<close>

definition waits_for :: "kernel \<Rightarrow> nat \<Rightarrow> nat \<Rightarrow> bool" where
  "waits_for k u t \<longleftrightarrow> (\<exists>m. mx_owner (k_mutexes k m) = Some t \<and> u \<in> set (mx_queue (k_mutexes k m)))"

definition inherits :: "kernel \<Rightarrow> bool" where
  "inherits k \<longleftrightarrow> (\<forall>u t. waits_for k u t \<longrightarrow> prio k u \<le> prio k t)"

definition justified :: "kernel \<Rightarrow> nat \<Rightarrow> bool" where
  "justified k t \<longleftrightarrow> th_realprio (k_threads k t) \<le> prio k t \<and>
     (prio k t = th_realprio (k_threads k t) \<or> (\<exists>u. waits_for k u t \<and> prio k u = prio k t))"

text \<open>What the priority inheritance leaves alone.\<close>

definition same_but_prio :: "kernel \<Rightarrow> kernel \<Rightarrow> bool" where
  "same_but_prio k k' \<longleftrightarrow> k_current k' = k_current k \<and> (\<forall>t. state_of k' t = state_of k t \<and>
     th_realprio (k_threads k' t) = th_realprio (k_threads k t) \<and> th_mtxlist (k_threads k' t) = th_mtxlist (k_threads k t)) \<and>
     (\<forall>m. mx_owner (k_mutexes k' m) = mx_owner (k_mutexes k m) \<and> mx_next (k_mutexes k' m) = mx_next (k_mutexes k m) \<and>
        mx_cnt (k_mutexes k' m) = mx_cnt (k_mutexes k m) \<and>
        set (mx_queue (k_mutexes k' m)) = set (mx_queue (k_mutexes k m)))"

lemma same_but_prio_refl [simp]: "same_but_prio k k"
  by (simp add: same_but_prio_def)

lemma same_but_prio_trans: "same_but_prio k k1 \<Longrightarrow> same_but_prio k1 k2 \<Longrightarrow> same_but_prio k k2"
  by (simp add: same_but_prio_def)

lemma same_waits_for: "same_but_prio k k' \<Longrightarrow> waits_for k' u t \<longleftrightarrow> waits_for k u t"
  by (simp add: same_but_prio_def waits_for_def)

lemma same_owned: "same_but_prio k k' \<Longrightarrow> owned_list k' p ms \<longleftrightarrow> owned_list k p ms"
  by (induction ms arbitrary: p) (auto simp: same_but_prio_def)

lemma same_owners_ok:
  assumes "same_but_prio k k'" and "owners_ok N k"
  shows "owners_ok N k'"
proof -
  have e: "mx_queue (k_mutexes k' m) = [] \<longleftrightarrow> mx_queue (k_mutexes k m) = []" for m
    using assms(1) by (metis same_but_prio_def set_empty)
  show ?thesis
    using assms same_owned[OF assms(1)] by (simp add: owners_ok_def same_but_prio_def e)
qed

text \<open>Raising one thread keeps the queues in order when it is put back into the queue it is in.\<close>

definition put_back :: "(nat \<Rightarrow> u32) \<Rightarrow> nat \<Rightarrow> nat list \<Rightarrow> nat list" where
  "put_back pr t q = (if t \<in> set q then ch_pqueue_insert_behind pr t (remove1 t q) else q)"

lemma put_back_facts:
  assumes "distinct q" and "by_prio pr q" and "\<And>u. u \<noteq> t \<Longrightarrow> pr' u = pr u"
  shows "distinct (put_back pr' t q)" "by_prio pr' (put_back pr' t q)" "set (put_back pr' t q) = set q"
proof -
  show "by_prio pr' (put_back pr' t q)"
  proof (cases "t \<in> set q")
    case True
    then show ?thesis using behind.requeue_order[OF assms(2,3,1)] by (simp add: put_back_def)
  next
    case False
    then show ?thesis using by_prio_cong[of q pr pr'] assms(2,3) by (metis put_back_def)
  qed
  show "distinct (put_back pr' t q)" "set (put_back pr' t q) = set q"
    using behind.requeue_elements[OF assms(1)] assms(1) by (simp_all add: put_back_def)
qed

lemma raised_queues:
  assumes q: "queues_ok N k" and pr: "\<And>u. u \<noteq> tp \<Longrightarrow> prio k2 u = prio k u"
    and st: "\<And>t. state_of k2 t = state_of k t" and cur: "k_current k2 = k_current k"
    and mq: "\<And>m. mx_queue (k_mutexes k2 m) = put_back (prio k2) tp (mx_queue (k_mutexes k m))"
    and rq: "k_ready k2 = put_back (prio k2) tp (k_ready k)"
  shows "queues_ok N k2"
proof -
  have m: "distinct (mx_queue (k_mutexes k m))" "by_prio (prio k) (mx_queue (k_mutexes k m))"
      "set (mx_queue (k_mutexes k m)) = {t \<in> N. state_of k t = CH_STATE_WTMTX m}" for m
    using q by (simp_all add: queues_ok_def)
  have r: "distinct (k_ready k)" "by_prio (prio k) (k_ready k)" "set (k_ready k) = {t \<in> N. state_of k t = CH_STATE_READY}"
      "{t \<in> N. state_of k t = CH_STATE_CURRENT} = {k_current k}"
    using q by (simp_all add: queues_ok_def)
  note pm = put_back_facts[OF m(1,2), where pr' = "prio k2" and t = tp, OF pr]
    and pr2 = put_back_facts[OF r(1,2), where pr' = "prio k2" and t = tp, OF pr]
  show ?thesis
    unfolding queues_ok_def st cur mq rq using pm pr2 m(3) r(3,4) by simp
qed

text \<open>One round of the loop of \<open>chMtxLockS\<close>.\<close>

definition raise :: "u32 \<Rightarrow> nat \<Rightarrow> kernel \<Rightarrow> kernel" where
  "raise p tp k =
     (let k1 = upd_thread tp (\<lambda>th. th\<lparr>th_prio := p\<rparr>) k in
      case state_of k tp of
        CH_STATE_WTMTX mp \<Rightarrow> upd_mutex mp (\<lambda>mx. mx\<lparr>mx_queue := requeue tp (mx_queue mx) k1\<rparr>) k1
      | CH_STATE_WTCOND c \<Rightarrow> k1\<lparr>k_conds := (k_conds k1)(c := requeue tp (k_conds k1 c) k1)\<rparr>
      | CH_STATE_READY \<Rightarrow> chSchReadyI tp (k1\<lparr>k_ready := ch_queue_dequeue tp (k_ready k1)\<rparr>)
      | _ \<Rightarrow> k1)"

lemma boost_unfold:
  "boost p tp k =
     (if prio k tp < p then
        (case state_of k tp of
           CH_STATE_WTMTX mp \<Rightarrow> (case mx_owner (k_mutexes k mp) of None \<Rightarrow> None | Some tp' \<Rightarrow> boost p tp' (raise p tp k))
         | _ \<Rightarrow> Some (raise p tp k))
      else Some k)"
  by (subst boost.simps) (auto simp: raise_def Let_def split: tstate.splits option.splits)

lemma raise_prio: "prio (raise p tp k) u = (if u = tp then p else prio k u)"
  by (auto simp: raise_def Let_def chSchReadyI_def split: tstate.splits)

lemma raise_frame:
  "k_current (raise p tp k) = k_current k" "state_of (raise p tp k) t = state_of k t"
  "th_realprio (k_threads (raise p tp k) t) = th_realprio (k_threads k t)"
  "th_mtxlist (k_threads (raise p tp k) t) = th_mtxlist (k_threads k t)"
  "mx_owner (k_mutexes (raise p tp k) m) = mx_owner (k_mutexes k m)"
  "mx_next (k_mutexes (raise p tp k) m) = mx_next (k_mutexes k m)"
  "mx_cnt (k_mutexes (raise p tp k) m) = mx_cnt (k_mutexes k m)"
  by (auto simp: raise_def Let_def chSchReadyI_def split: tstate.splits)

lemma raise_queue:
  assumes "queues_ok N k" and "tp \<in> N"
  shows "mx_queue (k_mutexes (raise p tp k) m) = put_back (prio (raise p tp k)) tp (mx_queue (k_mutexes k m))"
    and "k_ready (raise p tp k) = put_back (prio (raise p tp k)) tp (k_ready k)"
proof -
  have e: "prio (raise p tp k) = (\<lambda>u. if u = tp then p else prio k u)" by (simp add: raise_prio fun_eq_iff)
  have f: "(\<lambda>t. th_prio (if t = tp then (k_threads k tp)\<lparr>th_prio := p\<rparr> else k_threads k t)) = (\<lambda>u. if u = tp then p else prio k u)"
    by auto
  have m: "tp \<in> set (mx_queue (k_mutexes k m)) \<longleftrightarrow> state_of k tp = CH_STATE_WTMTX m" for m
    using assms by (auto simp: queues_ok_def)
  have r: "tp \<in> set (k_ready k) \<longleftrightarrow> state_of k tp = CH_STATE_READY"
    using assms by (auto simp: queues_ok_def)
  show "mx_queue (k_mutexes (raise p tp k) m) = put_back (prio (raise p tp k)) tp (mx_queue (k_mutexes k m))"
    unfolding e put_back_def m
    by (auto simp: raise_def Let_def chSchReadyI_def requeue_def ch_sch_prio_insert_def ch_queue_dequeue_def f split: tstate.splits)
  show "k_ready (raise p tp k) = put_back (prio (raise p tp k)) tp (k_ready k)"
    unfolding e put_back_def r
    by (auto simp: raise_def Let_def chSchReadyI_def ch_queue_dequeue_def f split: tstate.splits)
qed

lemma raise_ok:
  assumes "queues_ok N k" and "tp \<in> N"
  shows "queues_ok N (raise p tp k)" and "same_but_prio k (raise p tp k)"
proof -
  show "queues_ok N (raise p tp k)"
    by (rule raised_queues[OF assms(1)]) (simp_all add: raise_prio raise_frame raise_queue[OF assms])
  have "distinct (mx_queue (k_mutexes k m))" for m using assms(1) by (simp add: queues_ok_def)
  then have "set (mx_queue (k_mutexes (raise p tp k) m)) = set (mx_queue (k_mutexes k m))" for m
    unfolding raise_queue(1)[OF assms] by (auto simp: put_back_def)
  then show "same_but_prio k (raise p tp k)" by (simp add: same_but_prio_def raise_frame)
qed

subsection \<open>Priority inheritance\<close>

text \<open>While the loop has still to look at \<open>tp\<close>, only waiting for \<open>tp\<close> may break the inheritance, and
  only \<open>tp\<close> may be too low; \<open>f\<close> is the owner of the mutex the caller will wait for.\<close>

definition boosting :: "nat set \<Rightarrow> u32 \<Rightarrow> nat \<Rightarrow> nat \<Rightarrow> kernel \<Rightarrow> bool" where
  "boosting N p f tp k \<longleftrightarrow> queues_ok N k \<and> owners_ok N k \<and> tp \<in> N \<and>
     (\<forall>u t. waits_for k u t \<longrightarrow> prio k u \<le> prio k t \<or> t = tp \<and> prio k u \<le> p) \<and>
     (\<forall>t\<in>N. justified k t \<or> th_realprio (k_threads k t) \<le> prio k t \<and> (t = f \<and> prio k t = p \<or> t = tp \<and> prio k t < p)) \<and>
     (tp = f \<or> (\<exists>u. waits_for k u tp \<and> prio k u = p))"

text \<open>A waiting thread waits for exactly one owner.\<close>

lemma waits_for_unique:
  assumes "queues_ok N k" and "state_of k u = CH_STATE_WTMTX m" and "mx_owner (k_mutexes k m) = Some o'"
  shows "waits_for k u t \<longleftrightarrow> u \<in> N \<and> t = o'"
proof -
  have "u \<in> set (mx_queue (k_mutexes k m')) \<longleftrightarrow> u \<in> N \<and> m' = m" for m'
    using assms(1,2) by (auto simp: queues_ok_def)
  then show ?thesis using assms(3) by (auto simp: waits_for_def)
qed

lemma waits_for_state:
  assumes "queues_ok N k" and "waits_for k u t"
  shows "u \<in> N \<and> (\<exists>m. state_of k u = CH_STATE_WTMTX m \<and> mx_owner (k_mutexes k m) = Some t)"
  using assms by (auto simp: waits_for_def queues_ok_def)

lemma boostingD:
  assumes "boosting N p f tp k"
  shows "queues_ok N k" "owners_ok N k" "tp \<in> N"
    and "waits_for k u t \<Longrightarrow> prio k u \<le> prio k t \<or> t = tp \<and> prio k u \<le> p"
    and "t \<in> N \<Longrightarrow> justified k t \<or> th_realprio (k_threads k t) \<le> prio k t \<and> (t = f \<and> prio k t = p \<or> t = tp \<and> prio k t < p)"
    and "tp = f \<or> (\<exists>u. waits_for k u tp \<and> prio k u = p)"
  using assms by (auto simp: boosting_def)

text \<open>One round of raising: what waits, which priority the raised thread has, and what the round may
  take from the justification of the others.\<close>

lemma raise_waits:
  assumes b: "boosting N p f tp k" and lt: "prio k tp < p" and w: "waits_for (raise p tp k) u t"
  shows "prio (raise p tp k) u \<le> prio (raise p tp k) t \<or> u = tp \<and> waits_for k tp t \<or> t = tp \<and> prio (raise p tp k) u \<le> p"
proof -
  have "waits_for k u t" using w same_waits_for[OF raise_ok(2)[OF boostingD(1,3)[OF b]]] by simp
  then show ?thesis using boostingD(4)[OF b, of u t] lt unfolding raise_prio by (cases "t = tp") auto
qed

lemma raised_justified:
  assumes b: "boosting N p f tp k" and lt: "prio k tp < p"
  shows "justified (raise p tp k) tp \<or> th_realprio (k_threads k tp) \<le> p \<and> tp = f"
proof -
  have r: "th_realprio (k_threads k tp) \<le> p" using boostingD(5)[OF b boostingD(3)[OF b]] lt by (auto simp: justified_def)
  show ?thesis
  proof (cases "tp = f")
    case False
    then obtain u where "waits_for k u tp" "prio k u = p" using boostingD(6)[OF b] by auto
    then have "waits_for (raise p tp k) u tp \<and> prio (raise p tp k) u = p"
      unfolding same_waits_for[OF raise_ok(2)[OF boostingD(1,3)[OF b]]] raise_prio by simp
    then show ?thesis using r by (auto simp: justified_def raise_prio raise_frame)
  qed (use r in simp)
qed

lemma others_justified:
  assumes b: "boosting N p f tp k" and j: "justified k t" and ne: "t \<noteq> tp"
  shows "justified (raise p tp k) t \<or> waits_for k tp t \<and> prio k t = prio k tp"
proof (cases "prio k t = th_realprio (k_threads k t)")
  case True
  then show ?thesis using ne j by (simp add: justified_def raise_prio raise_frame)
next
  case False
  then obtain u where u: "waits_for k u t" "prio k u = prio k t" using j by (auto simp: justified_def)
  show ?thesis
  proof (cases "u = tp")
    case False
    then show ?thesis
      using u j ne unfolding justified_def same_waits_for[OF raise_ok(2)[OF boostingD(1,3)[OF b]]] raise_frame raise_prio by auto
  qed (use u in simp)
qed

text \<open>The two together, for every thread.\<close>

lemma raise_justified:
  assumes b: "boosting N p f tp k" and lt: "prio k tp < p" and t: "t \<in> N"
  shows "justified (raise p tp k) t \<or> th_realprio (k_threads (raise p tp k) t) \<le> prio (raise p tp k) t \<and>
    (t = f \<and> prio (raise p tp k) t = p \<or> waits_for k tp t \<and> prio (raise p tp k) t < p)"
proof (cases "t = tp")
  case True
  then show ?thesis using raised_justified[OF b lt] by (auto simp: raise_prio raise_frame)
next
  case False
  have e: "prio (raise p tp k) t = prio k t" "th_realprio (k_threads (raise p tp k) t) = th_realprio (k_threads k t)"
    using False by (simp_all add: raise_prio raise_frame)
  show ?thesis
  proof (cases "justified k t")
    case True
    then have "th_realprio (k_threads k t) \<le> prio k t" by (simp add: justified_def)
    then show ?thesis using others_justified[OF b True False] lt unfolding e by auto
  next
    case nj: False
    then show ?thesis using boostingD(5)[OF b t] False unfolding e by auto
  qed
qed

lemma raise_keeps_boosting:
  assumes b: "boosting N p f tp k" and lt: "prio k tp < p"
    and w: "state_of k tp = CH_STATE_WTMTX m" "mx_owner (k_mutexes k m) = Some tp'"
  shows "boosting N p f tp' (raise p tp k)"
proof -
  let ?k = "raise p tp k"
  note q = boostingD(1-3)[OF b]
  note ok = raise_ok[OF q(1,3), of p]
  have tw: "\<And>t. waits_for k tp t \<longleftrightarrow> t = tp'" using waits_for_unique[OF q(1) w] q(3) by simp
  have "tp' \<in> N" using w(2) q(2) by (auto simp: owners_ok_def)
  moreover have "prio ?k u \<le> prio ?k t \<or> t = tp' \<and> prio ?k u \<le> p" if "waits_for ?k u t" for u t
    using raise_waits[OF b lt that] unfolding tw raise_prio by auto
  moreover have "justified ?k t \<or> th_realprio (k_threads ?k t) \<le> prio ?k t \<and> (t = f \<and> prio ?k t = p \<or> t = tp' \<and> prio ?k t < p)"
    if "t \<in> N" for t using raise_justified[OF b lt that] unfolding tw .
  moreover have "\<exists>u. waits_for ?k u tp' \<and> prio ?k u = p"
    unfolding same_waits_for[OF ok(2)] raise_prio using tw by auto
  ultimately show ?thesis using ok same_owners_ok[OF ok(2) q(2)] by (auto simp: boosting_def)
qed

text \<open>What the loop leaves behind.\<close>

definition boosted :: "nat set \<Rightarrow> u32 \<Rightarrow> nat \<Rightarrow> kernel \<Rightarrow> bool" where
  "boosted N p f k \<longleftrightarrow> queues_ok N k \<and> owners_ok N k \<and> inherits k \<and>
     (\<forall>t\<in>N. justified k t \<or> th_realprio (k_threads k t) \<le> prio k t \<and> t = f \<and> prio k t = p)"

lemma boosting_ends:
  assumes "boosting N p f tp k" and "\<not> prio k tp < p"
  shows "boosted N p f k"
proof -
  have "prio k u \<le> prio k t" if "waits_for k u t" for u t
    using assms that by (auto simp: boosting_def not_less intro: order_trans)
  then show ?thesis using assms by (auto simp: boosting_def boosted_def inherits_def)
qed

lemma raise_ends:
  assumes b: "boosting N p f tp k" and lt: "prio k tp < p" and nw: "\<And>m. state_of k tp \<noteq> CH_STATE_WTMTX m"
  shows "boosted N p f (raise p tp k)"
proof -
  let ?k = "raise p tp k"
  note q = boostingD(1-3)[OF b]
  note ok = raise_ok[OF q(1,3), of p]
  have no: "\<not> waits_for k tp t" for t using waits_for_state[OF q(1)] nw by blast
  have "prio ?k u \<le> prio ?k t" if "waits_for ?k u t" for u t
    using raise_waits[OF b lt that] no by (auto simp: raise_prio)
  then show ?thesis
    using raise_justified[OF b lt] no ok(1) same_owners_ok[OF ok(2) q(2)] by (auto simp: boosted_def inherits_def)
qed

lemma boost_ok:
  assumes "finite N" and "boosting N p f tp k"
  shows "\<exists>k'. boost p tp k = Some k' \<and> boosted N p f k' \<and> same_but_prio k k' \<and> p \<le> prio k' tp \<and>
     (\<forall>t. prio k' t = prio k t \<or> prio k t < p \<and> prio k' t = p)"
  using assms(2)
proof (induction "card {t \<in> N. prio k t < p}" arbitrary: k tp rule: less_induct)
  case less
  have q: "queues_ok N k" "owners_ok N k" "tp \<in> N" using less.prems by (auto simp: boosting_def)
  show ?case
  proof (cases "prio k tp < p")
    case False
    then show ?thesis using boosting_ends[OF less.prems] by (subst boost_unfold) (auto simp: not_less)
  next
    case lt: True
    let ?k = "raise p tp k"
    have ok: "same_but_prio k ?k" "\<forall>t. prio ?k t = prio k t \<or> prio k t < p \<and> prio ?k t = p"
      using raise_ok(2)[OF q(1,3)] lt by (auto simp: raise_prio)
    show ?thesis
    proof (cases "\<exists>m. state_of k tp = CH_STATE_WTMTX m")
      case False
      then have "boost p tp k = Some ?k"
        using lt by (subst boost_unfold) (auto split: tstate.splits)
      then show ?thesis using raise_ends[OF less.prems lt] False ok by (auto simp: raise_prio)
    next
      case True
      then obtain m where m: "state_of k tp = CH_STATE_WTMTX m" by blast
      then have "mx_queue (k_mutexes k m) \<noteq> []" using q(1,3) unfolding queues_ok_def by (metis (mono_tags, lifting) empty_set empty_iff mem_Collect_eq)
      then obtain tp' where o': "mx_owner (k_mutexes k m) = Some tp'" using q(2) by (cases "mx_owner (k_mutexes k m)") (auto simp: owners_ok_def)
      have b: "boosting N p f tp' ?k" by (rule raise_keeps_boosting[OF less.prems lt m o'])
      have "{t \<in> N. prio ?k t < p} \<subset> {t \<in> N. prio k t < p}" using q(3) lt by (auto simp: raise_prio)
      then have "card {t \<in> N. prio ?k t < p} < card {t \<in> N. prio k t < p}" using assms(1) by (simp add: psubset_card_mono)
      from less.hyps[OF this b] obtain k' where
        k': "boost p tp' ?k = Some k'" "boosted N p f k'" "same_but_prio ?k k'"
          "\<forall>t. prio k' t = prio ?k t \<or> prio ?k t < p \<and> prio k' t = p" by blast
      have "boost p tp k = Some k'" using lt m o' k'(1) by (subst boost_unfold) simp
      moreover have "prio k' tp = p" using k'(4) by (metis raise_prio order_less_irrefl)
      moreover have "\<forall>t. prio k' t = prio k t \<or> prio k t < p \<and> prio k' t = p" using k'(4) ok(2) by metis
      ultimately show ?thesis using k' same_but_prio_trans[OF ok(1) k'(3)] by auto
    qed
  qed
qed

subsection \<open>Switching threads\<close>

definition top_prio :: "kernel \<Rightarrow> bool" where
  "top_prio k \<longleftrightarrow> (\<forall>t \<in> set (k_ready k). prio k t \<le> prio k (k_current k))"

text \<open>Nothing but the states of the threads, the ready list and the current thread differs.\<close>

definition same_core :: "kernel \<Rightarrow> kernel \<Rightarrow> bool" where
  "same_core k k' \<longleftrightarrow> k_mutexes k' = k_mutexes k \<and> (\<forall>t. prio k' t = prio k t \<and>
     th_realprio (k_threads k' t) = th_realprio (k_threads k t) \<and> th_mtxlist (k_threads k' t) = th_mtxlist (k_threads k t))"

lemma same_core_refl [simp]: "same_core k k"
  by (simp add: same_core_def)

lemma same_core_trans: "same_core k k1 \<Longrightarrow> same_core k1 k2 \<Longrightarrow> same_core k k2"
  by (simp add: same_core_def)

lemma core_owned: "k_mutexes k' = k_mutexes k \<Longrightarrow> owned_list k' p ms \<longleftrightarrow> owned_list k p ms"
  by (induction ms arbitrary: p) auto

lemma same_core_facts:
  assumes "same_core k k'"
  shows "waits_for k' u t \<longleftrightarrow> waits_for k u t" and "inherits k' \<longleftrightarrow> inherits k" and "justified k' t \<longleftrightarrow> justified k t"
    and "owners_ok N k' \<longleftrightarrow> owners_ok N k"
  using assms core_owned[of k' k]
  by (auto simp: same_core_def waits_for_def inherits_def justified_def owners_ok_def)

definition runnable :: "kernel \<Rightarrow> nat \<Rightarrow> bool" where
  "runnable k t \<longleftrightarrow> state_of k t = CH_STATE_READY \<or> state_of k t = CH_STATE_CURRENT"

text \<open>The current thread has left; the first ready thread takes over.\<close>

lemma run_first_ok:
  assumes m: "\<forall>m. distinct (mx_queue (k_mutexes k m)) \<and> by_prio (prio k) (mx_queue (k_mutexes k m)) \<and>
        set (mx_queue (k_mutexes k m)) = {t \<in> N. state_of k t = CH_STATE_WTMTX m}"
    and r: "distinct (k_ready k)" "by_prio (prio k) (k_ready k)" "set (k_ready k) = {t \<in> N. state_of k t = CH_STATE_READY}"
    and c: "{t \<in> N. state_of k t = CH_STATE_CURRENT} = {}" and ne: "k_ready k \<noteq> []"
  shows "\<exists>k'. sch_run_first k = Some k' \<and> queues_ok N k' \<and> top_prio k' \<and> same_core k k' \<and>
     k_current k' = hd (k_ready k) \<and> k_ready k' = tl (k_ready k) \<and> (\<forall>t. runnable k' t \<longleftrightarrow> runnable k t) \<and>
     (\<forall>t. t \<noteq> hd (k_ready k) \<longrightarrow> state_of k' t = state_of k t)"
proof -
  obtain n q where n: "k_ready k = n # q" using ne by (cases "k_ready k") auto
  define k' where "k' = (upd_thread n (\<lambda>th. th\<lparr>th_state := CH_STATE_CURRENT\<rparr>) k)\<lparr>k_ready := q, k_current := n\<rparr>"
  have s: "sch_run_first k = Some k'" using n by (simp add: sch_run_first_def k'_def)
  have st: "state_of k' t = (if t = n then CH_STATE_CURRENT else state_of k t)" for t by (simp add: k'_def)
  have co: "same_core k k'" by (simp add: same_core_def k'_def)
  then have pr: "prio k' = prio k" by (simp add: same_core_def fun_eq_iff)
  have nr: "n \<in> N" "state_of k n = CH_STATE_READY" using r(3) n by auto
  have sel: "k_mutexes k' = k_mutexes k" "k_ready k' = q" "k_current k' = n" by (simp_all add: k'_def)
  have "{t \<in> N. state_of k' t = CH_STATE_WTMTX m} = {t \<in> N. state_of k t = CH_STATE_WTMTX m}" for m
    using nr by (auto simp: st)
  moreover have "{t \<in> N. state_of k' t = CH_STATE_READY} = set q" using r(1,3) n nr by (auto simp: st split: if_splits)
  moreover have "{t \<in> N. state_of k' t = CH_STATE_CURRENT} = {n}" using c nr by (auto simp: st)
  ultimately have "queues_ok N k'" using m r n by (simp add: queues_ok_def sel pr)
  moreover have "top_prio k'" using r(2) n co by (simp add: top_prio_def sel same_core_def)
  moreover have "\<forall>t. runnable k' t \<longleftrightarrow> runnable k t" using nr by (simp add: runnable_def st)
  ultimately show ?thesis using s co sel n st by simp
qed

lemma queues_ok_current: "queues_ok N k \<Longrightarrow> k_current k \<in> N \<and> state_of k (k_current k) = CH_STATE_CURRENT"
  by (auto simp: queues_ok_def)

lemma queues_ok_cur_iff: "queues_ok N k \<Longrightarrow> t \<in> N \<Longrightarrow> state_of k t = CH_STATE_CURRENT \<longleftrightarrow> t = k_current k"
  by (simp add: queues_ok_def) blast

text \<open>Swapping the current thread with the first ready one.\<close>

lemma reschedule_ok:
  assumes q: "queues_ok N k" and ne: "k_ready k \<noteq> []" and f: "\<And>t. f t = sch_ready_ahead t \<or> f t = sch_ready_behind t"
    and le: "prio k (k_current k) \<le> prio k (hd (k_ready k))"
  shows "\<exists>k1. sch_run_first k = Some k1 \<and> queues_ok N (f (k_current k) k1) \<and> top_prio (f (k_current k) k1) \<and>
     same_core k (f (k_current k) k1) \<and> (\<forall>t. runnable (f (k_current k) k1) t \<longleftrightarrow> runnable k t)"
proof -
  obtain n r where n: "k_ready k = n # r" using ne by (cases "k_ready k") auto
  let ?c = "k_current k"
  define k1 where "k1 = (upd_thread n (\<lambda>th. th\<lparr>th_state := CH_STATE_CURRENT\<rparr>) k)\<lparr>k_ready := r, k_current := n\<rparr>"
  define k' where "k' = f ?c k1"
  have s: "sch_run_first k = Some k1" using n by (simp add: sch_run_first_def k1_def)
  have cur: "?c \<in> N" "state_of k ?c = CH_STATE_CURRENT" using queues_ok_current[OF q] by auto
  have rq: "distinct (n # r)" "by_prio (prio k) (n # r)" "set (n # r) = {t \<in> N. state_of k t = CH_STATE_READY}"
    using q n by (auto simp: queues_ok_def)
  then have rs0: "\<And>t. t \<in> set (n # r) \<longleftrightarrow> t \<in> N \<and> state_of k t = CH_STATE_READY" by blast
  have nr: "n \<in> N" "state_of k n = CH_STATE_READY" "n \<noteq> ?c" "?c \<notin> set r" using rs0[of n] rs0[of ?c] cur by auto
  have pr1: "prio k1 = prio k" by (auto simp: k1_def fun_eq_iff)
  have th: "k_threads k' = (k_threads k1)(?c := (k_threads k1 ?c)\<lparr>th_state := CH_STATE_READY\<rparr>)"
    using f[of ?c] by (auto simp: k'_def)
  have sel: "k_mutexes k' = k_mutexes k" "k_current k' = n" using f[of ?c] by (auto simp: k'_def k1_def)
  have rd: "k_ready k' = ch_pqueue_insert_ahead (prio k) ?c r \<or> k_ready k' = ch_pqueue_insert_behind (prio k) ?c r"
    using f[of ?c] by (auto simp: k'_def pr1) (simp_all add: k1_def)
  have st: "state_of k' t = (if t = ?c then CH_STATE_READY else if t = n then CH_STATE_CURRENT else state_of k t)" for t
    using nr by (simp add: th k1_def)
  have co: "same_core k k'" by (simp add: same_core_def sel th k1_def)
  then have pr: "prio k' = prio k" by (simp add: same_core_def fun_eq_iff)
  have rs: "distinct (k_ready k')" "by_prio (prio k') (k_ready k')" "set (k_ready k') = insert ?c (set r)"
    using rd rq(1,2) nr pr insert_ahead_by_prio[of "prio k" r ?c] insert_behind_by_prio[of "prio k" r ?c] by auto
  have "{t \<in> N. state_of k' t = CH_STATE_WTMTX m} = {t \<in> N. state_of k t = CH_STATE_WTMTX m}" for m
    using nr cur by (auto simp: st)
  moreover have "{t \<in> N. state_of k' t = CH_STATE_READY} = insert ?c (set r)"
    using rq(1,3) nr cur by (auto simp: st split: if_splits)
  moreover have "{t \<in> N. state_of k' t = CH_STATE_CURRENT} = {n}" using q nr cur by (auto simp: st queues_ok_def split: if_splits)
  ultimately have "queues_ok N k'" using q rs sel by (simp add: queues_ok_def pr)
  moreover have "top_prio k'" using rq(2) le n rs(3) co by (simp add: top_prio_def sel same_core_def)
  moreover have "\<forall>t. runnable k' t \<longleftrightarrow> runnable k t" using nr cur by (simp add: runnable_def st)
  ultimately show ?thesis using s co by (auto simp: k'_def)
qed

subsection \<open>Every operation keeps the invariant\<close>

definition mtx_inv :: "nat set \<Rightarrow> nat \<Rightarrow> kernel \<Rightarrow> bool" where
  "mtx_inv N idle k \<longleftrightarrow> finite N \<and> idle \<in> N \<and> runnable k idle \<and> queues_ok N k \<and> owners_ok N k \<and> inherits k \<and>
     (\<forall>t\<in>N. justified k t) \<and> top_prio k"

lemma owned_list_cong:
  "(\<And>m. m \<in> set ms \<Longrightarrow> mx_next (k_mutexes k' m) = mx_next (k_mutexes k m)) \<Longrightarrow> owned_list k' p ms \<longleftrightarrow> owned_list k p ms"
  by (induction ms arbitrary: p) auto

lemma owners_okD:
  assumes "owners_ok N k"
  shows "mx_owner (k_mutexes k m) = None \<Longrightarrow> mx_cnt (k_mutexes k m) = 0 \<and> mx_queue (k_mutexes k m) = []"
    and "mx_owner (k_mutexes k m) = Some t \<Longrightarrow> t \<in> N \<and> 0 < mx_cnt (k_mutexes k m)"
    and "t \<in> N \<Longrightarrow> \<exists>ms. owned_list k (th_mtxlist (k_threads k t)) ms \<and> distinct ms \<and> set ms = {m. mx_owner (k_mutexes k m) = Some t}"
  using assms by (auto simp: owners_ok_def)

text \<open>Mutexes and threads change, but no queue, no priority and no state.\<close>

definition same_queues :: "kernel \<Rightarrow> kernel \<Rightarrow> bool" where
  "same_queues k k' \<longleftrightarrow> k_current k' = k_current k \<and> k_ready k' = k_ready k \<and>
     (\<forall>t. state_of k' t = state_of k t \<and> prio k' t = prio k t \<and> th_realprio (k_threads k' t) = th_realprio (k_threads k t)) \<and>
     (\<forall>m. mx_queue (k_mutexes k' m) = mx_queue (k_mutexes k m))"

lemma same_queues_facts:
  assumes "same_queues k k'"
  shows "queues_ok N k' \<longleftrightarrow> queues_ok N k" and "top_prio k' \<longleftrightarrow> top_prio k" and "runnable k' t \<longleftrightarrow> runnable k t"
proof -
  have "prio k' = prio k" using assms by (simp add: same_queues_def fun_eq_iff)
  then show "queues_ok N k' \<longleftrightarrow> queues_ok N k" using assms by (simp add: same_queues_def queues_ok_def)
  show "top_prio k' \<longleftrightarrow> top_prio k" and "runnable k' t \<longleftrightarrow> runnable k t"
    using assms by (simp_all add: same_queues_def top_prio_def runnable_def)
qed

lemma same_queues_inv:
  assumes i: "mtx_inv N idle k" and s: "same_queues k k'" and o': "owners_ok N k'"
    and w: "\<And>u t. waits_for k' u t \<longleftrightarrow> waits_for k u t"
  shows "mtx_inv N idle k'"
proof -
  have "inherits k'" "\<forall>t\<in>N. justified k' t"
    using i s w by (auto simp: mtx_inv_def inherits_def justified_def same_queues_def)
  then show ?thesis using i o' same_queues_facts[OF s] by (simp add: mtx_inv_def)
qed

lemma mtx_take_inv:
  assumes i: "mtx_inv N idle k" and free: "mx_owner (k_mutexes k m) = None"
  shows "mtx_inv N idle (mtx_take m k)"
proof -
  let ?c = "k_current k" and ?k = "mtx_take m k"
  have ok: "owners_ok N k" and c: "?c \<in> N" using i queues_ok_current[of N k] by (auto simp: mtx_inv_def)
  note fr = owners_okD(1)[OF ok free]
  have ch: "\<exists>ms. owned_list ?k (th_mtxlist (k_threads ?k t)) ms \<and> distinct ms \<and> set ms = {m'. mx_owner (k_mutexes ?k m') = Some t}"
    if t: "t \<in> N" for t
  proof -
    obtain ms where ms: "owned_list k (th_mtxlist (k_threads k t)) ms" "distinct ms" "set ms = {m'. mx_owner (k_mutexes k m') = Some t}"
      using owners_okD(3)[OF ok t] by blast
    then have "m \<notin> set ms" using free by auto
    then have "owned_list ?k p ms \<longleftrightarrow> owned_list k p ms" for p by (intro owned_list_cong) (auto simp: mtx_take_def Let_def)
    then show ?thesis
      using ms free \<open>m \<notin> set ms\<close>
      by (intro exI[of _ "if t = ?c then m # ms else ms"]) (auto simp: mtx_take_def Let_def)
  qed
  have "owners_ok N ?k"
    using ok c fr ch by (auto simp: owners_ok_def) (auto simp: mtx_take_def Let_def split: if_splits)
  moreover have "same_queues k ?k" by (simp add: same_queues_def mtx_take_def Let_def)
  moreover have "waits_for ?k u t \<longleftrightarrow> waits_for k u t" for u t
  proof -
    have "mx_owner (k_mutexes ?k m') = Some t \<and> u \<in> set (mx_queue (k_mutexes ?k m')) \<longleftrightarrow>
        mx_owner (k_mutexes k m') = Some t \<and> u \<in> set (mx_queue (k_mutexes k m'))" for m'
      using free fr by (cases "m' = m") (simp_all add: mtx_take_def Let_def)
    then show ?thesis by (simp add: waits_for_def)
  qed
  ultimately show ?thesis by (intro same_queues_inv[OF i])
qed

lemma mtx_count_inv:
  assumes i: "mtx_inv N idle k" and o': "mx_owner (k_mutexes k m) \<noteq> None" and n: "0 < g (mx_cnt (k_mutexes k m))"
  shows "mtx_inv N idle (upd_mutex m (\<lambda>mx. mx\<lparr>mx_cnt := g (mx_cnt mx)\<rparr>) k)"
proof -
  let ?k = "upd_mutex m (\<lambda>mx. mx\<lparr>mx_cnt := g (mx_cnt mx)\<rparr>) k"
  have "owned_list ?k p ms \<longleftrightarrow> owned_list k p ms" for p ms by (rule owned_list_cong) simp
  moreover have "mx_owner (k_mutexes ?k m') = mx_owner (k_mutexes k m')" "mx_queue (k_mutexes ?k m') = mx_queue (k_mutexes k m')" for m'
    by simp_all
  ultimately have "owners_ok N ?k" using i o' n unfolding mtx_inv_def owners_ok_def by auto
  then show ?thesis by (intro same_queues_inv[OF i]) (auto simp: same_queues_def waits_for_def)
qed

text \<open>Waiting for a mutex: the owner, and those it waits for, inherit the priority; then the next ready
  thread runs.\<close>

text \<open>The current thread in the queue of a mutex, before the switch.\<close>

definition wait_in :: "nat \<Rightarrow> kernel \<Rightarrow> kernel" where
  "wait_in m k = upd_thread (k_current k) (\<lambda>th. th\<lparr>th_state := CH_STATE_WTMTX m\<rparr>)
    (upd_mutex m (\<lambda>mx. mx\<lparr>mx_queue := ch_sch_prio_insert (prio k) (k_current k) (mx_queue mx)\<rparr>) k)"

lemma wait_in_sel:
  "state_of (wait_in m k) t = (if t = k_current k then CH_STATE_WTMTX m else state_of k t)"
  "prio (wait_in m k) t = prio k t" "th_realprio (k_threads (wait_in m k) t) = th_realprio (k_threads k t)"
  "th_mtxlist (k_threads (wait_in m k) t) = th_mtxlist (k_threads k t)" "k_ready (wait_in m k) = k_ready k"
  "mx_queue (k_mutexes (wait_in m k) m') = (if m' = m then ch_pqueue_insert_behind (prio k) (k_current k) (mx_queue (k_mutexes k m))
      else mx_queue (k_mutexes k m'))"
  "mx_owner (k_mutexes (wait_in m k) m') = mx_owner (k_mutexes k m')" "mx_next (k_mutexes (wait_in m k) m') = mx_next (k_mutexes k m')"
  "mx_cnt (k_mutexes (wait_in m k) m') = mx_cnt (k_mutexes k m')"
  by (simp_all add: wait_in_def ch_sch_prio_insert_def)

lemma wait_in_run:
  assumes q: "queues_ok N k" and ne: "k_ready k \<noteq> []"
  shows "\<exists>k'. sch_run_first (wait_in m k) = Some k' \<and> queues_ok N k' \<and> top_prio k' \<and> same_core (wait_in m k) k' \<and>
     (\<forall>t. runnable k' t \<longleftrightarrow> runnable (wait_in m k) t) \<and> state_of k' (k_current k) = CH_STATE_WTMTX m"
proof -
  let ?c = "k_current k" and ?k = "wait_in m k"
  note cur = queues_ok_current[OF q]
  have Q: "distinct (mx_queue (k_mutexes k m'))" "by_prio (prio k) (mx_queue (k_mutexes k m'))"
      "set (mx_queue (k_mutexes k m')) = {t \<in> N. state_of k t = CH_STATE_WTMTX m'}" for m'
    using q by (auto simp: queues_ok_def)
  have pr: "prio ?k = prio k" by (simp add: fun_eq_iff wait_in_sel)
  have nc: "?c \<notin> set (mx_queue (k_mutexes k m'))" for m' using Q(3)[of m'] cur by auto
  have "\<forall>m'. distinct (mx_queue (k_mutexes ?k m')) \<and> by_prio (prio ?k) (mx_queue (k_mutexes ?k m')) \<and>
      set (mx_queue (k_mutexes ?k m')) = {t \<in> N. state_of ?k t = CH_STATE_WTMTX m'}"
    using Q nc cur insert_behind_by_prio[of "prio k" _ ?c] unfolding pr wait_in_sel by auto
  moreover have rd: "set (k_ready ?k) = {t \<in> N. state_of ?k t = CH_STATE_READY}" "{t \<in> N. state_of ?k t = CH_STATE_CURRENT} = {}"
    using q cur by (auto simp: queues_ok_def wait_in_sel)
  moreover have "distinct (k_ready ?k)" "by_prio (prio ?k) (k_ready ?k)" using q unfolding pr wait_in_sel by (auto simp: queues_ok_def)
  moreover have ne': "k_ready ?k \<noteq> []" using ne by (simp add: wait_in_sel)
  ultimately obtain k' where k': "sch_run_first ?k = Some k'" "queues_ok N k'" "top_prio k'" "same_core ?k k'"
      "\<forall>t. runnable k' t \<longleftrightarrow> runnable ?k t" "\<forall>t. t \<noteq> hd (k_ready ?k) \<longrightarrow> state_of k' t = state_of ?k t"
    using run_first_ok[of ?k N] by blast
  have "hd (k_ready ?k) \<noteq> ?c" using hd_in_set[OF ne'] unfolding rd(1) by (auto simp: wait_in_sel)
  then show ?thesis using k' by (simp add: wait_in_sel)
qed

text \<open>After the loop has raised the owner \<open>f\<close>, the caller may wait for it.\<close>

lemma wait_in_core:
  assumes b: "boosted N (prio k (k_current k)) f k" and f: "mx_owner (k_mutexes k m) = Some f" and le: "prio k (k_current k) \<le> prio k f"
  shows "inherits (wait_in m k)" and "t \<in> N \<Longrightarrow> justified (wait_in m k) t" and "owners_ok N (wait_in m k)"
proof -
  have "u \<in> set (mx_queue (k_mutexes (wait_in m k) m')) \<longleftrightarrow> u \<in> set (mx_queue (k_mutexes k m')) \<or> m' = m \<and> u = k_current k" for u m'
    by (auto simp: wait_in_sel)
  then have wf: "waits_for (wait_in m k) u t \<longleftrightarrow> waits_for k u t \<or> u = k_current k \<and> t = f" for u t
    using f by (auto simp: waits_for_def wait_in_sel(7))
  show "inherits (wait_in m k)" using b le by (auto simp: inherits_def boosted_def wf wait_in_sel)
  show "justified (wait_in m k) t" if t: "t \<in> N"
  proof -
    have "justified k t \<or> th_realprio (k_threads k t) \<le> prio k t \<and> t = f \<and> prio k t = prio k (k_current k)" using b t by (auto simp: boosted_def)
    then show ?thesis unfolding justified_def wf wait_in_sel by metis
  qed
  have "owned_list (wait_in m k) p ms \<longleftrightarrow> owned_list k p ms" for p ms by (rule owned_list_cong) (simp add: wait_in_sel)
  then show "owners_ok N (wait_in m k)" using b f by (auto simp: boosted_def owners_ok_def wait_in_sel)
qed

lemma mtx_wait_inv:
  assumes i: "mtx_inv N idle k" and o': "mx_owner (k_mutexes k m) = Some f" "f \<noteq> k_current k" and id: "k_current k \<noteq> idle"
  shows "\<exists>k'. chMtxLockS m k = Some k' \<and> mtx_inv N idle k' \<and> state_of k' (k_current k) = CH_STATE_WTMTX m"
proof -
  let ?p = "prio k (k_current k)"
  have ok: "queues_ok N k" "owners_ok N k" "inherits k" "\<forall>t\<in>N. justified k t" "finite N" "idle \<in> N" "runnable k idle"
    using i by (auto simp: mtx_inv_def)
  have "boosting N ?p f f k" using ok owners_okD(2)[OF ok(2) o'(1)] by (auto simp: boosting_def inherits_def)
  from boost_ok[OF ok(5) this] obtain k1 where
    k1: "boost ?p f k = Some k1" "boosted N ?p f k1" "same_but_prio k k1" "?p \<le> prio k1 f"
      "\<forall>t. prio k1 t = prio k t \<or> prio k t < ?p \<and> prio k1 t = ?p" by blast
  have c1: "k_current k1 = k_current k" "prio k1 (k_current k) = ?p" using k1(3,5) by (auto simp: same_but_prio_def)
  have s1: "state_of k1 t = state_of k t" "mx_owner (k_mutexes k1 m) = Some f" for t using k1(3) o'(1) by (simp_all add: same_but_prio_def)
  have q1: "queues_ok N k1" using k1(2) by (simp add: boosted_def)
  have "state_of k idle \<noteq> CH_STATE_CURRENT" using queues_ok_cur_iff[OF ok(1,6)] id by simp
  then have "idle \<in> set (k_ready k1)" using ok(6,7) s1 q1 by (auto simp: queues_ok_def runnable_def)
  then obtain k3 where k3: "sch_run_first (wait_in m k1) = Some k3" "queues_ok N k3" "top_prio k3" "same_core (wait_in m k1) k3"
      "\<forall>t. runnable k3 t \<longleftrightarrow> runnable (wait_in m k1) t" "state_of k3 (k_current k) = CH_STATE_WTMTX m"
    using wait_in_run[OF q1, of m] c1(1) by fastforce
  have run: "chMtxLockS m k = Some k3"
    using o' k1(1) c1 k3(1) by (simp add: chMtxLockS_def chSchGoSleepS_def wait_in_def Let_def)
  note core = wait_in_core[of N k1 f m, unfolded c1, OF k1(2) s1(2) k1(4)]
  have "runnable k3 idle" using k3(5) ok(7) id s1(1) c1(1) by (simp add: runnable_def wait_in_sel)
  then have "mtx_inv N idle k3" using k3 ok(5,6) core same_core_facts[OF k3(4)] by (simp add: mtx_inv_def)
  then show ?thesis using run k3(6) by auto
qed

lemma mtx_lock_inv:
  assumes i: "mtx_inv N idle k" and id: "k_current k \<noteq> idle"
  shows "\<exists>k'. chMtxLockS m k = Some k' \<and> mtx_inv N idle k' \<and>
     (if mx_owner (k_mutexes k m) \<in> {None, Some (k_current k)}
      then mx_owner (k_mutexes k' m) = Some (k_current k) \<and> k_current k' = k_current k
      else state_of k' (k_current k) = CH_STATE_WTMTX m)"
proof (cases "mx_owner (k_mutexes k m)")
  case None
  then show ?thesis using mtx_take_inv[OF i None] by (simp add: chMtxLockS_def mtx_take_def Let_def)
next
  case (Some f)
  show ?thesis
  proof (cases "f = k_current k")
    case True
    have "0 < mx_cnt (k_mutexes k m) + 1" using i owners_okD(2)[of N k m f] Some by (simp add: mtx_inv_def)
    then show ?thesis using mtx_count_inv[OF i, of m "\<lambda>c. c + 1"] Some True by (simp add: chMtxLockS_def)
  next
    case False
    then show ?thesis using mtx_wait_inv[OF i Some False id] Some by simp
  qed
qed

lemma mtx_trylock_inv: "mtx_inv N idle k \<Longrightarrow> mtx_inv N idle (snd (chMtxTryLockS m k))"
  using mtx_take_inv[of N idle k m] mtx_count_inv[of N idle k m "\<lambda>c. c + 1"] owners_okD(2)[of N k m]
  by (auto simp: chMtxTryLockS_def mtx_inv_def split: option.splits)

subsection \<open>Releasing a mutex\<close>

lemma scan_owned_max:
  assumes "owned_list k p ms" and "\<And>m. by_prio (prio k) (mx_queue (k_mutexes k m))"
  shows "\<exists>r. scan_owned k p np = Some r \<and> np \<le> r \<and> (\<forall>m\<in>set ms. \<forall>t\<in>set (mx_queue (k_mutexes k m)). prio k t \<le> r) \<and>
     (r = np \<or> (\<exists>m\<in>set ms. \<exists>t\<in>set (mx_queue (k_mutexes k m)). prio k t = r))"
  using assms(1)
proof (induction ms arbitrary: p np)
  case Nil
  then show ?case by (subst scan_owned.simps) simp
next
  case (Cons m ms)
  let ?q = "mx_queue (k_mutexes k m)"
  let ?n = "case ?q of [] \<Rightarrow> np | t # _ \<Rightarrow> if np < prio k t then prio k t else np"
  from Cons.prems have p: "p = Some m" "owned_list k (mx_next (k_mutexes k m)) ms" by simp_all
  from Cons.IH[OF p(2), of ?n] obtain r where
    r: "scan_owned k (mx_next (k_mutexes k m)) ?n = Some r" "?n \<le> r"
      "\<forall>m\<in>set ms. \<forall>t\<in>set (mx_queue (k_mutexes k m)). prio k t \<le> r"
      "r = ?n \<or> (\<exists>m\<in>set ms. \<exists>t\<in>set (mx_queue (k_mutexes k m)). prio k t = r)" by blast
  have "scan_owned k p np = Some r"
    using r(1) p(1) by (cases ?q) (subst scan_owned.simps, auto split: if_splits)+
  moreover have "np \<le> ?n" "?n = np \<or> (\<exists>t\<in>set ?q. prio k t = ?n)" "\<forall>t\<in>set ?q. prio k t \<le> ?n"
    using assms(2)[of m] by (auto split: list.splits) (metis order_trans not_less)+
  ultimately show ?case using r by (auto intro: order_trans)
qed

text \<open>The owner's list without the mutex on its top.\<close>

lemma owned_list_top:
  assumes "owners_ok N k" and "t \<in> N" and "th_mtxlist (k_threads k t) = Some m"
  obtains ms where "owned_list k (mx_next (k_mutexes k m)) ms" and "distinct ms"
    and "set ms = {m'. mx_owner (k_mutexes k m') = Some t} - {m}" and "mx_owner (k_mutexes k m) = Some t"
proof -
  obtain ms where ms: "owned_list k (Some m) ms" "distinct ms" "set ms = {m'. mx_owner (k_mutexes k m') = Some t}"
    using owners_okD(3)[OF assms(1,2)] assms(3) by auto
  then obtain us where us: "ms = m # us" "owned_list k (mx_next (k_mutexes k m)) us" by (cases ms) auto
  moreover have "set us = {m'. mx_owner (k_mutexes k m') = Some t} - {m}" using us(1) ms(2,3) by auto
  moreover have "mx_owner (k_mutexes k m) = Some t" using us(1) ms(3) by auto
  ultimately show ?thesis using that ms(2) by simp
qed

text \<open>The state in which the current thread has given up a mutex, with a new priority.\<close>

definition give_up :: "nat \<Rightarrow> u32 \<Rightarrow> int \<Rightarrow> kernel \<Rightarrow> kernel" where
  "give_up m np x k = upd_thread (k_current k) (\<lambda>th. th\<lparr>th_mtxlist := mx_next (k_mutexes k m), th_prio := np\<rparr>)
     (upd_mutex m (\<lambda>mx. mx\<lparr>mx_cnt := x\<rparr>) k)"

lemma new_prio_queues:
  assumes q: "queues_ok N k" and pr: "\<And>t. t \<noteq> k_current k \<Longrightarrow> prio k' t = prio k t"
  shows "by_prio (prio k') (mx_queue (k_mutexes k m))" and "by_prio (prio k') (k_ready k)"
proof -
  have "k_current k \<notin> set (mx_queue (k_mutexes k m))" "k_current k \<notin> set (k_ready k)"
    using q queues_ok_current[OF q] by (auto simp: queues_ok_def)
  then show "by_prio (prio k') (mx_queue (k_mutexes k m))" and "by_prio (prio k') (k_ready k)"
    using q pr by_prio_cong[of "mx_queue (k_mutexes k m)" "prio k" "prio k'"] by_prio_cong[of "k_ready k" "prio k" "prio k'"]
    unfolding queues_ok_def by metis+
qed

text \<open>The state after the hand-over, and its parts.\<close>

definition handed :: "nat \<Rightarrow> nat \<Rightarrow> nat list \<Rightarrow> u32 \<Rightarrow> int \<Rightarrow> kernel \<Rightarrow> kernel" where
  "handed m tp ts np x k = chSchReadyI tp (upd_thread tp (\<lambda>th. th\<lparr>th_mtxlist := Some m\<rparr>)
     (upd_mutex m (\<lambda>mx. mx\<lparr>mx_cnt := 1, mx_queue := ts, mx_owner := Some tp,
        mx_next := th_mtxlist (k_threads (give_up m np x k) tp)\<rparr>) (give_up m np x k)))"

lemma hand_over_handed:
  "mx_queue (k_mutexes k m) = tp # ts \<Longrightarrow> mtx_hand_over m (give_up m np x k) = Some (handed m tp ts np x k)"
  by (simp add: mtx_hand_over_def give_up_def handed_def Let_def)

lemma handed_sel:
  assumes "tp \<noteq> k_current k"
  shows "prio (handed m tp ts np x k) t = (if t = k_current k then np else prio k t)"
    and "th_realprio (k_threads (handed m tp ts np x k) t) = th_realprio (k_threads k t)"
    and "state_of (handed m tp ts np x k) t = (if t = tp then CH_STATE_READY else state_of k t)"
    and "th_mtxlist (k_threads (handed m tp ts np x k) t) =
      (if t = tp then Some m else if t = k_current k then mx_next (k_mutexes k m) else th_mtxlist (k_threads k t))"
    and "k_mutexes (handed m tp ts np x k) m' =
      (if m' = m then (k_mutexes k m)\<lparr>mx_cnt := 1, mx_queue := ts, mx_owner := Some tp, mx_next := th_mtxlist (k_threads k tp)\<rparr>
       else k_mutexes k m')"
    and "k_current (handed m tp ts np x k) = k_current k"
  using assms by (auto simp: handed_def give_up_def chSchReadyI_def)

lemma handed_ready:
  "k_ready (handed m tp ts np x k) = ch_pqueue_insert_behind (prio (handed m tp ts np x k)) tp (k_ready k)"
proof -
  have "prio (handed m tp ts np x k) = prio (upd_thread tp (\<lambda>th. th\<lparr>th_mtxlist := Some m\<rparr>)
     (upd_mutex m (\<lambda>mx. mx\<lparr>mx_cnt := 1, mx_queue := ts, mx_owner := Some tp,
        mx_next := th_mtxlist (k_threads (give_up m np x k) tp)\<rparr>) (give_up m np x k)))"
    by (auto simp: handed_def chSchReadyI_def fun_eq_iff)
  then show ?thesis by (simp add: handed_def chSchReadyI_def) (simp add: give_up_def)
qed

lemma first_waiting:
  assumes q: "queues_ok N k" and w: "mx_queue (k_mutexes k m) = tp # ts"
  shows "tp \<in> N" "state_of k tp = CH_STATE_WTMTX m" "tp \<noteq> k_current k"
proof -
  have "tp \<in> {t \<in> N. state_of k t = CH_STATE_WTMTX m}" using q w unfolding queues_ok_def by (metis list.set_intros(1))
  then show "tp \<in> N" "state_of k tp = CH_STATE_WTMTX m" "tp \<noteq> k_current k" using queues_ok_current[OF q] by auto
qed

lemma handed_queues:
  assumes q: "queues_ok N k" and w: "mx_queue (k_mutexes k m) = tp # ts"
  shows "queues_ok N (handed m tp ts np x k)"
proof -
  let ?k' = "handed m tp ts np x k"
  note tp = first_waiting[OF q w]
  note sel = handed_sel[OF tp(3), of m ts np x]
  have Q: "distinct (mx_queue (k_mutexes k m'))"
      "set (mx_queue (k_mutexes k m')) = {t \<in> N. state_of k t = CH_STATE_WTMTX m'}" for m'
    using q by (auto simp: queues_ok_def)
  have np: "by_prio (prio ?k') (mx_queue (k_mutexes k m'))" "by_prio (prio ?k') (k_ready k)" for m'
    by (rule new_prio_queues[OF q]; simp add: sel(1))+
  have sm: "{t \<in> N. state_of ?k' t = CH_STATE_WTMTX m'} = {t \<in> N. state_of k t = CH_STATE_WTMTX m'} - (if m' = m then {tp} else {})" for m'
    using tp by (auto simp: sel(3))
  have "distinct (mx_queue (k_mutexes ?k' m')) \<and> by_prio (prio ?k') (mx_queue (k_mutexes ?k' m')) \<and>
      set (mx_queue (k_mutexes ?k' m')) = {t \<in> N. state_of ?k' t = CH_STATE_WTMTX m'}" for m'
  proof (cases "m' = m")
    case True
    have "{t \<in> N. state_of k t = CH_STATE_WTMTX m} = insert tp (set ts)" "tp \<notin> set ts" "distinct ts"
      using Q[of m] w by simp_all
    then show ?thesis using True np(1)[of m] w unfolding sm by (simp add: sel(5))
  next
    case False
    then show ?thesis using Q[of m'] np(1)[of m'] unfolding sm by (simp add: sel(5))
  qed
  moreover have "{t \<in> N. state_of ?k' t = CH_STATE_READY} = insert tp {t \<in> N. state_of k t = CH_STATE_READY}"
      "{t \<in> N. state_of ?k' t = CH_STATE_CURRENT} = {t \<in> N. state_of k t = CH_STATE_CURRENT}"
    using tp by (auto simp: sel(3))
  moreover have "tp \<notin> set (k_ready k)" using q tp by (auto simp: queues_ok_def)
  ultimately show ?thesis
    using q np(2) insert_behind_by_prio[OF np(2), of tp] unfolding queues_ok_def handed_ready sel(6) by simp
qed

lemma handed_owners:
  assumes q: "queues_ok N k" and ok: "owners_ok N k" and top: "th_mtxlist (k_threads k (k_current k)) = Some m"
    and w: "mx_queue (k_mutexes k m) = tp # ts"
  shows "owners_ok N (handed m tp ts np x k)"
proof -
  let ?c = "k_current k" and ?k' = "handed m tp ts np x k"
  note tp = first_waiting[OF q w]
  note sel = handed_sel[OF tp(3), of m ts np x]
  have cur: "?c \<in> N" using queues_ok_current[OF q] by auto
  obtain us where us: "owned_list k (mx_next (k_mutexes k m)) us" "distinct us"
      "set us = {m'. mx_owner (k_mutexes k m') = Some ?c} - {m}" "mx_owner (k_mutexes k m) = Some ?c"
    by (rule owned_list_top[OF ok cur top])
  have ow: "owned_list ?k' p ms \<longleftrightarrow> owned_list k p ms" if "m \<notin> set ms" for p ms
    using that by (intro owned_list_cong) (auto simp: sel(5))
  have "\<exists>ms. owned_list ?k' (th_mtxlist (k_threads ?k' t)) ms \<and> distinct ms \<and> set ms = {m'. mx_owner (k_mutexes ?k' m') = Some t}" if t: "t \<in> N" for t
  proof (cases "t = ?c")
    case True
    then show ?thesis using us tp ow[of us] by (intro exI[of _ us]) (auto simp: sel(4,5))
  next
    case False
    obtain ms where ms: "owned_list k (th_mtxlist (k_threads k t)) ms" "distinct ms" "set ms = {m'. mx_owner (k_mutexes k m') = Some t}"
      using owners_okD(3)[OF ok t] by blast
    then have "m \<notin> set ms" using False us(4) by auto
    then show ?thesis
      using False us(4) ow[of ms] ms by (intro exI[of _ "if t = tp then m # ms else ms"]) (auto simp: sel(4,5))
  qed
  then show ?thesis using ok tp(1) unfolding owners_ok_def by (simp add: sel(5))
qed

lemma handed_waits:
  assumes "tp \<noteq> k_current k"
  shows "waits_for (handed m tp ts np x k) u t \<longleftrightarrow> t = tp \<and> u \<in> set ts \<or>
      (\<exists>m'. m' \<noteq> m \<and> mx_owner (k_mutexes k m') = Some t \<and> u \<in> set (mx_queue (k_mutexes k m')))"
proof -
  have "mx_owner (k_mutexes (handed m tp ts np x k) m') = Some t \<and> u \<in> set (mx_queue (k_mutexes (handed m tp ts np x k) m')) \<longleftrightarrow>
      (if m' = m then t = tp \<and> u \<in> set ts else mx_owner (k_mutexes k m') = Some t \<and> u \<in> set (mx_queue (k_mutexes k m')))" for m'
    by (auto simp: handed_sel[OF assms])
  then show ?thesis unfolding waits_for_def by (metis (full_types))
qed

lemma hand_over_ok:
  assumes q: "queues_ok N k" and ok: "owners_ok N k" and top: "th_mtxlist (k_threads k (k_current k)) = Some m"
    and w: "mx_queue (k_mutexes k m) = tp # ts"
  shows "\<exists>k'. mtx_hand_over m (give_up m np x k) = Some k' \<and> queues_ok N k' \<and> owners_ok N k' \<and> k_current k' = k_current k \<and>
     (\<forall>t. prio k' t = (if t = k_current k then np else prio k t) \<and> th_realprio (k_threads k' t) = th_realprio (k_threads k t)) \<and>
     (\<forall>u t. waits_for k' u t \<longleftrightarrow> t = tp \<and> u \<in> set ts \<or>
        (\<exists>m'. m' \<noteq> m \<and> mx_owner (k_mutexes k m') = Some t \<and> u \<in> set (mx_queue (k_mutexes k m')))) \<and>
     (\<forall>t. runnable k t \<longrightarrow> runnable k' t) \<and> th_mtxlist (k_threads k' (k_current k)) = mx_next (k_mutexes k m) \<and>
     mx_owner (k_mutexes k' m) = Some tp"
proof -
  note tp = first_waiting[OF q w]
  show ?thesis
    using hand_over_handed[OF w, of np x] handed_queues[OF q w, of np x] handed_owners[OF q ok top w, of np x]
      handed_waits[OF tp(3), of m ts np x] handed_sel[OF tp(3), of m ts np x] tp(3)
    by (intro exI[of _ "handed m tp ts np x k"]) (simp add: runnable_def)
qed

lemma current_not_waiting: "queues_ok N k \<Longrightarrow> \<not> waits_for k (k_current k) t"
  using waits_for_state[of N k "k_current k" t] queues_ok_current[of N k] by auto

text \<open>Handing over keeps the inheritance, and the priorities of the other threads justified.\<close>

lemma hand_over_keeps:
  assumes q: "queues_ok N k" and inh: "inherits k" and o': "mx_owner (k_mutexes k m) = Some (k_current k)"
    and w: "mx_queue (k_mutexes k m) = tp # ts"
    and low: "\<forall>m' u. m' \<noteq> m \<and> mx_owner (k_mutexes k m') = Some (k_current k) \<and> u \<in> set (mx_queue (k_mutexes k m')) \<longrightarrow> prio k u \<le> np"
    and pr: "\<And>t. prio k' t = (if t = k_current k then np else prio k t)"
    and rp: "\<And>t. th_realprio (k_threads k' t) = th_realprio (k_threads k t)"
    and wf: "\<And>u t. waits_for k' u t \<longleftrightarrow> t = tp \<and> u \<in> set ts \<or>
        (\<exists>m'. m' \<noteq> m \<and> mx_owner (k_mutexes k m') = Some t \<and> u \<in> set (mx_queue (k_mutexes k m')))"
  shows "inherits k'" and "\<And>t. t \<noteq> k_current k \<Longrightarrow> justified k t \<Longrightarrow> justified k' t"
proof -
  let ?c = "k_current k"
  note nw = current_not_waiting[OF q]
  have "by_prio (prio k) (tp # ts)" using q w unfolding queues_ok_def by metis
  moreover have "waits_for k u ?c" if "u \<in> set (tp # ts)" for u using that o' w by (auto simp: waits_for_def)
  ultimately have Q: "\<forall>u\<in>set ts. prio k u \<le> prio k tp" "tp \<noteq> ?c" "?c \<notin> set ts" using nw by auto
  have "prio k' u \<le> prio k' t" if wt: "waits_for k' u t" for u t
  proof -
    consider "t = tp" "u \<in> set ts" | m' where "m' \<noteq> m" "mx_owner (k_mutexes k m') = Some t" "u \<in> set (mx_queue (k_mutexes k m'))"
      using wt unfolding wf by blast
    then show ?thesis
    proof cases
      case 1
      then show ?thesis using Q by (auto simp: pr)
    next
      case 2
      then have "waits_for k u t" by (auto simp: waits_for_def)
      then have "u \<noteq> ?c" "prio k u \<le> prio k t" using nw inh by (auto simp: inherits_def)
      moreover have "prio k u \<le> np" if "t = ?c" using 2 low that by auto
      ultimately show ?thesis by (simp add: pr)
    qed
  qed
  then show "inherits k'" by (simp add: inherits_def)
  show "justified k' t" if ne: "t \<noteq> ?c" and j: "justified k t" for t
  proof -
    have "waits_for k' u t" "u \<noteq> ?c" if wu: "waits_for k u t" for u
    proof -
      obtain m' where m': "mx_owner (k_mutexes k m') = Some t" "u \<in> set (mx_queue (k_mutexes k m'))"
        using wu by (auto simp: waits_for_def)
      moreover have "m' \<noteq> m" using m'(1) o' ne by auto
      ultimately show "waits_for k' u t" unfolding wf by blast
      show "u \<noteq> ?c" using wu nw by auto
    qed
    then have "\<exists>u. waits_for k' u t \<and> prio k' u = prio k t" if "\<exists>u. waits_for k u t \<and> prio k u = prio k t"
      using that by (auto simp: pr)
    moreover have "prio k' t = prio k t" "th_realprio (k_threads k' t) = th_realprio (k_threads k t)"
      using ne by (simp_all add: pr rp)
    ultimately show ?thesis using j unfolding justified_def by (elim conjE disjE) simp_all
  qed
qed

lemma free_ok:
  fixes x :: int
  assumes q: "queues_ok N k" and ok: "owners_ok N k" and top: "th_mtxlist (k_threads k (k_current k)) = Some m"
    and w: "mx_queue (k_mutexes k m) = []"
  defines "k' \<equiv> upd_mutex m (\<lambda>mx. mx\<lparr>mx_cnt := 0, mx_owner := None\<rparr>) (give_up m (prio k (k_current k)) x k)"
  shows "same_queues k k' \<and> owners_ok N k' \<and> (\<forall>u t. waits_for k' u t \<longleftrightarrow> waits_for k u t) \<and>
     th_mtxlist (k_threads k' (k_current k)) = mx_next (k_mutexes k m)"
proof -
  let ?c = "k_current k"
  have cur: "?c \<in> N" using queues_ok_current[OF q] by auto
  obtain us where us: "owned_list k (mx_next (k_mutexes k m)) us" "distinct us"
      "set us = {m'. mx_owner (k_mutexes k m') = Some ?c} - {m}" "mx_owner (k_mutexes k m) = Some ?c"
    by (rule owned_list_top[OF ok cur top])
  have ml: "th_mtxlist (k_threads k' t) = (if t = ?c then mx_next (k_mutexes k m) else th_mtxlist (k_threads k t))" for t
    by (simp add: k'_def give_up_def)
  have mx: "mx_next (k_mutexes k' m') = mx_next (k_mutexes k m')" "mx_queue (k_mutexes k' m') = mx_queue (k_mutexes k m')"
      "mx_owner (k_mutexes k' m') = (if m' = m then None else mx_owner (k_mutexes k m'))"
      "mx_cnt (k_mutexes k' m') = (if m' = m then 0 else mx_cnt (k_mutexes k m'))" for m'
    by (simp_all add: k'_def give_up_def)
  have ow: "owned_list k' p ms \<longleftrightarrow> owned_list k p ms" for p ms by (rule owned_list_cong) (simp add: mx)
  have "\<exists>ms. owned_list k' (th_mtxlist (k_threads k' t)) ms \<and> distinct ms \<and> set ms = {m'. mx_owner (k_mutexes k' m') = Some t}" if t: "t \<in> N" for t
  proof (cases "t = ?c")
    case True
    then show ?thesis using us by (intro exI[of _ us]) (auto simp: ml mx ow)
  next
    case False
    obtain ms where "owned_list k (th_mtxlist (k_threads k t)) ms" "distinct ms" "set ms = {m'. mx_owner (k_mutexes k m') = Some t}"
      using owners_okD(3)[OF ok t] by blast
    then show ?thesis using False us(4) by (intro exI[of _ ms]) (auto simp: ml mx ow)
  qed
  then have "owners_ok N k'" using ok w unfolding owners_ok_def by (simp add: mx)
  moreover have "waits_for k' u t \<longleftrightarrow> waits_for k u t" for u t
  proof -
    have "mx_owner (k_mutexes k' m') = Some t \<and> u \<in> set (mx_queue (k_mutexes k' m')) \<longleftrightarrow>
        mx_owner (k_mutexes k m') = Some t \<and> u \<in> set (mx_queue (k_mutexes k m'))" for m'
      using w by (cases "m' = m") (simp_all add: mx)
    then show ?thesis by (simp add: waits_for_def)
  qed
  moreover have "same_queues k k'" by (simp add: same_queues_def k'_def give_up_def)
  ultimately show ?thesis by (simp add: ml)
qed

lemma give_up_eqs:
  "upd_thread (k_current k) (\<lambda>th. th\<lparr>th_prio := np\<rparr>) (give_up m p x k) = give_up m np x k"
  "upd_thread (k_current k) (\<lambda>th. th\<lparr>th_mtxlist := mx_next (k_mutexes k m)\<rparr>) (upd_mutex m (\<lambda>mx. mx\<lparr>mx_cnt := x\<rparr>) k) =
     give_up m (prio k (k_current k)) x k"
  by (simp_all add: give_up_def upd_thread_def upd_mutex_def)

lemma new_priority_justified:
  assumes q: "queues_ok N k"
    and pr: "\<And>t. prio k' t = (if t = k_current k then np else prio k t)"
    and rp: "\<And>t. th_realprio (k_threads k' t) = th_realprio (k_threads k t)"
    and wf: "\<And>u t. waits_for k' u t \<longleftrightarrow> t = tp \<and> u \<in> set ts \<or>
        (\<exists>m'. m' \<noteq> m \<and> mx_owner (k_mutexes k m') = Some t \<and> u \<in> set (mx_queue (k_mutexes k m')))"
    and np: "th_realprio (k_threads k (k_current k)) \<le> np"
      "np = th_realprio (k_threads k (k_current k)) \<or>
       (\<exists>m' u. m' \<noteq> m \<and> mx_owner (k_mutexes k m') = Some (k_current k) \<and> u \<in> set (mx_queue (k_mutexes k m')) \<and> prio k u = np)"
  shows "justified k' (k_current k)"
proof (cases "np = th_realprio (k_threads k (k_current k))")
  case True
  then show ?thesis by (simp add: justified_def pr rp)
next
  case False
  then obtain m' u where u: "m' \<noteq> m" "mx_owner (k_mutexes k m') = Some (k_current k)" "u \<in> set (mx_queue (k_mutexes k m'))" "prio k u = np"
    using np(2) by blast
  have "waits_for k u (k_current k)" using u by (auto simp: waits_for_def)
  then have "u \<noteq> k_current k" using current_not_waiting[OF q] by auto
  moreover have "waits_for k' u (k_current k)" using u unfolding wf by blast
  ultimately have "\<exists>u. waits_for k' u (k_current k) \<and> prio k' u = np" using u(4) unfolding pr by auto
  then show ?thesis using np(1) unfolding justified_def rp pr by auto
qed

lemma release_last:
  assumes "mx_cnt (k_mutexes k m) = 1"
  defines "k1 \<equiv> give_up m (prio k (k_current k)) 0 k"
  shows "mtx_release m (upd_mutex m (\<lambda>mx. mx\<lparr>mx_cnt := mx_cnt mx - 1\<rparr>) k) =
      (if mx_queue (k_mutexes k m) \<noteq> [] then do {
         newprio \<leftarrow> scan_owned k1 (mx_next (k_mutexes k m)) (th_realprio (k_threads k (k_current k)));
         mtx_hand_over m (give_up m newprio 0 k) }
       else Some (upd_mutex m (\<lambda>mx. mx\<lparr>mx_cnt := 0, mx_owner := None\<rparr>) k1))"
proof -
  have k0: "upd_mutex m (\<lambda>mx. mx\<lparr>mx_cnt := mx_cnt mx - 1\<rparr>) k = upd_mutex m (\<lambda>mx. mx\<lparr>mx_cnt := 0\<rparr>) k"
    using assms(1) by (simp add: upd_mutex_def)
  have k1: "upd_thread (k_current k) (\<lambda>th. th\<lparr>th_mtxlist := mx_next (k_mutexes k m)\<rparr>) (upd_mutex m (\<lambda>mx. mx\<lparr>mx_cnt := 0\<rparr>) k) = k1"
    unfolding k1_def by (rule give_up_eqs(2))
  have sel: "th_mtxlist (k_threads k1 (k_current k)) = mx_next (k_mutexes k m)" "mx_queue (k_mutexes k1 m) = mx_queue (k_mutexes k m)"
      "th_realprio (k_threads k1 (k_current k)) = th_realprio (k_threads k (k_current k))"
      "upd_mutex m (\<lambda>mx. mx\<lparr>mx_owner := None\<rparr>) k1 = upd_mutex m (\<lambda>mx. mx\<lparr>mx_cnt := 0, mx_owner := None\<rparr>) k1"
    by (simp_all add: k1_def give_up_def upd_mutex_def upd_thread_def)
  have np: "upd_thread (k_current k) (\<lambda>th. th\<lparr>th_prio := np\<rparr>) k1 = give_up m np 0 k" for np
    unfolding k1_def by (rule give_up_eqs(1))
  show ?thesis unfolding k0 mtx_release_def Let_def using k1 by (simp add: sel np chMtxQueueNotEmptyS_def)
qed

text \<open>The scan finds the highest priority that waits for the mutexes the caller keeps.\<close>

lemma scan_rest:
  assumes q: "queues_ok N k" and ok: "owners_ok N k" and top: "th_mtxlist (k_threads k (k_current k)) = Some m"
  shows "\<exists>np. scan_owned (give_up m (prio k (k_current k)) 0 k) (mx_next (k_mutexes k m)) (th_realprio (k_threads k (k_current k))) = Some np \<and>
     th_realprio (k_threads k (k_current k)) \<le> np \<and>
     (\<forall>m' u. m' \<noteq> m \<and> mx_owner (k_mutexes k m') = Some (k_current k) \<and> u \<in> set (mx_queue (k_mutexes k m')) \<longrightarrow> prio k u \<le> np) \<and>
     (np = th_realprio (k_threads k (k_current k)) \<or>
      (\<exists>m' u. m' \<noteq> m \<and> mx_owner (k_mutexes k m') = Some (k_current k) \<and> u \<in> set (mx_queue (k_mutexes k m')) \<and> prio k u = np))"
proof -
  let ?c = "k_current k" and ?k1 = "give_up m (prio k (k_current k)) 0 k"
  obtain us where us: "owned_list k (mx_next (k_mutexes k m)) us" "set us = {m'. mx_owner (k_mutexes k m') = Some ?c} - {m}"
    using owned_list_top[OF ok _ top] queues_ok_current[OF q] by metis
  have g: "prio ?k1 = prio k" "mx_queue (k_mutexes ?k1 m') = mx_queue (k_mutexes k m')" "mx_next (k_mutexes ?k1 m') = mx_next (k_mutexes k m')" for m'
    by (auto simp: give_up_def fun_eq_iff)
  have gp: "prio ?k1 t = prio k t" for t by (simp add: give_up_def)
  have "owned_list ?k1 (mx_next (k_mutexes k m)) us" using us(1) owned_list_cong[of us ?k1 k] by (simp add: g)
  moreover have "by_prio (prio ?k1) (mx_queue (k_mutexes ?k1 m'))" for m' using q unfolding g by (simp add: queues_ok_def)
  ultimately obtain np where "scan_owned ?k1 (mx_next (k_mutexes k m)) (th_realprio (k_threads k ?c)) = Some np"
      "th_realprio (k_threads k ?c) \<le> np" "\<forall>m'\<in>set us. \<forall>t\<in>set (mx_queue (k_mutexes k m')). prio k t \<le> np"
      "np = th_realprio (k_threads k ?c) \<or> (\<exists>m'\<in>set us. \<exists>t\<in>set (mx_queue (k_mutexes k m')). prio k t = np)"
    using scan_owned_max[of ?k1 "mx_next (k_mutexes k m)" us "th_realprio (k_threads k ?c)"] unfolding g gp by auto
  then show ?thesis unfolding us(2) by (intro exI[of _ np]) blast
qed

lemma mtx_release_inv:
  assumes i: "mtx_inv N idle k" and top: "th_mtxlist (k_threads k (k_current k)) = Some m" and n: "mx_cnt (k_mutexes k m) = 1"
  defines "k0 \<equiv> upd_mutex m (\<lambda>mx. mx\<lparr>mx_cnt := mx_cnt mx - 1\<rparr>) k"
  shows "\<exists>k'. mtx_release m k0 = Some k' \<and> finite N \<and> idle \<in> N \<and> runnable k' idle \<and> queues_ok N k' \<and> owners_ok N k' \<and>
     inherits k' \<and> (\<forall>t\<in>N. justified k' t) \<and> k_current k' = k_current k \<and>
     (if chMtxQueueNotEmptyS m k then mx_owner (k_mutexes k' m) = Some (hd (mx_queue (k_mutexes k m)))
      else mx_owner (k_mutexes k' m) = None \<and> top_prio k')"
proof -
  let ?c = "k_current k"
  have ok: "queues_ok N k" "owners_ok N k" "inherits k" "\<forall>t\<in>N. justified k t" "finite N" "idle \<in> N" "runnable k idle"
    using i by (auto simp: mtx_inv_def)
  have own: "mx_owner (k_mutexes k m) = Some ?c"
    using owned_list_top[OF ok(2) _ top] queues_ok_current[OF ok(1)] by metis
  show ?thesis
  proof (cases "mx_queue (k_mutexes k m)")
    case Nil
    let ?k' = "upd_mutex m (\<lambda>mx. mx\<lparr>mx_cnt := 0, mx_owner := None\<rparr>) (give_up m (prio k ?c) 0 k)"
    have r: "mtx_release m k0 = Some ?k'" unfolding k0_def release_last[OF n] using Nil by simp
    from free_ok[OF ok(1,2) top Nil, of 0] have f: "same_queues k ?k'" "owners_ok N ?k'" "\<And>u t. waits_for ?k' u t \<longleftrightarrow> waits_for k u t" by auto
    have "mtx_inv N idle ?k'" by (rule same_queues_inv[OF i f])
    then show ?thesis using r Nil by (auto simp: mtx_inv_def chMtxQueueNotEmptyS_def give_up_def)
  next
    case (Cons tp ts)
    obtain np where np: "scan_owned (give_up m (prio k ?c) 0 k) (mx_next (k_mutexes k m)) (th_realprio (k_threads k ?c)) = Some np"
        "th_realprio (k_threads k ?c) \<le> np"
        "\<forall>m' u. m' \<noteq> m \<and> mx_owner (k_mutexes k m') = Some ?c \<and> u \<in> set (mx_queue (k_mutexes k m')) \<longrightarrow> prio k u \<le> np"
        "np = th_realprio (k_threads k ?c) \<or>
         (\<exists>m' u. m' \<noteq> m \<and> mx_owner (k_mutexes k m') = Some ?c \<and> u \<in> set (mx_queue (k_mutexes k m')) \<and> prio k u = np)"
      using scan_rest[OF ok(1,2) top] by blast
    obtain k' where k': "mtx_hand_over m (give_up m np 0 k) = Some k'" "queues_ok N k'" "owners_ok N k'" "k_current k' = ?c"
        "\<And>t. prio k' t = (if t = ?c then np else prio k t)" "\<And>t. th_realprio (k_threads k' t) = th_realprio (k_threads k t)"
        "\<And>u t. waits_for k' u t \<longleftrightarrow> t = tp \<and> u \<in> set ts \<or>
          (\<exists>m'. m' \<noteq> m \<and> mx_owner (k_mutexes k m') = Some t \<and> u \<in> set (mx_queue (k_mutexes k m')))"
        "\<And>t. runnable k t \<Longrightarrow> runnable k' t" "mx_owner (k_mutexes k' m) = Some tp"
      using hand_over_ok[OF ok(1,2) top Cons, of np 0] by auto
    have r: "mtx_release m k0 = Some k'" unfolding k0_def release_last[OF n] using Cons np(1) k'(1) by simp
    note keep = hand_over_keeps[OF ok(1,3) own Cons np(3) k'(5,6,7)]
    have "justified k' ?c"
      by (rule new_priority_justified[OF ok(1) k'(5,6,7) np(2,4)])
    then have "justified k' t" if "t \<in> N" for t using keep(2)[of t] ok(4) that by (cases "t = ?c") auto
    then show ?thesis using r k'(2-4,8,9) keep(1) ok(5-7) Cons by (simp add: chMtxQueueNotEmptyS_def)
  qed
qed

lemma firstprio_hd: "k_ready k \<noteq> [] \<Longrightarrow> firstprio k = prio k (hd (k_ready k))"
  by (cases "k_ready k") (auto simp: firstprio_def)

lemma chSchRescheduleS_ok:
  assumes q: "queues_ok N k"
  shows "\<exists>k'. chSchRescheduleS k = Some k' \<and> queues_ok N k' \<and> top_prio k' \<and> same_core k k' \<and> (\<forall>t. runnable k' t \<longleftrightarrow> runnable k t)"
proof (cases "prio k (k_current k) < firstprio k")
  case True
  then have ne: "k_ready k \<noteq> []" by (auto simp: firstprio_def)
  have "prio k (k_current k) \<le> prio k (hd (k_ready k))" using True firstprio_hd[OF ne] by simp
  from reschedule_ok[OF q ne _ this, of sch_ready_ahead] show ?thesis
    using True by (auto simp: chSchRescheduleS_def sch_reschedule_ahead_def Let_def)
next
  case False
  have "prio k t \<le> prio k (k_current k)" if t: "t \<in> set (k_ready k)" for t
  proof -
    obtain n r where n: "k_ready k = n # r" using t by (cases "k_ready k") auto
    then have "prio k t \<le> prio k n" using q t by (auto simp: queues_ok_def)
    then show ?thesis using False n by (simp add: firstprio_def)
  qed
  then show ?thesis using False q by (simp add: chSchRescheduleS_def top_prio_def)
qed

lemma mtx_unlock_inv:
  assumes i: "mtx_inv N idle k" and o': "mx_owner (k_mutexes k m) = Some (k_current k)"
    and lifo: "mx_cnt (k_mutexes k m) = 1 \<Longrightarrow> th_mtxlist (k_threads k (k_current k)) = Some m"
  shows "\<exists>k'. chMtxUnlock m k = Some k' \<and> mtx_inv N idle k' \<and>
     (mx_cnt (k_mutexes k m) = 1 \<longrightarrow> mx_owner (k_mutexes k' m) =
        (case mx_queue (k_mutexes k m) of [] \<Rightarrow> None | t # _ \<Rightarrow> Some t))"
proof (cases "mx_cnt (k_mutexes k m) = 1")
  case False
  have "0 < mx_cnt (k_mutexes k m)" using i owners_okD(2)[OF _ o'] by (auto simp: mtx_inv_def)
  then have "0 < mx_cnt (k_mutexes k m) - 1" using False by simp
  then have "mtx_inv N idle (upd_mutex m (\<lambda>mx. mx\<lparr>mx_cnt := mx_cnt mx - 1\<rparr>) k)"
    using mtx_count_inv[OF i, of m "\<lambda>c. c - 1"] o' by simp
  then show ?thesis using False by (simp add: chMtxUnlock_def)
next
  case True
  let ?k0 = "upd_mutex m (\<lambda>mx. mx\<lparr>mx_cnt := mx_cnt mx - 1\<rparr>) k"
  obtain k1 where k1: "mtx_release m ?k0 = Some k1" "finite N" "idle \<in> N" "runnable k1 idle" "queues_ok N k1" "owners_ok N k1"
      "inherits k1" "\<forall>t\<in>N. justified k1 t"
      "if chMtxQueueNotEmptyS m k then mx_owner (k_mutexes k1 m) = Some (hd (mx_queue (k_mutexes k m)))
       else mx_owner (k_mutexes k1 m) = None \<and> top_prio k1"
    using mtx_release_inv[OF i lifo[OF True] True] by blast
  have w: "chMtxQueueNotEmptyS m ?k0 = chMtxQueueNotEmptyS m k" by (simp add: chMtxQueueNotEmptyS_def)
  show ?thesis
  proof (cases "chMtxQueueNotEmptyS m k")
    case False
    then show ?thesis using True k1 w by (simp add: chMtxUnlock_def mtx_inv_def chMtxQueueNotEmptyS_def Let_def)
  next
    case ne: True
    obtain k2 where k2: "chSchRescheduleS k1 = Some k2" "queues_ok N k2" "top_prio k2" "same_core k1 k2" "\<forall>t. runnable k2 t \<longleftrightarrow> runnable k1 t"
      using chSchRescheduleS_ok[OF k1(5)] by blast
    have "mtx_inv N idle k2" using k1 k2 same_core_facts[OF k2(4)] by (simp add: mtx_inv_def)
    moreover have "k_mutexes k2 = k_mutexes k1" using k2(4) by (simp add: same_core_def)
    moreover have "chMtxUnlock m k = Some k2" using True ne k1(1) k2(1) w by (simp add: chMtxUnlock_def Let_def)
    ultimately show ?thesis using k1(9) ne by (auto simp: chMtxQueueNotEmptyS_def split: list.splits)
  qed
qed

subsection \<open>Sleeping, waking up and yielding\<close>

lemma idle_ready:
  assumes "mtx_inv N idle k" and "k_current k \<noteq> idle"
  shows "idle \<in> set (k_ready k)"
  using assms queues_ok_cur_iff[of N k idle] by (auto simp: mtx_inv_def runnable_def queues_ok_def)

text \<open>The states of a thread that neither can run nor waits for a mutex.\<close>

fun asleep :: "tstate \<Rightarrow> bool" where
  "asleep CH_STATE_READY \<longleftrightarrow> False"
| "asleep CH_STATE_CURRENT \<longleftrightarrow> False"
| "asleep (CH_STATE_WTMTX m) \<longleftrightarrow> False"
| "asleep _ \<longleftrightarrow> True"

lemma asleepD: "asleep s \<Longrightarrow> s \<noteq> CH_STATE_READY" "asleep s \<Longrightarrow> s \<noteq> CH_STATE_CURRENT" "asleep s \<Longrightarrow> s \<noteq> CH_STATE_WTMTX m"
  by auto

lemma sleep_inv:
  assumes i: "mtx_inv N idle k" and id: "k_current k \<noteq> idle" and s: "asleep s"
  shows "\<exists>k'. chSchGoSleepS s k = Some k' \<and> mtx_inv N idle k'"
proof -
  let ?c = "k_current k" and ?k = "upd_thread (k_current k) (\<lambda>th. th\<lparr>th_state := s\<rparr>) k"
  have ok: "queues_ok N k" using i by (simp add: mtx_inv_def)
  note cur = queues_ok_current[OF ok]
  have st: "state_of ?k t = (if t = ?c then s else state_of k t)" for t by simp
  have co: "same_core k ?k" by (simp add: same_core_def)
  then have pr: "prio ?k = prio k" by (simp add: same_core_def fun_eq_iff)
  have Q: "distinct (mx_queue (k_mutexes k m))" "by_prio (prio k) (mx_queue (k_mutexes k m))"
      "set (mx_queue (k_mutexes k m)) = {t \<in> N. state_of k t = CH_STATE_WTMTX m}" for m
    using ok by (auto simp: queues_ok_def)
  have sets: "{t \<in> N. state_of ?k t = CH_STATE_WTMTX m} = {t \<in> N. state_of k t = CH_STATE_WTMTX m}"
      "{t \<in> N. state_of ?k t = CH_STATE_READY} = {t \<in> N. state_of k t = CH_STATE_READY}"
      "{t \<in> N. state_of ?k t = CH_STATE_CURRENT} = {}" for m
    unfolding st using cur queues_ok_cur_iff[OF ok] asleepD[OF s] by auto
  have "\<forall>m. distinct (mx_queue (k_mutexes ?k m)) \<and> by_prio (prio ?k) (mx_queue (k_mutexes ?k m)) \<and>
      set (mx_queue (k_mutexes ?k m)) = {t \<in> N. state_of ?k t = CH_STATE_WTMTX m}"
    unfolding sets pr using Q by simp
  moreover have "distinct (k_ready ?k)" "by_prio (prio ?k) (k_ready ?k)" "set (k_ready ?k) = {t \<in> N. state_of ?k t = CH_STATE_READY}"
    unfolding sets pr using ok by (simp_all add: queues_ok_def)
  moreover have "k_ready ?k \<noteq> []" using idle_ready[OF i id] by auto
  ultimately obtain k' where k': "sch_run_first ?k = Some k'" "queues_ok N k'" "top_prio k'" "same_core ?k k'" "\<forall>t. runnable k' t \<longleftrightarrow> runnable ?k t"
    using run_first_ok[of ?k N] sets(3) by blast
  have "same_core k k'" by (rule same_core_trans[OF co k'(4)])
  moreover have "runnable k' idle" using k'(5) id i by (simp add: runnable_def mtx_inv_def)
  ultimately have "mtx_inv N idle k'" using i k' same_core_facts[of k k'] by (simp add: mtx_inv_def)
  then show ?thesis using k'(1) by (simp add: chSchGoSleepS_def)
qed

lemma ready_queues:
  assumes q: "queues_ok N k" and t: "t \<in> N" "asleep (state_of k t)"
  shows "queues_ok N (sch_ready_behind t k)" and "same_core k (sch_ready_behind t k)"
    and "runnable k u \<Longrightarrow> runnable (sch_ready_behind t k) u"
proof -
  let ?k = "sch_ready_behind t k"
  have co: "same_core k ?k" by (simp add: same_core_def)
  then have pr: "prio ?k = prio k" by (simp add: same_core_def fun_eq_iff)
  have st: "state_of ?k u = (if u = t then CH_STATE_READY else state_of k u)" for u by simp
  have sets: "{u \<in> N. state_of ?k u = CH_STATE_WTMTX m} = {u \<in> N. state_of k u = CH_STATE_WTMTX m}"
      "{u \<in> N. state_of ?k u = CH_STATE_READY} = insert t {u \<in> N. state_of k u = CH_STATE_READY}"
      "{u \<in> N. state_of ?k u = CH_STATE_CURRENT} = {u \<in> N. state_of k u = CH_STATE_CURRENT}" for m
    unfolding st using t(1) asleepD[OF t(2)] by auto
  have "t \<notin> set (k_ready k)" using q asleepD[OF t(2)] by (auto simp: queues_ok_def)
  then show "queues_ok N ?k"
    using q insert_behind_by_prio[of "prio k" "k_ready k" t] unfolding queues_ok_def sets pr by simp
  show "same_core k ?k" by (rule co)
  show "runnable k u \<Longrightarrow> runnable ?k u" using t by (auto simp: runnable_def)
qed

lemma interrupt_inv:
  assumes i: "mtx_inv N idle k" and t: "t \<in> N" "asleep (state_of k t)"
  shows "\<exists>k'. chSchPreemption (chSchReadyI t k) = Some k' \<and> mtx_inv N idle k'"
proof -
  have q: "queues_ok N k" using i by (simp add: mtx_inv_def)
  note r = ready_queues[OF q t]
  obtain k' where k': "chSchRescheduleS (sch_ready_behind t k) = Some k'" "queues_ok N k'" "top_prio k'"
      "same_core (sch_ready_behind t k) k'" "\<forall>u. runnable k' u \<longleftrightarrow> runnable (sch_ready_behind t k) u"
    using chSchRescheduleS_ok[OF r(1)] by blast
  have "same_core k k'" by (rule same_core_trans[OF r(2) k'(4)])
  then have "mtx_inv N idle k'" using i k' r(3)[of idle] same_core_facts[of k k'] by (simp add: mtx_inv_def)
  then show ?thesis using k'(1) by (simp add: chSchPreemption_def chSchRescheduleS_def chSchReadyI_def)
qed

lemma yield_inv:
  assumes i: "mtx_inv N idle k" and ne: "k_ready k \<noteq> []"
  shows "\<exists>k'. chSchDoYieldS k = Some k' \<and> mtx_inv N idle k'"
proof (cases "prio k (k_current k) \<le> firstprio k")
  case True
  have q: "queues_ok N k" using i by (simp add: mtx_inv_def)
  have "prio k (k_current k) \<le> prio k (hd (k_ready k))" using True firstprio_hd[OF ne] by simp
  from reschedule_ok[OF q ne _ this, of sch_ready_behind] obtain k1 where
    k1: "sch_run_first k = Some k1" "queues_ok N (sch_ready_behind (k_current k) k1)" "top_prio (sch_ready_behind (k_current k) k1)"
      "same_core k (sch_ready_behind (k_current k) k1)" "\<forall>t. runnable (sch_ready_behind (k_current k) k1) t \<longleftrightarrow> runnable k t"
    by auto
  then have "mtx_inv N idle (sch_ready_behind (k_current k) k1)" using i same_core_facts[OF k1(4)] by (simp add: mtx_inv_def)
  then show ?thesis using True k1(1) by (simp add: chSchDoYieldS_def sch_reschedule_behind_def Let_def)
qed (use i in \<open>simp add: chSchDoYieldS_def\<close>)

lemma wakeup_inv:
  assumes i: "mtx_inv N idle k" and t: "t \<in> N" "asleep (state_of k t)"
  shows "mtx_inv N idle (chSchWakeupS t msg k)"
proof -
  let ?k = "upd_thread t (\<lambda>th. th\<lparr>th_rdymsg := msg\<rparr>) k" and ?c = "k_current k"
  have sq: "same_queues k ?k" by (simp add: same_queues_def)
  have cm: "same_core k ?k" by (simp add: same_core_def)
  have i1: "mtx_inv N idle ?k"
    using i same_queues_facts[OF sq] same_core_facts[OF cm] by (simp add: mtx_inv_def)
  have t1: "asleep (state_of ?k t)" using t by simp
  have q: "queues_ok N ?k" using i1 by (simp add: mtx_inv_def)
  have cur: "?c \<in> N" "state_of ?k ?c = CH_STATE_CURRENT" using queues_ok_current[OF q] by auto
  show ?thesis
  proof (cases "prio ?k t \<le> prio ?k ?c")
    case True
    have "top_prio (sch_ready_behind t ?k)"
      using i1 True by (auto simp: mtx_inv_def top_prio_def)
    then have "mtx_inv N idle (sch_ready_behind t ?k)"
      using i1 ready_queues[OF q t(1) t1] same_core_facts[OF ready_queues(2)[OF q t(1) t1]] by (simp add: mtx_inv_def)
    then show ?thesis using True by (simp add: chSchWakeupS_def Let_def)
  next
    case False
    define k' where "k' = (upd_thread t (\<lambda>th. th\<lparr>th_state := CH_STATE_CURRENT\<rparr>) (sch_ready_ahead ?c ?k))\<lparr>k_current := t\<rparr>"
    have tc: "t \<noteq> ?c" using asleepD[OF t1] cur by auto
    have q0: "queues_ok N k" using i by (simp add: mtx_inv_def)
    then have cs: "state_of k ?c = CH_STATE_CURRENT" using queues_ok_current by blast
    have st: "state_of k' u = (if u = t then CH_STATE_CURRENT else if u = ?c then CH_STATE_READY else state_of ?k u)" for u
      by (simp add: k'_def)
    have co: "same_core ?k k'" by (simp add: same_core_def k'_def)
    then have pr: "prio k' = prio ?k" by (simp add: same_core_def fun_eq_iff)
    have rd: "k_ready k' = ch_pqueue_insert_ahead (prio ?k) ?c (k_ready ?k)" "k_mutexes k' = k_mutexes ?k" "k_current k' = t"
      by (simp_all add: k'_def)
    have nc: "state_of k u \<noteq> CH_STATE_CURRENT" if "u \<in> N" "u \<noteq> ?c" for u using queues_ok_cur_iff[OF q0 that(1)] that(2) by simp
    have sets: "{u \<in> N. state_of k' u = CH_STATE_WTMTX m} = {u \<in> N. state_of ?k u = CH_STATE_WTMTX m}"
        "{u \<in> N. state_of k' u = CH_STATE_READY} = insert ?c {u \<in> N. state_of ?k u = CH_STATE_READY}"
        "{u \<in> N. state_of k' u = CH_STATE_CURRENT} = {t}" for m
      unfolding st using t(1) asleepD[OF t1] tc cur(1) cs nc by auto
    have "?c \<notin> set (k_ready ?k)" using q cur by (auto simp: queues_ok_def)
    then have Q: "queues_ok N k'"
      using q insert_ahead_by_prio[of "prio ?k" "k_ready ?k" ?c] unfolding queues_ok_def sets pr rd by simp
    have "\<forall>u\<in>set (k_ready ?k). prio ?k u \<le> prio ?k t" using i1 False unfolding mtx_inv_def top_prio_def by (auto intro: order_trans)
    then have "top_prio k'" using False co unfolding top_prio_def rd(1,3) same_core_def by auto
    moreover have "runnable k' idle" using i1 by (auto simp: runnable_def st mtx_inv_def)
    ultimately have "mtx_inv N idle k'" using i1 Q same_core_facts[OF co] by (simp add: mtx_inv_def)
    then show ?thesis using False by (simp add: chSchWakeupS_def Let_def k'_def)
  qed
qed

subsection \<open>Releasing all mutexes\<close>

text \<open>While the loop runs, only the priority of the current thread may be higher than it has to be.\<close>

definition releasing :: "nat set \<Rightarrow> nat \<Rightarrow> kernel \<Rightarrow> bool" where
  "releasing N idle k \<longleftrightarrow> idle \<in> N \<and> runnable k idle \<and> queues_ok N k \<and> owners_ok N k \<and> inherits k \<and>
     (\<forall>t\<in>N. t \<noteq> k_current k \<longrightarrow> justified k t)"

lemma release_one:
  assumes r: "releasing N idle k" and top: "th_mtxlist (k_threads k (k_current k)) = Some m"
  defines "k1 \<equiv> upd_thread (k_current k) (\<lambda>th. th\<lparr>th_mtxlist := mx_next (k_mutexes k m)\<rparr>) k"
  shows "\<exists>k'. (if chMtxQueueNotEmptyS m k1 then mtx_hand_over m k1
      else Some (upd_mutex m (\<lambda>mx. mx\<lparr>mx_cnt := 0, mx_owner := None\<rparr>) k1)) = Some k' \<and> releasing N idle k' \<and>
     k_current k' = k_current k \<and> th_mtxlist (k_threads k' (k_current k)) = mx_next (k_mutexes k m) \<and>
     (\<forall>m'. m' \<noteq> m \<longrightarrow> mx_next (k_mutexes k' m') = mx_next (k_mutexes k m'))"
proof -
  let ?c = "k_current k" and ?x = "mx_cnt (k_mutexes k m)"
  have ok: "queues_ok N k" "owners_ok N k" "inherits k" "idle \<in> N" "runnable k idle" "\<And>t. t \<in> N \<Longrightarrow> t \<noteq> ?c \<Longrightarrow> justified k t"
    using r by (auto simp: releasing_def)
  have cur: "?c \<in> N" using queues_ok_current[OF ok(1)] by auto
  have g: "k1 = give_up m (prio k ?c) ?x k"
    by (simp add: k1_def give_up_def upd_thread_def upd_mutex_def)
  obtain us where us: "mx_owner (k_mutexes k m) = Some ?c" by (rule owned_list_top[OF ok(2) cur top])
  show ?thesis
  proof (cases "mx_queue (k_mutexes k m)")
    case Nil
    let ?k' = "upd_mutex m (\<lambda>mx. mx\<lparr>mx_cnt := 0, mx_owner := None\<rparr>) k1"
    from free_ok[OF ok(1,2) top Nil, of ?x] have f: "same_queues k ?k'" "owners_ok N ?k'" "\<And>u t. waits_for ?k' u t \<longleftrightarrow> waits_for k u t"
        "th_mtxlist (k_threads ?k' ?c) = mx_next (k_mutexes k m)" unfolding g by auto
    have e: "k_current ?k' = ?c" "\<And>t. prio ?k' t = prio k t" "\<And>t. th_realprio (k_threads ?k' t) = th_realprio (k_threads k t)"
      using f(1) by (auto simp: same_queues_def)
    have "inherits ?k'" using ok(3) unfolding inherits_def f(3) e(2) .
    moreover have "justified ?k' t" if "t \<in> N" "t \<noteq> ?c" for t using ok(6)[OF that] unfolding justified_def f(3) e(2,3) .
    ultimately have "releasing N idle ?k'" using f(2) e(1) ok same_queues_facts[OF f(1)] by (simp add: releasing_def)
    moreover have "\<not> chMtxQueueNotEmptyS m k1" using Nil by (simp add: chMtxQueueNotEmptyS_def k1_def)
    ultimately show ?thesis using f(4) by (simp add: k1_def)
  next
    case (Cons tp ts)
    obtain k' where k': "mtx_hand_over m k1 = Some k'" "queues_ok N k'" "owners_ok N k'" "k_current k' = ?c"
        "\<And>t. prio k' t = (if t = ?c then prio k ?c else prio k t)" "\<And>t. th_realprio (k_threads k' t) = th_realprio (k_threads k t)"
        "\<And>u t. waits_for k' u t \<longleftrightarrow> t = tp \<and> u \<in> set ts \<or>
          (\<exists>m'. m' \<noteq> m \<and> mx_owner (k_mutexes k m') = Some t \<and> u \<in> set (mx_queue (k_mutexes k m')))"
        "\<And>t. runnable k t \<Longrightarrow> runnable k' t" "th_mtxlist (k_threads k' ?c) = mx_next (k_mutexes k m)"
      unfolding g using hand_over_ok[OF ok(1,2) top Cons, of "prio k ?c" ?x] by auto
    have low: "\<forall>m' u. m' \<noteq> m \<and> mx_owner (k_mutexes k m') = Some ?c \<and> u \<in> set (mx_queue (k_mutexes k m')) \<longrightarrow> prio k u \<le> prio k ?c"
      using ok(3) by (auto simp: inherits_def waits_for_def)
    note keep = hand_over_keeps[OF ok(1,3) us Cons low k'(5,6,7)]
    have "releasing N idle k'" using k'(2-4,8) keep ok(4-6) by (simp add: releasing_def)
    moreover have "mx_next (k_mutexes k' m') = mx_next (k_mutexes k m')" if "m' \<noteq> m" for m'
      using k'(1) that Cons by (auto simp: mtx_hand_over_def k1_def Let_def chSchReadyI_def)
    moreover have "chMtxQueueNotEmptyS m k1" using Cons by (simp add: chMtxQueueNotEmptyS_def k1_def)
    ultimately show ?thesis using k'(1,4,9) by simp
  qed
qed

lemma unlock_all_ok:
  assumes "releasing N idle k" and "owned_list k (th_mtxlist (k_threads k (k_current k))) ms" and "distinct ms"
  shows "\<exists>k'. unlock_all k = Some k' \<and> releasing N idle k' \<and> k_current k' = k_current k \<and> th_mtxlist (k_threads k' (k_current k)) = None"
  using assms
proof (induction ms arbitrary: k)
  case Nil
  then show ?case by (subst unlock_all.simps) simp
next
  case (Cons m ms)
  let ?c = "k_current k"
  let ?k1 = "upd_thread ?c (\<lambda>th. th\<lparr>th_mtxlist := mx_next (k_mutexes k m)\<rparr>) k"
  have top: "th_mtxlist (k_threads k ?c) = Some m" using Cons.prems(2) by simp
  obtain k2 where k2: "(if chMtxQueueNotEmptyS m ?k1 then mtx_hand_over m ?k1
      else Some (upd_mutex m (\<lambda>mx. mx\<lparr>mx_cnt := 0, mx_owner := None\<rparr>) ?k1)) = Some k2" "releasing N idle k2"
      "k_current k2 = ?c" "th_mtxlist (k_threads k2 ?c) = mx_next (k_mutexes k m)"
      "\<forall>m'. m' \<noteq> m \<longrightarrow> mx_next (k_mutexes k2 m') = mx_next (k_mutexes k m')"
    using release_one[OF Cons.prems(1) top] by blast
  have "owned_list k2 (mx_next (k_mutexes k m)) ms"
  proof -
    have "owned_list k2 p ms \<longleftrightarrow> owned_list k p ms" for p by (rule owned_list_cong) (use Cons.prems(3) k2(5) in auto)
    then show ?thesis using Cons.prems(2) by simp
  qed
  then have "\<exists>k'. unlock_all k2 = Some k' \<and> releasing N idle k' \<and> k_current k' = ?c \<and> th_mtxlist (k_threads k' ?c) = None"
    using Cons.IH[of k2] k2 Cons.prems(3) by simp
  moreover have "unlock_all k = unlock_all k2"
    by (subst unlock_all.simps) (simp only: top Let_def option.case k2(1) bind.bind_lunit)
  ultimately show ?case by simp
qed

lemma owns_nothing:
  assumes "owners_ok N k" and "t \<in> N" and "th_mtxlist (k_threads k t) = None"
  shows "mx_owner (k_mutexes k m) \<noteq> Some t"
proof -
  obtain ms where "owned_list k None ms" "set ms = {m. mx_owner (k_mutexes k m) = Some t}"
    using owners_okD(3)[OF assms(1,2)] assms(3) by auto
  then show ?thesis by (cases ms) auto
qed

text \<open>A thread for which nobody waits falls back to its own priority.\<close>

lemma own_priority_ok:
  assumes q: "queues_ok N k" and inh: "inherits k" and oth: "\<And>t. t \<in> N \<Longrightarrow> t \<noteq> k_current k \<Longrightarrow> justified k t"
    and nc: "\<And>u. \<not> waits_for k u (k_current k)"
  defines "k2 \<equiv> upd_thread (k_current k) (\<lambda>th. th\<lparr>th_prio := th_realprio th\<rparr>) k"
  shows "queues_ok N k2" and "inherits k2" and "t \<in> N \<Longrightarrow> justified k2 t"
proof -
  let ?c = "k_current k"
  have wf: "waits_for k2 u t \<longleftrightarrow> waits_for k u t" for u t by (simp add: k2_def waits_for_def)
  note nw = current_not_waiting[OF q]
  have pr: "prio k2 t = (if t = ?c then th_realprio (k_threads k ?c) else prio k t)"
      "th_realprio (k_threads k2 t) = th_realprio (k_threads k t)" "state_of k2 t = state_of k t" for t by (simp_all add: k2_def)
  have "u \<noteq> ?c" "t \<noteq> ?c" if "waits_for k u t" for u t using that nc nw by auto
  then have "prio k2 u \<le> prio k2 t" if w: "waits_for k u t" for u t
    using w inh unfolding pr inherits_def by simp
  then show "inherits k2" unfolding inherits_def wf by blast
  show "justified k2 t" if t: "t \<in> N"
  proof (cases "t = ?c")
    case True
    then show ?thesis unfolding justified_def pr by simp
  next
    case False
    have "\<exists>u. waits_for k u t \<and> prio k2 u = prio k t" if ex: "\<exists>u. waits_for k u t \<and> prio k u = prio k t"
    proof -
      obtain u where u: "waits_for k u t" "prio k u = prio k t" using ex by blast
      then have "u \<noteq> ?c" using nw by auto
      then show ?thesis using u unfolding pr by auto
    qed
    moreover have "prio k2 t = prio k t" using False by (simp add: pr)
    ultimately show ?thesis using oth[OF t False] unfolding justified_def wf pr(2) by (elim conjE disjE) simp_all
  qed
  have np: "by_prio (prio k2) (mx_queue (k_mutexes k m))" "by_prio (prio k2) (k_ready k)" for m
    by (rule new_prio_queues[OF q]; simp add: pr)+
  have "k_mutexes k2 = k_mutexes k" "k_ready k2 = k_ready k" "k_current k2 = ?c" by (simp_all add: k2_def)
  then show "queues_ok N k2" using q np unfolding queues_ok_def pr(3) by simp
qed

lemma mtx_unlock_all_inv:
  assumes i: "mtx_inv N idle k"
  shows "\<exists>k'. chMtxUnlockAllS k = Some k' \<and> mtx_inv N idle k' \<and> (\<forall>m. mx_owner (k_mutexes k' m) \<noteq> Some (k_current k))"
proof (cases "th_mtxlist (k_threads k (k_current k)) = None")
  case True
  have "owners_ok N k" "k_current k \<in> N" using i queues_ok_current[of N k] by (auto simp: mtx_inv_def)
  then show ?thesis using i True owns_nothing by (simp add: chMtxUnlockAllS_def)
next
  case False
  let ?c = "k_current k"
  have rel: "releasing N idle k" and ok: "owners_ok N k" "finite N" using i by (auto simp: mtx_inv_def releasing_def)
  have c: "?c \<in> N" using i queues_ok_current[of N k] by (simp add: mtx_inv_def)
  then obtain ms where "owned_list k (th_mtxlist (k_threads k ?c)) ms" "distinct ms" using owners_okD(3)[OF ok(1)] by blast
  then obtain k1 where k1: "unlock_all k = Some k1" "releasing N idle k1" "k_current k1 = ?c" "th_mtxlist (k_threads k1 ?c) = None"
    using unlock_all_ok[OF rel] by blast
  have r1: "idle \<in> N" "runnable k1 idle" "queues_ok N k1" "owners_ok N k1" "inherits k1" "\<And>t. t \<in> N \<Longrightarrow> t \<noteq> k_current k1 \<Longrightarrow> justified k1 t"
    using k1(2) by (auto simp: releasing_def)
  note none = owns_nothing[OF r1(4) c k1(4)]
  then have nc: "\<not> waits_for k1 u (k_current k1)" for u using k1(3) by (auto simp: waits_for_def)
  let ?k2 = "upd_thread ?c (\<lambda>th. th\<lparr>th_prio := th_realprio th\<rparr>) k1"
  note own = own_priority_ok[OF r1(3,5,6) nc, unfolded k1(3)]
  have ow2: "owners_ok N ?k2" using r1(4) core_owned[of ?k2 k1] by (simp add: owners_ok_def)
  obtain k3 where k3: "chSchRescheduleS ?k2 = Some k3" "queues_ok N k3" "top_prio k3" "same_core ?k2 k3" "\<forall>t. runnable k3 t \<longleftrightarrow> runnable ?k2 t"
    using chSchRescheduleS_ok[OF own(1)] by blast
  have "state_of ?k2 t = state_of k1 t" for t by simp
  then have "runnable ?k2 idle" using r1(2) unfolding runnable_def by metis
  then have "mtx_inv N idle k3" using k3 own(2,3) ow2 ok(2) r1(1) same_core_facts[OF k3(4)] by (simp add: mtx_inv_def)
  moreover have "mx_owner (k_mutexes k3 m) \<noteq> Some ?c" for m using k3(4) none by (simp add: same_core_def)
  moreover have "chMtxUnlockAllS k = Some k3" using False k1(1) k3(1) by (simp add: chMtxUnlockAllS_def Let_def)
  ultimately show ?thesis by blast
qed

subsection \<open>All interleavings\<close>

text \<open>The steps of the threads \<open>N\<close>: the idle thread neither locks nor sleeps, a thread may sleep in any
  of the waiting states and be woken from it, and a mutex is given up only by its owner and, on the last unlock, in the reverse order of the locking.\<close>

inductive kstep :: "nat set \<Rightarrow> nat \<Rightarrow> kernel \<Rightarrow> kernel \<Rightarrow> bool" for N idle where
  lock: "k_current k \<noteq> idle \<Longrightarrow> chMtxLockS m k = Some k' \<Longrightarrow> kstep N idle k k'"
| try_lock: "kstep N idle k (snd (chMtxTryLockS m k))"
| unlock: "mx_owner (k_mutexes k m) = Some (k_current k) \<Longrightarrow>
    mx_cnt (k_mutexes k m) \<noteq> 1 \<or> th_mtxlist (k_threads k (k_current k)) = Some m \<Longrightarrow>
    chMtxUnlock m k = Some k' \<Longrightarrow> kstep N idle k k'"
| unlock_all: "chMtxUnlockAllS k = Some k' \<Longrightarrow> kstep N idle k k'"
| sleep: "k_current k \<noteq> idle \<Longrightarrow> asleep s \<Longrightarrow> chSchGoSleepS s k = Some k' \<Longrightarrow> kstep N idle k k'"
| wakeup: "t \<in> N \<Longrightarrow> asleep (state_of k t) \<Longrightarrow> kstep N idle k (chSchWakeupS t msg k)"
| interrupt: "t \<in> N \<Longrightarrow> asleep (state_of k t) \<Longrightarrow> chSchPreemption (chSchReadyI t k) = Some k' \<Longrightarrow> kstep N idle k k'"
| yielding: "k_ready k \<noteq> [] \<Longrightarrow> chSchDoYieldS k = Some k' \<Longrightarrow> kstep N idle k k'"

lemma kstep_inv:
  assumes "kstep N idle k k'" and "mtx_inv N idle k"
  shows "mtx_inv N idle k'"
  using assms
proof (induction rule: kstep.induct)
  case (lock k m k')
  then show ?case using mtx_lock_inv[of N idle k m] by (metis option.inject)
next
  case (try_lock k m)
  then show ?case by (rule mtx_trylock_inv)
next
  case (unlock k m k')
  then show ?case using mtx_unlock_inv[of N idle k m] by auto
next
  case (unlock_all k k')
  then show ?case using mtx_unlock_all_inv[of N idle k] by auto
next
  case (sleep k s k')
  then show ?case using sleep_inv[of N idle k s] by auto
next
  case (wakeup t k msg)
  then show ?case using wakeup_inv by blast
next
  case (interrupt t k k')
  then show ?case using interrupt_inv[of N idle k t] by auto
next
  case (yielding k k')
  then show ?case using yield_inv[of N idle k] by auto
qed

text \<open>The kernel before any mutex is taken.\<close>

definition mtx_start :: "nat set \<Rightarrow> nat \<Rightarrow> kernel \<Rightarrow> bool" where
  "mtx_start N idle k \<longleftrightarrow> finite N \<and> idle \<in> N \<and> runnable k idle \<and> queues_ok N k \<and> top_prio k \<and>
     (\<forall>m. mx_owner (k_mutexes k m) = None \<and> mx_cnt (k_mutexes k m) = 0 \<and> mx_queue (k_mutexes k m) = []) \<and>
     (\<forall>t\<in>N. th_mtxlist (k_threads k t) = None \<and> prio k t = th_realprio (k_threads k t))"

lemma mtx_start_inv: "mtx_start N idle k \<Longrightarrow> mtx_inv N idle k"
  by (auto simp: mtx_start_def mtx_inv_def owners_ok_def inherits_def justified_def waits_for_def)

lemma reachable_inv: "(kstep N idle)\<^sup>*\<^sup>* k k' \<Longrightarrow> mtx_inv N idle k \<Longrightarrow> mtx_inv N idle k'"
  by (induction rule: rtranclp_induct) (auto intro: kstep_inv)

lemma inv_priority:
  assumes i: "mtx_inv N idle k" and t: "t \<in> N"
  shows "prio k t = Max (insert (th_realprio (k_threads k t)) (prio k ` {u. waits_for k u t}))"
proof (rule Max_eqI [symmetric])
  have q: "queues_ok N k" and fin: "finite N" and inh: "inherits k" and j: "justified k t"
    using i t by (auto simp: mtx_inv_def)
  have "{u. waits_for k u t} \<subseteq> N" using q by (auto simp: waits_for_def queues_ok_def)
  then show "finite (insert (th_realprio (k_threads k t)) (prio k ` {u. waits_for k u t}))"
    using fin finite_subset by auto
  show "p \<le> prio k t" if "p \<in> insert (th_realprio (k_threads k t)) (prio k ` {u. waits_for k u t})" for p
    using that inh j by (auto simp: inherits_def justified_def)
  show "prio k t \<in> insert (th_realprio (k_threads k t)) (prio k ` {u. waits_for k u t})"
    using j unfolding justified_def by (metis imageI insertI1 insertI2 mem_Collect_eq)
qed

lemma inv_owner_runs:
  assumes i: "mtx_inv N idle k" and o': "mx_owner (k_mutexes k m) = Some t" and r: "runnable k t"
    and u: "u \<in> set (mx_queue (k_mutexes k m))"
  shows "prio k u \<le> prio k (k_current k)"
proof -
  have "prio k u \<le> prio k t" using i o' u by (auto simp: mtx_inv_def inherits_def waits_for_def)
  also have "t \<in> N" using i o' owners_okD(2) by (auto simp: mtx_inv_def)
  then have "prio k t \<le> prio k (k_current k)"
    using i r queues_ok_cur_iff[of N k t] by (auto simp: mtx_inv_def queues_ok_def top_prio_def runnable_def)
  finally show ?thesis .
qed

text \<open>Three threads: the idle thread runs at priority 1, thread 1 at 64, and thread 2, at 128, sleeps.\<close>

definition three_threads :: kernel where
  "three_threads = \<lparr>k_current = 1, k_ready = [0],
     k_threads = (\<lambda>t. if t = 0 then \<lparr>th_prio = 1, th_realprio = 1, th_state = CH_STATE_READY, th_mtxlist = None, th_rdymsg = 0\<rparr>
       else if t = 1 then \<lparr>th_prio = 64, th_realprio = 64, th_state = CH_STATE_CURRENT, th_mtxlist = None, th_rdymsg = 0\<rparr>
       else \<lparr>th_prio = 128, th_realprio = 128, th_state = CH_STATE_SLEEPING, th_mtxlist = None, th_rdymsg = 0\<rparr>),
     k_mutexes = (\<lambda>m. \<lparr>mx_queue = [], mx_owner = None, mx_next = None, mx_cnt = 0\<rparr>), k_conds = (\<lambda>c. [])\<rparr>"

lemma three_threads_start: "mtx_start {0, 1, 2} 0 three_threads"
  by (auto simp: mtx_start_def three_threads_def runnable_def queues_ok_def top_prio_def)

text \<open>Thread 1 takes mutex 7, thread 2 wakes and waits for it.\<close>

lemma three_threads_run:
  "\<exists>k. (kstep {0, 1, 2} 0)\<^sup>*\<^sup>* three_threads k \<and> waits_for k 2 1 \<and> mx_queue (k_mutexes k 7) = [2] \<and> mx_cnt (k_mutexes k 7) = 1 \<and>
     mx_owner (k_mutexes k 7) = Some 1 \<and> th_mtxlist (k_threads k 1) = Some 7 \<and> k_current k = 1 \<and> prio k 1 = 128"
proof -
  let ?k1 = "mtx_take 7 three_threads"
  let ?k2 = "chSchWakeupS 2 0 ?k1"
  note defs = chMtxLockS_def three_threads_def mtx_take_def Let_def chSchWakeupS_def chSchGoSleepS_def sch_run_first_def
    chSchReadyI_def sch_ready_behind_def sch_ready_ahead_def ch_sch_prio_insert_def ch_queue_dequeue_def upd_thread_def upd_mutex_def
  have 1: "kstep {0, 1, 2} 0 three_threads ?k1"
    by (rule kstep.lock[of _ _ 7]) (simp_all add: defs)
  have 2: "kstep {0, 1, 2} 0 ?k1 ?k2"
    by (rule kstep.wakeup) (simp_all add: defs)
  have le: "\<not> (128 :: u32) \<le> 1" by (simp add: word_le_nat_alt)
  obtain k3 where k3: "chMtxLockS 7 ?k2 = Some k3" "waits_for k3 2 1" "mx_queue (k_mutexes k3 7) = [2]"
      "mx_cnt (k_mutexes k3 7) = 1" "mx_owner (k_mutexes k3 7) = Some 1" "th_mtxlist (k_threads k3 1) = Some 7"
      "k_current k3 = 1" "prio k3 1 = 128"
    using le by (simp add: defs boost.simps[of _ "Suc 0"] waits_for_def)
  have 3: "kstep {0, 1, 2} 0 ?k2 k3"
    by (rule kstep.lock[OF _ k3(1)]) (simp add: defs)
  show ?thesis using 1 2 3 k3(2-8) by (meson converse_rtranclp_into_rtranclp r_into_rtranclp)
qed

subsection \<open>Correctness\<close>

text \<open>C39: Priority inheritance. Whatever the threads have done since the start with locking, trying,
  unlocking, waiting on something other than a mutex, waking one another, being interrupted and yielding, the priority of every
  thread is its own priority or that of the most urgent thread that waits for one of its mutexes,
  whichever is higher, and so along every chain of owners; no ready thread is more urgent than the
  running one; and while the owner of a mutex can run, no thread that waits for the mutex is more
  urgent than the running thread: there is no unbounded priority inversion.\<close>

theorem priority_inheritance:
  assumes "mtx_start N idle k0" and "(kstep N idle)\<^sup>*\<^sup>* k0 k" and "t \<in> N"
  shows "prio k t = Max (insert (th_realprio (k_threads k t)) (prio k ` {u. waits_for k u t})) \<and>
     (\<forall>u \<in> set (k_ready k). prio k u \<le> prio k (k_current k)) \<and>
     (\<forall>m. mx_owner (k_mutexes k m) = Some t \<and> runnable k t \<longrightarrow>
        (\<forall>u \<in> set (mx_queue (k_mutexes k m)). prio k u \<le> prio k (k_current k)))"
proof -
  have i: "mtx_inv N idle k" using reachable_inv assms(1,2) mtx_start_inv by blast
  then have "\<forall>u \<in> set (k_ready k). prio k u \<le> prio k (k_current k)" by (simp add: mtx_inv_def top_prio_def)
  then show ?thesis using inv_priority[OF i assms(3)] inv_owner_runs[OF i] by blast
qed

theorem priority_inheritance_witness:
  "\<exists>k. (kstep {0, 1, 2} 0)\<^sup>*\<^sup>* three_threads k \<and> waits_for k 2 1 \<and>
     prio k 1 = Max (insert (th_realprio (k_threads k 1)) (prio k ` {u. waits_for k u 1})) \<and> prio k 1 = 128"
proof -
  obtain k where k: "(kstep {0, 1, 2} 0)\<^sup>*\<^sup>* three_threads k" "waits_for k 2 1" "prio k 1 = 128"
    using three_threads_run by blast
  show ?thesis using k priority_inheritance[OF three_threads_start k(1), of 1] by auto
qed

text \<open>C40: Every operation on a mutex returns. In every reachable state, locking by a thread other
  than the idle one (the loop that raises the owners ends even when they wait for one another in a
  cycle) leaves the caller owning the mutex and running when nobody else owned it, and waiting for it
  otherwise; unlocking by the owner, in the reverse order of the locking, hands the mutex to the
  first of the waiting threads, which none of the others exceeds in priority, frees it when none
  waits, and keeps it when it was locked more than once; unlocking all ends and leaves the caller
  no mutex.\<close>

theorem mutex_operations_return:
  fixes k :: kernel and m :: nat
  assumes "mtx_start N idle k0" and "(kstep N idle)\<^sup>*\<^sup>* k0 k"
  defines "c \<equiv> k_current k" and "mx \<equiv> k_mutexes k m"
  shows "(c \<noteq> idle \<longrightarrow> (\<exists>k'. lockMutex m k = Some k' \<and>
       (if mx_owner mx \<in> {None, Some c} then mx_owner (k_mutexes k' m) = Some c \<and> k_current k' = c
        else state_of k' c = CH_STATE_WTMTX m))) \<and>
     (mx_owner mx = Some c \<and> th_mtxlist (k_threads k c) = Some m \<longrightarrow> (\<exists>k'. unlockMutex m k = Some k' \<and>
       mx_owner (k_mutexes k' m) = (if mx_cnt mx = 1 then case mx_queue mx of [] \<Rightarrow> None | t # _ \<Rightarrow> Some t else Some c) \<and>
       (\<forall>u \<in> set (mx_queue mx). prio k u \<le> prio k (hd (mx_queue mx))))) \<and>
     (\<exists>k'. chMtxUnlockAll k = Some k' \<and> (\<forall>m'. mx_owner (k_mutexes k' m') \<noteq> Some c))"
proof (intro conjI impI)
  have i: "mtx_inv N idle k" using reachable_inv assms(1,2) mtx_start_inv by blast
  show "\<exists>k'. lockMutex m k = Some k' \<and>
       (if mx_owner mx \<in> {None, Some c} then mx_owner (k_mutexes k' m) = Some c \<and> k_current k' = c
        else state_of k' c = CH_STATE_WTMTX m)" if "c \<noteq> idle"
    using mtx_lock_inv[OF i, of m] that by (auto simp: c_def mx_def lockMutex_def chMtxLock_def unlockMutex_def)
  show "\<exists>k'. chMtxUnlockAll k = Some k' \<and> (\<forall>m'. mx_owner (k_mutexes k' m') \<noteq> Some c)"
    using mtx_unlock_all_inv[OF i] by (auto simp: c_def chMtxUnlockAll_def)
  assume o': "mx_owner mx = Some c \<and> th_mtxlist (k_threads k c) = Some m"
  have "by_prio (prio k) (mx_queue mx)" using i by (simp add: mtx_inv_def queues_ok_def mx_def)
  then have "\<forall>u \<in> set (mx_queue mx). prio k u \<le> prio k (hd (mx_queue mx))" by (cases "mx_queue mx") auto
  moreover have "\<exists>k'. unlockMutex m k = Some k' \<and>
       mx_owner (k_mutexes k' m) = (if mx_cnt mx = 1 then case mx_queue mx of [] \<Rightarrow> None | t # _ \<Rightarrow> Some t else Some c)"
  proof (cases "mx_cnt mx = 1")
    case True
    then show ?thesis using mtx_unlock_inv[OF i, of m] o' by (auto simp: c_def mx_def lockMutex_def chMtxLock_def unlockMutex_def)
  next
    case False
    then show ?thesis using o' by (simp add: unlockMutex_def chMtxUnlock_def c_def mx_def Let_def)
  qed
  ultimately show "\<exists>k'. unlockMutex m k = Some k' \<and>
       mx_owner (k_mutexes k' m) = (if mx_cnt mx = 1 then case mx_queue mx of [] \<Rightarrow> None | t # _ \<Rightarrow> Some t else Some c) \<and>
       (\<forall>u \<in> set (mx_queue mx). prio k u \<le> prio k (hd (mx_queue mx)))"
    by blast
qed

theorem mutex_operations_return_witness:
  "\<exists>k k'. (kstep {0, 1, 2} 0)\<^sup>*\<^sup>* three_threads k \<and> k_current k = 1 \<and> mx_owner (k_mutexes k 7) = Some 1 \<and>
     unlockMutex 7 k = Some k' \<and> mx_owner (k_mutexes k' 7) = Some 2"
proof -
  obtain k where k: "(kstep {0, 1, 2} 0)\<^sup>*\<^sup>* three_threads k" "mx_queue (k_mutexes k 7) = [2]" "mx_cnt (k_mutexes k 7) = 1"
      "mx_owner (k_mutexes k 7) = Some 1" "th_mtxlist (k_threads k 1) = Some 7" "k_current k = 1"
    using three_threads_run by blast
  show ?thesis using k mutex_operations_return[OF three_threads_start k(1), of 7] by auto
qed

end
