(* ===== verification/Imu.thy ===== *)
theory Imu
  imports Motor Chibi_Time
begin

text \<open>
  The inertial sensor: the part of its register driver that the firmware uses
  (\<open>ext/LSM6DS3TR-C-PID/lsm6ds3tr-c_reg.c\<close>) and the service on top of it
  (\<open>services/imu_service\<close>). The SPI peripheral is a parameter: one selected transfer sends
  bytes, then receives some, and changes the state of the bus with the sensor on it. The bit
  fields of a register are modelled by their offset and width in the byte, in the order of the
  little-endian layout. The context handed to the driver is that of the service, never null.
\<close>

subsection \<open>The register driver\<close>

type_synonym 'b spi = "bytes \<Rightarrow> nat \<Rightarrow> 'b \<Rightarrow> (nat \<Rightarrow> u8) \<times> 'b"

record 'b stmdev_ctx =
  ctx_write_reg :: "u8 \<Rightarrow> bytes \<Rightarrow> 'b \<Rightarrow> int \<times> 'b"
  ctx_read_reg :: "u8 \<Rightarrow> nat \<Rightarrow> 'b \<Rightarrow> int \<times> (nat \<Rightarrow> u8) \<times> 'b"

definition field_get :: "nat \<Rightarrow> nat \<Rightarrow> u8 \<Rightarrow> u8" where
  "field_get offset width x = take_bit width (drop_bit offset x)"

definition field_set :: "nat \<Rightarrow> nat \<Rightarrow> u8 \<Rightarrow> u8 \<Rightarrow> u8" where
  "field_set offset width v x = (x AND NOT (push_bit offset (mask width))) OR push_bit offset (take_bit width v)"

definition LSM6DS3TR_C_WHO_AM_I :: u8 where "LSM6DS3TR_C_WHO_AM_I = 0x0F"
definition LSM6DS3TR_C_CTRL1_XL :: u8 where "LSM6DS3TR_C_CTRL1_XL = 0x10"
definition LSM6DS3TR_C_CTRL2_G :: u8 where "LSM6DS3TR_C_CTRL2_G = 0x11"
definition LSM6DS3TR_C_CTRL3_C :: u8 where "LSM6DS3TR_C_CTRL3_C = 0x12"
definition LSM6DS3TR_C_CTRL8_XL :: u8 where "LSM6DS3TR_C_CTRL8_XL = 0x17"
definition LSM6DS3TR_C_STATUS_REG :: u8 where "LSM6DS3TR_C_STATUS_REG = 0x1E"
definition LSM6DS3TR_C_OUTX_L_G :: u8 where "LSM6DS3TR_C_OUTX_L_G = 0x22"
definition LSM6DS3TR_C_OUTX_L_XL :: u8 where "LSM6DS3TR_C_OUTX_L_XL = 0x28"

definition lsm6ds3tr_c_read_reg :: "'b stmdev_ctx \<Rightarrow> u8 \<Rightarrow> nat \<Rightarrow> 'b \<Rightarrow> int \<times> (nat \<Rightarrow> u8) \<times> 'b" where
  "lsm6ds3tr_c_read_reg ctx reg len b = ctx_read_reg ctx reg len b"

definition lsm6ds3tr_c_write_reg :: "'b stmdev_ctx \<Rightarrow> u8 \<Rightarrow> bytes \<Rightarrow> 'b \<Rightarrow> int \<times> 'b" where
  "lsm6ds3tr_c_write_reg ctx reg data b = ctx_write_reg ctx reg data b"

text \<open>The body every setter has: read the register, change fields, write it back.\<close>

definition update_reg :: "'b stmdev_ctx \<Rightarrow> u8 \<Rightarrow> (u8 \<Rightarrow> u8) \<Rightarrow> 'b \<Rightarrow> int \<times> 'b" where
  "update_reg ctx reg change b =
     (let (ret, data, b') = lsm6ds3tr_c_read_reg ctx reg 1 b
      in if ret = 0 then lsm6ds3tr_c_write_reg ctx reg [change (data 0)] b' else (ret, b'))"

definition lsm6ds3tr_c_xl_full_scale_set :: "'b stmdev_ctx \<Rightarrow> u8 \<Rightarrow> 'b \<Rightarrow> int \<times> 'b" where
  "lsm6ds3tr_c_xl_full_scale_set ctx val = update_reg ctx LSM6DS3TR_C_CTRL1_XL (field_set 2 2 val)"

definition lsm6ds3tr_c_xl_data_rate_set :: "'b stmdev_ctx \<Rightarrow> u8 \<Rightarrow> 'b \<Rightarrow> int \<times> 'b" where
  "lsm6ds3tr_c_xl_data_rate_set ctx val = update_reg ctx LSM6DS3TR_C_CTRL1_XL (field_set 4 4 val)"

definition lsm6ds3tr_c_xl_filter_analog_set :: "'b stmdev_ctx \<Rightarrow> u8 \<Rightarrow> 'b \<Rightarrow> int \<times> 'b" where
  "lsm6ds3tr_c_xl_filter_analog_set ctx val = update_reg ctx LSM6DS3TR_C_CTRL1_XL (field_set 0 1 val)"

definition lsm6ds3tr_c_gy_full_scale_set :: "'b stmdev_ctx \<Rightarrow> u8 \<Rightarrow> 'b \<Rightarrow> int \<times> 'b" where
  "lsm6ds3tr_c_gy_full_scale_set ctx val = update_reg ctx LSM6DS3TR_C_CTRL2_G (field_set 1 3 val)"

definition lsm6ds3tr_c_gy_data_rate_set :: "'b stmdev_ctx \<Rightarrow> u8 \<Rightarrow> 'b \<Rightarrow> int \<times> 'b" where
  "lsm6ds3tr_c_gy_data_rate_set ctx val = update_reg ctx LSM6DS3TR_C_CTRL2_G (field_set 4 4 val)"

definition lsm6ds3tr_c_block_data_update_set :: "'b stmdev_ctx \<Rightarrow> u8 \<Rightarrow> 'b \<Rightarrow> int \<times> 'b" where
  "lsm6ds3tr_c_block_data_update_set ctx val = update_reg ctx LSM6DS3TR_C_CTRL3_C (field_set 6 1 val)"

definition lsm6ds3tr_c_reset_set :: "'b stmdev_ctx \<Rightarrow> u8 \<Rightarrow> 'b \<Rightarrow> int \<times> 'b" where
  "lsm6ds3tr_c_reset_set ctx val = update_reg ctx LSM6DS3TR_C_CTRL3_C (field_set 0 1 val)"

definition lsm6ds3tr_c_xl_lp2_bandwidth_set :: "'b stmdev_ctx \<Rightarrow> u8 \<Rightarrow> 'b \<Rightarrow> int \<times> 'b" where
  "lsm6ds3tr_c_xl_lp2_bandwidth_set ctx val = update_reg ctx LSM6DS3TR_C_CTRL8_XL
     (field_set 2 1 0 \<circ> field_set 7 1 1 \<circ> field_set 5 2 (val AND 0x03) \<circ> field_set 3 1 (drop_bit 4 (val AND 0x10)))"

definition lsm6ds3tr_c_device_id_get :: "'b stmdev_ctx \<Rightarrow> 'b \<Rightarrow> int \<times> u8 \<times> 'b" where
  "lsm6ds3tr_c_device_id_get ctx b = (let (ret, data, b') = lsm6ds3tr_c_read_reg ctx LSM6DS3TR_C_WHO_AM_I 1 b in (ret, data 0, b'))"

definition lsm6ds3tr_c_reset_get :: "'b stmdev_ctx \<Rightarrow> 'b \<Rightarrow> int \<times> u8 \<times> 'b" where
  "lsm6ds3tr_c_reset_get ctx b =
     (let (ret, data, b') = lsm6ds3tr_c_read_reg ctx LSM6DS3TR_C_CTRL3_C 1 b in (ret, field_get 0 1 (data 0), b'))"

definition lsm6ds3tr_c_status_reg_get :: "'b stmdev_ctx \<Rightarrow> 'b \<Rightarrow> int \<times> u8 \<times> 'b" where
  "lsm6ds3tr_c_status_reg_get ctx b = (let (ret, data, b') = lsm6ds3tr_c_read_reg ctx LSM6DS3TR_C_STATUS_REG 1 b in (ret, data 0, b'))"

text \<open>
  The three values of a measurement: each is computed in 32 bits from two bytes and stored in
  16 bits, twice.
\<close>

definition raw_value :: "u8 \<Rightarrow> u8 \<Rightarrow> 16 word" where
  "raw_value low high = (let v = (ucast high :: 16 word) in word_of_int (sint v * 256 + uint low))"

definition raw_values :: "(nat \<Rightarrow> u8) \<Rightarrow> 16 word list" where
  "raw_values buff = [raw_value (buff 0) (buff 1), raw_value (buff 2) (buff 3), raw_value (buff 4) (buff 5)]"

definition lsm6ds3tr_c_angular_rate_raw_get :: "'b stmdev_ctx \<Rightarrow> 'b \<Rightarrow> int \<times> 16 word list \<times> 'b" where
  "lsm6ds3tr_c_angular_rate_raw_get ctx b =
     (let (ret, buff, b') = lsm6ds3tr_c_read_reg ctx LSM6DS3TR_C_OUTX_L_G 6 b in (ret, raw_values buff, b'))"

definition lsm6ds3tr_c_acceleration_raw_get :: "'b stmdev_ctx \<Rightarrow> 'b \<Rightarrow> int \<times> 16 word list \<times> 'b" where
  "lsm6ds3tr_c_acceleration_raw_get ctx b =
     (let (ret, buff, b') = lsm6ds3tr_c_read_reg ctx LSM6DS3TR_C_OUTX_L_XL 6 b in (ret, raw_values buff, b'))"

definition lsm6ds3tr_c_from_fs2g_to_mg :: "16 word \<Rightarrow> flt" where
  "lsm6ds3tr_c_from_fs2g_to_mg lsb = fmul binary32 (flt_of_int binary32 (sint lsb)) (flt_lit binary32 (61 / 1000))"

definition lsm6ds3tr_c_from_fs2000dps_to_mdps :: "16 word \<Rightarrow> flt" where
  "lsm6ds3tr_c_from_fs2000dps_to_mdps lsb = fmul binary32 (flt_of_int binary32 (sint lsb)) (flt_lit binary32 70)"

subsection \<open>The service\<close>

definition write_reg_lambda :: "'b spi \<Rightarrow> u8 \<Rightarrow> bytes \<Rightarrow> 'b \<Rightarrow> int \<times> 'b" where
  "write_reg_lambda spi reg bufp b = (0, snd (spi (reg # bufp) 0 b))"

definition read_reg_lambda :: "'b spi \<Rightarrow> u8 \<Rightarrow> nat \<Rightarrow> 'b \<Rightarrow> int \<times> (nat \<Rightarrow> u8) \<times> 'b" where
  "read_reg_lambda spi reg len b = (let (bufp, b') = spi [reg OR 0x80] len b in (0, bufp, b'))"

definition dev_ctx :: "'b spi \<Rightarrow> 'b stmdev_ctx" where
  "dev_ctx spi = \<lparr>ctx_write_reg = write_reg_lambda spi, ctx_read_reg = read_reg_lambda spi\<rparr>"

record imu_service =
  imu_found :: bool
  error_message :: string
  axes :: "flt list"
  last_log :: u32

definition imu_init :: imu_service where
  "imu_init = \<lparr>imu_found = False, error_message = '''', axes = replicate 9 fzero, last_log = 0\<rparr>"

datatype imu_effect =
    ImuSleep u32
  | ImuError string
  | ImuInfo string
  | SendAxes "flt list"

text \<open>
  The loop that looks for the sensor, of at most \<open>n\<close> attempts. \<open>hex\<close> is \<open>etl::to_string\<close> in base
  16; \<open>nap\<close> is what happens to the sensor while the thread sleeps.
\<close>

fun find_imu :: "(u8 \<Rightarrow> string) \<Rightarrow> ('b \<Rightarrow> 'b) \<Rightarrow> 'b stmdev_ctx \<Rightarrow> nat \<Rightarrow> imu_service \<Rightarrow> 'b \<Rightarrow> imu_service \<times> 'b \<times> imu_effect list" where
  "find_imu hex nap ctx 0 s b = (s, b, [])"
| "find_imu hex nap ctx (Suc n) s b =
     (let (_, whoamI, b') = lsm6ds3tr_c_device_id_get ctx b
      in if whoamI = 0x6a \<or> whoamI = 0x6c
         then (s\<lparr>imu_found := True, error_message := ''None''\<rparr>, b', [])
         else let (s', b'', es) = find_imu hex nap ctx n
                    (s\<lparr>imu_found := False, error_message := ''IMU Not Found. Whoami=0x'' @ hex whoamI\<rparr>) (nap b')
              in (s', b'', ImuSleep (TIME_MS2I 100) # es))"

text \<open>The loop that waits for the end of the reset; \<^term>\<open>None\<close> when it never ends.\<close>

partial_function (option) reset_wait :: "'b stmdev_ctx \<Rightarrow> 'b \<Rightarrow> 'b option" where
  "reset_wait ctx b =
     (case lsm6ds3tr_c_reset_get ctx b of (_, rst, b') \<Rightarrow> if rst \<noteq> 0 then reset_wait ctx b' else Some b')"

definition configure_imu :: "'b stmdev_ctx \<Rightarrow> 'b \<Rightarrow> 'b" where
  "configure_imu ctx b0 =
     (let b1 = snd (lsm6ds3tr_c_block_data_update_set ctx 1 b0);
          b2 = snd (lsm6ds3tr_c_xl_data_rate_set ctx 7 b1);
          b3 = snd (lsm6ds3tr_c_gy_data_rate_set ctx 7 b2);
          b4 = snd (lsm6ds3tr_c_xl_full_scale_set ctx 0 b3);
          b5 = snd (lsm6ds3tr_c_gy_full_scale_set ctx 6 b4);
          b6 = snd (lsm6ds3tr_c_xl_filter_analog_set ctx 1 b5)
      in snd (lsm6ds3tr_c_xl_lp2_bandwidth_set ctx 0x11 b6))"

definition Imu_OnCreate ::
  "(u8 \<Rightarrow> string) \<Rightarrow> ('b \<Rightarrow> 'b) \<Rightarrow> 'b spi \<Rightarrow> imu_service \<Rightarrow> 'b \<Rightarrow> (imu_service \<times> 'b \<times> imu_effect list) option" where
  "Imu_OnCreate hex nap spi s b = do {
     let ctx = dev_ctx spi;
     let (s1, b1, es) = find_imu hex nap ctx 100 (s\<lparr>error_message := ''''\<rparr>) b;
     if \<not> imu_found s1 then Some (s1, b1, es)
     else do {
       b2 \<leftarrow> reset_wait ctx (snd (lsm6ds3tr_c_reset_set ctx 1 b1));
       Some (s1, configure_imu ctx b2, es @ [ImuInfo ''IMU configured successfully'']) } }"

definition M_PI :: flt where
  "M_PI = flt_lit binary64 (314159265358979323846 / 100000000000000000000)"

definition acceleration_axis :: "rat \<Rightarrow> 16 word \<Rightarrow> flt" where
  "acceleration_axis sign lsb =
     fmul binary64 (fmul binary64 (flt_lit binary64 sign) (fcvt binary64 (lsm6ds3tr_c_from_fs2g_to_mg lsb)))
       (flt_lit binary64 (980665 / 100000000))"

definition angular_axis :: "rat \<Rightarrow> 16 word \<Rightarrow> flt" where
  "angular_axis sign lsb =
     fdiv binary64 (fmul binary64 (fmul binary64 (flt_lit binary64 sign) M_PI) (fcvt binary64 (lsm6ds3tr_c_from_fs2000dps_to_mdps lsb)))
       (flt_lit binary64 180000)"

definition Imu_tick :: "'b spi \<Rightarrow> u32 \<Rightarrow> imu_service \<Rightarrow> 'b \<Rightarrow> imu_service \<times> 'b \<times> imu_effect list" where
  "Imu_tick spi now s b =
     (if \<not> imu_found s then
        if 1000000 < now - last_log s then (s\<lparr>last_log := now\<rparr>, b, [ImuError (error_message s)]) else (s, b, [])
      else
        let ctx = dev_ctx spi;
            (_, status, b1) = lsm6ds3tr_c_status_reg_get ctx b;
            (s2, b2) =
              (if field_get 0 1 status \<noteq> 0 then
                 let (_, raw, b2) = lsm6ds3tr_c_acceleration_raw_get ctx b1
                 in (s\<lparr>axes := (axes s)[0 := acceleration_axis 1 (raw ! 0), 1 := acceleration_axis (-1) (raw ! 1),
                       2 := acceleration_axis (-1) (raw ! 2)]\<rparr>, b2)
               else (s, b1));
            (s3, b3) =
              (if field_get 1 1 status \<noteq> 0 then
                 let (_, raw, b3) = lsm6ds3tr_c_angular_rate_raw_get ctx b2
                 in (s2\<lparr>axes := (axes s2)[3 := angular_axis 1 (raw ! 0), 4 := angular_axis (-1) (raw ! 1),
                        5 := angular_axis (-1) (raw ! 2)]\<rparr>, b3)
               else (s2, b2))
        in (s3, b3, [SendAxes (axes s3)]))"

definition GetAxes :: "imu_service \<Rightarrow> flt list" where
  "GetAxes s = axes s"

lemma all_less_8: "(\<forall>n < 8. P n) \<longleftrightarrow> P 0 \<and> P 1 \<and> P 2 \<and> P 3 \<and> P 4 \<and> P 5 \<and> P 6 \<and> P (7 :: nat)"
  by (simp only: numeral_eq_Suc One_nat_def pred_numeral_simps BitM.simps All_less_Suc) (simp add: conj_ac)

lemma byte_eqI8: "\<forall>n < 8. bit x n = bit y n \<Longrightarrow> x = (y :: u8)"
  by (rule bit_word_eqI) simp

lemmas field_bits = field_set_def bit_or_iff bit_and_iff bit_not_iff bit_push_bit_iff bit_take_bit_iff bit_mask_iff bit_0

lemma ctrl1_fields: "field_set 0 1 1 (field_set 2 2 0 (field_set 4 4 7 x)) = 0x71 OR (x AND 0x02)"
  by (rule byte_eqI8) (simp add: all_less_8 field_bits)
lemma ctrl2_fields: "field_set 1 3 6 (field_set 4 4 7 x) = 0x7C OR (x AND 0x01)"
  by (rule byte_eqI8) (simp add: all_less_8 field_bits mask_eq_exp_minus_1)
lemma ctrl3_fields: "field_set 6 1 1 x = 0x40 OR x"
  by (rule byte_eqI8) (simp add: all_less_8 field_bits)
lemma ctrl8_fields: "field_set 2 1 0 (field_set 7 1 1 (field_set 5 2 (0x11 AND 0x03) (field_set 3 1 (drop_bit 4 (0x11 AND 0x10)) x))) = 0xA8 OR (x AND 0x13)"
  by (rule byte_eqI8) (simp add: all_less_8 field_bits)

lemmas ctrl_fields = ctrl1_fields [simplified] ctrl2_fields [simplified] ctrl3_fields [simplified] ctrl8_fields [simplified]

subsection \<open>Configuration of the sensor\<close>

text \<open>
  What the data sheet promises of the registers: a written control register holds what was written
  unless a reset is asked for or under way, a read gives the registers from the addressed one on, and
  reading the identity or a control register changes none of them outside a reset.
\<close>

definition control_reg :: "u8 \<Rightarrow> bool" where
  "control_reg r \<longleftrightarrow> 0x0F \<le> r \<and> r \<le> 0x19"

definition in_reset :: "(u8 \<Rightarrow> u8) \<Rightarrow> bool" where
  "in_reset m \<longleftrightarrow> bit (m LSM6DS3TR_C_CTRL3_C) 0"

definition register_device :: "'b spi \<Rightarrow> ('b \<Rightarrow> u8 \<Rightarrow> u8) \<Rightarrow> bool" where
  "register_device spi regs \<longleftrightarrow>
     (\<forall>r v b. control_reg r \<longrightarrow> \<not> in_reset (regs b) \<longrightarrow> \<not> in_reset ((regs b)(r := v)) \<longrightarrow>
        regs (snd (spi [r, v] 0 b)) = (regs b)(r := v)) \<and>
     (\<forall>r n k b. r < 0x80 \<longrightarrow> k < n \<longrightarrow> fst (spi [r OR 0x80] n b) k = regs b (r + of_nat k)) \<and>
     (\<forall>r b. control_reg r \<longrightarrow> \<not> in_reset (regs b) \<longrightarrow> regs (snd (spi [r OR 0x80] 1 b)) = regs b)"

lemmas register_defs = LSM6DS3TR_C_WHO_AM_I_def LSM6DS3TR_C_CTRL1_XL_def LSM6DS3TR_C_CTRL2_G_def
  LSM6DS3TR_C_CTRL3_C_def LSM6DS3TR_C_CTRL8_XL_def LSM6DS3TR_C_STATUS_REG_def LSM6DS3TR_C_OUTX_L_G_def LSM6DS3TR_C_OUTX_L_XL_def

lemma control_reg_low: "control_reg r \<Longrightarrow> r < 0x80"
proof -
  have "(0x19 :: u8) < 0x80" by simp
  then show "control_reg r \<Longrightarrow> r < 0x80" unfolding control_reg_def by (meson order.strict_trans1)
qed

lemma read_reg_device:
  assumes "register_device spi regs" "control_reg r"
  shows "\<exists>d b'. lsm6ds3tr_c_read_reg (dev_ctx spi) r 1 b = (0, d, b') \<and> d 0 = regs b r \<and> b' = snd (spi [r OR 0x80] 1 b) \<and>
    (\<not> in_reset (regs b) \<longrightarrow> regs b' = regs b)"
proof -
  have "fst (spi [r OR 0x80] 1 b) 0 = regs b r" 
    using assms(1) control_reg_low [OF assms(2)] by (force simp: register_device_def)
  moreover have "regs (snd (spi [r OR 0x80] 1 b)) = regs b" if "\<not> in_reset (regs b)"
    using assms that unfolding register_device_def by blast
  moreover obtain d b' where "spi [r OR 0x80] 1 b = (d, b')" by fastforce
  ultimately show ?thesis by (simp add: lsm6ds3tr_c_read_reg_def dev_ctx_def read_reg_lambda_def)
qed

lemma update_reg_device:
  assumes "register_device spi regs" "control_reg r" "\<not> in_reset (regs b)" "\<not> in_reset ((regs b)(r := f (regs b r)))"
  shows "regs (snd (update_reg (dev_ctx spi) r f b)) = (regs b)(r := f (regs b r))"
proof -
  obtain d b' where d: "lsm6ds3tr_c_read_reg (dev_ctx spi) r 1 b = (0, d, b')" "d 0 = regs b r" "regs b' = regs b"
    using read_reg_device [OF assms(1,2), of b] assms(3) by auto
  then have "regs (snd (spi [r, f (regs b r)] 0 b')) = (regs b)(r := f (regs b r))"
    using assms by (simp add: register_device_def)
  then show ?thesis
    using d by (simp add: update_reg_def lsm6ds3tr_c_write_reg_def dev_ctx_def write_reg_lambda_def)
qed

definition configured :: "(u8 \<Rightarrow> u8) \<Rightarrow> u8 \<Rightarrow> u8" where
  "configured m = m(LSM6DS3TR_C_CTRL1_XL := 0x71 OR (m LSM6DS3TR_C_CTRL1_XL AND 0x02),
                    LSM6DS3TR_C_CTRL2_G := 0x7C OR (m LSM6DS3TR_C_CTRL2_G AND 0x01),
                    LSM6DS3TR_C_CTRL3_C := 0x40 OR m LSM6DS3TR_C_CTRL3_C,
                    LSM6DS3TR_C_CTRL8_XL := 0xA8 OR (m LSM6DS3TR_C_CTRL8_XL AND 0x13))"

lemma configure_imu_device:
  assumes dev: "register_device spi regs" and "\<not> in_reset (regs b)"
  shows "regs (configure_imu (dev_ctx spi) b) = configured (regs b)"
proof -
  have upd: "in_reset (m(r := v)) = in_reset m" if "r \<in> {LSM6DS3TR_C_CTRL1_XL, LSM6DS3TR_C_CTRL2_G, LSM6DS3TR_C_CTRL8_XL}" for m r v
    using that by (auto simp: in_reset_def register_defs)
  have upd3: "in_reset (m(LSM6DS3TR_C_CTRL3_C := 0x40 OR m LSM6DS3TR_C_CTRL3_C)) = in_reset m" for m
    by (simp add: in_reset_def bit_or_iff)
  have set: "regs (snd (update_reg (dev_ctx spi) r f b)) = (regs b)(r := f (regs b r))"
    if "r \<in> {LSM6DS3TR_C_CTRL1_XL, LSM6DS3TR_C_CTRL2_G, LSM6DS3TR_C_CTRL8_XL}" "\<not> in_reset (regs b)" for r f b
    using that upd [OF that(1)] by (intro update_reg_device [OF dev]) (auto simp: control_reg_def register_defs)
  have set3: "regs (snd (update_reg (dev_ctx spi) LSM6DS3TR_C_CTRL3_C (field_set 6 1 1) b)) =
      (regs b)(LSM6DS3TR_C_CTRL3_C := 0x40 OR regs b LSM6DS3TR_C_CTRL3_C)" if "\<not> in_reset (regs b)" for b
    using that upd3 [of "regs b"] update_reg_device [OF dev, of LSM6DS3TR_C_CTRL3_C b "field_set 6 1 1"]
    by (simp add: control_reg_def ctrl3_fields LSM6DS3TR_C_CTRL3_C_def del: One_nat_def)
  note sets = set [of LSM6DS3TR_C_CTRL1_XL, simplified] set [of LSM6DS3TR_C_CTRL2_G, simplified]
    set [of LSM6DS3TR_C_CTRL8_XL, simplified] set3
  note upds = upd [of LSM6DS3TR_C_CTRL1_XL, simplified] upd [of LSM6DS3TR_C_CTRL2_G, simplified] upd3
  let ?m = "regs b"
  have "regs (configure_imu (dev_ctx spi) b) = ?m(LSM6DS3TR_C_CTRL3_C := 0x40 OR ?m LSM6DS3TR_C_CTRL3_C,
      LSM6DS3TR_C_CTRL2_G := 0x7C OR (?m LSM6DS3TR_C_CTRL2_G AND 0x01), LSM6DS3TR_C_CTRL1_XL := 0x71 OR (?m LSM6DS3TR_C_CTRL1_XL AND 0x02),
      LSM6DS3TR_C_CTRL8_XL := 0xA8 OR (?m LSM6DS3TR_C_CTRL8_XL AND 0x13))"
    using assms(2)
    unfolding configure_imu_def Let_def lsm6ds3tr_c_block_data_update_set_def lsm6ds3tr_c_xl_data_rate_set_def
      lsm6ds3tr_c_gy_data_rate_set_def lsm6ds3tr_c_xl_full_scale_set_def lsm6ds3tr_c_gy_full_scale_set_def
      lsm6ds3tr_c_xl_filter_analog_set_def lsm6ds3tr_c_xl_lp2_bandwidth_set_def
    by (simp only: sets upds not_False_eq_True, simp only: o_def, simp add: register_defs fun_upd_twist ctrl_fields)
  then show ?thesis by (simp add: configured_def register_defs fun_upd_twist)
qed


definition known_id :: "u8 \<Rightarrow> bool" where
  "known_id w \<longleftrightarrow> w = 0x6a \<or> w = 0x6c"

text \<open>An attempt to find the sensor followed by a pause, and one poll of the reset.\<close>

definition read_id :: "'b spi \<Rightarrow> 'b \<Rightarrow> u8 \<times> 'b" where
  "read_id spi b = (let (d, b') = spi [0x8F] 1 b in (d 0, b'))"

definition failed_attempt :: "'b spi \<Rightarrow> ('b \<Rightarrow> 'b) \<Rightarrow> 'b \<Rightarrow> 'b" where
  "failed_attempt spi nap b = nap (snd (read_id spi b))"

definition poll_reset :: "'b spi \<Rightarrow> 'b \<Rightarrow> 'b" where
  "poll_reset spi b = snd (spi [0x92] 1 b)"

lemma device_id_get: "lsm6ds3tr_c_device_id_get (dev_ctx spi) b = (0, read_id spi b)"
  by (simp add: lsm6ds3tr_c_device_id_get_def lsm6ds3tr_c_read_reg_def dev_ctx_def read_reg_lambda_def
    LSM6DS3TR_C_WHO_AM_I_def read_id_def Let_def split_beta)

lemma find_imu_found:
  "\<forall>j < i. \<not> known_id (fst (read_id spi ((failed_attempt spi nap ^^ j) b))) \<Longrightarrow>
   known_id (fst (read_id spi ((failed_attempt spi nap ^^ i) b))) \<Longrightarrow> i < n \<Longrightarrow>
   find_imu hex nap (dev_ctx spi) n s b =
     (s\<lparr>imu_found := True, error_message := ''None''\<rparr>, snd (read_id spi ((failed_attempt spi nap ^^ i) b)),
      replicate i (ImuSleep (TIME_MS2I 100)))"
proof (induction i arbitrary: n s b)
  case 0
  then obtain k where "n = Suc k" by (cases n) auto
  then show ?case using 0 by (auto simp: device_id_get known_id_def split_beta)
next
  case (Suc i)
  then obtain k where k: "n = Suc k" "i < k" by (cases n) auto
  have no: "\<not> known_id (fst (read_id spi b))" using Suc.prems(1) by force
  have "\<forall>j < i. \<not> known_id (fst (read_id spi ((failed_attempt spi nap ^^ j) (failed_attempt spi nap b))))"
    using Suc.prems(1) by (metis Suc_mono comp_apply funpow_Suc_right)
  moreover have "known_id (fst (read_id spi ((failed_attempt spi nap ^^ i) (failed_attempt spi nap b))))"
    using Suc.prems(2) by (simp add: funpow_swap1)
  ultimately show ?case
    using Suc.IH [of "failed_attempt spi nap b" k] k no
    by (simp add: device_id_get split_beta known_id_def failed_attempt_def [symmetric] funpow_swap1)
qed

lemma find_imu_missing:
  "\<forall>j < n. \<not> known_id (fst (read_id spi ((failed_attempt spi nap ^^ j) b))) \<Longrightarrow> \<not> imu_found s \<Longrightarrow>
   \<exists>s'. find_imu hex nap (dev_ctx spi) n s b = (s', (failed_attempt spi nap ^^ n) b, replicate n (ImuSleep (TIME_MS2I 100))) \<and>
     \<not> imu_found s'"
proof (induction n arbitrary: s b)
  case (Suc n)
  have no: "\<not> known_id (fst (read_id spi b))" using Suc.prems(1) by force
  have "\<forall>j < n. \<not> known_id (fst (read_id spi ((failed_attempt spi nap ^^ j) (failed_attempt spi nap b))))"
    using Suc.prems(1) by (metis Suc_mono comp_apply funpow_Suc_right)
  then show ?case
    using Suc.IH [of "failed_attempt spi nap b"
        "s\<lparr>imu_found := False, error_message := ''IMU Not Found. Whoami=0x'' @ hex (fst (read_id spi b))\<rparr>"] no
    by (auto simp: device_id_get split_beta known_id_def failed_attempt_def [symmetric] funpow_swap1)
qed simp

lemma reset_wait_returns:
  assumes dev: "register_device spi regs"
  shows "\<forall>j < k. in_reset (regs ((poll_reset spi ^^ j) b)) \<Longrightarrow> \<not> in_reset (regs ((poll_reset spi ^^ k) b)) \<Longrightarrow>
    \<exists>b'. reset_wait (dev_ctx spi) b = Some b' \<and> regs b' = regs ((poll_reset spi ^^ k) b)"
proof (induction k arbitrary: b)
  case 0
  obtain d b' where d: "lsm6ds3tr_c_read_reg (dev_ctx spi) LSM6DS3TR_C_CTRL3_C 1 b = (0, d, b')"
    "d 0 = regs b LSM6DS3TR_C_CTRL3_C" "regs b' = regs b"
    using read_reg_device [OF dev, of LSM6DS3TR_C_CTRL3_C b] 0 by (auto simp: control_reg_def LSM6DS3TR_C_CTRL3_C_def)
  have "field_get 0 1 (regs b LSM6DS3TR_C_CTRL3_C) = 0"
    using 0 by (auto simp: field_get_def in_reset_def bit_0 take_bit_Suc odd_iff_mod_2_eq_one intro!: bit_word_eqI)
  then show ?case using d by (subst reset_wait.simps) (simp add: lsm6ds3tr_c_reset_get_def)
next
  case (Suc k)
  obtain d b' where d: "lsm6ds3tr_c_read_reg (dev_ctx spi) LSM6DS3TR_C_CTRL3_C 1 b = (0, d, b')"
    "d 0 = regs b LSM6DS3TR_C_CTRL3_C" "b' = poll_reset spi b"
    using read_reg_device [OF dev, of LSM6DS3TR_C_CTRL3_C b] by (auto simp: control_reg_def LSM6DS3TR_C_CTRL3_C_def poll_reset_def)
  have "in_reset (regs ((poll_reset spi ^^ 0) b))" using Suc.prems(1) by blast
  then have "bit (field_get 0 1 (regs b LSM6DS3TR_C_CTRL3_C)) 0"
    by (simp add: field_get_def in_reset_def bit_take_bit_iff bit_0)
  then have "field_get 0 1 (regs b LSM6DS3TR_C_CTRL3_C) \<noteq> 0" by auto
  moreover have "\<forall>j < k. in_reset (regs ((poll_reset spi ^^ j) (poll_reset spi b)))"
    using Suc.prems(1) by (metis Suc_mono comp_apply funpow_Suc_right)
  ultimately show ?case
    using Suc.IH [of "poll_reset spi b"] Suc.prems(2) d
    by (subst reset_wait.simps) (simp add: lsm6ds3tr_c_reset_get_def funpow_swap1)
qed



text \<open>A sensor that is ready after one pause and needs two polls to reset.\<close>

definition example_spi :: "((u8 \<Rightarrow> u8) \<times> nat) spi" where
  "example_spi sent n = (\<lambda>(m, polls).
     case sent of
       [r] \<Rightarrow> (\<lambda>k. m ((r AND 0x7F) + of_nat k),
              if in_reset m then (if polls = 0 then m(0x12 := 0x04) else m, polls - 1) else (m, polls))
     | [r, v] \<Rightarrow> (\<lambda>_. 0, if in_reset m then (m, polls) else (m(r := v), 1))
     | _ \<Rightarrow> (\<lambda>_. 0, (m, polls)))"

lemma low_byte: "r < 0x80 \<Longrightarrow> (r OR 0x80) AND 0x7F = (r :: u8)"
proof -
  assume "r < 0x80"
  then have "take_bit 7 r = r" by (simp add: take_bit_eq_self_iff_drop_bit_eq_0 drop_bit_eq_div div_word_less)
  moreover have "(r OR 0x80) AND 0x7F = take_bit 7 r"
    by (rule byte_eqI8) (simp add: all_less_8 bit_or_iff bit_and_iff bit_take_bit_iff)
  ultimately show ?thesis by simp
qed

lemma example_device: "register_device example_spi fst"
  using low_byte [OF control_reg_low] low_byte by (auto simp: register_device_def example_spi_def split_beta)

definition example_sensor :: "(u8 \<Rightarrow> u8) \<times> nat" where
  "example_sensor = ((\<lambda>_. 0x04), 0)"

definition example_nap :: "(u8 \<Rightarrow> u8) \<times> nat \<Rightarrow> (u8 \<Rightarrow> u8) \<times> nat" where
  "example_nap = (\<lambda>(m, n). (m(0x0F := 0x6A), n))"



subsection \<open>Measurements\<close>

lemma raw_value_cat: "raw_value low high = word_cat high low"
proof -
  have "sint (ucast high :: 16 word) = uint high"
  proof -
    have "uint high < 256" using uint_bounded [of high] by simp
    then show ?thesis by (simp add: sint_uint unsigned_ucast_eq signed_take_bit_eq_if_positive bit_iff_odd take_bit_eq_mod)
  qed
  then have "raw_value low high = word_of_int (uint high * 256 + uint low)" by (simp add: raw_value_def Let_def)
  then show ?thesis
    by (simp add: word_cat_eq concat_bit_eq push_bit_eq_mult take_bit_eq_mod ac_simps)
qed

lemma sint16_abs: "\<bar>sint (w :: 16 word)\<bar> \<le> 32768"
  using sint_ge [of w] sint_lt [of w] by simp

lemma imu_constants:
  "mag_le (125 / 2048) (flt_lit binary32 (61 / 1000))" "mag_le (1 / 100) (flt_lit binary64 (980665 / 100000000))"
  "mag_le (101 / 32) M_PI"
  by code_simp+

lemma representable_pi_bound: "representable binary64 (101 / 32)"
  by code_simp

lemma sensor_float: "mag_le 32768 (flt_of_int binary32 (sint (w :: 16 word)))"
  unfolding flt_of_int_def
proof (rule mag_le_of_rat)
  show "representable binary32 32768" using representable_small(1) [of 32768] by simp
  show "\<bar>rat_of_int (sint w)\<bar> \<le> 32768" using sint16_abs [of w] by linarith
qed


lemma mag_le_fcvt_int: "mag_le (of_int n) x \<Longrightarrow> 0 \<le> n \<Longrightarrow> n < 2 ^ 53 \<Longrightarrow> mag_le (of_int n) (fcvt binary64 x)"
  by (rule mag_le_fcvt) (simp_all add: representable_small)

lemma sign_mag_le: "sign = 1 \<or> sign = -1 \<Longrightarrow> mag_le 1 (flt_lit binary64 sign)"
  unfolding flt_lit_def using representable_small(2) [of 1] by (intro mag_le_of_rat) auto

lemma mag_le_fmul_int:
  "mag_le a x \<Longrightarrow> mag_le b y \<Longrightarrow> a * b = of_int n \<Longrightarrow> 0 \<le> n \<Longrightarrow> n < 2 ^ 53 \<Longrightarrow> mag_le (of_int n) (fmul binary64 x y)"
  using mag_le_fmul [of binary64 a b x y] representable_small(2) [of n] by simp

lemma acceleration_axis_range:
  assumes "sign = 1 \<or> sign = -1"
  shows "mag_le 20 (acceleration_axis sign lsb)"
proof -
  have "mag_le (32768 * (125 / 2048)) (lsm6ds3tr_c_from_fs2g_to_mg lsb)"
    unfolding lsm6ds3tr_c_from_fs2g_to_mg_def
    by (rule mag_le_fmul [OF _ sensor_float imu_constants(1)]) (use representable_small(1) [of 2000] in simp)
  then have "mag_le (of_int 2000) (fcvt binary64 (lsm6ds3tr_c_from_fs2g_to_mg lsb))" by (intro mag_le_fcvt_int) simp_all
  then have "mag_le (of_int 2000) (fmul binary64 (flt_lit binary64 sign) (fcvt binary64 (lsm6ds3tr_c_from_fs2g_to_mg lsb)))"
    by (intro mag_le_fmul_int [OF sign_mag_le [OF assms]]) simp_all
  then have "mag_le (of_int 20) (acceleration_axis sign lsb)"
    unfolding acceleration_axis_def by (rule mag_le_fmul_int [OF _ imu_constants(2)]) simp_all
  then show ?thesis by simp
qed

lemma angular_axis_range:
  assumes "sign = 1 \<or> sign = -1"
  shows "mag_le 41 (angular_axis sign lsb)"
proof -
  have "mag_le 70 (flt_lit binary32 70)" using flt_lit_int [of 70 binary32] representable_small(1) [of 70] by simp
  then have "mag_le (32768 * 70) (lsm6ds3tr_c_from_fs2000dps_to_mdps lsb)"
    unfolding lsm6ds3tr_c_from_fs2000dps_to_mdps_def
    by (intro mag_le_fmul [OF _ sensor_float]) (use representable_small(1) [of 2293760] in simp_all)
  then have "mag_le (of_int 2293760) (fcvt binary64 (lsm6ds3tr_c_from_fs2000dps_to_mdps lsb))"
    by (intro mag_le_fcvt_int) simp_all
  moreover have "mag_le (101 / 32) (fmul binary64 (flt_lit binary64 sign) M_PI)"
    using mag_le_fmul [OF _ sign_mag_le [OF assms] imu_constants(3)] representable_pi_bound by simp
  moreover have scale: "(101 / 32 :: rat) * of_int 2293760 = of_int 7239680" by simp
  ultimately have "mag_le (of_int 7239680)
      (fmul binary64 (fmul binary64 (flt_lit binary64 sign) M_PI) (fcvt binary64 (lsm6ds3tr_c_from_fs2000dps_to_mdps lsb)))"
    using mag_le_fmul_int [OF _ _ scale] by simp
  moreover have "flt_lit binary64 180000 = Fin False 180000"
    using flt_lit_int [of 180000 binary64] representable_small(2) [of 180000] by simp
  ultimately show ?thesis
    unfolding angular_axis_def
    using mag_le_fdiv [of binary64 41 "of_int 7239680" 180000] representable_small(2) [of 41] by simp
qed

text \<open>Periods of the service, between which time passes and the sensor changes in any way.\<close>

fun imu_run :: "'b spi \<Rightarrow> (u32 \<times> ('b \<Rightarrow> 'b)) list \<Rightarrow> imu_service \<Rightarrow> 'b \<Rightarrow> imu_service \<times> imu_effect list" where
  "imu_run spi [] s b = (s, [])"
| "imu_run spi ((now, change) # es) s b =
     (let (s', b', e) = Imu_tick spi now s (change b); (s'', e') = imu_run spi es s' b' in (s'', e @ e'))"

definition axes_in_range :: "flt list \<Rightarrow> bool" where
  "axes_in_range a \<longleftrightarrow> length a = 9 \<and> list_all (mag_le 20) (take 3 a) \<and> list_all (mag_le 41) (take 3 (drop 3 a)) \<and>
     drop 6 a = [fzero, fzero, fzero]"

lemma list9: "length a = 9 \<longleftrightarrow> (\<exists>a0 a1 a2 a3 a4 a5 a6 a7 a8. a = [a0, a1, a2, a3, a4, a5, a6, a7, a8])"
  by (auto simp: numeral_eq_Suc length_Suc_conv)

fun reports :: "imu_effect list \<Rightarrow> flt list list" where
  "reports [] = []"
| "reports (SendAxes a # es) = a # reports es"
| "reports (_ # es) = reports es"

lemma reports_append [simp]: "reports (xs @ ys) = reports xs @ reports ys"
  by (induction xs rule: reports.induct) simp_all

lemma Imu_tick_range:
  assumes "axes_in_range (axes s)" "Imu_tick spi now s b = (s', b', es)"
  shows "axes_in_range (axes s')" "imu_found s' = imu_found s" "reports es = (if imu_found s then [axes s'] else [])"
proof -
  obtain a0 a1 a2 a3 a4 a5 a6 a7 a8 where a: "axes s = [a0, a1, a2, a3, a4, a5, a6, a7, a8]"
    using assms(1) by (auto simp: axes_in_range_def list9)
  show "axes_in_range (axes s')"
    using assms acceleration_axis_range [of 1] acceleration_axis_range [of "-1"] angular_axis_range [of 1] angular_axis_range [of "-1"] a
    by (auto simp: Imu_tick_def Let_def split_beta axes_in_range_def split: if_splits)
  show "imu_found s' = imu_found s" "reports es = (if imu_found s then [axes s'] else [])"
    using assms(2) by (auto simp: Imu_tick_def Let_def split_beta split: if_splits)
qed

lemma imu_run_range:
  "axes_in_range (axes s) \<Longrightarrow> list_all axes_in_range (reports (snd (imu_run spi periods s b))) \<and>
   length (reports (snd (imu_run spi periods s b))) = (if imu_found s then length periods else 0)"
proof (induction spi periods s b rule: imu_run.induct)
  case (2 spi now change es s b)
  obtain s' b' e where t: "Imu_tick spi now s (change b) = (s', b', e)" by (cases "Imu_tick spi now s (change b)")
  show ?case using 2(1) [OF t [symmetric]] Imu_tick_range [OF 2(2) t] t by (auto simp: split_beta)
qed simp

lemma find_imu_axes: "axes (fst (find_imu hex nap ctx n s b)) = axes s"
  by (induction n arbitrary: s b) (auto simp: Let_def split_beta)

text \<open>
  Whatever the sensor returns and however it changes between the periods, a service that
  found it reports once in every period, and every report has nine finite values: accelerations
  within 20 m/s^2, angular rates within 41 rad/s, and zeros for the magnetometer the board does
  not have. A service that did not find it reports nothing.
\<close>

theorem imu_axes_in_range:
  "case Imu_OnCreate hex nap spi imu_init b of
     None \<Rightarrow> True
   | Some (s, b', _) \<Rightarrow>
       list_all axes_in_range (reports (snd (imu_run spi periods s b'))) \<and>
       length (reports (snd (imu_run spi periods s b'))) = (if imu_found s then length periods else 0)"
proof -
  have "axes_in_range (axes s)" if "Imu_OnCreate hex nap spi imu_init b = Some (s, b', es)" for s b' es
  proof -
    have "axes s = axes imu_init"
      using that find_imu_axes [of hex nap "dev_ctx spi" 100 "imu_init\<lparr>error_message := ''''\<rparr>" b]
      by (auto simp: Imu_OnCreate_def Let_def split_beta bind_eq_Some_conv split: if_splits simp del: find_imu.simps)
    then show ?thesis by (simp add: imu_init_def axes_in_range_def numeral_eq_Suc)
  qed
  then show ?thesis by (auto simp: imu_run_range split: option.split)
qed

end
