(* ===== verification/Mg_Str.thy ===== *)
theory Mg_Str
  imports C_String
begin

text \<open>
  Strings of the web server (\<open>mongoose/mongoose.c\<close>, section \<open>str.c\<close>). A \<open>struct mg_str\<close>
  is a slice of a buffer; where only its bytes matter it is a byte list, and where the code
  distinguishes the null slice it is an option. \<open>char\<close> is unsigned on the target.
\<close>

definition mg_tolc :: "u8 \<Rightarrow> u8" where
  "mg_tolc c = (if c \<ge> c8 CHR ''A'' \<and> c \<le> c8 CHR ''Z'' then c + c8 CHR ''a'' - c8 CHR ''A'' else c)"

text \<open>On terminated strings; \<^term>\<open>None\<close> is a read past the end of an array.\<close>

fun mg_casecmp :: "bytes \<Rightarrow> bytes \<Rightarrow> int option" where
  "mg_casecmp (x # s1) (y # s2) =
     (let diff = uint (mg_tolc x) - uint (mg_tolc y)
      in if diff = 0 \<and> x \<noteq> 0 then mg_casecmp s1 s2 else Some diff)"
| "mg_casecmp _ _ = None"

text \<open>\<open>None\<close> is the null slice; \<open>alloc\<close> tells whether \<open>mg_calloc\<close> succeeds.\<close>

definition mg_strdup :: "(nat \<Rightarrow> bool) \<Rightarrow> bytes option \<Rightarrow> bytes option" where
  "mg_strdup alloc s =
     (case s of None \<Rightarrow> None
      | Some b \<Rightarrow> if length b > 0 \<and> alloc (length b + 1) then Some b else None)"

fun mg_strcmp :: "bytes \<Rightarrow> bytes \<Rightarrow> int" where
  "mg_strcmp (x # s1) (y # s2) =
     (if x < y then -1 else if x > y then 1 else mg_strcmp s1 s2)"
| "mg_strcmp (x # s1) [] = 1"
| "mg_strcmp [] (y # s2) = -1"
| "mg_strcmp [] [] = 0"

fun mg_strcasecmp :: "bytes \<Rightarrow> bytes \<Rightarrow> int" where
  "mg_strcasecmp (x # s1) (y # s2) =
     (let c1 = mg_tolc x; c2 = mg_tolc y
      in if c1 < c2 then -1 else if c1 > c2 then 1 else mg_strcasecmp s1 s2)"
| "mg_strcasecmp (x # s1) [] = 1"
| "mg_strcasecmp [] (y # s2) = -1"
| "mg_strcasecmp [] [] = 0"

text \<open>
  \<open>mg_match\<close> as the firmware calls it, with \<open>caps\<close> null. The subject is the first \<open>slen\<close>
  bytes of the buffer \<open>s\<close>: the last test reads \<open>s.buf[j]\<close> also for \<open>j = slen\<close>, so the byte
  behind the slice has to be readable.
\<close>

abbreviation star :: u8 where "star \<equiv> c8 CHR ''*''"
abbreviation hash :: u8 where "hash \<equiv> c8 CHR ''#''"
abbreviation quest :: u8 where "quest \<equiv> c8 CHR ''?''"
abbreviation slash :: u8 where "slash \<equiv> c8 CHR ''/''"

partial_function (option) match_loop ::
  "bytes \<Rightarrow> nat \<Rightarrow> bytes \<Rightarrow> nat \<Rightarrow> nat \<Rightarrow> nat \<Rightarrow> nat \<Rightarrow> bool option" where
  "match_loop s slen p i j ni nj =
     (if \<not> (i < length p \<or> j < slen) then Some True
      else if i < length p \<and> j < slen \<and>
              (p ! i = quest \<or> (p ! i \<noteq> star \<and> p ! i \<noteq> hash \<and> s ! j = p ! i))
      then match_loop s slen p (i + 1) (j + 1) ni nj
      else if i < length p \<and> (p ! i = star \<or> p ! i = hash)
      then match_loop s slen p (i + 1) j i (j + 1)
      else if nj > 0 \<and> nj \<le> slen then
        (if p ! ni = hash then match_loop s slen p ni nj ni nj
         else do { c \<leftarrow> aget s j;
                   if c \<noteq> slash then match_loop s slen p ni nj ni nj else Some False })
      else Some False)"

definition mg_match :: "bytes \<Rightarrow> nat \<Rightarrow> bytes \<Rightarrow> bool option" where
  "mg_match s slen p = match_loop s slen p 0 0 0 0"

text \<open>The two slices of \<open>mg_span\<close>, or \<^term>\<open>None\<close> where it returns false.\<close>

fun find_sep :: "u8 \<Rightarrow> bytes \<Rightarrow> nat" where
  "find_sep sep [] = 0"
| "find_sep sep (c # cs) = (if c \<noteq> sep then Suc (find_sep sep cs) else 0)"

definition mg_span :: "bytes \<Rightarrow> u8 \<Rightarrow> (bytes \<times> bytes) option" where
  "mg_span s sep =
     (if s = [] then None
      else let len = find_sep sep s; a = take len s; b = drop len s
           in Some (a, if len < length s then drop 1 b else b))"

subsection \<open>Numbers\<close>

definition digit2 :: "u8 \<Rightarrow> u64 option" where
  "digit2 c = (if c = c8 CHR ''0'' \<or> c = c8 CHR ''1'' then Some (ucast (c - c8 CHR ''0'')) else None)"

definition digit10 :: "u8 \<Rightarrow> u64 option" where
  "digit10 c = (if c \<ge> c8 CHR ''0'' \<and> c \<le> c8 CHR ''9'' then Some (ucast (c - c8 CHR ''0'')) else None)"

definition digit16 :: "u8 \<Rightarrow> u64 option" where
  "digit16 c =
     (if c \<ge> c8 CHR ''0'' \<and> c \<le> c8 CHR ''9'' then Some (ucast (c - c8 CHR ''0''))
      else if c \<ge> c8 CHR ''A'' \<and> c \<le> c8 CHR ''F'' then Some (ucast (c - c8 CHR ''7''))
      else if c \<ge> c8 CHR ''a'' \<and> c \<le> c8 CHR ''f'' then Some (ucast (c - c8 CHR ''W''))
      else None)"

text \<open>
  One digit loop, the same for the three bases: the result, the number of digits and the
  unread rest, or \<^term>\<open>None\<close> on overflow.
\<close>

fun num_loop :: "u64 \<Rightarrow> (u8 \<Rightarrow> u64 option) \<Rightarrow> u64 \<Rightarrow> bytes \<Rightarrow> u64 \<Rightarrow> nat \<Rightarrow> (u64 \<times> nat \<times> bytes) option" where
  "num_loop b dig mx [] result nd = Some (result, nd, [])"
| "num_loop b dig mx (c # cs) result nd =
     (case dig c of
        None \<Rightarrow> Some (result, nd, c # cs)
      | Some digit \<Rightarrow>
          if result > mx div b then None
          else if result * b > mx - digit then None
          else num_loop b dig mx cs (result * b + digit) (Suc nd))"

definition num_max :: "nat \<Rightarrow> u64" where
  "num_max val_len =
     (if val_len = 1 then 0xFF else if val_len = 2 then 0xFFFF
      else if val_len = 4 then 0xFFFFFFFF else -1)"

text \<open>The prefix that selects base 2 or 16 when the caller passes base 0.\<close>

definition num_prefix :: "bytes \<Rightarrow> nat \<Rightarrow> nat \<times> bytes" where
  "num_prefix str base =
     (if base = 0 \<and> length str \<ge> 2 then
        if str ! 0 = c8 CHR ''0'' then
          let base' = (if str ! 1 = c8 CHR ''b'' then 2 else if str ! 1 = c8 CHR ''x'' then 16 else 10)
          in (base', drop (if base' \<noteq> 10 then 2 else 1) str)
        else (10, str)
      else (base, str))"

definition mg_str_to_num :: "bytes \<Rightarrow> nat \<Rightarrow> nat \<Rightarrow> u64 option" where
  "mg_str_to_num str base val_len =
     (if num_max val_len = -1 \<and> val_len \<noteq> 8 then None
      else let (base', rest) = num_prefix str base;
               run = (\<lambda>b dig. num_loop b dig (num_max val_len) rest 0 0)
           in do { (result, ndigits, rest') \<leftarrow>
                     (if base' = 2 then run 2 digit2
                      else if base' = 10 then run 10 digit10
                      else if base' = 16 then run 16 digit16
                      else None);
                   if ndigits = 0 then None
                   else if rest' \<noteq> [] then None
                   else Some (take_bit (8 * val_len) result) })"


subsection \<open>Comparison and splitting\<close>

lemma mg_strcmp_0 [simp]: "mg_strcmp a b = 0 \<longleftrightarrow> a = b"
  by (induction a b rule: mg_strcmp.induct) auto

lemma mg_strcasecmp_0: "mg_strcasecmp a b = 0 \<longleftrightarrow> map mg_tolc a = map mg_tolc b"
proof (induction a b rule: mg_strcasecmp.induct)
  case (1 x s1 y s2)
  then show ?case by (cases "mg_tolc x" "mg_tolc y" rule: linorder_cases)
      (auto simp: Let_def less_not_sym)
qed simp_all

lemma find_sep_le: "find_sep sep s \<le> length s"
  by (induction s) auto

lemma find_sep_split:
  "find_sep sep s < length s \<Longrightarrow> s = take (find_sep sep s) s @ sep # drop (Suc (find_sep sep s)) s"
  by (induction s) auto

lemma find_sep_not_in: "sep \<notin> set (take (find_sep sep s) s)"
  by (induction s) auto

lemma find_sep_append [simp]: "sep \<notin> set a \<Longrightarrow> find_sep sep (a @ sep # b) = length a"
  by (induction a) auto

lemma find_sep_none [simp]: "sep \<notin> set a \<Longrightarrow> find_sep sep a = length a"
  by (induction a) auto

lemma mg_span_None [simp]: "mg_span s sep = None \<longleftrightarrow> s = []"
  by (simp add: mg_span_def Let_def)

lemma mg_span_Some:
  "mg_span s sep = Some (a, b) \<longleftrightarrow>
     s \<noteq> [] \<and> sep \<notin> set a \<and> (s = a @ sep # b \<or> s = a \<and> b = [])"
proof
  assume *: "mg_span s sep = Some (a, b)"
  then have s: "s \<noteq> []" and a: "a = take (find_sep sep s) s"
    and b: "b = (if find_sep sep s < length s then drop (Suc (find_sep sep s)) s
                 else drop (find_sep sep s) s)"
    by (auto simp: mg_span_def Let_def split: if_splits)
  show "s \<noteq> [] \<and> sep \<notin> set a \<and> (s = a @ sep # b \<or> s = a \<and> b = [])"
  proof (cases "find_sep sep s < length s")
    case True
    then show ?thesis using s a b find_sep_split [OF True] find_sep_not_in by simp
  next
    case False
    then have "find_sep sep s = length s" using find_sep_le [of sep s] by simp
    then show ?thesis using s a b find_sep_not_in [of sep s] by simp
  qed
next
  assume "s \<noteq> [] \<and> sep \<notin> set a \<and> (s = a @ sep # b \<or> s = a \<and> b = [])"
  then show "mg_span s sep = Some (a, b)" by (auto simp: mg_span_def Let_def)
qed

lemma mg_span_shorter: "mg_span s sep = Some (a, b) \<Longrightarrow> length b < length s"
  by (auto simp: mg_span_Some)

subsection \<open>Pattern matching\<close>

text \<open>
  The language of a pattern: a question mark stands for one byte, a star or a hash for any
  bytes, everything else for itself.
\<close>

definition wild :: "u8 \<Rightarrow> bool" where
  "wild c \<longleftrightarrow> c = star \<or> c = hash"

inductive glob :: "bytes \<Rightarrow> bytes \<Rightarrow> bool" where
  glob_nil: "glob [] []"
| glob_any: "glob p s \<Longrightarrow> glob (p @ [quest]) (s @ [c])"
| glob_lit: "glob p s \<Longrightarrow> \<not> wild c \<Longrightarrow> glob (p @ [c]) (s @ [c])"
| glob_wild: "glob p s \<Longrightarrow> wild w \<Longrightarrow> glob (p @ [w]) (s @ xs)"

lemma glob_take:
  assumes "glob (take i p) (take j s)" "i < length p" "j < slen" "slen \<le> length s"
    "p ! i = quest \<or> (p ! i \<noteq> star \<and> p ! i \<noteq> hash \<and> s ! j = p ! i)"
  shows "glob (take (Suc i) p) (take (Suc j) s)"
proof (cases "p ! i = quest")
  case True
  then show ?thesis
    using glob_any [OF assms(1), of "s ! j"] assms by (simp add: take_Suc_conv_app_nth)
next
  case False
  then show ?thesis
    using glob_lit [OF assms(1), of "s ! j"] assms
    by (simp add: take_Suc_conv_app_nth wild_def)
qed

lemma glob_absorb:
  assumes "glob (take i p) (take k s)" "i < length p" "wild (p ! i)" "k \<le> j"
  shows "glob (take (Suc i) p) (take j s)"
proof -
  have "take j s = take k s @ drop k (take j s)"
    using assms(4) by (metis append_take_drop_id min.absorb1 take_take)
  then show ?thesis
    using glob_wild [OF assms(1,3), of "drop k (take j s)"] assms(2)
    by (simp add: take_Suc_conv_app_nth)
qed

text \<open>
  The loop invariant: a wildcard already passed is at \<open>ni\<close>, and either what was read so far
  matches or the loop has just gone back to it.
\<close>

definition match_inv :: "bytes \<Rightarrow> nat \<Rightarrow> bytes \<Rightarrow> nat \<Rightarrow> nat \<Rightarrow> nat \<Rightarrow> nat \<Rightarrow> bool" where
  "match_inv s slen p i j ni nj \<longleftrightarrow>
     slen < length s \<and> i \<le> length p \<and> j \<le> slen \<and> nj \<le> Suc slen \<and> (nj = 0 \<longrightarrow> ni = 0)
     \<and> (nj > 0 \<longrightarrow> ni < length p \<and> wild (p ! ni) \<and> ni \<le> i \<and> (i = ni \<longrightarrow> j = nj)
          \<and> (\<exists>k<nj. glob (take ni p) (take k s)))
     \<and> (glob (take i p) (take j s) \<or> nj > 0 \<and> i = ni)"

definition match_measure :: "nat \<Rightarrow> bytes \<Rightarrow> ((nat \<times> nat \<times> nat \<times> nat) \<times> (nat \<times> nat \<times> nat \<times> nat)) set" where
  "match_measure slen p = measures
     [\<lambda>(i, j, ni, nj). length p - ni, \<lambda>(i, j, ni, nj). Suc slen - nj,
      \<lambda>(i, j, ni, nj). if nj > 0 \<and> i = ni then 0 else 1, \<lambda>(i, j, ni, nj). length p - i]"

lemma wf_match_measure: "wf (match_measure slen p)"
  by (simp add: match_measure_def)

lemma match_step_char:
  assumes "match_inv s slen p i j ni nj" "i < length p" "j < slen"
    "p ! i = quest \<or> (p ! i \<noteq> star \<and> p ! i \<noteq> hash \<and> s ! j = p ! i)"
  shows "match_inv s slen p (Suc i) (Suc j) ni nj \<and>
    ((Suc i, Suc j, ni, nj), (i, j, ni, nj)) \<in> match_measure slen p"
proof -
  have w: "\<not> wild (p ! i)" using assms(4) by (auto simp: wild_def)
  then have "nj > 0 \<longrightarrow> i \<noteq> ni" using assms(1) by (auto simp: match_inv_def)
  moreover from this have "glob (take (Suc i) p) (take (Suc j) s)"
    using assms by (intro glob_take [where slen = slen]) (auto simp: match_inv_def)
  ultimately show ?thesis
    using assms by (auto simp: match_inv_def match_measure_def)
qed

lemma match_step_wild:
  assumes "match_inv s slen p i j ni nj" "i < length p" "wild (p ! i)"
  shows "match_inv s slen p (Suc i) j i (Suc j) \<and>
    ((Suc i, j, i, Suc j), (i, j, ni, nj)) \<in> match_measure slen p"
proof -
  obtain k where k: "k < Suc j" "glob (take i p) (take k s)"
    using assms(1) that unfolding match_inv_def by (metis lessI less_SucI)
  then have "glob (take (Suc i) p) (take j s)"
    using assms by (intro glob_absorb [where k = k]) auto
  then have "match_inv s slen p (Suc i) j i (Suc j)"
    using assms k by (auto simp: match_inv_def)
  moreover have "ni < i \<or> ni = i \<and> nj \<le> j"
    using assms(1) by (cases "nj = 0") (auto simp: match_inv_def)
  moreover have "ni < length p" "nj \<le> Suc slen" "j \<le> slen"
    using assms(1,2) by (auto simp: match_inv_def)
  ultimately show ?thesis using assms(2) by (auto simp: match_measure_def)
qed

lemma match_step_back:
  assumes "match_inv s slen p i j ni nj" "\<not> (i < length p \<and> wild (p ! i))" "nj > 0" "nj \<le> slen"
  shows "match_inv s slen p ni nj ni nj \<and>
    ((ni, nj, ni, nj), (i, j, ni, nj)) \<in> match_measure slen p"
  using assms by (auto simp: match_inv_def match_measure_def)

lemma match_loop_sound:
  assumes "match_inv s slen p i j ni nj"
  shows "\<exists>b. match_loop s slen p i j ni nj = Some b \<and> (b \<longrightarrow> glob p (take slen s))"
  using assms
proof (induction "(i, j, ni, nj)" arbitrary: i j ni nj rule: wf_induct_rule [OF wf_match_measure [of slen p]])
  case (1 i j ni nj)
  note inv = 1(2)
  consider (finish) "\<not> (i < length p \<or> j < slen)"
    | (char) "i < length p" "j < slen"
        "p ! i = quest \<or> (p ! i \<noteq> star \<and> p ! i \<noteq> hash \<and> s ! j = p ! i)"
    | (wild) "i < length p" "wild (p ! i)"
    | (stop) "i < length p \<or> j < slen" "\<not> (i < length p \<and> wild (p ! i))"
        "\<not> (i < length p \<and> j < slen \<and>
           (p ! i = quest \<or> (p ! i \<noteq> star \<and> p ! i \<noteq> hash \<and> s ! j = p ! i)))"
    by blast
  then show ?case
  proof cases
    case finish
    then have "glob (take i p) (take j s)" using inv by (auto simp: match_inv_def)
    moreover have "i = length p" "j = slen" using inv finish by (auto simp: match_inv_def)
    ultimately have "glob p (take slen s)" by simp
    then show ?thesis using finish by (subst match_loop.simps) auto
  next
    case char
    from match_step_char [OF inv char] 1(1) obtain b where
      "match_loop s slen p (Suc i) (Suc j) ni nj = Some b \<and> (b \<longrightarrow> glob p (take slen s))" by blast
    then show ?thesis using char by (subst match_loop.simps) simp
  next
    case wild
    from match_step_wild [OF inv wild] 1(1) obtain b where
      "match_loop s slen p (Suc i) j i (Suc j) = Some b \<and> (b \<longrightarrow> glob p (take slen s))" by blast
    then show ?thesis using wild by (subst match_loop.simps) (auto simp: wild_def)
  next
    case stop
    have "aget s j = Some (s ! j)" using inv by (simp add: match_inv_def aget_def)
    moreover have "\<exists>b. match_loop s slen p ni nj ni nj = Some b \<and> (b \<longrightarrow> glob p (take slen s))"
      if "nj > 0" "nj \<le> slen"
      using match_step_back [OF inv stop(2) that] 1(1) by blast
    ultimately show ?thesis using stop by (subst match_loop.simps) (auto simp: wild_def)
  qed
qed

lemma match_inv_init: "slen < length s \<Longrightarrow> match_inv s slen p 0 0 0 0"
  by (simp add: match_inv_def glob_nil)




text \<open>A pattern without special bytes, and one that ends in a hash, match exactly.\<close>

definition plain :: "bytes \<Rightarrow> bool" where
  "plain p \<longleftrightarrow> list_all (\<lambda>c. c \<noteq> star \<and> c \<noteq> hash \<and> c \<noteq> quest) p"

lemma match_loop_plain:
  assumes "plain p" "i \<le> length p" "i \<le> slen" "slen \<le> length s"
  shows "match_loop s slen p i i 0 0 = Some (drop i p = drop i (take slen s))"
  using assms(2,3)
proof (induction "length p - i" arbitrary: i)
  case 0
  then have "i = length p" by simp
  then show ?case using assms(4) 0 by (subst match_loop.simps) auto
next
  case (Suc n)
  then have i: "i < length p" by simp
  have c: "p ! i \<noteq> star" "p ! i \<noteq> hash" "p ! i \<noteq> quest"
    using assms(1) i by (auto simp: plain_def list_all_length)
  have IH: "match_loop s slen p (Suc i) (Suc i) 0 0 = Some (drop (Suc i) p = drop (Suc i) (take slen s))"
    if "i < slen" using Suc.hyps(1) [of "Suc i"] Suc.hyps(2) i that by simp
  have p: "drop i p = p ! i # drop (Suc i) p" using i by (simp add: Cons_nth_drop_Suc)
  show ?case
  proof (cases "i < slen")
    case True
    then have s: "drop i (take slen s) = s ! i # drop (Suc i) (take slen s)"
      using assms(4) by (subst Cons_nth_drop_Suc [symmetric]) auto
    show ?thesis using i c p s IH [OF True] True by (subst match_loop.simps) auto
  next
    case False
    then show ?thesis using i c p by (subst match_loop.simps) simp
  qed
qed

lemma mg_match_plain:
  assumes "plain p" "slen \<le> length s"
  shows "mg_match s slen p = Some (p = take slen s)"
  using match_loop_plain [OF assms(1) _ _ assms(2), of 0] by (simp add: mg_match_def)

lemma match_loop_hash_tail:
  assumes "i < length p" "p ! i = hash" "i = length p - 1" "j \<le> slen"
  shows "match_loop s slen p i j ni nj = Some True"
  using assms(4)
proof (induction "slen - j" arbitrary: j ni nj)
  case 0
  then have "j = slen" by simp
  moreover have "Suc i = length p" using assms by simp
  ultimately show ?case
    using assms(1,2) by (subst match_loop.simps, simp, subst match_loop.simps) simp
next
  case (Suc n)
  have e: "Suc i = length p" using assms by simp
  have "match_loop s slen p i j ni nj = match_loop s slen p (Suc i) j i (Suc j)"
    using assms(1,2) by (subst match_loop.simps) simp
  also have "j < slen" using Suc.hyps(2) by simp
  then have "match_loop s slen p (Suc i) j i (Suc j) = match_loop s slen p i (Suc j) i (Suc j)"
    using assms(1,2) e by (subst match_loop.simps) simp
  also have "\<dots> = Some True" using Suc.hyps(1) [of "Suc j"] Suc.hyps(2) by simp
  finally show ?case .
qed

lemma match_loop_prefix:
  assumes "plain p" "i \<le> length p" "i \<le> slen" "slen \<le> length s"
  shows "match_loop s slen (p @ [hash]) i i 0 0 =
     Some (length p \<le> slen \<and> drop i p = drop i (take (length p) s))"
  using assms(2,3)
proof (induction "length p - i" arbitrary: i)
  case 0
  then have "i = length p" by simp
  then show ?case using match_loop_hash_tail [of i "p @ [hash]" i slen s 0 0] 0 by simp
next
  case (Suc n)
  then have i: "i < length p" by simp
  have c: "p ! i \<noteq> star" "p ! i \<noteq> hash" "p ! i \<noteq> quest"
    using assms(1) i by (auto simp: plain_def list_all_length)
  have IH: "match_loop s slen (p @ [hash]) (Suc i) (Suc i) 0 0 =
     Some (length p \<le> slen \<and> drop (Suc i) p = drop (Suc i) (take (length p) s))"
    if "i < slen" using Suc.hyps(1) [of "Suc i"] Suc.hyps(2) i that by simp
  have p: "drop i p = p ! i # drop (Suc i) p" using i by (simp add: Cons_nth_drop_Suc)
  show ?case
  proof (cases "i < slen")
    case True
    then have s: "drop i (take (length p) s) = s ! i # drop (Suc i) (take (length p) s)"
      using assms(4) i by (subst Cons_nth_drop_Suc [symmetric]) auto
    show ?thesis using i c p s IH [OF True] True by (subst match_loop.simps) (auto simp: nth_append)
  next
    case False
    then show ?thesis using i c by (subst match_loop.simps) (simp add: nth_append)
  qed
qed

lemma mg_match_prefix:
  assumes "plain p" "slen \<le> length s"
  shows "mg_match s slen (p @ [hash]) = Some (length p \<le> slen \<and> p = take (length p) s)"
  using match_loop_prefix [OF assms(1) _ _ assms(2), of 0] by (simp add: mg_match_def)

text \<open>
  A star is meant to stop at a slash, but the test looks at the byte where the comparison
  failed and not at the byte the star is about to take: here the star takes \<open>a/b\<close>.
\<close>

lemma mg_match_star_crosses_slash:
  "mg_match (lit ''a/b/c'') 5 (cstr ''*/c'') = Some True"
  by (simp add: mg_match_def match_loop.simps lit_def aget_def)

subsection \<open>Parsed numbers\<close>

text \<open>The value of a digit string, and the longest prefix of digits.\<close>

fun digits_value :: "nat \<Rightarrow> (u8 \<Rightarrow> u64 option) \<Rightarrow> bytes \<Rightarrow> nat \<Rightarrow> nat" where
  "digits_value b dig [] acc = acc"
| "digits_value b dig (c # cs) acc = digits_value b dig cs (acc * b + unat (the (dig c)))"

lemma digits_value_ge: "1 \<le> b \<Longrightarrow> acc \<le> digits_value b dig cs acc"
proof (induction cs arbitrary: acc)
  case (Cons c cs)
  have "acc \<le> acc * b + unat (the (dig c))" using Cons.prems by (simp add: trans_le_add1)
  also have "\<dots> \<le> digits_value b dig cs (acc * b + unat (the (dig c)))"
    using Cons by blast
  finally show ?case by simp
qed simp

lemma num_step:
  fixes r mx d b :: u64
  assumes "0 < unat b" "unat d \<le> unat mx"
  shows "(r > mx div b \<or> r * b > mx - d) \<longleftrightarrow> unat mx < unat r * unat b + unat d"
    and "\<not> (r > mx div b \<or> r * b > mx - d) \<Longrightarrow> unat (r * b + d) = unat r * unat b + unat d"
proof -
  have div: "r > mx div b \<longleftrightarrow> unat mx < unat r * unat b"
  proof -
    have "r > mx div b \<longleftrightarrow> unat mx div unat b < unat r"
      by (simp add: word_less_nat_alt unat_div)
    also have "\<dots> \<longleftrightarrow> unat mx < unat r * unat b" using assms(1) by (rule div_less_iff_less_mult)
    finally show ?thesis .
  qed
  have mul: "unat (r * b) = unat r * unat b" if "\<not> r > mx div b"
  proof -
    have "unat r * unat b < 2 ^ LENGTH(64)"
      using that div unsigned_less [of mx, where ?'a = nat] by (metis le_less_trans not_less)
    then show ?thesis by (simp add: unat_word_ariths)
  qed
  have sub: "unat (mx - d) = unat mx - unat d"
    using assms(2) by (simp add: unat_sub word_le_nat_alt)
  have "\<not> r > mx div b \<Longrightarrow> r * b > mx - d \<longleftrightarrow> unat mx < unat r * unat b + unat d"
    using mul sub assms(2) by (auto simp: word_less_nat_alt)
  then show 1: "(r > mx div b \<or> r * b > mx - d) \<longleftrightarrow> unat mx < unat r * unat b + unat d"
    using div by auto
  assume ok: "\<not> (r > mx div b \<or> r * b > mx - d)"
  then have "unat r * unat b + unat d < 2 ^ LENGTH(64)"
    using 1 unsigned_less [of mx, where ?'a = nat] by (metis le_less_trans not_less)
  then show "unat (r * b + d) = unat r * unat b + unat d"
    using ok mul by (metis unat_add_lem)
qed

lemma num_loop_value:
  assumes "0 < unat b" "\<And>c d. dig c = Some d \<Longrightarrow> unat d < unat b" "unat b \<le> unat mx"
  shows "num_loop b dig mx cs r nd =
    (let ds = takeWhile (\<lambda>c. dig c \<noteq> None) cs; v = digits_value (unat b) dig ds (unat r)
     in if ds = [] then Some (r, nd, cs)
        else if unat mx < v then None
        else Some (of_nat v, nd + length ds, dropWhile (\<lambda>c. dig c \<noteq> None) cs))"
proof (induction cs arbitrary: r nd)
  case (Cons c cs)
  show ?case
  proof (cases "dig c")
    case (Some d)
    have d: "unat d \<le> unat mx" using assms(2) [OF Some] assms(3) by simp
    show ?thesis
    proof (cases "r > mx div b \<or> r * b > mx - d")
      case True
      then have "unat mx < unat r * unat b + unat d" using num_step(1) [OF assms(1) d] by blast
      also have "\<dots> \<le> digits_value (unat b) dig (takeWhile (\<lambda>c. dig c \<noteq> None) cs)
          (unat r * unat b + unat d)"
        using assms(1) by (intro digits_value_ge) simp
      finally show ?thesis using True Some by (auto simp: Let_def)
    next
      case False
      note step = num_step(2) [OF assms(1) d False]
      have "unat (r * b + d) \<le> unat mx" using False num_step(1) [OF assms(1) d] step by simp
      moreover have "cs = dropWhile P cs" if "takeWhile P cs = []" for P
        using that by (metis append.left_neutral takeWhile_dropWhile_id)
      ultimately show ?thesis
        using Some False Cons.IH [of "r * b + d" "Suc nd"] step by (auto simp: Let_def)
    qed
  qed (simp add: Let_def)
qed (simp add: Let_def)

lemma digit2_bound: "digit2 c = Some d \<Longrightarrow> unat d < unat (2 :: u64)"
  by (auto simp: digit2_def split: if_splits)

lemma digit10_bound: "digit10 c = Some d \<Longrightarrow> unat d < unat (10 :: u64)"
proof -
  assume "digit10 c = Some d"
  then have "48 \<le> unat c" "unat c \<le> 57" "unat d = unat (c - 48)"
    by (auto simp: digit10_def word_le_nat_alt split: if_splits)
  then show ?thesis by (simp add: unat_sub word_le_nat_alt)
qed


lemma digit16_bound: "digit16 c = Some d \<Longrightarrow> unat d < unat (16 :: u64)"
proof -
  assume "digit16 c = Some d"
  then consider "48 \<le> unat c" "unat c \<le> 57" "unat d = unat (c - 48)"
    | "65 \<le> unat c" "unat c \<le> 70" "unat d = unat (c - 55)"
    | "97 \<le> unat c" "unat c \<le> 102" "unat d = unat (c - 87)"
    by (auto simp: digit16_def word_le_nat_alt split: if_splits)
  then show ?thesis by cases (simp_all add: unat_sub word_le_nat_alt)
qed

definition digit_of :: "nat \<Rightarrow> u8 \<Rightarrow> u64 option" where
  "digit_of base = (if base = 2 then digit2 else if base = 10 then digit10 else digit16)"

lemma digit_of_bound: "base \<in> {2, 10, 16} \<Longrightarrow> digit_of base c = Some d \<Longrightarrow> unat d < base"
  using digit2_bound digit10_bound digit16_bound by (auto simp: digit_of_def)

lemma unat_num_max: "val_len \<in> {1, 2, 4, 8} \<Longrightarrow> unat (num_max val_len) = 2 ^ (8 * val_len) - 1"
  by (auto simp: num_max_def unsigned_minus_1_eq_mask mask_eq_exp_minus_1)

lemma num_max_8: "num_max val_len = -1 \<and> val_len \<noteq> 8 \<longleftrightarrow> val_len \<notin> {1, 2, 4, 8}"
  by (auto simp: num_max_def)

lemma mg_str_to_num_loop:
  assumes "base \<in> {2, 10, 16}" "val_len \<in> {1, 2, 4, 8}"
  shows "mg_str_to_num str base val_len =
    (case num_loop (of_nat base) (digit_of base) (num_max val_len) str 0 0 of
       None \<Rightarrow> None
     | Some (result, nd, rest) \<Rightarrow>
         if nd = 0 \<or> rest \<noteq> [] then None else Some (take_bit (8 * val_len) result))"
proof -
  have "base \<noteq> 0" using assms(1) by auto
  then have pre: "num_prefix str base = (base, str)" "num_max val_len = -1 \<longrightarrow> val_len = 8"
    using assms(2) num_max_8 [of val_len] by (simp_all add: num_prefix_def)
  from assms(1) consider "base = 2" | "base = 10" | "base = 16" by blast
  then show ?thesis
  proof cases
    case 1
    then show ?thesis using pre by (simp add: mg_str_to_num_def digit_of_def split: option.split Option.bind_splits)
  next
    case 2
    then show ?thesis using pre by (simp add: mg_str_to_num_def digit_of_def split: option.split Option.bind_splits)
  next
    case 3
    then show ?thesis using pre by (simp add: mg_str_to_num_def digit_of_def split: option.split Option.bind_splits)
  qed
qed

text \<open>
  \<open>mg_str_to_num\<close> accepts exactly the non-empty digit strings of its base whose value
  fits the destination, and returns that value; the overflow checks are neither too strict
  nor too weak.
\<close>

theorem mg_str_to_num_exact:
  assumes "base \<in> {2, 10, 16}" "val_len \<in> {1, 2, 4, 8}"
  shows "mg_str_to_num str base val_len =
    (if str \<noteq> [] \<and> list_all (\<lambda>c. digit_of base c \<noteq> None) str
        \<and> digits_value base (digit_of base) str 0 < 2 ^ (8 * val_len)
     then Some (of_nat (digits_value base (digit_of base) str 0)) else None)"
proof -
  let ?dig = "digit_of base" and ?mx = "num_max val_len"
  have b: "unat (of_nat base :: u64) = base" using assms(1) by auto
  have mx: "unat ?mx = 2 ^ (8 * val_len) - 1" by (rule unat_num_max [OF assms(2)])
  then have le: "unat (of_nat base :: u64) \<le> unat ?mx" using assms b by auto
  have lt: "unat ?mx < v \<longleftrightarrow> \<not> v < 2 ^ (8 * val_len)" for v
    unfolding mx using zero_less_power [of "2 :: nat" "8 * val_len"] by linarith
  have fit: "take_bit (8 * val_len) (of_nat v :: u64) = of_nat v" if "v < 2 ^ (8 * val_len)" for v
    unfolding take_bit_of_nat take_bit_nat_eq_self [OF that] ..
  have tw: "takeWhile (\<lambda>c. ?dig c \<noteq> None) str = str \<and> dropWhile (\<lambda>c. ?dig c \<noteq> None) str = []"
    if "list_all (\<lambda>c. ?dig c \<noteq> None) str"
    using that by (simp add: list_all_iff takeWhile_eq_all_conv)
  have dw: "dropWhile (\<lambda>c. ?dig c \<noteq> None) str \<noteq> []" if "\<not> list_all (\<lambda>c. ?dig c \<noteq> None) str"
    using that by (auto simp: list_all_iff)
  have loop: "num_loop (of_nat base) ?dig ?mx str 0 0 =
    (let ds = takeWhile (\<lambda>c. ?dig c \<noteq> None) str; v = digits_value base ?dig ds 0
     in if ds = [] then Some (0, 0, str)
        else if unat ?mx < v then None
        else Some (of_nat v, length ds, dropWhile (\<lambda>c. ?dig c \<noteq> None) str))"
    using num_loop_value [of "of_nat base" ?dig ?mx str 0 0] b le digit_of_bound [OF assms(1)] assms(1)
    by (auto simp: Let_def)
  show ?thesis
  proof (cases "list_all (\<lambda>c. ?dig c \<noteq> None) str")
    case True
    show ?thesis
      unfolding mg_str_to_num_loop [OF assms] loop tw [OF True, THEN conjunct1]
        tw [OF True, THEN conjunct2] Let_def lt
      using fit True by (cases "str = []") simp_all
  next
    case False
    show ?thesis
      unfolding mg_str_to_num_loop [OF assms] loop Let_def
      using dw [OF False] False by (simp only: if_False simp_thms split: if_split option.split) simp
  qed
qed

theorem mg_str_to_num_exact_witness:
  "mg_str_to_num (cstr ''65535'') 10 2 = Some 65535 \<and> mg_str_to_num (cstr ''65536'') 10 2 = None"
proof -
  have v: "digits_value 10 (digit_of 10) (cstr ''65535'') 0 = 65535"
     "digits_value 10 (digit_of 10) (cstr ''65536'') 0 = 65536"
     "list_all (\<lambda>c. digit_of 10 c \<noteq> None) (cstr ''65535'')"
    by (simp_all add: digit_of_def digit10_def)
  show ?thesis
    using mg_str_to_num_exact [of 10 2 "cstr ''65535''"] mg_str_to_num_exact [of 10 2 "cstr ''65536''"] v
    by simp
qed

end
