(* ===== verification/Mg_Base64.thy ===== *)
theory Mg_Base64
  imports C_String
begin

text \<open>
  Base64 (\<open>mongoose/mongoose.c\<close>, section \<open>base64.c\<close>). The destination is a checked array:
  the encoder keeps the bits of an unfinished character in the byte behind what it has
  written, so its bounds are part of what is proved.
\<close>

definition mg_base64_encode_single :: "u8 \<Rightarrow> u8" where
  "mg_base64_encode_single c =
     (if c < 26 then c + c8 CHR ''A''
      else if c < 52 then c - 26 + c8 CHR ''a''
      else if c < 62 then c - 52 + c8 CHR ''0''
      else if c = 62 then c8 CHR ''+'' else c8 CHR ''/'')"

definition mg_base64_decode_single :: "u8 \<Rightarrow> int" where
  "mg_base64_decode_single c =
     (if c \<ge> c8 CHR ''A'' \<and> c \<le> c8 CHR ''Z'' then uint c - 65
      else if c \<ge> c8 CHR ''a'' \<and> c \<le> c8 CHR ''z'' then uint c + 26 - 97
      else if c \<ge> c8 CHR ''0'' \<and> c \<le> c8 CHR ''9'' then uint c + 52 - 48
      else if c = c8 CHR ''+'' then 62
      else if c = c8 CHR ''/'' then 63
      else if c = c8 CHR ''='' then 64
      else -1)"

definition mg_base64_update :: "u8 \<Rightarrow> bytes \<Rightarrow> nat \<Rightarrow> (bytes \<times> nat) option" where
  "mg_base64_update ch to n =
     (let rem = (n mod 4) mod 3
      in if rem = 0 then do {
           to \<leftarrow> aput to n (mg_base64_encode_single (drop_bit 2 ch));
           to \<leftarrow> aput to (n + 1) (push_bit 4 (ch AND 3));
           Some (to, n + 1) }
         else if rem = 1 then do {
           c \<leftarrow> aget to n;
           to \<leftarrow> aput to n (mg_base64_encode_single (c OR drop_bit 4 ch));
           to \<leftarrow> aput to (n + 1) (push_bit 2 (ch AND 15));
           Some (to, n + 1) }
         else do {
           c \<leftarrow> aget to n;
           to \<leftarrow> aput to n (mg_base64_encode_single (c OR drop_bit 6 ch));
           to \<leftarrow> aput to (n + 1) (mg_base64_encode_single (ch AND 63));
           Some (to, n + 2) })"

text \<open>\<open>while (n & 3) to[n++] = '='\<close>; at most three rounds are needed.\<close>

fun pad_loop :: "nat \<Rightarrow> bytes \<Rightarrow> nat \<Rightarrow> (bytes \<times> nat) option" where
  "pad_loop fuel to n =
     (if n mod 4 = 0 then Some (to, n)
      else case fuel of 0 \<Rightarrow> None
           | Suc f \<Rightarrow> do { to \<leftarrow> aput to n (c8 CHR ''=''); pad_loop f to (n + 1) })"

definition mg_base64_final :: "bytes \<Rightarrow> nat \<Rightarrow> (bytes \<times> nat) option" where
  "mg_base64_final to n = do {
     (to1, n1) \<leftarrow> (if n mod 4 \<noteq> 0 then mg_base64_update 0 to n else Some (to, n));
     let n2 = (if n mod 4 = 2 then n1 - 1 else n1);
     (to2, n3) \<leftarrow> pad_loop 3 to1 n2;
     to3 \<leftarrow> aput to2 n3 0;
     Some (to3, n3) }"

fun encode_loop :: "bytes \<Rightarrow> bytes \<Rightarrow> nat \<Rightarrow> (bytes \<times> nat) option" where
  "encode_loop [] to len = Some (to, len)"
| "encode_loop (c # p) to len = do {
     (to, len) \<leftarrow> mg_base64_update c to len;
     encode_loop p to len }"

text \<open>\<open>dl\<close> is the length of the destination array \<open>to\<close>.\<close>

definition mg_base64_encode :: "bytes \<Rightarrow> bytes \<Rightarrow> (bytes \<times> nat) option" where
  "mg_base64_encode p to =
     (let n = length p; dl = length to;
          to0 = (if dl > 0 then to[0 := 0] else to)
      in if dl < (n div 3 + (if n mod 3 \<noteq> 0 then 1 else 0)) * 4 + 1 then Some (to0, 0)
         else do { (to1, len) \<leftarrow> encode_loop p to0 0; mg_base64_final to1 len })"

definition base64_fail :: "bytes \<Rightarrow> bytes \<times> nat" where
  "base64_fail dst = (if length dst > 0 then dst[0 := 0] else dst, 0)"

fun decode_loop :: "bytes \<Rightarrow> bytes \<Rightarrow> nat \<Rightarrow> (bytes \<times> nat) option" where
  "decode_loop (s0 # s1 # s2 # s3 # src) dst len =
     (let a = mg_base64_decode_single s0; b = mg_base64_decode_single s1;
          c = mg_base64_decode_single s2; d = mg_base64_decode_single s3
      in if a = 64 \<or> a < 0 \<or> b = 64 \<or> b < 0 \<or> c < 0 \<or> d < 0 then Some (base64_fail dst)
         else do {
           dst1 \<leftarrow> aput dst len (of_int (push_bit 2 a OR drop_bit 4 b));
           (dst2, len2) \<leftarrow>
             (if s2 \<noteq> c8 CHR ''='' then do {
                dst2 \<leftarrow> aput dst1 (len + 1) (of_int (push_bit 4 b OR drop_bit 2 c));
                if s3 \<noteq> c8 CHR ''='' then do {
                  dst3 \<leftarrow> aput dst2 (len + 2) (of_int (push_bit 6 c OR d));
                  Some (dst3, len + 3) }
                else Some (dst2, len + 2) }
              else Some (dst1, len + 1));
           decode_loop src dst2 len2 })"
| "decode_loop _ dst len = do { dst \<leftarrow> aput dst len 0; Some (dst, len) }"

text \<open>\<open>src\<close> is not null; \<open>dl\<close> is the length of \<open>dst\<close>.\<close>

definition mg_base64_decode :: "bytes \<Rightarrow> bytes \<Rightarrow> (bytes \<times> nat) option" where
  "mg_base64_decode src dst =
     (if length dst < length src div 4 * 3 + 1 then Some (base64_fail dst)
      else decode_loop src dst 0)"


declare pad_loop.simps [simp del]

subsection \<open>The reference encoding\<close>

abbreviation b64e :: "u8 \<Rightarrow> u8" where "b64e \<equiv> mg_base64_encode_single"

fun b64 :: "bytes \<Rightarrow> bytes" where
  "b64 [] = []"
| "b64 [a] = [b64e (drop_bit 2 a), b64e (push_bit 4 (a AND 3)), c8 CHR ''='', c8 CHR ''='']"
| "b64 [a, b] =
     [b64e (drop_bit 2 a), b64e (push_bit 4 (a AND 3) OR drop_bit 4 b),
      b64e (push_bit 2 (b AND 15)), c8 CHR ''='']"
| "b64 (a # b # c # r) =
     [b64e (drop_bit 2 a), b64e (push_bit 4 (a AND 3) OR drop_bit 4 b),
      b64e (push_bit 2 (b AND 15) OR drop_bit 6 c), b64e (c AND 63)] @ b64 r"

lemma length_b64: "length (b64 p) = (length p div 3 + (if length p mod 3 \<noteq> 0 then 1 else 0)) * 4"
  by (induction p rule: b64.induct) auto

text \<open>The buffer is split at the write position, so each update rewrites its head.\<close>

lemma aput_append [simp]: "aput (pre @ x # r) (length pre) v = Some (pre @ v # r)"
  and aput_append1 [simp]: "aput (pre @ x # y # r) (Suc (length pre)) v = Some (pre @ x # v # r)"
  and aget_append [simp]: "aget (pre @ x # r) (length pre) = Some x"
  by (simp_all add: aput_def aget_def list_update_append nth_append)

lemma update_0:
  "n = length pre \<Longrightarrow> n mod 4 = 0 \<Longrightarrow>
   mg_base64_update a (pre @ x # y # r) n =
     Some ((pre @ [b64e (drop_bit 2 a)]) @ push_bit 4 (a AND 3) # r, Suc n)"
  by (simp add: mg_base64_update_def)

lemma update_1:
  "n = length pre \<Longrightarrow> n mod 4 = 1 \<Longrightarrow>
   mg_base64_update b (pre @ x # y # r) n =
     Some ((pre @ [b64e (x OR drop_bit 4 b)]) @ push_bit 2 (b AND 15) # r, Suc n)"
  by (simp add: mg_base64_update_def)

lemma update_2:
  "n = length pre \<Longrightarrow> n mod 4 = 2 \<Longrightarrow>
   mg_base64_update c (pre @ x # y # r) n =
     Some ((pre @ [b64e (x OR drop_bit 6 c)]) @ b64e (c AND 63) # r, Suc (Suc n))"
  by (simp add: mg_base64_update_def)

lemma mod4_Suc:
  "n mod 4 = 0 \<Longrightarrow> Suc n mod 4 = 1 \<and> Suc (Suc n) mod 4 = 2 \<and> Suc (Suc (Suc n)) mod 4 = (3 :: nat)"
  by presburger

lemma encode_loop_group:
  assumes "length pre mod 4 = 0"
  shows "encode_loop (a # b # c # p) (pre @ w # x # y # z # r) (length pre) =
     encode_loop p ((pre @ take 4 (b64 (a # b # c # p))) @ r) (Suc (Suc (Suc (Suc (length pre)))))"
  using mod4_Suc [OF assms] assms
    update_1 [of _ "pre @ [b64e (drop_bit 2 a)]"]
    update_2 [of _ "pre @ [b64e (drop_bit 2 a), b64e (push_bit 4 (a AND 3) OR drop_bit 4 b)]"]
  by (simp add: update_0)

definition encoder_output :: "bytes \<Rightarrow> bytes \<Rightarrow> nat \<Rightarrow> (bytes \<times> nat) option" where
  "encoder_output p to n = do { (t, l) \<leftarrow> encode_loop p to n; mg_base64_final t l }"

lemma pad_0: "n mod 4 = 0 \<Longrightarrow> pad_loop f to n = Some (to, n)"
  by (subst pad_loop.simps) simp

lemma pad_3:
  "n = length pre \<Longrightarrow> n mod 4 = 3 \<Longrightarrow>
   pad_loop (Suc f) (pre @ x # r) n = Some (pre @ c8 CHR ''='' # r, Suc n)"
proof -
  assume n: "n = length pre" "n mod 4 = 3"
  then have "Suc n mod 4 = 0" by presburger
  then show ?thesis using n by (subst pad_loop.simps) (simp add: pad_0)
qed

lemma pad_2:
  "n = length pre \<Longrightarrow> n mod 4 = 2 \<Longrightarrow>
   pad_loop (Suc (Suc f)) (pre @ x # y # r) n =
     Some (pre @ c8 CHR ''='' # c8 CHR ''='' # r, Suc (Suc n))"
proof -
  assume n: "n = length pre" "n mod 4 = 2"
  then have "Suc n mod 4 = 3" by presburger
  then have "pad_loop (Suc f) ((pre @ [c8 CHR ''='']) @ y # r) (Suc n) =
      Some ((pre @ [c8 CHR ''='']) @ c8 CHR ''='' # r, Suc (Suc n))"
    using n by (intro pad_3) simp_all
  then show ?thesis using n by (subst pad_loop.simps) (simp)
qed

lemma list_ge_5: "5 \<le> length r \<Longrightarrow> \<exists>w x y z v r'. r = w # x # y # z # v # r'"
  by (auto simp: numeral_eq_Suc Suc_le_length_iff)

lemma final_1:
  "\<lbrakk> n mod 4 = 1; mg_base64_update 0 to n = Some (to1, n1); pad_loop 3 to1 n1 = Some (to2, n3);
     aput to2 n3 0 = Some to3 \<rbrakk> \<Longrightarrow> mg_base64_final to n = Some (to3, n3)"
  by (simp add: mg_base64_final_def)

lemma final_2:
  "\<lbrakk> n mod 4 = 2; mg_base64_update 0 to n = Some (to1, Suc n1); pad_loop 3 to1 n1 = Some (to2, n3);
     aput to2 n3 0 = Some to3 \<rbrakk> \<Longrightarrow> mg_base64_final to n = Some (to3, n3)"
  by (simp add: mg_base64_final_def)

lemma encoder_output_1:
  assumes "length pre mod 4 = 0"
  shows "encoder_output [a] (pre @ w # x # y # z # v # r) (length pre) =
     Some (pre @ b64 [a] @ 0 # r, Suc (Suc (Suc (Suc (length pre)))))"
proof -
  note m = mod4_Suc [OF assms]
  let ?e0 = "b64e (drop_bit 2 a)" and ?bits = "push_bit 4 (a AND 3)"
  have u: "mg_base64_update 0 ((pre @ [?e0]) @ ?bits # y # z # v # r) (Suc (length pre)) =
     Some (((pre @ [?e0]) @ [b64e ?bits]) @ 0 # z # v # r, Suc (Suc (length pre)))"
    using update_1 [of "Suc (length pre)" "pre @ [?e0]" 0] m by simp
  have p: "pad_loop 3 ((pre @ [?e0, b64e ?bits]) @ 0 # z # v # r) (Suc (Suc (length pre))) =
     Some ((pre @ [?e0, b64e ?bits]) @ c8 CHR ''='' # c8 CHR ''='' # v # r, Suc (Suc (Suc (Suc (length pre)))))"
    unfolding numeral_3_eq_3 by (rule pad_2) (simp, rule m [THEN conjunct2, THEN conjunct1])
  have e: "encode_loop [a] (pre @ w # x # y # z # v # r) (length pre) =
     Some ((pre @ [?e0]) @ ?bits # y # z # v # r, Suc (length pre))"
    using update_0 [OF refl assms, of a w x] by simp
  have "mg_base64_final ((pre @ [?e0]) @ ?bits # y # z # v # r) (Suc (length pre)) =
     Some (pre @ b64 [a] @ 0 # r, Suc (Suc (Suc (Suc (length pre)))))"
  proof (rule final_1 [OF conjunct1 [OF m] u])
    show "pad_loop 3 (((pre @ [?e0]) @ [b64e ?bits]) @ 0 # z # v # r) (Suc (Suc (length pre))) =
       Some ((pre @ [?e0, b64e ?bits]) @ c8 CHR ''='' # c8 CHR ''='' # v # r,
         Suc (Suc (Suc (Suc (length pre)))))"
      using p by (simp only: append_assoc append_Cons append_Nil)
  qed (use aput_append [of "pre @ [?e0, b64e ?bits, c8 CHR ''='', c8 CHR ''='']" v r 0] in simp)
  then show ?thesis unfolding encoder_output_def e by simp
qed

lemma encoder_output_2:
  assumes "length pre mod 4 = 0"
  shows "encoder_output [a, b] (pre @ w # x # y # z # v # r) (length pre) =
     Some (pre @ b64 [a, b] @ 0 # r, Suc (Suc (Suc (Suc (length pre)))))"
proof -
  note m = mod4_Suc [OF assms]
  let ?e0 = "b64e (drop_bit 2 a)" and ?e1 = "b64e (push_bit 4 (a AND 3) OR drop_bit 4 b)"
    and ?bits = "push_bit 2 (b AND 15)"
  have u1: "mg_base64_update b ((pre @ [?e0]) @ push_bit 4 (a AND 3) # y # z # v # r) (Suc (length pre)) =
     Some (((pre @ [?e0]) @ [?e1]) @ ?bits # z # v # r, Suc (Suc (length pre)))"
    using update_1 [of "Suc (length pre)" "pre @ [?e0]" b] m by simp
  have u2: "mg_base64_update 0 ((pre @ [?e0, ?e1]) @ ?bits # z # v # r) (Suc (Suc (length pre))) =
     Some (((pre @ [?e0, ?e1]) @ [b64e ?bits]) @ b64e 0 # v # r, Suc (Suc (Suc (Suc (length pre)))))"
    using update_2 [of "Suc (Suc (length pre))" "pre @ [?e0, ?e1]" 0] m by simp
  have p: "pad_loop 3 ((pre @ [?e0, ?e1, b64e ?bits]) @ b64e 0 # v # r) (Suc (Suc (Suc (length pre)))) =
     Some ((pre @ [?e0, ?e1, b64e ?bits]) @ c8 CHR ''='' # v # r, Suc (Suc (Suc (Suc (length pre)))))"
    unfolding numeral_3_eq_3 by (rule pad_3) (simp, rule m [THEN conjunct2, THEN conjunct2])
  have e: "encode_loop [a, b] (pre @ w # x # y # z # v # r) (length pre) =
     Some ((pre @ [?e0, ?e1]) @ ?bits # z # v # r, Suc (Suc (length pre)))"
    using update_0 [OF refl assms, of a w x] u1 by simp
  have "mg_base64_final ((pre @ [?e0, ?e1]) @ ?bits # z # v # r) (Suc (Suc (length pre))) =
     Some (pre @ b64 [a, b] @ 0 # r, Suc (Suc (Suc (Suc (length pre)))))"
  proof (rule final_2 [OF conjunct1 [OF conjunct2 [OF m]] u2])
    show "pad_loop 3 (((pre @ [?e0, ?e1]) @ [b64e ?bits]) @ b64e 0 # v # r) (Suc (Suc (Suc (length pre)))) =
       Some ((pre @ [?e0, ?e1, b64e ?bits]) @ c8 CHR ''='' # v # r, Suc (Suc (Suc (Suc (length pre)))))"
      using p by (simp only: append_assoc append_Cons append_Nil)
  qed (use aput_append [of "pre @ [?e0, ?e1, b64e ?bits, c8 CHR ''='']" v r 0] in simp)
  then show ?thesis unfolding encoder_output_def e by simp
qed

lemma encoder_output_correct:
  assumes "length pre mod 4 = 0" "length (b64 p) < length r"
  shows "encoder_output p (pre @ r) (length pre) =
     Some (pre @ b64 p @ 0 # drop (Suc (length (b64 p))) r, length pre + length (b64 p))"
  using assms
proof (induction p arbitrary: pre r rule: b64.induct)
  case 1
  then obtain x r' where "r = x # r'" by (cases r) auto
  then show ?case
    using 1 by (simp add: encoder_output_def mg_base64_final_def pad_0)
next
  case (2 a)
  then obtain w x y z v r' where "r = w # x # y # z # v # r'" using list_ge_5 [of r] by auto
  then show ?case using encoder_output_1 [OF 2(1)] by simp
next
  case (3 a b)
  then obtain w x y z v r' where "r = w # x # y # z # v # r'" using list_ge_5 [of r] by auto
  then show ?case using encoder_output_2 [OF 3(1)] by simp
next
  case (4 a b c p)
  then obtain w x y z v r' where r: "r = w # x # y # z # v # r'" using list_ge_5 [of r] by auto
  let ?pre = "pre @ take 4 (b64 (a # b # c # p))"
  have "encoder_output p (?pre @ v # r') (length ?pre) =
     Some (?pre @ b64 p @ 0 # drop (Suc (length (b64 p))) (v # r'), length ?pre + length (b64 p))"
    using 4 r by (intro 4(1)) simp_all
  then show ?case
    using encode_loop_group [OF 4(2), of a b c p w x y z "v # r'"] r
    by (simp add: encoder_output_def del: encode_loop.simps)
qed

lemma mg_base64_encode_correct':
  "mg_base64_encode p to =
     (if length (b64 p) < length to
      then Some (b64 p @ 0 # drop (Suc (length (b64 p))) to, length (b64 p))
      else Some (if to = [] then [] else to[0 := 0], 0))"
proof -
  have small: "length to < (length p div 3 + (if length p mod 3 \<noteq> 0 then 1 else 0)) * 4 + 1
      \<longleftrightarrow> \<not> length (b64 p) < length to"
    unfolding length_b64 by linarith
  have "encoder_output p (to[0 := 0]) 0 =
      Some (b64 p @ 0 # drop (Suc (length (b64 p))) (to[0 := 0]), length (b64 p))"
    if "length (b64 p) < length to"
    using that encoder_output_correct [of "[]" p "to[0 := 0]"] by simp
  moreover have "drop (Suc n) (to[0 := 0]) = drop (Suc n) to" for n
    by (cases to) auto
  ultimately show ?thesis
    unfolding mg_base64_encode_def Let_def small
    by (auto simp: encoder_output_def)
qed

text \<open>
  With a destination of at least four bytes per started group of three plus one,
  \<open>mg_base64_encode\<close> stays inside it, writes the Base64 text of the data and a terminator,
  leaves the rest of the buffer alone and returns the length of the text; a smaller
  destination is refused with length 0.
\<close>

theorem mg_base64_encode_correct:
  "mg_base64_encode p to =
     (if length (b64 p) < length to
      then Some (b64 p @ 0 # drop (Suc (length (b64 p))) to, length (b64 p))
      else Some (if to = [] then [] else to[0 := 0], 0))"
  by (rule mg_base64_encode_correct')


subsection \<open>Decoding what was encoded\<close>

lemma decode_encode_all:
  "list_all (\<lambda>n. mg_base64_decode_single (b64e (of_nat n)) = int n
      \<and> b64e (of_nat n) \<noteq> c8 CHR ''='') [0..<64]"
  by code_simp

lemma decode_encode_single:
  assumes "unat x < 64"
  shows "mg_base64_decode_single (b64e x) = uint x" "b64e x \<noteq> c8 CHR ''=''"
proof -
  have "mg_base64_decode_single (b64e (of_nat (unat x))) = int (unat x)
      \<and> b64e (of_nat (unat x)) \<noteq> c8 CHR ''=''"
    using decode_encode_all assms unfolding list_all_iff by (metis atLeast0LessThan atLeast_upt lessThan_iff)
  then show "mg_base64_decode_single (b64e x) = uint x" "b64e x \<noteq> c8 CHR ''=''" by simp_all
qed

lemma low_bits:
  "(a :: u8) AND 3 = take_bit 2 a" "(a :: u8) AND 15 = take_bit 4 a" "(a :: u8) AND 63 = take_bit 6 a"
  by (simp_all add: take_bit_eq_mask mask_eq_exp_minus_1)

lemmas byte_bits = bit_take_bit_iff bit_or_iff bit_push_bit_iff bit_drop_bit_eq bit_unsigned_iff
  bit_word_of_int_iff

lemma byte_eqI: "(\<And>n. n < 8 \<Longrightarrow> bit (v :: u8) n = bit w n) \<Longrightarrow> v = w"
  by (rule bit_word_eqI) simp

lemma lt_64:
  assumes "\<And>n. bit (w :: u8) n \<Longrightarrow> n < 6"
  shows "unat w < 64"
proof -
  have "take_bit 6 w = w" by (rule byte_eqI) (use assms in \<open>auto simp: bit_take_bit_iff\<close>)
  then have "unat w = take_bit 6 (unat w)" by (metis unsigned_take_bit_eq)
  then show ?thesis using take_bit_nat_less_exp [of 6 "unat w"] by simp
qed

lemma no_high_bit: "bit (w :: u8) n \<Longrightarrow> n < 8"
  using bit_imp_le_length [of w n] by simp

lemma high_bit [simp]: "8 \<le> n \<Longrightarrow> \<not> bit (w :: u8) n"
  using no_high_bit by (metis linorder_not_le)

lemma byte_eq8I:
  "\<lbrakk> bit v 0 = bit w 0; bit v 1 = bit w 1; bit v 2 = bit w 2; bit v 3 = bit w 3;
     bit v 4 = bit w 4; bit v 5 = bit w 5; bit v 6 = bit w 6; bit v 7 = bit w 7 \<rbrakk> \<Longrightarrow> (v :: u8) = w"
  by (rule byte_eqI) (auto simp: less_Suc_eq numeral_eq_Suc)

lemma sextet:
  "unat (drop_bit 2 a :: u8) < 64"
  "unat (push_bit 4 (a AND 3) OR drop_bit 4 b :: u8) < 64"
  "unat (push_bit 4 (a AND 3) :: u8) < 64"
  "unat (push_bit 2 (b AND 15) OR drop_bit 6 c :: u8) < 64"
  "unat (push_bit 2 (b AND 15) :: u8) < 64"
  "unat (c AND 63 :: u8) < 64"
  unfolding low_bits by (rule lt_64; auto simp: byte_bits dest: no_high_bit)+

lemma join_bytes:
  "of_int (push_bit 2 (uint (drop_bit 2 a :: u8)) OR
     drop_bit 4 (uint (push_bit 4 (a AND 3) OR drop_bit 4 b :: u8))) = a"
  "of_int (push_bit 4 (uint (push_bit 4 (a AND 3) OR drop_bit 4 b :: u8)) OR
     drop_bit 2 (uint (push_bit 2 (b AND 15) OR drop_bit 6 c :: u8))) = b"
  "of_int (push_bit 6 (uint (push_bit 2 (b AND 15) OR drop_bit 6 c :: u8)) OR uint (c AND 63 :: u8)) = c"
  unfolding low_bits
  by (rule byte_eq8I; simp add: byte_bits)+


lemma aput_append2 [simp]:
  "aput (pre @ x # y # z # r) (Suc (Suc (length pre))) v = Some (pre @ x # y # v # r)"
  by (simp add: aput_def list_update_append)

lemma eq_sign: "mg_base64_decode_single (c8 CHR ''='') = 64"
  by code_simp

lemma join_bytes_end:
  "of_int (push_bit 2 (uint (drop_bit 2 a :: u8)) OR drop_bit 4 (uint (push_bit 4 (a AND 3) :: u8))) = a"
  "of_int (push_bit 4 (uint (push_bit 4 (a AND 3) OR drop_bit 4 b :: u8)) OR
     drop_bit 2 (uint (push_bit 2 (b AND 15) :: u8))) = b"
  using join_bytes(1) [of a 0] join_bytes(2) [of a b 0] by simp_all

lemmas decoded = decode_encode_single [OF sextet(1)] decode_encode_single [OF sextet(2)]
  decode_encode_single [OF sextet(3)] decode_encode_single [OF sextet(4)]
  decode_encode_single [OF sextet(5)] decode_encode_single [OF sextet(6)]

lemma uint_not_64: "unat (x :: u8) < 64 \<Longrightarrow> uint x \<noteq> 64 \<and> \<not> uint x < 0"
  by (metis linorder_not_less of_nat_numeral order_less_irrefl uint_ge_0 nat_numeral unat_eq_nat_uint)

lemmas not_64 = uint_not_64 [OF sextet(1)] uint_not_64 [OF sextet(2)] uint_not_64 [OF sextet(3)]
  uint_not_64 [OF sextet(4)] uint_not_64 [OF sextet(5)] uint_not_64 [OF sextet(6)]

lemma decode_group_1:
  "decode_loop (b64 [a] @ s) (pre @ x # r) (length pre) = decode_loop s (pre @ a # r) (Suc (length pre))"
  unfolding b64.simps append.simps decode_loop.simps Let_def decoded eq_sign
  using not_64 join_bytes_end(1) [of a] by (simp del: push_bit_and)

lemma decode_group_2:
  "decode_loop (b64 [a, b] @ s) (pre @ x # y # r) (length pre) =
   decode_loop s (pre @ a # b # r) (Suc (Suc (length pre)))"
  unfolding b64.simps append.simps decode_loop.simps Let_def decoded eq_sign join_bytes(1) join_bytes_end(2)
  using not_64 decoded by (simp del: push_bit_and)

lemma take4_b64:
  "take 4 (b64 (a # b # c # p)) =
     [b64e (drop_bit 2 a), b64e (push_bit 4 (a AND 3) OR drop_bit 4 b),
      b64e (push_bit 2 (b AND 15) OR drop_bit 6 c), b64e (c AND 63)]"
  by simp

lemma decode_group_3:
  "decode_loop (take 4 (b64 (a # b # c # p)) @ s) (pre @ x # y # z # r) (length pre) =
   decode_loop s (pre @ a # b # c # r) (length pre + 3)"
  unfolding take4_b64 append.simps decode_loop.simps Let_def decoded eq_sign join_bytes
  using not_64 decoded by (simp del: push_bit_and)

lemma decode_loop_b64:
  assumes "length p < length r"
  shows "decode_loop (b64 p) (pre @ r) (length pre) =
     Some (pre @ p @ 0 # drop (Suc (length p)) r, length pre + length p)"
  using assms
proof (induction p arbitrary: pre r rule: b64.induct)
  case 1
  then obtain x r' where "r = x # r'" by (cases r) auto
  then show ?case by simp
next
  case (2 a)
  then obtain x y r' where "r = x # y # r'" by (auto simp: less_eq_Suc_le Suc_le_length_iff)
  then show ?case
    using decode_group_1 [of a "[]" pre x "y # r'"] aput_append [of "pre @ [a]" y r' 0] by simp
next
  case (3 a b)
  then obtain x y z r' where "r = x # y # z # r'" by (auto simp: less_eq_Suc_le Suc_le_length_iff)
  then show ?case
    using decode_group_2 [of a b "[]" pre x y "z # r'"] aput_append [of "pre @ [a, b]" z r' 0] by simp
next
  case (4 a b c p)
  then obtain x y z r' where r: "r = x # y # z # r'" "length p < length r'"
    by (auto simp: less_eq_Suc_le Suc_le_length_iff)
  have "b64 (a # b # c # p) = take 4 (b64 (a # b # c # p)) @ b64 p" by simp
  then have "decode_loop (b64 (a # b # c # p)) (pre @ r) (length pre) =
      decode_loop (b64 p) ((pre @ [a, b, c]) @ r') (length (pre @ [a, b, c]))"
    using decode_group_3 [of a b c p "b64 p" pre x y z r'] r(1) by (simp add: numeral_3_eq_3)
  also have "\<dots> = Some ((pre @ [a, b, c]) @ p @ 0 # drop (Suc (length p)) r', length (pre @ [a, b, c]) + length p)"
    by (rule 4(1) [OF r(2)])
  finally show ?case using r(1) by simp
qed

lemma decode_encoded:
  assumes "length (b64 p) div 4 * 3 < length dst"
  shows "mg_base64_decode (b64 p) dst = Some (p @ 0 # drop (Suc (length p)) dst, length p)"
proof -
  have "length p \<le> length (b64 p) div 4 * 3" unfolding length_b64 by (simp, presburger)
  then have "length p < length dst" using assms by simp
  then show ?thesis
    using decode_loop_b64 [of p dst "[]"] assms by (simp add: mg_base64_decode_def)
qed

text \<open>
  C20: Encoding followed by decoding gives the data back: for any data, a large enough
  destination for the encoder and one for the decoder, the decoder reads the text the encoder
  wrote, returns the length of the data and has written the data and a terminator.
\<close>

theorem base64_roundtrip:
  assumes "length (b64 p) < length to" "length (b64 p) div 4 * 3 < length dst"
  shows "\<exists>to' n. mg_base64_encode p to = Some (to', n)
     \<and> mg_base64_decode (take n to') dst = Some (p @ 0 # drop (Suc (length p)) dst, length p)"
  using assms decode_encoded [of p dst] by (simp add: mg_base64_encode_correct')

theorem base64_roundtrip_witness:
  "\<exists>to' n. mg_base64_encode [77, 97] (replicate 5 0) = Some (to', n)
     \<and> mg_base64_decode (take n to') [9, 9, 9, 9, 9] = Some ([77, 97, 0, 9, 9], Suc (Suc 0))"
  using base64_roundtrip [of "[77, 97]" "replicate 5 0" "[9, 9, 9, 9, 9]"] by simp

end
