(* ===== verification/Mg_Json.thy ===== *)
theory Mg_Json
  imports Mg_Str Mg_Base64
begin

text \<open>
  The JSON scanner of the web server (\<open>mongoose/mongoose.c\<close>, section \<open>json.c\<close>). The text is
  a byte list (a slice), the path a terminated string; \<^term>\<open>None\<close> is a read outside of
  either. Return codes are integers as in the code: an offset, or a negative error.
\<close>

definition MG_JSON_TOO_DEEP :: int where "MG_JSON_TOO_DEEP = -1"
definition MG_JSON_INVALID :: int where "MG_JSON_INVALID = -2"
definition MG_JSON_NOT_FOUND :: int where "MG_JSON_NOT_FOUND = -3"
definition MG_JSON_MAX_DEPTH :: nat where "MG_JSON_MAX_DEPTH = 30"

abbreviation dquote :: u8 where "dquote \<equiv> 34"
abbreviation bslash :: u8 where "bslash \<equiv> 92"

definition escapeseq :: "bool \<Rightarrow> bytes" where
  "escapeseq esc = (if esc then [8, 12, 10, 13, 9, bslash, dquote] else cstr ''bfnrt'' @ [bslash, dquote])"

fun esc_find :: "u8 \<Rightarrow> bytes \<Rightarrow> bytes \<Rightarrow> u8" where
  "esc_find c (p # ps) (q # qs) = (if p = c then q else esc_find c ps qs)"
| "esc_find c _ _ = 0"

definition json_esc :: "u8 \<Rightarrow> bool \<Rightarrow> u8" where
  "json_esc c esc = esc_find c (escapeseq esc) (escapeseq (\<not> esc))"

text \<open>The index of the closing quote.\<close>

fun mg_pass_string :: "bytes \<Rightarrow> nat option" where
  "mg_pass_string [] = None"
| "mg_pass_string [c] = (if c = 0 then None else if c = dquote then Some 0 else None)"
| "mg_pass_string (c # d # s) =
     (if c = bslash \<and> json_esc d True \<noteq> 0 then map_option (\<lambda>n. Suc (Suc n)) (mg_pass_string s)
      else if c = 0 then None
      else if c = dquote then Some 0
      else map_option Suc (mg_pass_string (d # s)))"

subsection \<open>Numbers\<close>

text \<open>
  \<open>mg_atod\<close> over an arithmetic of \<open>double\<close>, which is a parameter: the scanner's behaviour
  depends only on how many bytes a number has.
\<close>

record 'd darith =
  d_of_int :: "int \<Rightarrow> 'd"
  d_tenth :: 'd
  d_add :: "'d \<Rightarrow> 'd \<Rightarrow> 'd"
  d_mul :: "'d \<Rightarrow> 'd \<Rightarrow> 'd"
  d_div :: "'d \<Rightarrow> 'd \<Rightarrow> 'd"

definition jdigit :: "u8 \<Rightarrow> bool" where
  "jdigit c \<longleftrightarrow> c8 CHR ''0'' \<le> c \<and> c \<le> c8 CHR ''9''"

definition jdig :: "u8 \<Rightarrow> int" where
  "jdig c = uint c - 48"

fun atod_int :: "'d darith \<Rightarrow> 'd \<Rightarrow> bytes \<Rightarrow> 'd \<times> bytes" where
  "atod_int A d [] = (d, [])"
| "atod_int A d (c # cs) =
     (if jdigit c then atod_int A (d_add A (d_mul A d (d_of_int A 10)) (d_of_int A (jdig c))) cs
      else (d, c # cs))"

fun atod_frac :: "'d darith \<Rightarrow> 'd \<Rightarrow> 'd \<Rightarrow> bytes \<Rightarrow> 'd \<times> bytes" where
  "atod_frac A fr base [] = (fr, [])"
| "atod_frac A fr base (c # cs) =
     (if jdigit c
      then atod_frac A (d_add A fr (d_mul A base (d_of_int A (jdig c)))) (d_div A base (d_of_int A 10)) cs
      else (fr, c # cs))"

fun atod_exp :: "nat \<Rightarrow> bytes \<Rightarrow> nat \<times> bytes" where
  "atod_exp e [] = (e, [])"
| "atod_exp e (c # cs) =
     (if jdigit c \<and> e < 308 then atod_exp (e * 10 + nat (jdig c)) cs else (e, c # cs))"

definition skip_char :: "u8 \<Rightarrow> bytes \<Rightarrow> bool \<times> bytes" where
  "skip_char c p = (case p of x # xs \<Rightarrow> if x = c then (True, xs) else (False, p) | [] \<Rightarrow> (False, []))"

text \<open>The value and the rest behind the number; \<open>numlen\<close> is the difference of the lengths.\<close>

definition mg_atod :: "'d darith \<Rightarrow> bytes \<Rightarrow> 'd \<times> bytes" where
  "mg_atod A p =
     (let (neg, p1) = skip_char (c8 CHR ''-'') p;
          p2 = (if neg then p1 else snd (skip_char (c8 CHR ''+'') p1));
          sign = d_of_int A (if neg then -1 else 1);
          (d0, p3) = atod_int A (d_of_int A 0) p2;
          d1 = d_mul A d0 sign;
          (dot, p4) = skip_char (c8 CHR ''.'') p3;
          (d2, p5) = (if dot then let (fr, q) = atod_frac A (d_of_int A 0) (d_tenth A) p4
                                  in (d_add A d1 (d_mul A fr sign), q)
                      else (d1, p3));
          (is_e, p6) = (case p5 of c # cs \<Rightarrow> if c = c8 CHR ''e'' \<or> c = c8 CHR ''E'' then (True, cs) else (False, p5)
                                 | [] \<Rightarrow> (False, []))
      in if is_e then
           let (minus, p7) = skip_char (c8 CHR ''-'') p6;
               p8 = snd (skip_char (c8 CHR ''+'') p7);
               (e, p9) = atod_exp 0 p8
           in (if minus then ((\<lambda>d. d_div A d (d_of_int A 10)) ^^ e) d2
               else ((\<lambda>d. d_mul A d (d_of_int A 10)) ^^ e) d2, p9)
         else (d2, p5))"

text \<open>The length of a number, computed with the trivial arithmetic.\<close>

definition unit_arith :: "unit darith" where
  "unit_arith = \<lparr>d_of_int = (\<lambda>_. ()), d_tenth = (), d_add = (\<lambda>_ _. ()), d_mul = (\<lambda>_ _. ()), d_div = (\<lambda>_ _. ())\<rparr>"

definition numlen :: "bytes \<Rightarrow> nat" where
  "numlen p = length p - length (snd (mg_atod unit_arith p))"

subsection \<open>Finding a value\<close>

datatype expecting = S_VALUE | S_KEY | S_COLON | S_COMMA_OR_EOO

text \<open>
  The local variables of \<open>mg_json_get\<close>. The array \<open>nesting\<close> is the list of its first
  \<open>depth\<close> entries with the last one in front, so \<open>depth\<close> is its length.
\<close>

record jst =
  js_exp :: expecting
  js_i :: nat
  js_j :: nat
  js_nest :: bytes
  js_ed :: nat
  js_pos :: nat
  js_ci :: int
  js_ei :: int

abbreviation js_depth :: "jst \<Rightarrow> nat" where "js_depth st \<equiv> length (js_nest st)"

text \<open>A step either returns from the function, with the value and \<open>*toklen\<close>, or goes on.\<close>

datatype jres = JRet int nat | JCont jst

definition json_ws :: "u8 \<Rightarrow> bool" where
  "json_ws c \<longleftrightarrow> c = 32 \<or> c = 9 \<or> c = 10 \<or> c = 13"

definition MG_CHECKRET :: "bytes \<Rightarrow> jst \<Rightarrow> (jst \<Rightarrow> jres option) \<Rightarrow> jres option" where
  "MG_CHECKRET path st k =
     (if js_depth st = js_ed st then do {
        p \<leftarrow> aget path (js_pos st);
        if p = 0 \<and> js_ci st = js_ei st then Some (JRet (int (js_j st)) (js_i st - js_j st + 1))
        else k st }
      else k st)"

definition MG_EOO :: "bytes \<Rightarrow> u8 \<Rightarrow> jst \<Rightarrow> (jst \<Rightarrow> jres option) \<Rightarrow> jres option" where
  "MG_EOO path c st k =
     (if js_depth st = js_ed st \<and> js_ci st \<noteq> js_ei st then Some (JRet MG_JSON_NOT_FOUND 0)
      else case js_nest st of
             [] \<Rightarrow> None
           | t # ts \<Rightarrow> if c \<noteq> t + 2 then Some (JRet MG_JSON_INVALID 0)
                      else MG_CHECKRET path (st\<lparr>js_nest := ts\<rparr>) k)"

text \<open>The index of an array element in the path: its digits up to the closing bracket.\<close>

fun path_index :: "bytes \<Rightarrow> nat \<Rightarrow> int \<Rightarrow> (nat \<times> int) option" where
  "path_index [] pos ei = None"
| "path_index (c # cs) pos ei =
     (if c = c8 CHR '']'' then Some (pos + 1, ei)
      else if c = 0 then Some (pos, ei)
      else path_index cs (Suc pos) (ei * 10 + (uint c - 48)))"

definition next_index :: "jst \<Rightarrow> jst" where
  "next_index st = (if js_depth st = js_ed st \<and> js_ei st \<ge> 0 then st\<lparr>js_ci := js_ci st + 1\<rparr> else st)"

text \<open>The end of a value: \<open>MG_CHECKRET\<close>, the array index and the next state.\<close>

definition value_end :: "bytes \<Rightarrow> jst \<Rightarrow> jres option" where
  "value_end path st =
     MG_CHECKRET path st (\<lambda>st. Some (JCont ((next_index st)\<lparr>js_exp := S_COMMA_OR_EOO\<rparr>)))"

definition step_value :: "bytes \<Rightarrow> bytes \<Rightarrow> u8 \<Rightarrow> jst \<Rightarrow> jres option" where
  "step_value s path c st0 =
     (let st = (if js_depth st0 = js_ed st0 then st0\<lparr>js_j := js_i st0\<rparr> else st0);
          rest = drop (js_i st) s
      in if c = c8 CHR ''{'' then
           if js_depth st \<ge> MG_JSON_MAX_DEPTH then Some (JRet MG_JSON_TOO_DEEP 0)
           else do {
             p \<leftarrow> (if js_depth st = js_ed st then aget path (js_pos st) else Some 0);
             let st1 = (if js_depth st = js_ed st \<and> p = c8 CHR ''.'' \<and> js_ci st = js_ei st
                        then st\<lparr>js_ed := js_ed st + 1, js_pos := js_pos st + 1, js_ci := -1, js_ei := -1\<rparr>
                        else st);
             Some (JCont (st1\<lparr>js_nest := c # js_nest st1, js_exp := S_KEY\<rparr>)) }
         else if c = c8 CHR ''['' then
           if js_depth st \<ge> MG_JSON_MAX_DEPTH then Some (JRet MG_JSON_TOO_DEEP 0)
           else do {
             p \<leftarrow> (if js_depth st = js_ed st then aget path (js_pos st) else Some 0);
             st1 \<leftarrow> (if js_depth st = js_ed st \<and> p = c8 CHR ''['' \<and> js_ei st = js_ci st
                     then do {
                       (pos, ei) \<leftarrow> path_index (drop (js_pos st + 1) path) (js_pos st + 1) 0;
                       Some (st\<lparr>js_ed := js_ed st + 1, js_pos := pos, js_ci := 0, js_ei := ei\<rparr>) }
                     else Some st);
             Some (JCont (st1\<lparr>js_nest := c # js_nest st1\<rparr>)) }
         else if c = c8 CHR '']'' \<and> js_depth st > 0 then
           MG_EOO path c st (\<lambda>st. value_end path st)
         else if take 4 rest = cstr ''true'' then value_end path (st\<lparr>js_i := js_i st + 3\<rparr>)
         else if take 4 rest = cstr ''null'' then value_end path (st\<lparr>js_i := js_i st + 3\<rparr>)
         else if take 5 rest = cstr ''false'' then value_end path (st\<lparr>js_i := js_i st + 4\<rparr>)
         else if c = c8 CHR ''-'' \<or> jdigit c then
           value_end path (st\<lparr>js_i := js_i st + (numlen rest - 1)\<rparr>)
         else if c = dquote then
           (case mg_pass_string (drop 1 rest) of
              None \<Rightarrow> Some (JRet MG_JSON_INVALID 0)
            | Some n \<Rightarrow> value_end path (st\<lparr>js_i := js_i st + n + 1\<rparr>))
         else Some (JRet MG_JSON_INVALID 0))"

definition step_key :: "bytes \<Rightarrow> bytes \<Rightarrow> u8 \<Rightarrow> jst \<Rightarrow> jres option" where
  "step_key s path c st =
     (if c = dquote then
        (case mg_pass_string (drop (js_i st + 1) s) of
           None \<Rightarrow> Some (JRet MG_JSON_INVALID 0)
         | Some n \<Rightarrow>
             if js_i st + 1 + n \<ge> length s then Some (JRet MG_JSON_NOT_FOUND 0)
             else if js_depth st < js_ed st then Some (JRet MG_JSON_NOT_FOUND 0)
             else do {
               p \<leftarrow> (if js_depth st = js_ed st then aget path (js_pos st - 1) else Some 0);
               if js_depth st = js_ed st \<and> p \<noteq> c8 CHR ''.'' then Some (JRet MG_JSON_NOT_FOUND 0)
               else do {
                 hit \<leftarrow> (if js_depth st = js_ed st \<and> p = c8 CHR ''.'' then do {
                           d \<leftarrow> strncmp (drop (js_i st + 1) s) (drop (js_pos st) path) n;
                           if d = 0 then do {
                             q \<leftarrow> aget path (js_pos st + n);
                             Some (q = 0 \<or> q = c8 CHR ''.'' \<or> q = c8 CHR ''['') }
                           else Some False }
                         else Some False);
                 Some (JCont (st\<lparr>js_pos := (if hit then js_pos st + n else js_pos st),
                   js_i := js_i st + n + 1, js_exp := S_COLON\<rparr>)) } })
      else if c = c8 CHR ''}'' then
        MG_EOO path c st (\<lambda>st. Some (JCont (next_index (st\<lparr>js_exp := S_COMMA_OR_EOO\<rparr>))))
      else Some (JRet MG_JSON_INVALID 0))"

definition step_comma :: "bytes \<Rightarrow> u8 \<Rightarrow> jst \<Rightarrow> jres option" where
  "step_comma path c st =
     (case js_nest st of
        [] \<Rightarrow> Some (JRet MG_JSON_INVALID 0)
      | t # _ \<Rightarrow>
          if c = c8 CHR '','' then
            Some (JCont (st\<lparr>js_exp := (if t = c8 CHR ''{'' then S_KEY else S_VALUE)\<rparr>))
          else if c = c8 CHR '']'' \<or> c = c8 CHR ''}'' then do {
            p \<leftarrow> (if js_depth st = js_ed st then aget path (js_pos st - 1) else Some 0);
            if js_depth st = js_ed st \<and> c = c8 CHR ''}'' \<and> p = c8 CHR ''.''
            then Some (JRet MG_JSON_NOT_FOUND 0)
            else if js_depth st = js_ed st \<and> c = c8 CHR '']'' \<and> p = c8 CHR '',''
            then Some (JRet MG_JSON_NOT_FOUND 0)
            else MG_EOO path c st (\<lambda>st. Some (JCont (next_index st))) }
          else Some (JRet MG_JSON_INVALID 0))"

definition jstep :: "bytes \<Rightarrow> bytes \<Rightarrow> jst \<Rightarrow> jres option" where
  "jstep s path st =
     (let c = s ! js_i st
      in if json_ws c then Some (JCont st)
         else case js_exp st of
                S_VALUE \<Rightarrow> step_value s path c st
              | S_KEY \<Rightarrow> step_key s path c st
              | S_COLON \<Rightarrow> Some (if c = c8 CHR '':'' then JCont (st\<lparr>js_exp := S_VALUE\<rparr>)
                              else JRet MG_JSON_INVALID 0)
              | S_COMMA_OR_EOO \<Rightarrow> step_comma path c st)"


text \<open>A step never moves backwards, which makes the scan terminate.\<close>

lemma MG_CHECKRET_cont:
  "MG_CHECKRET path st k = Some (JCont st') \<Longrightarrow> k st = Some (JCont st')"
  by (auto simp: MG_CHECKRET_def split: if_splits Option.bind_splits)

lemma MG_EOO_cont:
  "MG_EOO path c st k = Some (JCont st') \<Longrightarrow> \<exists>t ts. js_nest st = t # ts \<and> k (st\<lparr>js_nest := ts\<rparr>) = Some (JCont st')"
  by (auto simp: MG_EOO_def split: if_splits list.splits dest: MG_CHECKRET_cont)

lemma next_index_simps [simp]:
  "js_i (next_index st) = js_i st" "js_j (next_index st) = js_j st" "js_nest (next_index st) = js_nest st"
  "js_ed (next_index st) = js_ed st" "js_pos (next_index st) = js_pos st" "js_exp (next_index st) = js_exp st"
  by (auto simp: next_index_def)

lemma value_end_cont: "value_end path st = Some (JCont st') \<Longrightarrow> js_i st' = js_i st \<and> js_j st' = js_j st"
  unfolding value_end_def by (drule MG_CHECKRET_cont) auto

lemma step_value_mono: "step_value s path c st = Some (JCont st') \<Longrightarrow> js_i st \<le> js_i st'"
  unfolding step_value_def Let_def
  by (auto split: if_splits option.splits Option.bind_splits dest!: value_end_cont MG_EOO_cont)

lemma step_key_mono: "step_key s path c st = Some (JCont st') \<Longrightarrow> js_i st \<le> js_i st'"
  unfolding step_key_def Let_def
  by (auto split: if_splits option.splits Option.bind_splits dest!: MG_EOO_cont)

lemma step_comma_mono: "step_comma path c st = Some (JCont st') \<Longrightarrow> js_i st' = js_i st"
  unfolding step_comma_def
  by (auto split: if_splits list.splits Option.bind_splits dest!: MG_EOO_cont)

lemma jstep_mono: "jstep s path st = Some (JCont st') \<Longrightarrow> js_i st \<le> js_i st'"
  unfolding jstep_def Let_def
  by (auto split: if_splits expecting.splits dest: step_value_mono step_key_mono step_comma_mono)

function json_loop :: "bytes \<Rightarrow> bytes \<Rightarrow> jst \<Rightarrow> (int \<times> nat) option" where
  "json_loop s path st =
     (if js_i st < length s then
        case jstep s path st of
          None \<Rightarrow> None
        | Some (JRet r n) \<Rightarrow> Some (r, n)
        | Some (JCont st') \<Rightarrow> json_loop s path (st'\<lparr>js_i := js_i st' + 1\<rparr>)
      else Some (MG_JSON_NOT_FOUND, 0))"
  by pat_completeness auto
termination
  by (relation "measure (\<lambda>(s, path, st). length s - js_i st)") (auto dest!: jstep_mono)

declare json_loop.simps [simp del]

definition mg_json_get :: "bytes \<Rightarrow> bytes \<Rightarrow> (int \<times> nat) option" where
  "mg_json_get json path = do {
     p0 \<leftarrow> aget path 0;
     if p0 \<noteq> c8 CHR ''$'' then Some (MG_JSON_INVALID, 0)
     else json_loop json path
       \<lparr>js_exp = S_VALUE, js_i = 0, js_j = 0, js_nest = [], js_ed = 0, js_pos = 1, js_ci = -1, js_ei = -1\<rparr> }"

text \<open>The null slice, for a path that is not found, is \<^term>\<open>None\<close> inside.\<close>

definition mg_json_get_tok :: "bytes \<Rightarrow> bytes \<Rightarrow> bytes option option" where
  "mg_json_get_tok json path = do {
     (ofs, len) \<leftarrow> mg_json_get json path;
     Some (if ofs < 0 then None else Some (take len (drop (nat ofs) json))) }"

definition mg_json_get_num :: "'d darith \<Rightarrow> bytes \<Rightarrow> bytes \<Rightarrow> 'd option option" where
  "mg_json_get_num A json path = do {
     (n, toklen) \<leftarrow> mg_json_get json path;
     if n \<ge> 0 then do {
       c \<leftarrow> aget json (nat n);
       Some (if c = c8 CHR ''-'' \<or> jdigit c then Some (fst (mg_atod A (take toklen (drop (nat n) json))))
             else None) }
     else Some None }"

definition mg_json_get_bool :: "bytes \<Rightarrow> bytes \<Rightarrow> bool option option" where
  "mg_json_get_bool json path = do {
     (off, _) \<leftarrow> mg_json_get json path;
     if off \<ge> 0 then do {
       c \<leftarrow> aget json (nat off);
       Some (if c = c8 CHR ''t'' \<or> c = c8 CHR ''f'' then Some (c = c8 CHR ''t'') else None) }
     else Some None }"

text \<open>
  The bytes \<open>mg_json_unescape\<close> writes for the text \<open>s\<close>, for a destination of \<open>n\<close> bytes;
  \<^term>\<open>None\<close> where it returns false. The terminator is not included.
\<close>

fun unescape_loop :: "bytes \<Rightarrow> nat \<Rightarrow> bytes option" where
  "unescape_loop [] n = (if n = 0 then None else Some [])"
| "unescape_loop (c # cs) 0 = None"
| "unescape_loop (c # cs) (Suc n) =
     (if c = bslash \<and> length cs \<ge> 5 \<and> cs ! 0 = c8 CHR ''u'' then
        (case mg_str_to_num (take 4 (drop 1 cs)) 16 1 of
           None \<Rightarrow> None
         | Some v \<Rightarrow> map_option ((#) (ucast v)) (unescape_loop (drop 5 cs) n))
      else if c = bslash \<and> cs \<noteq> [] then
        (let e = json_esc (hd cs) False
         in if e = 0 then None else map_option ((#) e) (unescape_loop (tl cs) n))
      else map_option ((#) c) (unescape_loop cs n))"

definition mg_json_unescape :: "bytes \<Rightarrow> nat \<Rightarrow> bytes option" where
  "mg_json_unescape s n = unescape_loop s n"

text \<open>The three allocating getters; \<open>alloc\<close> tells whether the allocation succeeds.\<close>

definition mg_json_get_str :: "(nat \<Rightarrow> bool) \<Rightarrow> bytes \<Rightarrow> bytes \<Rightarrow> bytes option option" where
  "mg_json_get_str alloc json path = do {
     (off, len) \<leftarrow> mg_json_get json path;
     if off \<ge> 0 \<and> len > 1 then do {
       c \<leftarrow> aget json (nat off);
       Some (if c = dquote \<and> alloc len
             then mg_json_unescape (take (len - 2) (drop (nat off + 1) json)) len else None) }
     else Some None }"

definition mg_json_get_b64 :: "(nat \<Rightarrow> bool) \<Rightarrow> bytes \<Rightarrow> bytes \<Rightarrow> (bytes \<times> nat) option option" where
  "mg_json_get_b64 alloc json path = do {
     (off, len) \<leftarrow> mg_json_get json path;
     if off \<ge> 0 then do {
       c \<leftarrow> aget json (nat off);
       if c = dquote \<and> len > 1 \<and> alloc len then do {
         (result, k) \<leftarrow> mg_base64_decode (take (len - 2) (drop (nat off + 1) json)) (replicate len 0);
         Some (Some (result, k)) }
       else Some None }
     else Some None }"

definition mg_json_get_long :: "'d darith \<Rightarrow> ('d \<Rightarrow> int) \<Rightarrow> bytes \<Rightarrow> bytes \<Rightarrow> int \<Rightarrow> int option" where
  "mg_json_get_long A to_long json path dflt = do {
     r \<leftarrow> mg_json_get_num A json path;
     Some (case r of Some dv \<Rightarrow> to_long dv | None \<Rightarrow> dflt) }"


subsection \<open>The scanner stays inside the text and the path\<close>

lemma skip_char_len: "skip_char c p = (b, q) \<Longrightarrow> length q \<le> length p"
  by (auto simp: skip_char_def split: list.splits if_splits)

lemma atod_int_len: "atod_int A d p = (d', q) \<Longrightarrow> length q \<le> length p"
  by (induction p arbitrary: d) (auto split: if_splits, force)

lemma atod_frac_len: "atod_frac A f b p = (d', q) \<Longrightarrow> length q \<le> length p"
  by (induction p arbitrary: f b) (auto split: if_splits, force)

lemma atod_exp_len: "atod_exp e p = (e', q) \<Longrightarrow> length q \<le> length p"
  by (induction p arbitrary: e) (auto split: if_splits, force)

lemma numlen_le: "numlen p \<le> length p"
  by (simp add: numlen_def)

lemma mg_pass_string_bound: "mg_pass_string s = Some n \<Longrightarrow> n < length s \<and> s ! n = dquote"
  by (induction s arbitrary: n rule: mg_pass_string.induct) (auto split: if_splits)

lemma json_esc_0 [simp]: "json_esc 0 esc = 0"
  by (cases esc) (simp_all add: json_esc_def escapeseq_def)

lemma mg_pass_string_nul_free: "mg_pass_string s = Some n \<Longrightarrow> nul_free (take n s)"
  by (induction s arbitrary: n rule: mg_pass_string.induct) (auto split: if_splits)

text \<open>The path is a terminated string; comparing a key with it stays inside.\<close>

lemma strncmp_path:
  "n \<le> length a \<Longrightarrow> nul_free (take n a) \<Longrightarrow> nul_free p \<Longrightarrow>
   \<exists>d. strncmp a (p @ [0]) n = Some d \<and> (d = 0 \<longrightarrow> n \<le> length p \<and> take n a = take n p)"
proof (induction n arbitrary: a p)
  case (Suc n)
  then obtain x a' where a: "a = x # a'" by (cases a) auto
  show ?case
  proof (cases p)
    case Nil
    then show ?thesis using Suc a by auto
  next
    case (Cons y p')
    then show ?thesis using Suc.IH [of a' p'] Suc.prems a by auto
  qed
qed simp

definition jinv0 :: "bytes \<Rightarrow> jst \<Rightarrow> bool" where
  "jinv0 p st \<longleftrightarrow> 1 \<le> js_pos st \<and> js_pos st \<le> length p \<and> js_j st \<le> js_i st"

definition jinv :: "bytes \<Rightarrow> jst \<Rightarrow> bool" where
  "jinv p st \<longleftrightarrow> jinv0 p st \<and> (js_exp st = S_KEY \<longrightarrow> js_nest st \<noteq> [])"

definition good :: "bytes \<Rightarrow> bytes \<Rightarrow> jres option \<Rightarrow> bool" where
  "good s p x \<longleftrightarrow> (\<exists>r. x = Some r \<and>
     (case r of JRet v n \<Rightarrow> v < 0 \<or> (0 < n \<and> nat v + n \<le> length s)
      | JCont st \<Rightarrow> jinv p st \<and> js_i st < length s))"

lemma good_simps [simp]:
  "good s p (Some (JCont st)) \<longleftrightarrow> jinv p st \<and> js_i st < length s"
  "good s p (Some (JRet v n)) \<longleftrightarrow> v < 0 \<or> (0 < n \<and> nat v + n \<le> length s)"
  by (simp_all add: good_def)

lemma errors_negative [simp]:
  "MG_JSON_INVALID < 0" "MG_JSON_NOT_FOUND < 0" "MG_JSON_TOO_DEEP < 0"
  by (simp_all add: MG_JSON_INVALID_def MG_JSON_NOT_FOUND_def MG_JSON_TOO_DEEP_def)

lemma aget_path: "i \<le> length p \<Longrightarrow> aget (p @ [0]) i = Some ((p @ [0]) ! i)"
  by (simp add: aget_def)

lemma path_end: "i \<le> length p \<Longrightarrow> (p @ [0]) ! i \<noteq> 0 \<Longrightarrow> i < length p"
  by (cases "i = length p") auto

lemma checkret_good:
  assumes "jinv0 p st" "js_i st < length s" "good s p (k st)"
  shows "good s p (MG_CHECKRET (p @ [0]) st k)"
  using assms by (auto simp: MG_CHECKRET_def jinv0_def aget_path)

lemma eoo_good:
  assumes "jinv0 p st" "js_i st < length s" "js_nest st \<noteq> []"
    "\<And>ts. good s p (k (st\<lparr>js_nest := ts\<rparr>))"
  shows "good s p (MG_EOO (p @ [0]) c st k)"
proof -
  obtain t ts where n: "js_nest st = t # ts" using assms(3) by (cases "js_nest st") auto
  have "jinv0 p (st\<lparr>js_nest := ts\<rparr>)" using assms(1) by (auto simp: jinv0_def)
  then show ?thesis
    using assms(2) assms(4) [of ts] n checkret_good [of p "st\<lparr>js_nest := ts\<rparr>" s k]
    by (auto simp: MG_EOO_def)
qed

lemma value_end_good:
  assumes "jinv0 p st" "js_i st < length s"
  shows "good s p (value_end (p @ [0]) st)"
  unfolding value_end_def using assms
  by (intro checkret_good) (auto simp: jinv_def jinv0_def)

lemma path_index_pos:
  "path_index q pos ei = Some (pos', ei') \<Longrightarrow> q = a @ [0] \<Longrightarrow> nul_free a \<Longrightarrow> pos \<le> pos' \<and> pos' \<le> pos + length a"
proof (induction q pos ei arbitrary: a rule: path_index.induct)
  case (2 c cs pos ei)
  show ?case
  proof (cases a)
    case Nil
    then show ?thesis using 2 by auto
  next
    case (Cons x a')
    then show ?thesis using 2 by (force split: if_splits)
  qed
qed simp

lemma path_index_some: "\<exists>r. path_index (a @ [0]) pos ei = Some r"
  by (induction a arbitrary: pos ei) auto

lemma step_comma_good:
  assumes "jinv p st" "js_i st < length s" "js_exp st = S_COMMA_OR_EOO"
  shows "good s p (step_comma (p @ [0]) c st)"
proof (cases "js_nest st")
  case Nil
  then show ?thesis by (simp add: step_comma_def)
next
  case (Cons t ts)
  have eoo: "good s p (MG_EOO (p @ [0]) c st (\<lambda>st. Some (JCont (next_index st))))"
    using assms Cons by (intro eoo_good) (auto simp: jinv_def jinv0_def)
  have p: "aget (p @ [0]) (js_pos st - 1) = Some ((p @ [0]) ! (js_pos st - 1))"
    using assms by (intro aget_path) (auto simp: jinv_def jinv0_def)
  show ?thesis
    using eoo p assms Cons by (auto simp: step_comma_def jinv_def jinv0_def Let_def)
qed

lemma step_key_good:
  assumes "jinv p st" "js_i st < length s" "js_exp st = S_KEY" "nul_free p"
  shows "good s p (step_key s (p @ [0]) c st)"
proof -
  have eoo: "good s p (MG_EOO (p @ [0]) c st (\<lambda>st. Some (JCont (next_index (st\<lparr>js_exp := S_COMMA_OR_EOO\<rparr>)))))"
    using assms by (intro eoo_good) (auto simp: jinv_def jinv0_def)
  have p: "aget (p @ [0]) (js_pos st - 1) = Some ((p @ [0]) ! (js_pos st - 1))"
    using assms by (intro aget_path) (auto simp: jinv_def jinv0_def)
  have key: "\<exists>hit. (do { d \<leftarrow> strncmp (drop (js_i st + 1) s) (drop (js_pos st) (p @ [0])) n;
       if d = 0 then do { q \<leftarrow> aget (p @ [0]) (js_pos st + n);
         Some (q = 0 \<or> q = c8 CHR ''.'' \<or> q = c8 CHR ''['') } else Some False }) = Some hit
     \<and> (hit \<longrightarrow> js_pos st + n \<le> length p)" if n: "mg_pass_string (drop (js_i st + 1) s) = Some n" for n
  proof -
    have pos: "js_pos st \<le> length p" using assms(1) by (auto simp: jinv_def jinv0_def)
    have "n \<le> length (drop (js_i st + 1) s)" using mg_pass_string_bound [OF n] by simp
    moreover have "nul_free (drop (js_pos st) p)" using assms(4) by (auto simp: nul_free_def dest: in_set_dropD)
    ultimately obtain d where
      d: "strncmp (drop (js_i st + 1) s) (drop (js_pos st) (p @ [0])) n = Some d"
         "d = 0 \<longrightarrow> n \<le> length (drop (js_pos st) p)"
      using strncmp_path [OF _ mg_pass_string_nul_free [OF n], of "drop (js_pos st) p"] pos by auto
    show ?thesis
    proof (cases "d = 0")
      case True
      then have "js_pos st + n \<le> length p" using d(2) pos by simp
      then show ?thesis using d(1) True aget_path [of "js_pos st + n" p] by simp
    next
      case False
      then show ?thesis unfolding d(1) by auto
    qed
  qed
  show ?thesis
  proof (cases "mg_pass_string (drop (js_i st + 1) s)")
    case None
    then show ?thesis using eoo by (auto simp: step_key_def)
  next
    case (Some n)
    obtain hit where "(do { d \<leftarrow> strncmp (drop (js_i st + 1) s) (drop (js_pos st) (p @ [0])) n;
       if d = 0 then do { q \<leftarrow> aget (p @ [0]) (js_pos st + n);
         Some (q = 0 \<or> q = c8 CHR ''.'' \<or> q = c8 CHR ''['') } else Some False }) = Some hit"
     "hit \<longrightarrow> js_pos st + n \<le> length p" using key [OF Some] by blast
    moreover have "js_i st + 1 + n < length s" using mg_pass_string_bound [OF Some] by auto
    ultimately show ?thesis
      using eoo p assms Some by (auto simp: step_key_def jinv_def jinv0_def simp del: drop_append)
  qed
qed

lemma jinv0_start: "jinv0 p st \<Longrightarrow> jinv0 p (if b then st\<lparr>js_j := js_i st\<rparr> else st)"
  by (auto simp: jinv0_def)

lemma jinv0_move: "jinv0 p st \<Longrightarrow> jinv0 p (st\<lparr>js_i := js_i st + n\<rparr>)"
  by (auto simp: jinv0_def)

lemma value_word_good:
  assumes "jinv0 p st" "js_exp st = S_VALUE" "take (n + 1) (drop (js_i st) s) = w" "length w = n + 1"
  shows "good s p (value_end (p @ [0]) (st\<lparr>js_i := js_i st + n\<rparr>))"
proof -
  have "n + 1 \<le> length (drop (js_i st) s)" using assms(3,4) by (metis length_take min.cobounded1)
  then show ?thesis using assms(2) by (intro value_end_good [OF jinv0_move [OF assms(1)]]) simp_all
qed

lemma value_string_good:
  assumes "jinv0 p st" "js_exp st = S_VALUE" "mg_pass_string (drop 1 (drop (js_i st) s)) = Some n"
  shows "good s p (value_end (p @ [0]) (st\<lparr>js_i := js_i st + n + 1\<rparr>))"
proof -
  have "js_i st + (n + 1) < length s" using mg_pass_string_bound [OF assms(3)] by auto
  then have "good s p (value_end (p @ [0]) (st\<lparr>js_i := js_i st + (n + 1)\<rparr>))"
    using assms(2) by (intro value_end_good [OF jinv0_move [OF assms(1)]]) simp_all
  then show ?thesis by (simp add: add.assoc)
qed

lemma path_index_inside:
  assumes "nul_free p" "k < length p"
  shows "\<exists>r. path_index (drop (k + 1) (p @ [0])) (k + 1) 0 = Some r \<and> 1 \<le> fst r \<and> fst r \<le> length p"
proof -
  have "nul_free (drop (k + 1) p)" using assms(1) by (auto simp: nul_free_def dest: in_set_dropD)
  moreover have "drop (k + 1) (p @ [0]) = drop (k + 1) p @ [0]" using assms(2) by simp
  ultimately show ?thesis
    using path_index_some [of "drop (k + 1) p" "k + 1" 0]
      path_index_pos [OF _ refl, of "drop (k + 1) p" "k + 1" 0] assms(2) by fastforce
qed

lemma open_bracket_good:
  assumes st: "jinv0 p st" "js_i st < length s" "js_exp st = S_VALUE" and p: "nul_free p"
  shows "good s p (do {
     p' \<leftarrow> (if js_depth st = js_ed st then aget (p @ [0]) (js_pos st) else Some 0);
     st1 \<leftarrow> (if js_depth st = js_ed st \<and> p' = c8 CHR ''['' \<and> js_ei st = js_ci st
             then do { (pos, ei) \<leftarrow> path_index (drop (js_pos st + 1) (p @ [0])) (js_pos st + 1) 0;
                       Some (st\<lparr>js_ed := js_ed st + 1, js_pos := pos, js_ci := 0, js_ei := ei\<rparr>) }
             else Some st);
     Some (JCont (st1\<lparr>js_nest := c # js_nest st1\<rparr>)) })"
proof -
  have pos: "js_pos st \<le> length p" using st(1) by (simp add: jinv0_def)
  note a = aget_path [OF pos]
  show ?thesis
  proof (cases "js_depth st = js_ed st \<and> (p @ [0]) ! js_pos st = c8 CHR ''[''")
    case True
    then have "js_pos st < length p" using path_end [OF pos] by auto
    from path_index_inside [OF p this] obtain r where
      r: "path_index (drop (js_pos st + 1) (p @ [0])) (js_pos st + 1) 0 = Some r"
      "1 \<le> fst r" "fst r \<le> length p" by blast
    then show ?thesis using True a st by (auto simp: jinv_def jinv0_def case_prod_unfold simp del: drop_append)
  next
    case False
    then show ?thesis using a st by (auto simp: jinv_def jinv0_def)
  qed
qed

lemma step_value_good:
  assumes "jinv p st0" "js_i st0 < length s" "js_exp st0 = S_VALUE" "nul_free p"
  shows "good s p (step_value s (p @ [0]) c st0)"
proof -
  define st where "st = (if js_depth st0 = js_ed st0 then st0\<lparr>js_j := js_i st0\<rparr> else st0)"
  have st: "jinv0 p st" "js_i st < length s" "js_exp st = S_VALUE"
    using assms by (auto simp: st_def jinv_def jinv0_def)
  let ?rest = "drop (js_i st) s"
  have pos: "js_pos st \<le> length p" using st(1) by (simp add: jinv0_def)
  have eoo: "good s p (MG_EOO (p @ [0]) c st (\<lambda>st. value_end (p @ [0]) st))" if "js_depth st > 0"
    using that st by (intro eoo_good value_end_good) (auto simp: jinv0_def)
  have num: "good s p (value_end (p @ [0]) (st\<lparr>js_i := js_i st + (numlen ?rest - 1)\<rparr>))"
    using numlen_le [of ?rest] st(2) by (intro value_end_good [OF jinv0_move [OF st(1)]]) simp
  note word = value_word_good [OF st(1,3)]
  have w: "take 4 ?rest = cstr ''true'' \<Longrightarrow> good s p (value_end (p @ [0]) (st\<lparr>js_i := js_i st + 3\<rparr>))"
    "take 4 ?rest = cstr ''null'' \<Longrightarrow> good s p (value_end (p @ [0]) (st\<lparr>js_i := js_i st + 3\<rparr>))"
    "take 5 ?rest = cstr ''false'' \<Longrightarrow> good s p (value_end (p @ [0]) (st\<lparr>js_i := js_i st + 4\<rparr>))"
    using word [of 3 s "cstr ''true''"] word [of 3 s "cstr ''null''"] word [of 4 s "cstr ''false''"] by simp_all
  have brace: "good s p (do {
       p' \<leftarrow> (if js_depth st = js_ed st then aget (p @ [0]) (js_pos st) else Some 0);
       let st1 = (if js_depth st = js_ed st \<and> p' = c8 CHR ''.'' \<and> js_ci st = js_ei st
                  then st\<lparr>js_ed := js_ed st + 1, js_pos := js_pos st + 1, js_ci := -1, js_ei := -1\<rparr> else st);
       Some (JCont (st1\<lparr>js_nest := c # js_nest st1, js_exp := S_KEY\<rparr>)) })"
    using aget_path [OF pos] st path_end [OF pos] by (auto simp: jinv_def jinv0_def Let_def)
  show ?thesis
    unfolding step_value_def Let_def st_def [symmetric]
    using brace open_bracket_good [OF st assms(4), of c] eoo value_string_good [OF st(1,3), of s] num w unfolding Let_def
    by (simp only: good_simps errors_negative simp_thms split: if_split option.split) blast
qed

lemma jstep_good:
  assumes "jinv p st" "js_i st < length s" "nul_free p"
  shows "good s p (jstep s (p @ [0]) st)"
  using assms step_value_good [OF assms(1,2) _ assms(3)] step_key_good [OF assms(1,2) _ assms(3)]
    step_comma_good [OF assms(1,2)]
  by (auto simp: jstep_def Let_def jinv_def jinv0_def split: expecting.split)

lemma json_loop_good:
  assumes "jinv p st" "nul_free p" "p0 = p @ [0]"
  shows "\<exists>r n. json_loop s p0 st = Some (r, n) \<and> (r < 0 \<or> (0 < n \<and> nat r + n \<le> length s))"
  using assms
proof (induction s p0 st rule: json_loop.induct)
  case (1 s p0 st)
  show ?case
  proof (cases "js_i st < length s")
    case True
    have "good s p (jstep s p0 st)" using jstep_good [OF 1(2) True 1(3)] 1(4) by simp
    then consider (ret) r n where "jstep s p0 st = Some (JRet r n)" "r < 0 \<or> (0 < n \<and> nat r + n \<le> length s)"
      | (cont) st' where "jstep s p0 st = Some (JCont st')" "jinv p st'"
      by (cases "jstep s p0 st") (auto simp: good_def split: jres.split_asm)
    then show ?thesis
    proof cases
      case ret
      then show ?thesis using True by (subst json_loop.simps) auto
    next
      case cont
      have "jinv p (st'\<lparr>js_i := js_i st' + 1\<rparr>)" using cont(2) by (auto simp: jinv_def jinv0_def)
      from 1(1) [OF True cont(1) refl this 1(3,4)] show ?thesis
        using True cont(1) by (subst json_loop.simps) auto
    qed
  next
    case False
    then show ?thesis by (subst json_loop.simps) simp
  qed
qed

lemma mg_json_get_in_bounds:
  assumes "nul_free p" "p \<noteq> []"
  shows "\<exists>r n. mg_json_get json (p @ [0]) = Some (r, n) \<and> (r < 0 \<or> (0 < n \<and> nat r + n \<le> length json))"
proof -
  have "jinv p \<lparr>js_exp = S_VALUE, js_i = 0, js_j = 0, js_nest = [], js_ed = 0, js_pos = 1, js_ci = -1, js_ei = -1\<rparr>"
    using assms(2) by (cases p) (auto simp: jinv_def jinv0_def)
  then show ?thesis
    using json_loop_good [OF _ assms(1) refl] assms(2)
    by (auto simp: mg_json_get_def aget_def)
qed




subsection \<open>Looking up a member of an object\<close>

text \<open>Scalar values and the text they have.\<close>

datatype jscalar =
    JNumber bool bytes "bytes option"
  | JTrue
  | JFalse
  | JNull
  | JString bytes

fun jtext :: "jscalar \<Rightarrow> bytes" where
  "jtext (JNumber neg ds fr) =
     (if neg then cstr ''-'' else []) @ ds @ (case fr of None \<Rightarrow> [] | Some fs \<Rightarrow> cstr ''.'' @ fs)"
| "jtext JTrue = cstr ''true''"
| "jtext JFalse = cstr ''false''"
| "jtext JNull = cstr ''null''"
| "jtext (JString t) = dquote # t @ [dquote]"

definition plain_text :: "bytes \<Rightarrow> bool" where
  "plain_text t \<longleftrightarrow> list_all (\<lambda>c. c \<noteq> 0 \<and> c \<noteq> dquote \<and> c \<noteq> bslash) t"

fun jscalar_ok :: "jscalar \<Rightarrow> bool" where
  "jscalar_ok (JNumber neg ds fr) \<longleftrightarrow> ds \<noteq> [] \<and> list_all jdigit ds \<and> (case fr of None \<Rightarrow> True | Some fs \<Rightarrow> list_all jdigit fs)"
| "jscalar_ok (JString t) \<longleftrightarrow> plain_text t"
| "jscalar_ok _ \<longleftrightarrow> True"

fun jmember :: "bytes \<times> jscalar \<Rightarrow> bytes" where
  "jmember (k, v) = dquote # k @ dquote # c8 CHR '':'' # jtext v"

fun jmembers :: "(bytes \<times> jscalar) list \<Rightarrow> bytes" where
  "jmembers [] = []"
| "jmembers [kv] = jmember kv"
| "jmembers (kv # kvs) = jmember kv @ c8 CHR '','' # jmembers kvs"

definition jobject :: "(bytes \<times> jscalar) list \<Rightarrow> bytes" where
  "jobject kvs = c8 CHR ''{'' # jmembers kvs @ [c8 CHR ''}'']"

definition members_ok :: "(bytes \<times> jscalar) list \<Rightarrow> bool" where
  "members_ok kvs \<longleftrightarrow> list_all (\<lambda>(k, v). plain_text k \<and> jscalar_ok v) kvs"

lemma plain_pass_string: "plain_text t \<Longrightarrow> mg_pass_string (t @ dquote # r) = Some (length t)"
proof (induction t)
  case Nil
  then show ?case by (cases r) auto
next
  case (Cons c t)
  then have IH: "mg_pass_string (t @ dquote # r) = Some (length t)" and c: "c \<noteq> 0" "c \<noteq> dquote" "c \<noteq> bslash"
    by (auto simp: plain_text_def)
  then show ?case by (cases t) auto
qed

lemma atod_int_digits:
  "list_all jdigit ds \<Longrightarrow> \<not> jdigit c \<Longrightarrow> snd (atod_int A d (ds @ c # r)) = c # r"
  by (induction ds arbitrary: d) auto

lemma atod_frac_digits:
  "list_all jdigit ds \<Longrightarrow> \<not> jdigit c \<Longrightarrow> snd (atod_frac A f b (ds @ c # r)) = c # r"
  by (induction ds arbitrary: f b) auto

definition jdelim :: "u8 \<Rightarrow> bool" where
  "jdelim c \<longleftrightarrow> c = c8 CHR '','' \<or> c = c8 CHR ''}''"

lemma jdelim_facts:
  "jdelim c \<Longrightarrow> \<not> jdigit c \<and> c \<noteq> c8 CHR ''.'' \<and> c \<noteq> c8 CHR ''e'' \<and> c \<noteq> c8 CHR ''E''"
  by (auto simp: jdelim_def jdigit_def)

lemma not_jdigit_dot [simp]: "\<not> jdigit 46"
  by (simp add: jdigit_def)

lemma jdigit_no_sign: "jdigit c \<Longrightarrow> c \<noteq> c8 CHR ''-'' \<and> c \<noteq> c8 CHR ''+''"
  by (auto simp: jdigit_def)

lemma numlen_number:
  assumes "jscalar_ok (JNumber neg ds fr)" "jdelim c"
  shows "numlen (jtext (JNumber neg ds fr) @ c # r) = length (jtext (JNumber neg ds fr))"
proof -
  obtain d ds' where ds: "ds = d # ds'" "jdigit d" using assms(1) by (cases ds) auto
  have "snd (mg_atod unit_arith (jtext (JNumber neg ds fr) @ c # r)) = c # r"
    using assms jdelim_facts [OF assms(2)] jdigit_no_sign [OF ds(2)] ds
      atod_int_digits [of ds c unit_arith "()" r]
      atod_int_digits [of ds "c8 CHR ''.''" unit_arith "()" "the fr @ c # r"]
      atod_frac_digits [of "the fr" c unit_arith "()" "()" r]
    by (cases fr; cases neg) (auto simp: mg_atod_def skip_char_def case_prod_unfold Let_def)
  then show ?thesis by (simp add: numlen_def)
qed


lemma json_loop_cont:
  "js_i st < length s \<Longrightarrow> jstep s path st = Some (JCont st') \<Longrightarrow>
   json_loop s path st = json_loop s path (st'\<lparr>js_i := js_i st' + 1\<rparr>)"
  by (subst json_loop.simps) simp

lemma json_loop_ret:
  "js_i st < length s \<Longrightarrow> jstep s path st = Some (JRet r n) \<Longrightarrow> json_loop s path st = Some (r, n)"
  by (subst json_loop.simps) simp

text \<open>A scalar is passed in one step.\<close>

definition set_start :: "jst \<Rightarrow> jst" where
  "set_start st = (if js_depth st = js_ed st then st\<lparr>js_j := js_i st\<rparr> else st)"

lemma set_start_i [simp]: "js_i (set_start st) = js_i st" "js_nest (set_start st) = js_nest st"
  by (simp_all add: set_start_def)

lemma step_scalar:
  assumes "jscalar_ok v" "jdelim c" "drop (js_i st) s = jtext v @ c # r" "js_exp st = S_VALUE"
  shows "jstep s path st =
     value_end path ((set_start st)\<lparr>js_i := js_i st + (length (jtext v) - 1)\<rparr>)"
proof -
  have e: "i + 3 = Suc (Suc (Suc i))" "i + 4 = Suc (Suc (Suc (Suc i)))" for i :: nat by simp_all
  have len: "js_i st < length s" using assms(3) by (cases "js_i st < length s") auto
  then have hd: "s ! js_i st = hd (jtext v @ c # r)" using assms(3) by (metis hd_drop_conv_nth)
  show ?thesis
  proof (cases v)
    case (JNumber neg ds fr)
    obtain d ds' where ds: "ds = d # ds'" "jdigit d" using assms(1) JNumber by (cases ds) auto
    define x where "x = hd (jtext v)"
    have x: "x = 45 \<or> jdigit x" using JNumber ds by (auto simp: x_def)
    have sx: "s ! js_i st = x" using hd JNumber ds by (auto simp: x_def)
    have ne: "x \<noteq> 123" "x \<noteq> 91" "x \<noteq> 93" "\<not> json_ws x" "x \<noteq> 116" "x \<noteq> 110" "x \<noteq> 102"
      using x by (auto simp: jdigit_def json_ws_def)
    have "jtext v \<noteq> []" using JNumber ds by auto
    then obtain t where t: "jtext v @ c # r = x # t" by (cases "jtext v") (auto simp: x_def)
    have nt: "take 4 (jtext v @ c # r) \<noteq> cstr ''true''" "take 4 (jtext v @ c # r) \<noteq> cstr ''null''"
       "take 5 (jtext v @ c # r) \<noteq> cstr ''false''" using t ne by auto
    have nl: "numlen (jtext v @ c # r) = length (jtext v)" using numlen_number [of neg ds fr c r] assms JNumber by simp
    show ?thesis
      using x ne nt nl assms(3,4) sx
      by (simp add: jstep_def step_value_def Let_def set_start_def)
  next
    case (JString t)
    have "mg_pass_string (t @ dquote # c # r) = Some (length t)" using assms(1) JString by (simp add: plain_pass_string)
    moreover have "drop (Suc (js_i st)) s = t @ dquote # c # r"
      using assms(3) JString by (metis append_Cons append_assoc append_Nil drop_Suc jtext.simps(5) list.sel(3) tl_drop)
    ultimately show ?thesis
      using hd assms(3,4) JString
      by (simp add: jstep_def step_value_def Let_def set_start_def json_ws_def jdigit_def)
  qed (use hd assms(3,4) in \<open>simp_all add: jstep_def step_value_def Let_def set_start_def json_ws_def e\<close>)
qed

text \<open>The state in front of a key of the outermost object, with the path \<open>$.key\<close>.\<close>

definition at_key :: "nat \<Rightarrow> nat \<Rightarrow> jst" where
  "at_key i j = \<lparr>js_exp = S_KEY, js_i = i, js_j = j, js_nest = [c8 CHR ''{''], js_ed = 1, js_pos = 2, js_ci = -1, js_ei = -1\<rparr>"

abbreviation member_path :: "bytes \<Rightarrow> bytes" where
  "member_path key \<equiv> (cstr ''$.'' @ key) @ [0]"

definition member_name :: "bytes \<Rightarrow> bool" where
  "member_name key \<longleftrightarrow> nul_free key \<and> c8 CHR ''.'' \<notin> set key \<and> c8 CHR ''['' \<notin> set key"

lemma strncmp_same: "nul_free k \<Longrightarrow> strncmp (k @ a) (k @ b) (length k) = Some 0"
  by (induction k) auto

lemma key_step:
  assumes "plain_text k" "drop i s = dquote # k @ dquote # r" "member_name key"
  shows "jstep s (member_path key) (at_key i j) =
     Some (JCont ((at_key i j)\<lparr>js_pos := (if k = key then 2 + length k else 2), js_i := i + length k + 1, js_exp := S_COLON\<rparr>))"
proof -
  have i: "i < length s" using assms(2) by (cases "i < length s") auto
  have c: "s ! i = dquote" using assms(2) i by (metis hd_drop_conv_nth list.sel(1))
  have d: "drop (Suc i) s = k @ dquote # r" using assms(2) by (metis drop_Suc list.sel(3) tl_drop)
  have len: "Suc (i + length k) < length s" using arg_cong [OF assms(2), of length] i by simp
  have pass: "mg_pass_string (drop (Suc i) s) = Some (length k)" using plain_pass_string [OF assms(1)] d by simp
  have nf: "nul_free (take (length k) (k @ dquote # r))" using assms(1) by (auto simp: plain_text_def nul_free_def list_all_iff)
  obtain e where e: "strncmp (k @ dquote # r) (key @ [0]) (length k) = Some e"
     "e = 0 \<longrightarrow> length k \<le> length key \<and> k = take (length k) key"
    using strncmp_path [OF _ nf, of key] assms(3) by (auto simp: member_name_def)
  have eq: "k = key \<Longrightarrow> e = 0"
    using e(1) strncmp_same [of key "dquote # r" "[0]"] assms(3) by (simp add: member_name_def)
  show ?thesis
  proof (cases "e = 0")
    case False
    then have "k \<noteq> key" using eq by blast
    then show ?thesis
      using False e(1) c d pass len by (simp add: jstep_def step_key_def Let_def at_key_def json_ws_def aget_def)
  next
    case True
    then obtain b where b: "key = k @ b" using e(2) by (metis append_take_drop_id)
    then have "aget (member_path key) (2 + length k) = Some ((b @ [0]) ! 0)"
      by (simp add: aget_def nth_append)
    then show ?thesis
      using True e(1) c d pass len b assms(3)
      by (cases b) (auto simp: jstep_def step_key_def Let_def at_key_def json_ws_def aget_def member_name_def nul_free_def)
  qed
qed


text \<open>Passing one member that is not the one looked for, and returning the one that is.\<close>

lemma drop_shift: "drop i s = xs @ ys \<Longrightarrow> drop (i + length xs) s = ys"
  by (metis add.commute append_eq_conv_conj drop_drop)

lemma drop_hd: "drop i s = x # xs \<Longrightarrow> i < length s \<and> s ! i = x \<and> drop (Suc i) s = xs"
  by (metis drop_Suc drop_all hd_drop_conv_nth list.distinct(1) list.sel(1,3) not_le tl_drop)

lemma colon_scan:
  assumes "drop (js_i st) s = c8 CHR '':'' # r" "js_exp st = S_COLON"
  shows "json_loop s p st = json_loop s p (st\<lparr>js_i := js_i st + 1, js_exp := S_VALUE\<rparr>)"
proof -
  have "jstep s p st = Some (JCont (st\<lparr>js_exp := S_VALUE\<rparr>))"
    using drop_hd [OF assms(1)] assms(2) by (simp add: jstep_def json_ws_def)
  then show ?thesis using json_loop_cont [of st s p] drop_hd [OF assms(1)] by (cases st) simp
qed

text \<open>The value of a member: the path is at its end when the key was the one looked for.\<close>

lemma member_value_scan:
  fixes i k v key j
  defines "st \<equiv> (at_key i j)\<lparr>js_pos := (if k = key then 2 + length k else 2), js_i := i + length k + 3, js_exp := S_VALUE\<rparr>"
  assumes "jscalar_ok v" "jdelim c" "member_name key" "key \<noteq> []" "drop (i + length k + 3) s = jtext v @ c # r"
  shows "json_loop s (member_path key) st =
    (if k = key then Some (int (i + length k + 3), length (jtext v))
     else json_loop s (member_path key)
       ((at_key (i + length (jmember (k, v))) (i + length k + 3))\<lparr>js_exp := S_COMMA_OR_EOO\<rparr>))"
proof -
  let ?p = "member_path key"
  have ne: "jtext v \<noteq> []" using assms(2) by (cases v) auto
  then have i2: "js_i st < length s" using assms(6) by (cases "jtext v") (auto simp: st_def dest: drop_hd)
  have step: "jstep s ?p st = value_end ?p ((set_start st)\<lparr>js_i := js_i st + (length (jtext v) - 1)\<rparr>)"
    using assms(2,3,6) by (intro step_scalar) (auto simp: at_key_def st_def)
  have key0: "(cstr ''$.'' @ key @ [0]) ! (2 + length key) = 0" "(cstr ''$.'' @ key @ [0]) ! 2 \<noteq> 0"
    using assms(4,5) by (cases key; auto simp: member_name_def nth_append)+
  show ?thesis
  proof (cases "k = key")
    case True
    have "jstep s ?p st = Some (JRet (int (i + length k + 3)) (length (jtext v)))"
      unfolding step using True key0 ne
      by (simp add: value_end_def MG_CHECKRET_def set_start_def at_key_def aget_def st_def)
    then show ?thesis using json_loop_ret [OF i2] True by simp
  next
    case False
    define n1 where "n1 = i + length k + 3 + (length (jtext v) - 1)"
    have n1: "n1 + 1 = i + length (jmember (k, v))" using ne by (cases "jtext v") (auto simp: n1_def)
    have "jstep s ?p st = Some (JCont ((at_key n1 (i + length k + 3))\<lparr>js_exp := S_COMMA_OR_EOO\<rparr>))"
      unfolding step using False key0 ne
      by (simp add: value_end_def MG_CHECKRET_def set_start_def at_key_def aget_def next_index_def st_def n1_def)
    from json_loop_cont [OF i2 this] show ?thesis using False unfolding n1 [symmetric] by (simp add: at_key_def)
  qed
qed

lemma member_scan:
  assumes "plain_text k" "jscalar_ok v" "jdelim c" "member_name key" "key \<noteq> []"
    "drop i s = jmember (k, v) @ c # r"
  shows "json_loop s (member_path key) (at_key i j) =
    (if k = key then Some (int (i + length k + 3), length (jtext v))
     else json_loop s (member_path key)
       ((at_key (i + length (jmember (k, v))) (i + length k + 3))\<lparr>js_exp := S_COMMA_OR_EOO\<rparr>))"
proof -
  let ?st1 = "(at_key i j)\<lparr>js_pos := if k = key then 2 + length k else 2, js_i := i + length k + 2, js_exp := S_COLON\<rparr>"
  have d0: "drop i s = dquote # k @ dquote # c8 CHR '':'' # jtext v @ c # r" using assms(6) by simp
  have d1: "drop (i + length k + 2) s = c8 CHR '':'' # jtext v @ c # r"
    using drop_shift [of i s "dquote # k @ [dquote]"] d0 by simp
  have d2: "drop (i + length k + 3) s = jtext v @ c # r"
    using drop_hd [OF d1] by (simp add: numeral_3_eq_3)
  have "json_loop s (member_path key) (at_key i j) = json_loop s (member_path key) ?st1"
    using json_loop_cont [OF _ key_step [OF assms(1) d0 assms(4)]] drop_hd [OF d0] by (simp add: at_key_def)
  also have "\<dots> = json_loop s (member_path key) (?st1\<lparr>js_i := i + length k + 3, js_exp := S_VALUE\<rparr>)"
    using colon_scan [of ?st1 s] d1 by (simp add: numeral_3_eq_3)
  finally show ?thesis using member_value_scan [OF assms(2-5) d2, of j] by simp
qed


text \<open>The offset of the value of the first member with a given key.\<close>

fun member_at :: "bytes \<Rightarrow> (bytes \<times> jscalar) list \<Rightarrow> nat \<Rightarrow> (nat \<times> jscalar) option" where
  "member_at key [] i = None"
| "member_at key ((k, v) # kvs) i =
     (if k = key then Some (i + length k + 3, v) else member_at key kvs (i + length (jmember (k, v)) + 1))"

lemma members_scan:
  assumes "members_ok kvs" "kvs \<noteq> []" "member_name key" "key \<noteq> []"
    "drop i s = jmembers kvs @ c8 CHR ''}'' # r"
  shows "json_loop s (member_path key) (at_key i j) =
    (case member_at key kvs i of Some (ofs, v) \<Rightarrow> Some (int ofs, length (jtext v))
     | None \<Rightarrow> Some (MG_JSON_NOT_FOUND, 0))"
  using assms
proof (induction kvs arbitrary: i j rule: jmembers.induct)
  case (2 kv)
  obtain k v where kv: "kv = (k, v)" by fastforce
  let ?st = "(at_key (i + length (jmember (k, v))) (i + length k + 3))\<lparr>js_exp := S_COMMA_OR_EOO\<rparr>"
  have d: "drop i s = jmember (k, v) @ c8 CHR ''}'' # r" using 2 kv by simp
  have e: "drop (i + length (jmember (k, v))) s = c8 CHR ''}'' # r" using drop_shift [OF d] .
  have "jstep s (member_path key) ?st = Some (JRet MG_JSON_NOT_FOUND 0)"
    using drop_hd [OF e] by (simp add: jstep_def step_comma_def at_key_def json_ws_def aget_def)
  then have "json_loop s (member_path key) ?st = Some (MG_JSON_NOT_FOUND, 0)"
    using json_loop_ret [of ?st s] drop_hd [OF e] by (simp add: at_key_def)
  then show ?case
    using member_scan [OF _ _ _ 2(3,4) d] 2(1) kv by (auto simp: members_ok_def jdelim_def)
next
  case (3 kv kv' kvs)
  obtain k v where kv: "kv = (k, v)" by fastforce
  let ?st = "(at_key (i + length (jmember (k, v))) (i + length k + 3))\<lparr>js_exp := S_COMMA_OR_EOO\<rparr>"
  have d: "drop i s = jmember (k, v) @ c8 CHR '','' # jmembers (kv' # kvs) @ c8 CHR ''}'' # r" using 3 kv by simp
  have e: "drop (i + length (jmember (k, v))) s = c8 CHR '','' # jmembers (kv' # kvs) @ c8 CHR ''}'' # r"
    using drop_shift [OF d] .
  have "jstep s (member_path key) ?st = Some (JCont (?st\<lparr>js_exp := S_KEY\<rparr>))"
    using drop_hd [OF e] by (simp add: jstep_def step_comma_def at_key_def json_ws_def)
  then have "json_loop s (member_path key) ?st =
      json_loop s (member_path key) (at_key (i + length (jmember (k, v)) + 1) (i + length k + 3))"
    using json_loop_cont [of ?st s] drop_hd [OF e] by (simp add: at_key_def)
  also have "\<dots> = (case member_at key (kv' # kvs) (i + length (jmember (k, v)) + 1) of
      Some (ofs, v) \<Rightarrow> Some (int ofs, length (jtext v)) | None \<Rightarrow> Some (MG_JSON_NOT_FOUND, 0))"
    using 3 drop_hd [OF e] by (intro 3(1)) (auto simp: members_ok_def)
  finally show ?case
    using member_scan [OF _ _ _ 3(4,5) d] 3(2) kv by (auto simp: members_ok_def jdelim_def)
qed simp

lemma mg_json_get_member':
  assumes "members_ok kvs" "kvs \<noteq> []" "member_name key" "key \<noteq> []"
  shows "mg_json_get (jobject kvs) (member_path key) =
    (case member_at key kvs 1 of Some (ofs, v) \<Rightarrow> Some (int ofs, length (jtext v))
     | None \<Rightarrow> Some (MG_JSON_NOT_FOUND, 0))"
proof -
  let ?s = "jobject kvs" and ?p = "member_path key"
  let ?st = "\<lparr>js_exp = S_VALUE, js_i = 0, js_j = 0, js_nest = [], js_ed = 0, js_pos = 1, js_ci = -1, js_ei = -1\<rparr>"
  have "jstep ?s ?p ?st = Some (JCont ((at_key 0 0)))"
    by (simp add: jstep_def step_value_def jobject_def json_ws_def MG_JSON_MAX_DEPTH_def aget_def at_key_def Let_def)
  then have "json_loop ?s ?p ?st = json_loop ?s ?p (at_key 1 0)"
    using json_loop_cont [of ?st ?s ?p "at_key 0 0"] by (simp add: at_key_def jobject_def)
  then show ?thesis
    using members_scan [OF assms, of 1 ?s "[]" 0] by (simp add: mg_json_get_def aget_def jobject_def)
qed

lemma member_at_text:
  "member_at key kvs i = Some (ofs, v) \<Longrightarrow> drop i s = jmembers kvs @ r \<Longrightarrow>
   take (length (jtext v)) (drop ofs s) = jtext v \<and> map_of kvs key = Some v"
proof (induction kvs arbitrary: i rule: jmembers.induct)
  case (2 kv)
  then show ?case using drop_shift [of i s "dquote # fst kv @ [dquote, c8 CHR '':'']" "jtext (snd kv) @ r"]
    by (cases kv) (auto split: if_splits simp: numeral_3_eq_3)
next
  case (3 kv kv' kvs)
  obtain k w where kv: "kv = (k, w)" by fastforce
  show ?case
  proof (cases "k = key")
    case True
    then show ?thesis
      using 3(2,3) kv drop_shift [of i s "dquote # k @ [dquote, c8 CHR '':'']" "jtext w @ c8 CHR '','' # jmembers (kv' # kvs) @ r"]
      by (auto simp: numeral_3_eq_3)
  next
    case False
    have "drop (i + length (jmember (k, w)) + 1) s = jmembers (kv' # kvs) @ r"
      using drop_shift [of i s "jmember (k, w) @ cstr '',''" "jmembers (kv' # kvs) @ r"] 3(3) kv by simp
    then show ?thesis using 3(1) 3(2) kv False by auto
  qed
qed simp

lemma member_at_None: "member_at key kvs i = None \<longleftrightarrow> map_of kvs key = None"
  by (induction kvs arbitrary: i) auto



end
