(* ===== verification/Rest_Api.thy ===== *)
theory Rest_Api
  imports Imu Power_Management Mg_Json C_String
begin

text \<open>
  The REST interface: what the firmware provides to it (\<open>src/api.cpp\<close>) and the request handling
  of \<open>mongoose/mongoose_impl.c\<close>, in the configuration of \<open>mongoose_glue.h\<close> (HTTP, user interface and
  web sockets, no login). A structure of the interface is the list of its attribute values, in the
  order of the attribute table. The functions a handler points to are named by constructors. What is sent
  is modelled by its contents; its formatting is not.
\<close>

subsection \<open>Data of the firmware\<close>

datatype attr_value =
    ADouble flt
  | AInt int
  | ABool bool
  | AString bytes

record attribute_t =
  attr_name :: string
  attr_type :: string
  attr_size :: nat

definition attribute :: "string \<Rightarrow> string \<Rightarrow> nat \<Rightarrow> attribute_t" where
  "attribute n t sz = \<lparr>attr_name = n, attr_type = t, attr_size = sz\<rparr>"

definition s_imu_attributes :: "attribute_t list" where
  "s_imu_attributes =
    [attribute ''gz'' ''double'' 0, attribute ''gy'' ''double'' 0, attribute ''gx'' ''double'' 0,
     attribute ''az'' ''double'' 0, attribute ''ay'' ''double'' 0, attribute ''ax'' ''double'' 0]"

definition s_power_service_settings_attributes :: "attribute_t list" where
  "s_power_service_settings_attributes =
    [attribute ''critical_volts'' ''double'' 0, attribute ''empty_volts'' ''double'' 0, attribute ''full_volts'' ''double'' 0]"

definition s_state_attributes :: "attribute_t list" where
  "s_state_attributes =
    [attribute ''ros_online'' ''bool'' 0, attribute ''adapter_current'' ''double'' 0, attribute ''charger_state'' ''string'' 20,
     attribute ''adapter_volts'' ''double'' 0, attribute ''battery_current'' ''double'' 0, attribute ''battery_volts'' ''double'' 0,
     attribute ''battery_level'' ''int'' 0]"

text \<open>The variables of the interface, and the time and the services it reads.\<close>

record api_state =
  device_change_version :: u32
  last_request :: u32
  cached_state :: "attr_value list"
  power_service_settings :: "attr_value list"

record 'c api_env =
  api_now :: u32
  api_power :: "'c power_service"
  api_imu :: imu_service

definition api_init :: api_state where
  "api_init = \<lparr>device_change_version = 0, last_request = 0,
     cached_state = [ABool False, ADouble fzero, AString (replicate 20 0), ADouble fzero, ADouble fzero, ADouble fzero, AInt 0],
     power_service_settings = map (ADouble \<circ> flt_lit binary64) [12, 25 / 2, 16]\<rparr>"

text \<open>Conversion to \<open>int\<close>: towards zero; a value that does not fit and a NaN have no defined result.\<close>

fun flt_to_i32 :: "flt \<Rightarrow> int option" where
  "flt_to_i32 (Fin s m) =
     (let v = (if s then - \<lfloor>m\<rfloor> else \<lfloor>m\<rfloor>) in if - (2 ^ 31) \<le> v \<and> v < 2 ^ 31 then Some v else None)"
| "flt_to_i32 _ = None"

definition glue_get_state :: "'c api_env \<Rightarrow> api_state \<Rightarrow> (attr_value list \<times> api_state) option" where
  "glue_get_state env a =
     (if chVTTimeElapsedSinceX (api_now env) (last_request a) < TIME_MS2I 100 then Some (cached_state a, a)
      else do {
        let p = api_power env;
        level \<leftarrow> flt_to_i32 (fmul binary32 (battery_percent p) (flt_of_int binary32 100));
        old \<leftarrow> (case cached_state a ! 2 of AString s \<Rightarrow> Some s | _ \<Rightarrow> None);
        charger \<leftarrow> strncpy old 0 (cstr (GetChargerStatus p) @ [0]) 20;
        let st = [ABool False, ADouble (fcvt binary64 (adapter_current p)), AString charger,
                  ADouble (fcvt binary64 (adapter_volts p)), ADouble (fcvt binary64 (charge_current p)),
                  ADouble (fcvt binary64 (battery_volts p)), AInt level];
        Some (st, a\<lparr>last_request := api_now env, cached_state := st\<rparr>) })"

definition glue_get_power_service_settings :: "api_state \<Rightarrow> attr_value list" where
  "glue_get_power_service_settings a = power_service_settings a"

definition glue_set_power_service_settings :: "attr_value list \<Rightarrow> api_state \<Rightarrow> api_state" where
  "glue_set_power_service_settings d a = a\<lparr>power_service_settings := d\<rparr>"

definition glue_get_imu :: "'c api_env \<Rightarrow> attr_value list" where
  "glue_get_imu env = (let ax = GetAxes (api_imu env)
     in map ADouble [ax ! 5, ax ! 4, ax ! 3, ax ! 2, ax ! 1, ax ! 0])"

definition glue_update_state :: "api_state \<Rightarrow> api_state" where
  "glue_update_state a = a\<lparr>device_change_version := device_change_version a + 1\<rparr>"

text \<open>
  One round of the thread of the interface after the poll, at time \<open>now\<close>; the variable with the
  time of the last refresh is never written.
\<close>

definition refresh_ui :: "u32 \<Rightarrow> u32 \<Rightarrow> api_state \<Rightarrow> api_state" where
  "refresh_ui last_ui_refresh now a =
     (if TIME_S2I 1 < chVTTimeElapsedSinceX now last_ui_refresh then glue_update_state a else a)"

subsection \<open>Handlers\<close>

datatype getter = GlueGetImu | GlueGetSettings | GlueGetState
datatype setter = GlueSetSettings

record apihandler_data =
  h_name :: string
  h_type :: string
  h_readonly :: bool
  h_attributes :: "attribute_t list"
  h_getter :: getter
  h_setter :: "setter option"

fun run_getter :: "getter \<Rightarrow> 'c api_env \<Rightarrow> api_state \<Rightarrow> (attr_value list \<times> api_state) option" where
  "run_getter GlueGetImu env a = Some (glue_get_imu env, a)"
| "run_getter GlueGetSettings env a = Some (glue_get_power_service_settings a, a)"
| "run_getter GlueGetState env a = glue_get_state env a"

fun run_setter :: "setter \<Rightarrow> attr_value list \<Rightarrow> api_state \<Rightarrow> api_state" where
  "run_setter GlueSetSettings d a = glue_set_power_service_settings d a"

definition s_apihandler_imu :: apihandler_data where
  "s_apihandler_imu = \<lparr>h_name = ''imu'', h_type = ''data'', h_readonly = True, h_attributes = s_imu_attributes,
     h_getter = GlueGetImu, h_setter = None\<rparr>"

definition s_apihandler_power_service_settings :: apihandler_data where
  "s_apihandler_power_service_settings = \<lparr>h_name = ''power_service_settings'', h_type = ''data'', h_readonly = False,
     h_attributes = s_power_service_settings_attributes, h_getter = GlueGetSettings, h_setter = Some GlueSetSettings\<rparr>"

definition s_apihandler_state :: apihandler_data where
  "s_apihandler_state = \<lparr>h_name = ''state'', h_type = ''data'', h_readonly = True, h_attributes = s_state_attributes,
     h_getter = GlueGetState, h_setter = None\<rparr>"

definition s_apihandlers :: "apihandler_data list" where
  "s_apihandlers = [s_apihandler_imu, s_apihandler_power_service_settings, s_apihandler_state]"

text \<open>
  A slice of the request is its bytes and the memory behind it, which the comparisons of the
  library may look at.
\<close>

fun find_api :: "apihandler_data list \<Rightarrow> bytes \<Rightarrow> bytes \<Rightarrow> apihandler_data option option" where
  "find_api [] name after = Some None"
| "find_api (h # hs) name after =
     (let n = length (h_name h)
      in if length name < n then find_api hs name after
         else do {
           c \<leftarrow> strncmp (name @ after) (cstr (h_name h) @ [0]) n;
           if c \<noteq> 0 then find_api hs name after
           else if n < length name \<and> name ! n \<noteq> c8 CHR ''/'' then find_api hs name after
           else Some (Some h) })"

definition get_api_handler :: "bytes \<Rightarrow> bytes \<Rightarrow> apihandler_data option option" where
  "get_api_handler name after = (if name = [] then Some None else find_api s_apihandlers name after)"

definition find_handler :: "bytes \<Rightarrow> bytes \<Rightarrow> apihandler_data option option" where
  "find_handler uri after =
     (if length uri < 6 then Some None
      else do {
        c \<leftarrow> strncmp (uri @ after) (cstr ''/api/'' @ [0]) 5;
        if c \<noteq> 0 then Some None else get_api_handler (drop 5 uri) after })"


subsection \<open>Requests on an object\<close>

definition double_arith :: "flt darith" where
  "double_arith = \<lparr>d_of_int = flt_of_int binary64, d_tenth = flt_lit binary64 (1 / 10),
     d_add = fadd binary64, d_mul = fmul binary64, d_div = fdiv binary64\<rparr>"

text \<open>
  The bytes \<open>mg_json_unescape\<close> has written when it returns, and whether it succeeded: a failure
  leaves what was written before it.
\<close>

fun unescape_writes :: "bytes \<Rightarrow> nat \<Rightarrow> bytes \<times> bool" where
  "unescape_writes [] n = (if n = 0 then ([], False) else ([0], True))"
| "unescape_writes (c # cs) 0 = ([], False)"
| "unescape_writes (c # cs) (Suc n) =
     (if c = bslash \<and> length cs \<ge> 5 \<and> cs ! 0 = c8 CHR ''u'' then
        (case mg_str_to_num (take 4 (drop 1 cs)) 16 1 of
           None \<Rightarrow> ([], False)
         | Some v \<Rightarrow> apfst ((#) (ucast v)) (unescape_writes (drop 5 cs) n))
      else if c = bslash \<and> cs \<noteq> [] then
        (let e = json_esc (hd cs) False in if e = 0 then ([], False) else apfst ((#) e) (unescape_writes (tl cs) n))
      else apfst ((#) c) (unescape_writes cs n))"

lemma unescape_writes_result:
  "unescape_loop s n = (if snd (unescape_writes s n) then Some (butlast (fst (unescape_writes s n))) else None) \<and>
   length (fst (unescape_writes s n)) \<le> n \<and> (snd (unescape_writes s n) \<longrightarrow> fst (unescape_writes s n) \<noteq> [])"
proof (induction s n rule: unescape_writes.induct)
  case (3 c cs n)
  let ?u = "c = bslash \<and> length cs \<ge> 5 \<and> cs ! 0 = c8 CHR ''u''"
  consider (u) v where ?u "mg_str_to_num (take 4 (drop 1 cs)) 16 1 = Some v"
    | (bad) ?u "mg_str_to_num (take 4 (drop 1 cs)) 16 1 = None"
    | (esc) "\<not> ?u" "c = bslash \<and> cs \<noteq> []" | (plain) "\<not> ?u" "\<not> (c = bslash \<and> cs \<noteq> [])"
    by fastforce
  then show ?case
  proof cases
    case u
    then show ?thesis using 3(1) by simp
  next
    case bad
    then show ?thesis by simp
  next
    case esc
    then have "unescape_writes (c # cs) (Suc n) =
        (if json_esc (hd cs) False = 0 then ([], False) else apfst ((#) (json_esc (hd cs) False)) (unescape_writes (tl cs) n))"
      "unescape_loop (c # cs) (Suc n) =
        (if json_esc (hd cs) False = 0 then None else map_option ((#) (json_esc (hd cs) False)) (unescape_loop (tl cs) n))"
      by (simp_all only: unescape_writes.simps unescape_loop.simps if_False if_True Let_def simp_thms)
    then show ?thesis using 3(2) [OF esc] by simp
  next
    case plain
    then have "unescape_writes (c # cs) (Suc n) = apfst ((#) c) (unescape_writes cs n)"
      "unescape_loop (c # cs) (Suc n) = map_option ((#) c) (unescape_loop cs n)" by (simp_all only: unescape_writes.simps unescape_loop.simps if_False)
    then show ?thesis using 3(3) [OF plain] by simp
  qed
qed simp_all

definition mg_json_get_str2 :: "bytes \<Rightarrow> bytes \<Rightarrow> nat \<Rightarrow> bytes \<Rightarrow> bytes option" where
  "mg_json_get_str2 json path len buf = do {
     tok \<leftarrow> mg_json_get_tok json path;
     Some (case tok of
             Some s \<Rightarrow> if 1 < length s \<and> hd s = dquote
                       then (let w = fst (unescape_writes (take (length s - 2) (tl s)) len) in w @ drop (length w) buf)
                       else buf
           | None \<Rightarrow> buf) }"

definition json_path :: "string \<Rightarrow> bytes" where
  "json_path name = take 99 (cstr ''$.'' @ cstr name) @ [0]"

definition parse_attr :: "bytes \<Rightarrow> attribute_t \<Rightarrow> attr_value \<Rightarrow> attr_value option" where
  "parse_attr body a v =
     (if attr_type a = ''int'' then do {
        d \<leftarrow> mg_json_get_num double_arith body (json_path (attr_name a));
        (case d of None \<Rightarrow> Some v | Some x \<Rightarrow> map_option AInt (flt_to_i32 x)) }
      else if attr_type a = ''bool'' then do {
        b \<leftarrow> mg_json_get_bool body (json_path (attr_name a));
        Some (case b of None \<Rightarrow> v | Some x \<Rightarrow> ABool x) }
      else if attr_type a = ''double'' then do {
        d \<leftarrow> mg_json_get_num double_arith body (json_path (attr_name a));
        Some (case d of None \<Rightarrow> v | Some x \<Rightarrow> ADouble x) }
      else if attr_type a = ''string'' then
        (case v of AString buf \<Rightarrow> map_option AString (mg_json_get_str2 body (json_path (attr_name a)) (attr_size a) buf) | _ \<Rightarrow> None)
      else Some v)"

fun parse_attrs :: "bytes \<Rightarrow> attribute_t list \<Rightarrow> attr_value list \<Rightarrow> attr_value list option" where
  "parse_attrs body (a # as) (v # vs) = do {
     x \<leftarrow> parse_attr body a v; xs \<leftarrow> parse_attrs body as vs; Some (x # xs) }"
| "parse_attrs body _ vs = Some vs"

definition print_struct :: "attribute_t list \<Rightarrow> attr_value list \<Rightarrow> (string \<times> attr_value) list" where
  "print_struct as vs = zip (map attr_name as) vs"

datatype http_reply =
    ReplyObject "(string \<times> attr_value) list"
  | ReplyTrue
  | ReplyVersion u32
  | WsUpgrade
  | ServeDir bytes

definition handle_object ::
  "'c api_env \<Rightarrow> bytes \<Rightarrow> apihandler_data \<Rightarrow> api_state \<Rightarrow> (http_reply \<times> api_state) option" where
  "handle_object env body h a = do {
     (data, a1) \<leftarrow> run_getter (h_getter h) env a;
     (data', a') \<leftarrow>
       (if body \<noteq> [] then do {
          tmp \<leftarrow> parse_attrs body (h_attributes h) data;
          let a2 = (if tmp \<noteq> data then glue_update_state a1 else a1);
          let a3 = (case h_setter h of None \<Rightarrow> a2 | Some f \<Rightarrow> run_setter f tmp a2);
          run_getter (h_getter h) env a3 }
        else Some (data, a1));
     Some (ReplyObject (print_struct (h_attributes h) data'), a') }"

text \<open>
  A complete request (\<open>MG_EV_HTTP_MSG\<close>) on a connection that is no web socket and has no upload or
  action under way. All handlers of the table are of type \<open>data\<close>.
\<close>

definition handle_api_call ::
  "'c api_env \<Rightarrow> bytes \<Rightarrow> apihandler_data \<Rightarrow> api_state \<Rightarrow> (http_reply \<times> api_state) option" where
  "handle_api_call env body h a =
     (if h_type h = ''object'' \<or> h_type h = ''data'' then handle_object env body h a else None)"

definition http_ev_handler ::
  "'c api_env \<Rightarrow> bytes \<Rightarrow> bytes \<Rightarrow> bytes \<Rightarrow> api_state \<Rightarrow> (http_reply \<times> api_state) option" where
  "http_ev_handler env uri after body a = do {
     h \<leftarrow> find_handler uri after;
     is_ok \<leftarrow> mg_match (uri @ after) (length uri) (cstr ''/api/ok'');
     is_ws \<leftarrow> mg_match (uri @ after) (length uri) (cstr ''/websocket'');
     is_heartbeat \<leftarrow> mg_match (uri @ after) (length uri) (cstr ''/api/heartbeat'');
     if is_ok then Some (ReplyTrue, a)
     else if is_ws then Some (WsUpgrade, a)
     else if is_heartbeat then Some (ReplyVersion (device_change_version a), a)
     else case h of Some h' \<Rightarrow> handle_api_call env body h' a | None \<Rightarrow> Some (ServeDir uri, a) }"


subsection \<open>Routing\<close>

lemma strncmp_prefix:
  "nul_free k \<Longrightarrow> length k \<le> length s \<Longrightarrow> \<exists>c. strncmp (s @ x) (k @ y) (length k) = Some c \<and> (c = 0 \<longleftrightarrow> take (length k) s = k)"
proof (induction k arbitrary: s)
  case (Cons b k)
  then obtain a s' where s: "s = a # s'" by (cases s) auto
  then show ?case using Cons by (auto simp: nul_free_def uint_eq_iff_byte)
qed simp

definition covers :: "string \<Rightarrow> bytes \<Rightarrow> bool" where
  "covers n s \<longleftrightarrow> s = cstr n \<or> (\<exists>r. s = cstr n @ c8 CHR ''/'' # r)"

definition handler_of :: "bytes \<Rightarrow> apihandler_data option" where
  "handler_of uri =
     (if take 5 uri = cstr ''/api/'' \<and> 6 \<le> length uri then find (\<lambda>h. covers (h_name h) (drop 5 uri)) s_apihandlers else None)"

lemma covers_iff:
  "covers n s \<longleftrightarrow> length n \<le> length s \<and> take (length n) s = cstr n \<and> \<not> (length n < length s \<and> s ! length n \<noteq> c8 CHR ''/'')"
proof
  assume r: "length n \<le> length s \<and> take (length n) s = cstr n \<and> \<not> (length n < length s \<and> s ! length n \<noteq> c8 CHR ''/'')"
  show "covers n s"
  proof (cases "length n = length s")
    case True
    then show ?thesis using r by (auto simp: covers_def)
  next
    case False
    then have l: "length n < length s" "s ! length n = c8 CHR ''/''" using r by auto
    have "s = take (length n) s @ s ! length n # drop (Suc (length n)) s" using l(1) by (rule id_take_nth_drop)
    then show ?thesis using r l by (auto simp: covers_def)
  qed
qed (auto simp: covers_def nth_append)

lemma find_api_find:
  "list_all (\<lambda>h. nul_free (cstr (h_name h))) hs \<Longrightarrow> find_api hs s after = Some (find (\<lambda>h. covers (h_name h) s) hs)"
proof (induction hs)
  case (Cons h hs)
  show ?case
  proof (cases "length (h_name h) \<le> length s")
    case True
    obtain c where "strncmp (s @ after) (cstr (h_name h) @ [0]) (length (h_name h)) = Some c"
      "c = 0 \<longleftrightarrow> take (length (h_name h)) s = cstr (h_name h)"
      using strncmp_prefix [of "cstr (h_name h)" s after "[0]"] True Cons.prems by auto
    moreover from this have "covers (h_name h) s \<longleftrightarrow> c = 0 \<and> \<not> (length (h_name h) < length s \<and> s ! length (h_name h) \<noteq> c8 CHR ''/'')"
      unfolding covers_iff using True by simp
    moreover have "find_api hs s after = Some (find (\<lambda>h. covers (h_name h) s) hs)" using Cons by simp
    ultimately show ?thesis using True by (simp add: Let_def)
  qed (use Cons in \<open>simp add: covers_iff Let_def\<close>)
qed simp

lemma handler_names: "list_all (\<lambda>h. nul_free (cstr (h_name h))) s_apihandlers"
  by (simp add: s_apihandlers_def s_apihandler_imu_def s_apihandler_power_service_settings_def s_apihandler_state_def nul_free_def)

lemma find_handler_of: "find_handler uri after = Some (handler_of uri)"
proof (cases "6 \<le> length uri")
  case True
  obtain c where "strncmp (uri @ after) (cstr ''/api/'' @ [0]) 5 = Some c" "c = 0 \<longleftrightarrow> take 5 uri = cstr ''/api/''"
  proof -
    have n: "nul_free (cstr ''/api/'')" "length (cstr ''/api/'') = 5" by (simp_all add: nul_free_def)
    show ?thesis using strncmp_prefix [OF n(1), of uri after "[0]"] True that unfolding n(2) by auto
  qed
  moreover have "drop 5 uri \<noteq> []" using True by simp
  ultimately show ?thesis
    using True find_api_find [OF handler_names]
    by (auto simp: find_handler_def handler_of_def get_api_handler_def simp del: drop_eq_Nil)
qed (simp add: find_handler_def handler_of_def)

text \<open>What a request does, in terms of its address.\<close>

definition route :: "'c api_env \<Rightarrow> bytes \<Rightarrow> bytes \<Rightarrow> api_state \<Rightarrow> (http_reply \<times> api_state) option" where
  "route env uri body a =
     (if uri = cstr ''/api/ok'' then Some (ReplyTrue, a)
      else if uri = cstr ''/websocket'' then Some (WsUpgrade, a)
      else if uri = cstr ''/api/heartbeat'' then Some (ReplyVersion (device_change_version a), a)
      else case handler_of uri of Some h \<Rightarrow> handle_object env body h a | None \<Rightarrow> Some (ServeDir uri, a))"

lemma handler_of_data: "handler_of uri = Some h \<Longrightarrow> h \<in> set s_apihandlers"
  by (auto simp: handler_of_def find_Some_iff split: if_splits)

lemma handlers_data: "h \<in> set s_apihandlers \<Longrightarrow> h_type h = ''data''"
  by (auto simp: s_apihandlers_def s_apihandler_imu_def s_apihandler_power_service_settings_def s_apihandler_state_def)

lemma http_ev_handler_route: "http_ev_handler env uri after body a = route env uri body a"
proof -
  have m: "mg_match (uri @ after) (length uri) p = Some (uri = p)" if "plain p" for p
    using mg_match_plain [OF that, of "length uri" "uri @ after"] by (auto simp: eq_commute)
  have "plain (cstr ''/api/ok'')" "plain (cstr ''/websocket'')" "plain (cstr ''/api/heartbeat'')"
    by (simp_all add: plain_def)
  then show ?thesis
    by (auto simp: http_ev_handler_def route_def find_handler_of m handle_api_call_def
      dest!: handler_of_data handlers_data split: option.split)
qed


subsection \<open>Every request is answered\<close>

text \<open>
  The structures have the shape of their attribute tables, and the charger state is a terminated
  string in its 20 bytes.
\<close>

definition terminated20 :: "bytes \<Rightarrow> bool" where
  "terminated20 s \<longleftrightarrow> length s = 20 \<and> 0 \<in> set s"

definition state_ok :: "attr_value list \<Rightarrow> bool" where
  "state_ok d \<longleftrightarrow> (\<exists>x1 s x3 x4 x5 n. d = [ABool False, ADouble x1, AString s, ADouble x3, ADouble x4, ADouble x5, AInt n] \<and>
     terminated20 s \<and> 0 \<le> n \<and> n \<le> 100)"

definition settings_ok :: "attr_value list \<Rightarrow> bool" where
  "settings_ok d \<longleftrightarrow> (\<exists>xs. d = map ADouble xs \<and> length xs = 3)"

definition api_ok :: "api_state \<Rightarrow> bool" where
  "api_ok a \<longleftrightarrow> state_ok (cached_state a) \<and> settings_ok (power_service_settings a)"

text \<open>The battery level the power service computes is between 0 and 1.\<close>

definition env_ok :: "'c api_env \<Rightarrow> bool" where
  "env_ok env \<longleftrightarrow> (\<exists>m. battery_percent (api_power env) = Fin False m \<and> 0 \<le> m \<and> m \<le> 1)"

lemma level_range:
  assumes "0 \<le> m" "m \<le> 1"
  shows "\<exists>n. flt_to_i32 (fmul binary32 (Fin False m) (flt_of_int binary32 100)) = Some n \<and> 0 \<le> n \<and> n \<le> 100"
proof -
  have r: "representable binary32 100" using representable_small(1) [of 100] by simp
  have "flt_of_int binary32 100 = Fin False 100"
    using r by (simp add: flt_of_int_def of_rat_flt_def fround_representable)
  moreover obtain m' where "fround binary32 False (m * 100) = Fin False m'" "0 \<le> m'" "m' \<le> 100"
    using fround_le [OF r, of "m * 100" False] assms by auto
  moreover from this have "0 \<le> \<lfloor>m'\<rfloor>" "\<lfloor>m'\<rfloor> \<le> 100" by linarith+
  ultimately show ?thesis by simp
qed

lemma status_short: "length (GetChargerStatus p) < 20" "nul_free (cstr (GetChargerStatus p))"
  by (auto simp: GetChargerStatus_def nul_free_def split: CHARGER_STATUS.split)

lemma strncpy_status:
  assumes "length old = 20"
  shows "\<exists>b. strncpy old 0 (cstr (GetChargerStatus p) @ [0]) 20 = Some b \<and> terminated20 b \<and>
    take (length (GetChargerStatus p) + 1) b = cstr (GetChargerStatus p) @ [0]"
proof -
  let ?s = "cstr (GetChargerStatus p)"
  have "strncpy_bytes (?s @ [0]) 20 = Some (?s @ replicate (20 - length ?s) 0)"
    using strncpy_bytes_terminated [OF status_short(2), of p 20 "[]"] status_short(1) [of p] by simp
  then show ?thesis
    using status_short(1) [of p] assms by (auto simp: strncpy_def awrite_def terminated20_def)
qed


lemma glue_get_state_ok:
  assumes "api_ok a" "env_ok env"
  shows "\<exists>d a'. glue_get_state env a = Some (d, a') \<and> state_ok d \<and> api_ok a' \<and>
    power_service_settings a' = power_service_settings a \<and> device_change_version a' = device_change_version a"
proof (cases "chVTTimeElapsedSinceX (api_now env) (last_request a) < TIME_MS2I 100")
  case True
  then show ?thesis using assms by (simp add: glue_get_state_def api_ok_def)
next
  case False
  obtain m where m: "battery_percent (api_power env) = Fin False m" "0 \<le> m" "m \<le> 1" using assms(2) by (auto simp: env_ok_def)
  obtain n where n: "flt_to_i32 (fmul binary32 (Fin False m) (flt_of_int binary32 100)) = Some n" "0 \<le> n" "n \<le> 100"
    using level_range m by blast
  obtain old where old: "cached_state a ! 2 = AString old" "length old = 20"
    using assms(1) by (auto simp: api_ok_def state_ok_def terminated20_def)
  obtain b where b: "strncpy old 0 (cstr (GetChargerStatus (api_power env)) @ [0]) 20 = Some b" "terminated20 b"
    using strncpy_status [OF old(2), of "api_power env"] by blast
  let ?d = "[ABool False, ADouble (fcvt binary64 (adapter_current (api_power env))), AString b,
      ADouble (fcvt binary64 (adapter_volts (api_power env))), ADouble (fcvt binary64 (charge_current (api_power env))),
      ADouble (fcvt binary64 (battery_volts (api_power env))), AInt n]"
  have "glue_get_state env a = Some (?d, a\<lparr>last_request := api_now env, cached_state := ?d\<rparr>)"
    using False m(1) n(1) old(1) b(1) by (simp add: glue_get_state_def Let_def del: flt_to_i32.simps fmul.simps)
  moreover have "state_ok ?d" using n(2,3) b(2) by (simp add: state_ok_def)
  ultimately show ?thesis using assms(1) by (simp add: api_ok_def)
qed

definition int_fits :: "bytes \<Rightarrow> bool" where
  "int_fits body \<longleftrightarrow> (case mg_json_get_num double_arith body (json_path ''battery_level'') of
     Some (Some d) \<Rightarrow> flt_to_i32 d \<noteq> None | _ \<Rightarrow> True)"

lemma json_get_total:
  assumes "nul_free (cstr nm)"
  shows "\<exists>r. mg_json_get_num A body (json_path nm) = Some r" "\<exists>r. mg_json_get_bool body (json_path nm) = Some r"
    "\<exists>r. mg_json_get_tok body (json_path nm) = Some r"
proof -
  let ?p = "take 99 (cstr ''$.'' @ cstr nm)"
  have "nul_free ?p" "?p \<noteq> []" using assms by (auto simp: nul_free_def dest!: in_set_takeD)
  then obtain r n where "mg_json_get body (json_path nm) = Some (r, n)" "r < 0 \<or> 0 < n \<and> nat r + n \<le> length body"
    using mg_json_get_in_bounds [of ?p body] unfolding json_path_def by blast
  then show "\<exists>r. mg_json_get_num A body (json_path nm) = Some r" "\<exists>r. mg_json_get_bool body (json_path nm) = Some r"
    "\<exists>r. mg_json_get_tok body (json_path nm) = Some r"
    by (auto simp: mg_json_get_num_def mg_json_get_bool_def mg_json_get_tok_def aget_def)
qed

lemma parse_double: "nul_free (cstr nm) \<Longrightarrow> \<exists>y. parse_attr body (attribute nm ''double'' 0) (ADouble x) = Some (ADouble y)"
  using json_get_total(1) [of nm double_arith body] by (auto simp: parse_attr_def attribute_def split: option.split)

definition doubles :: "attribute_t list \<Rightarrow> bool" where
  "doubles as \<longleftrightarrow> list_all (\<lambda>a. attr_type a = ''double'' \<and> nul_free (cstr (attr_name a))) as"

lemma parse_doubles:
  "doubles as \<Longrightarrow> length as = length xs \<Longrightarrow>
   \<exists>ys. parse_attrs body as (map ADouble xs) = Some (map ADouble ys) \<and> length ys = length xs"
proof (induction xs arbitrary: "as")
  case (Cons x xs)
  then obtain b bs where as: "as = b # bs" by (cases "as") auto
  obtain r where "mg_json_get_num double_arith body (json_path (attr_name b)) = Some r" "attr_type b = ''double''"
    using json_get_total(1) [of "attr_name b" double_arith body] Cons.prems as by (auto simp: doubles_def)
  then obtain y where y: "parse_attr body b (ADouble x) = Some (ADouble y)" by (cases r) (simp_all add: parse_attr_def)
  obtain ys where "parse_attrs body bs (map ADouble xs) = Some (map ADouble ys)" "length ys = length xs"
    using Cons.IH [of bs] Cons.prems as by (auto simp: doubles_def)
  then have "parse_attrs body as (map ADouble (x # xs)) = Some (map ADouble (y # ys))" using as y by simp
  then show ?case using \<open>length ys = length xs\<close> by (metis length_Cons)
qed simp

lemma parse_attrs_total:
  "list_all2 (\<lambda>a v. parse_attr body a v \<noteq> None) as vs \<Longrightarrow> \<exists>d. parse_attrs body as vs = Some d"
  by (induction "as" vs rule: list_all2_induct) auto

lemma attribute_simps [simp]: "attr_name (attribute n t z) = n" "attr_type (attribute n t z) = t" "attr_size (attribute n t z) = z"
  by (simp_all add: attribute_def)

lemma doubles_tables: "doubles s_imu_attributes" "doubles s_power_service_settings_attributes"
  by (simp_all add: doubles_def s_imu_attributes_def s_power_service_settings_attributes_def nul_free_def)

lemma parse_attr_other:
  "nul_free (cstr n) \<Longrightarrow> parse_attr body (attribute n ''double'' z) v \<noteq> None"
  "nul_free (cstr n) \<Longrightarrow> parse_attr body (attribute n ''bool'' z) v \<noteq> None"
  "nul_free (cstr n) \<Longrightarrow> parse_attr body (attribute n ''string'' z) (AString s) \<noteq> None"
  using json_get_total(1) [of n double_arith body] json_get_total(2,3) [of n body]
  by (auto simp: parse_attr_def mg_json_get_str2_def split: option.split)

lemma parse_attr_level: "int_fits body \<Longrightarrow> parse_attr body (attribute ''battery_level'' ''int'' z) v \<noteq> None"
  using json_get_total(1) [of "''battery_level''" double_arith body]
  by (auto simp: parse_attr_def nul_free_def int_fits_def split: option.splits)

lemma parse_state:
  assumes "state_ok d" "int_fits body"
  shows "\<exists>d'. parse_attrs body s_state_attributes d = Some d'"
proof -
  obtain x1 s x3 x4 x5 n where d: "d = [ABool False, ADouble x1, AString s, ADouble x3, ADouble x4, ADouble x5, AInt n]"
    using assms(1) by (auto simp: state_ok_def)
  show ?thesis unfolding d
    by (rule parse_attrs_total)
      (simp add: s_state_attributes_def nul_free_def parse_attr_other parse_attr_level [OF assms(2)] del: not_None_eq)
qed

definition settings_post :: "bytes \<Rightarrow> bytes \<Rightarrow> bool" where
  "settings_post uri body \<longleftrightarrow> handler_of uri = Some s_apihandler_power_service_settings \<and> body \<noteq> []"

lemma handle_object_ok:
  assumes "h \<in> set s_apihandlers" "api_ok a" "env_ok env" "int_fits body"
  shows "\<exists>r a'. handle_object env body h a = Some (ReplyObject r, a') \<and> api_ok a' \<and>
    (h \<noteq> s_apihandler_power_service_settings \<or> body = [] \<longrightarrow> power_service_settings a' = power_service_settings a)"
proof -
  consider (imu) "h = s_apihandler_imu" | (set) "h = s_apihandler_power_service_settings" | (state) "h = s_apihandler_state"
    using assms(1) by (auto simp: s_apihandlers_def)
  then show ?thesis
  proof cases
    case imu
    obtain ys where "parse_attrs body s_imu_attributes (glue_get_imu env) = Some ys"
    proof -
      let ?ax = "GetAxes (api_imu env)"
      have "glue_get_imu env = map ADouble [?ax ! 5, ?ax ! 4, ?ax ! 3, ?ax ! 2, ?ax ! 1, ?ax ! 0]" by (simp add: glue_get_imu_def Let_def)
      then show ?thesis
        using parse_doubles [OF doubles_tables(1), of "[?ax ! 5, ?ax ! 4, ?ax ! 3, ?ax ! 2, ?ax ! 1, ?ax ! 0]" body] that
        by (auto simp: s_imu_attributes_def)
    qed
    then show ?thesis
      using assms(2) imu by (simp add: handle_object_def s_apihandler_imu_def Let_def glue_update_state_def api_ok_def)
  next
    case set
    obtain xs where xs: "power_service_settings a = map ADouble xs" "length xs = 3"
      using assms(2) by (auto simp: api_ok_def settings_ok_def)
    obtain ys where "parse_attrs body s_power_service_settings_attributes (power_service_settings a) = Some (map ADouble ys)" "length ys = 3"
      using parse_doubles [OF doubles_tables(2), of xs body] xs by (auto simp: s_power_service_settings_attributes_def)
    then show ?thesis
      using assms(2) set by (auto simp: handle_object_def s_apihandler_power_service_settings_def Let_def glue_update_state_def api_ok_def
        glue_get_power_service_settings_def glue_set_power_service_settings_def settings_ok_def)
  next
    case state
    obtain d a1 where a1: "glue_get_state env a = Some (d, a1)" "state_ok d" "api_ok a1"
      "power_service_settings a1 = power_service_settings a"
      using glue_get_state_ok [OF assms(2,3)] by blast
    obtain d' where d': "parse_attrs body s_state_attributes d = Some d'" using parse_state [OF a1(2) assms(4)] by blast
    have "api_ok (if d' \<noteq> d then glue_update_state a1 else a1)" "power_service_settings (if d' \<noteq> d then glue_update_state a1 else a1) = power_service_settings a"
      using a1 by (simp_all add: api_ok_def glue_update_state_def)
    then obtain d2 a2 where "glue_get_state env (if d' \<noteq> d then glue_update_state a1 else a1) = Some (d2, a2)" "api_ok a2"
      "power_service_settings a2 = power_service_settings a"
      using glue_get_state_ok [OF _ assms(3), of "if d' \<noteq> d then glue_update_state a1 else a1"] by auto
    then show ?thesis using a1 d' state by (simp add: handle_object_def s_apihandler_state_def Let_def)
  qed
qed


fun requests :: "('c api_env \<times> bytes \<times> bytes \<times> bytes) list \<Rightarrow> api_state \<Rightarrow> (http_reply list \<times> api_state) option" where
  "requests [] a = Some ([], a)"
| "requests ((env, uri, after, body) # rs) a = do {
     (r, a1) \<leftarrow> http_ev_handler env uri after body a;
     (rest, a2) \<leftarrow> requests rs a1;
     Some (r # rest, a2) }"

lemma request_answered:
  assumes "api_ok a" "env_ok env" "int_fits body"
  shows "\<exists>r a'. http_ev_handler env uri after body a = Some (r, a') \<and> api_ok a' \<and>
    (\<not> settings_post uri body \<longrightarrow> power_service_settings a' = power_service_settings a)"
proof (cases "handler_of uri")
  case None
  then show ?thesis using assms(1) by (auto simp: http_ev_handler_route route_def)
next
  case (Some h)
  then show ?thesis
    using handle_object_ok [OF handler_of_data [OF Some] assms] assms(1)
    by (auto simp: http_ev_handler_route route_def settings_post_def)
qed


lemma api_init_ok: "api_ok api_init"
proof -
  have "state_ok (cached_state api_init)" by (simp add: api_init_def state_ok_def terminated20_def)
  moreover have "settings_ok (power_service_settings api_init)"
    unfolding settings_ok_def api_init_def by (intro exI [of _ "map (flt_lit binary64) [12, 25 / 2, 16]"]) simp
  ultimately show ?thesis by (simp add: api_ok_def)
qed

definition example_env :: "unit api_env" where
  "example_env = \<lparr>api_now = 5000, api_power = power_init, api_imu = imu_init\<rparr>"



subsection \<open>Changing the settings\<close>

definition posted :: "(bytes \<times> jscalar) list \<Rightarrow> string \<Rightarrow> flt \<Rightarrow> flt" where
  "posted kvs nm old = (case map_of kvs (cstr nm) of
     Some (JNumber neg ds fr) \<Rightarrow> fst (mg_atod double_arith (jtext (JNumber neg ds fr))) | _ \<Rightarrow> old)"

definition number_of :: "jscalar \<Rightarrow> flt option" where
  "number_of v = (case v of JNumber neg ds fr \<Rightarrow> Some (fst (mg_atod double_arith (jtext v))) | _ \<Rightarrow> None)"

lemma number_first:
  "jscalar_ok v \<Longrightarrow> jtext v \<noteq> [] \<and> (hd (jtext v) = c8 CHR ''-'' \<or> jdigit (hd (jtext v))) = (number_of v \<noteq> None)"
  by (cases v) (auto simp: number_of_def jdigit_def hd_append neq_Nil_conv)

lemma json_number_member:
  assumes "members_ok kvs" "kvs \<noteq> []" "member_name (cstr nm)" "nm \<noteq> []" "length nm \<le> 97"
  shows "mg_json_get_num double_arith (jobject kvs) (json_path nm) = Some (Option.bind (map_of kvs (cstr nm)) number_of)"
proof -
  have p: "json_path nm = member_path (cstr nm)" using assms(5) by (simp add: json_path_def)
  note g = mg_json_get_member' [OF assms(1-3), unfolded p [symmetric]]
  show ?thesis
  proof (cases "member_at (cstr nm) kvs 1")
    case None
    then show ?thesis using g assms(4) member_at_None [of "cstr nm" kvs 1]
      by (simp add: mg_json_get_num_def MG_JSON_NOT_FOUND_def)
  next
    case (Some ov)
    obtain ofs v where ov: "ov = (ofs, v)" by fastforce
    have t: "take (length (jtext v)) (drop ofs (jobject kvs)) = jtext v" "map_of kvs (cstr nm) = Some v"
      using member_at_text [of "cstr nm" kvs 1 ofs v "jobject kvs" "cstr ''}''"] Some ov by (auto simp: jobject_def)
    have v: "jscalar_ok v" using assms(1) map_of_SomeD [OF t(2)] by (auto simp: members_ok_def list_all_iff)
    have "jtext v \<noteq> []" using number_first [OF v] by simp
    then have l1: "ofs < length (jobject kvs)" using t(1) by (cases "ofs < length (jobject kvs)") auto
    then have "jobject kvs ! ofs = hd (jtext v)"
      using arg_cong [OF t(1), of hd] \<open>jtext v \<noteq> []\<close> by (simp add: hd_drop_conv_nth)
    note l = l1 this
    show ?thesis
      using g Some ov assms(4) t l number_first [OF v]
      by (cases v) (simp_all add: mg_json_get_num_def aget_def number_of_def)
  qed
qed

lemma setting_names:
  "nm \<in> {''critical_volts'', ''empty_volts'', ''full_volts''} \<Longrightarrow> member_name (cstr nm) \<and> nm \<noteq> [] \<and> length nm \<le> 97"
  by (auto simp: member_name_def nul_free_def)

lemma parse_setting:
  assumes "members_ok kvs" "kvs \<noteq> []" "nm \<in> {''critical_volts'', ''empty_volts'', ''full_volts''}"
  shows "parse_attr (jobject kvs) (attribute nm ''double'' 0) (ADouble x) = Some (ADouble (posted kvs nm x))"
  using json_number_member [OF assms(1,2), of nm] setting_names [OF assms(3)]
  by (auto simp: parse_attr_def posted_def number_of_def split: option.split jscalar.split)

lemma settings_handler: "handler_of (cstr ''/api/power_service_settings'') = Some s_apihandler_power_service_settings"
  by (simp add: handler_of_def s_apihandlers_def covers_iff s_apihandler_imu_def s_apihandler_power_service_settings_def)


definition example_post :: "(bytes \<times> jscalar) list" where
  "example_post = [(cstr ''note'', JString (cstr ''winter'')), (cstr ''full_volts'', JNumber False (cstr ''15'') (Some (cstr ''5'')))]"


text \<open>
  A number posted as battery level that does not fit an \<open>int\<close> is converted nevertheless, which is
  undefined.
\<close>

lemma level_post_undefined:
  assumes "api_ok a" "env_ok env" "mg_json_get_num double_arith body (json_path ''battery_level'') = Some (Some x)" "flt_to_i32 x = None"
    and "body \<noteq> []"
  shows "http_ev_handler env (cstr ''/api/state'') after body a = None"
proof -
  obtain d a1 where a1: "glue_get_state env a = Some (d, a1)" "state_ok d"
    using glue_get_state_ok [OF assms(1,2)] by blast
  then obtain x1 s x3 x4 x5 n where d: "d = [ABool False, ADouble x1, AString s, ADouble x3, ADouble x4, ADouble x5, AInt n]"
    by (auto simp: state_ok_def)
  have "parse_attr body (attribute ''battery_level'' ''int'' 0) (AInt n) = None" using assms(3,4) by (simp add: parse_attr_def)
  then have "parse_attrs body s_state_attributes d = None"
    unfolding d s_state_attributes_def by (simp add: bind_eq_None_conv)
  moreover have "handler_of (cstr ''/api/state'') = Some s_apihandler_state"
    by (simp add: handler_of_def s_apihandlers_def covers_iff s_apihandler_imu_def s_apihandler_power_service_settings_def s_apihandler_state_def)
  ultimately show ?thesis
    using a1 assms(5) by (simp add: http_ev_handler_route route_def handle_object_def s_apihandler_state_def)
qed

end
