(* ===== verification/Upload.thy ===== *)
theory Upload
  imports Rest_Api
begin

text \<open>
  File uploads of the REST interface (\<open>mongoose/mongoose_impl.c\<close>): the state kept in the connection,
  and the handler that writes what arrives in blocks a flash memory accepts. The opener, writer
  and closer of a file are parameters, since no handler of the table uploads.
\<close>

record 'f upload_state =
  us_marker :: bool
  us_expected :: u32
  us_received :: u32
  us_fp :: "'f option"

datatype upload_effect =
    Wrote bytes
  | Closed
  | Replied int string
  | Draining

definition MG_ROUND_DOWN :: "nat \<Rightarrow> nat \<Rightarrow> nat" where
  "MG_ROUND_DOWN x a = (if a = 0 then x else (x div a) * a)"

definition us_zero :: "'f upload_state" where
  "us_zero = \<lparr>us_marker = False, us_expected = 0, us_received = 0, us_fp = None\<rparr>"

definition close_uploaded_file :: "'f upload_state \<Rightarrow> 'f upload_state \<times> upload_effect list" where
  "close_uploaded_file us = (us_zero, if us_fp us \<noteq> None then [Closed] else [])"

text \<open>
  \<open>MG_EV_READ\<close> with \<open>recv\<close> in the receive buffer, and \<open>MG_EV_CLOSE\<close>. \<open>fn_write\<close> gives its success
  and the file written.
\<close>

definition upload_read ::
  "('f \<Rightarrow> bytes \<Rightarrow> bool \<times> 'f) \<Rightarrow> 'f upload_state \<Rightarrow> bytes \<Rightarrow> ('f upload_state \<times> bytes \<times> upload_effect list) option" where
  "upload_read fn_write us recv =
     (if us_marker us \<and> 0 < us_expected us \<and> recv \<noteq> [] then do {
        fp \<leftarrow> us_fp us;
        let aligned = (if us_received us + of_nat (length recv) < us_expected us then MG_ROUND_DOWN (length recv) 512 else length recv);
        let (ok, fp') = (if 0 < aligned then fn_write fp (take aligned recv) else (True, fp));
        let us1 = us\<lparr>us_fp := Some fp', us_received := us_received us + of_nat aligned\<rparr>;
        let w = (if 0 < aligned then [Wrote (take aligned recv)] else []);
        let recv' = drop aligned recv;
        Some (if \<not> ok
              then (let (us2, es) = close_uploaded_file us1 in (us2, recv', w @ [Replied 400 ''Upload error''] @ es @ [Draining]))
              else if us_expected us1 \<le> us_received us1
              then (let (us2, es) = close_uploaded_file us1 in (us2, recv', w @ [Replied 200 ''ok''] @ es @ [Draining]))
              else (us1, recv', w)) }
      else Some (us, recv, []))"

definition upload_closed :: "'f upload_state \<Rightarrow> 'f upload_state \<times> upload_effect list" where
  "upload_closed us = (if us_marker us then close_uploaded_file us else (us, []))"

text \<open>Accepting an upload of \<open>body_len\<close> bytes; \<open>opened\<close> is the file the opener returns.\<close>

definition prep_upload :: "'f option \<Rightarrow> nat \<Rightarrow> 'f upload_state \<times> upload_effect list" where
  "prep_upload opened body_len =
     (case opened of
        None \<Rightarrow> (us_zero\<lparr>us_marker := True\<rparr>, [Replied 400 ''File open error'', Draining])
      | Some fp \<Rightarrow> (us_zero\<lparr>us_fp := Some fp, us_marker := True, us_expected := of_nat body_len\<rparr>, []))"

text \<open>The parts of a body arriving one after the other behind what is still in the buffer.\<close>

fun upload_run ::
  "('f \<Rightarrow> bytes \<Rightarrow> bool \<times> 'f) \<Rightarrow> bytes list \<Rightarrow> 'f upload_state \<Rightarrow> bytes \<Rightarrow> ('f upload_state \<times> bytes \<times> upload_effect list) option" where
  "upload_run wr [] us recv = Some (us, recv, [])"
| "upload_run wr (c # cs) us recv = do {
     (us1, recv1, es1) \<leftarrow> upload_read wr us (recv @ c);
     (us2, recv2, es2) \<leftarrow> upload_run wr cs us1 recv1;
     Some (us2, recv2, es1 @ es2) }"

fun written :: "upload_effect list \<Rightarrow> bytes list" where
  "written [] = []"
| "written (Wrote b # es) = b # written es"
| "written (_ # es) = written es"

lemma written_append [simp]: "written (xs @ ys) = written xs @ written ys"
  by (induction xs rule: written.induct) simp_all

subsection \<open>What is written\<close>

text \<open>
  While the body is incomplete, the buffer keeps less than a block, and what was taken from it
  are whole blocks.
\<close>

definition upload_inv :: "'f upload_state \<Rightarrow> nat \<Rightarrow> nat \<Rightarrow> bytes \<Rightarrow> bool" where
  "upload_inv us expected taken recv \<longleftrightarrow> us_marker us \<and> us_fp us \<noteq> None \<and> us_expected us = of_nat expected \<and> expected < 2 ^ 32 \<and>
     us_received us = of_nat taken \<and> taken mod 512 = 0 \<and> length recv < 512 \<and> taken + length recv < expected"

lemma of_nat_less_iff: "a < 2 ^ 32 \<Longrightarrow> b < 2 ^ 32 \<Longrightarrow> (of_nat a < (of_nat b :: u32)) = (a < b)"
  by (simp add: word_less_nat_alt unsigned_of_nat take_bit_nat_eq_self)

lemma upload_read_more:
  assumes "upload_inv us expected n recv" "\<forall>f b. fst (wr f b)" "n + length r < expected"
  shows "\<exists>us' recv' es. upload_read wr us r = Some (us', recv', es) \<and>
    concat (written es) @ recv' = r \<and> upload_inv us' expected (n + length (concat (written es))) recv' \<and>
    (\<forall>b \<in> set (written es). length b mod 512 = 0) \<and> Closed \<notin> set es"
proof (cases "r = []")
  case True
  then show ?thesis using assms(1,3) by (auto simp: upload_read_def upload_inv_def)
next
  case False
  define k where "k = length r div 512 * 512"
  have k: "k \<le> length r" "k mod 512 = 0" "length r - k < 512"
    using mod_less_divisor [of 512 "length r"] by (simp_all add: k_def minus_div_mult_eq_mod)
  have us: "us_marker us" "us_expected us = of_nat expected" "us_received us = of_nat n" "expected < 2 ^ 32" "n mod 512 = 0"
    using assms(1) by (simp_all add: upload_inv_def)
  obtain fp where fp: "us_fp us = Some fp" using assms(1) by (auto simp: upload_inv_def)
  have lt: "us_received us + of_nat (length r) < us_expected us"
    using us assms(3) of_nat_less_iff [of "n + length r" expected] by simp
  have pos: "0 < us_expected us" using order.strict_trans1 [OF word_zero_le lt] .
  have notyet: "us_received us + of_nat k < us_expected us"
    using us assms(3) k(1) of_nat_less_iff [of "n + k" expected] by simp
  obtain fp' where w: "(if 0 < k then wr fp (take k r) else (True, fp)) = (True, fp')"
  proof (cases "0 < k")
    case True
    have "fst (wr fp (take k r))" using assms(2) by blast
    then have "wr fp (take k r) = (True, snd (wr fp (take k r)))" by (simp add: prod_eq_iff)
    then show ?thesis using that True by simp
  qed (use that in simp)
  have al: "(if us_received us + of_nat (length r) < us_expected us then MG_ROUND_DOWN (length r) 512 else length r) = k"
    using lt by (simp add: MG_ROUND_DOWN_def k_def)
  have "\<not> us_expected us \<le> us_received us + of_nat k" using notyet by simp
  then have r: "upload_read wr us r = Some (us\<lparr>us_fp := Some fp', us_received := us_received us + of_nat k\<rparr>, drop k r,
      if 0 < k then [Wrote (take k r)] else [])"
    unfolding upload_read_def al using False pos us(1) fp w by (simp add: Let_def)
  have "upload_inv (us\<lparr>us_fp := Some fp', us_received := us_received us + of_nat k\<rparr>) expected (n + k) (drop k r)"
    using us assms(3) k mod_add_eq [of n 512 k] by (simp add: upload_inv_def)
  then show ?thesis unfolding r using k by auto
qed

lemma upload_read_last:
  assumes "upload_inv us expected n recv" "\<forall>f b. fst (wr f b)" "expected \<le> n + length r" "n + length r < 2 ^ 32" "r \<noteq> []"
  shows "upload_read wr us r = Some (us_zero, [], [Wrote r, Replied 200 ''ok'', Closed, Draining])"
proof -
  obtain fp where fp: "us_fp us = Some fp" using assms(1) by (auto simp: upload_inv_def)
  have us: "us_marker us" "us_expected us = of_nat expected" "us_received us = of_nat n" "expected < 2 ^ 32" "0 < expected"
    using assms(1) by (auto simp: upload_inv_def)
  have pos: "0 < us_expected us" using us of_nat_less_iff [of 0 expected] by simp
  have "\<not> us_received us + of_nat (length r) < us_expected us"
    using us assms(3,4) of_nat_less_iff [of "n + length r" expected] by simp
  then have al: "(if us_received us + of_nat (length r) < us_expected us then MG_ROUND_DOWN (length r) 512 else length r) = length r"
    and le: "us_expected us \<le> us_received us + of_nat (length r)" by simp_all
  have "fst (wr fp r)" using assms(2) by blast
  then obtain fp' where "wr fp r = (True, fp')" by (cases "wr fp r") auto
  then show ?thesis
    unfolding upload_read_def al using assms(5) pos le fp us(1) by (simp add: close_uploaded_file_def Let_def)
qed

lemma upload_run_more:
  "upload_inv us expected n recv \<Longrightarrow> \<forall>f b. fst (wr f b) \<Longrightarrow> n + length (recv @ concat cs) < expected \<Longrightarrow>
   \<exists>us' recv' es. upload_run wr cs us recv = Some (us', recv', es) \<and> concat (written es) @ recv' = recv @ concat cs \<and>
     upload_inv us' expected (n + length (concat (written es))) recv' \<and> (\<forall>b \<in> set (written es). length b mod 512 = 0) \<and>
     Closed \<notin> set es"
proof (induction cs arbitrary: us n recv)
  case (Cons c cs)
  obtain us1 recv1 es1 where 1: "upload_read wr us (recv @ c) = Some (us1, recv1, es1)" "concat (written es1) @ recv1 = recv @ c"
    "upload_inv us1 expected (n + length (concat (written es1))) recv1" "\<forall>b \<in> set (written es1). length b mod 512 = 0" "Closed \<notin> set es1"
    using upload_read_more [OF Cons.prems(1,2), of "recv @ c"] Cons.prems(3) by auto
  have l: "length (concat (written es1)) + length recv1 = length recv + length c"
    using arg_cong [OF 1(2), of length] by simp
  obtain us2 recv2 es2 where 2: "upload_run wr cs us1 recv1 = Some (us2, recv2, es2)" "concat (written es2) @ recv2 = recv1 @ concat cs"
    "upload_inv us2 expected (n + length (concat (written es1)) + length (concat (written es2))) recv2"
    "\<forall>b \<in> set (written es2). length b mod 512 = 0" "Closed \<notin> set es2"
    using Cons.IH [OF 1(3) Cons.prems(2)] Cons.prems(3) l by fastforce
  have "concat (written (es1 @ es2)) @ recv2 = recv @ concat (c # cs)" 
  proof -
    have "concat (written es1) @ (concat (written es2) @ recv2) = (concat (written es1) @ recv1) @ concat cs" using 2(2) by simp
    then show ?thesis using 1(2) by simp
  qed
  then show ?case using 1 2 by (auto simp: add.assoc)
qed auto

lemma upload_run_append:
  "upload_run wr (cs @ ds) us recv = do {
     (us1, recv1, es1) \<leftarrow> upload_run wr cs us recv; (us2, recv2, es2) \<leftarrow> upload_run wr ds us1 recv1; Some (us2, recv2, es1 @ es2) }"
proof (induction cs arbitrary: us recv)
  case Nil
  then show ?case by (cases "upload_run wr ds us recv") auto
next
  case (Cons c cs)
  show ?case
  proof (cases "upload_read wr us (recv @ c)")
    case (Some p)
    obtain us1 recv1 es1 where p: "p = (us1, recv1, es1)" by (cases p)
    show ?thesis
    proof (cases "upload_run wr cs us1 recv1")
      case (Some q)
      obtain us2 recv2 es2 where "q = (us2, recv2, es2)" by (cases q)
      then show ?thesis using Some \<open>upload_read wr us (recv @ c) = Some p\<close> p
        by (cases "upload_run wr ds us2 recv2") (auto simp: Cons.IH)
    qed (simp add: Some p Cons.IH)
  qed simp
qed

lemma upload_run_finished: "\<not> us_marker us \<Longrightarrow> \<exists>recv'. upload_run wr cs us recv = Some (us, recv', []) "
proof (induction cs arbitrary: recv)
  case (Cons c cs)
  then have "upload_read wr us (recv @ c) = Some (us, recv @ c, [])" by (simp add: upload_read_def)
  then show ?case using Cons by auto
qed simp

lemma prep_upload_inv:
  assumes "0 < expected" "expected < 2 ^ 32"
  shows "upload_inv (fst (prep_upload (Some fp) expected)) expected 0 []"
  using assms by (simp add: prep_upload_def upload_inv_def us_zero_def)

text \<open>
  C33: However a body is split into parts on the way, an upload whose writes succeed writes all of
  it, each byte once and in order, in blocks whose lengths are multiples of 512 except the
  last one; the file is closed once and the upload confirmed when the expected number of bytes
  has arrived, and what arrives later is not written.
\<close>

theorem upload_writes_everything:
  assumes "0 < expected" "length (concat (cs @ [c])) < 2 ^ 32" "expected < 2 ^ 32" "\<forall>f b. fst (wr f b)"
    and "length (concat cs) < expected" "expected \<le> length (concat (cs @ [c]))"
  shows "\<exists>recv es lst. upload_run wr (cs @ c # later) (fst (prep_upload (Some fp) expected)) [] =
      Some (us_zero, recv, es @ [Wrote lst, Replied 200 ''ok'', Closed, Draining]) \<and>
    concat (written es) @ lst = concat (cs @ [c]) \<and> list_all (\<lambda>b. length b mod 512 = 0) (written es) \<and> Closed \<notin> set es"
proof -
  obtain us1 recv1 es1 where 1: "upload_run wr cs (fst (prep_upload (Some fp) expected)) [] = Some (us1, recv1, es1)"
    "concat (written es1) @ recv1 = concat cs" "upload_inv us1 expected (length (concat (written es1))) recv1"
    "\<forall>b \<in> set (written es1). length b mod 512 = 0" "Closed \<notin> set es1"
    using upload_run_more [OF prep_upload_inv [OF assms(1,3)] assms(4), of cs fp] assms(5) by auto
  have l: "length (concat (written es1)) + length recv1 = length (concat cs)" using arg_cong [OF 1(2), of length] by simp
  have ne: "recv1 @ c \<noteq> []" using assms(5,6) by (cases c) simp_all
  have "upload_read wr us1 (recv1 @ c) = Some (us_zero, [], [Wrote (recv1 @ c), Replied 200 ''ok'', Closed, Draining])"
    using upload_read_last [OF 1(3) assms(4), of "recv1 @ c"] assms(2,6) l ne by simp
  moreover obtain recv' where "upload_run wr later us_zero [] = Some (us_zero, recv', [])"
    using upload_run_finished [of us_zero wr later "[]"] by (auto simp: us_zero_def)
  ultimately have "upload_run wr (cs @ c # later) (fst (prep_upload (Some fp) expected)) [] =
      Some (us_zero, recv', es1 @ [Wrote (recv1 @ c), Replied 200 ''ok'', Closed, Draining])"
    unfolding upload_run_append using 1(1) by simp
  moreover have "concat (written es1) @ recv1 @ c = concat (cs @ [c])" using arg_cong [OF 1(2), of "\<lambda>x. x @ c"] by simp
  ultimately show ?thesis using 1(4,5) by (auto simp: list_all_iff)
qed

theorem upload_writes_everything_witness:
  "\<exists>recv es lst. upload_run (\<lambda>f b. (True, f @ b)) ([replicate 300 1, replicate 300 2] @ replicate 200 3 # []) (fst (prep_upload (Some []) 700)) [] =
      Some (us_zero, recv, es @ [Wrote lst, Replied 200 ''ok'', Closed, Draining]) \<and>
    concat (written es) @ lst = replicate 300 1 @ replicate 300 2 @ replicate 200 3 \<and> list_all (\<lambda>b. length b mod 512 = 0) (written es) \<and>
    Closed \<notin> set es"
  using upload_writes_everything [of 700 "[replicate 300 1, replicate 300 2]" "replicate 200 3" "\<lambda>f b. (True, f @ b)" "[]" "[]"] by simp


text \<open>
  What arrives behind the expected body in the same part is written too.
\<close>

lemma upload_excess_written:
  assumes "0 < expected" "expected < length r" "length r < 2 ^ 32" "\<forall>f b. fst (wr f b)"
  shows "upload_run wr [r] (fst (prep_upload (Some fp) expected)) [] =
    Some (us_zero, [], [Wrote r, Replied 200 ''ok'', Closed, Draining])"
proof -
  have "expected < 2 ^ 32" "r \<noteq> []" using assms by auto
  then show ?thesis
    using upload_read_last [OF prep_upload_inv [OF assms(1)] assms(4), of r] assms by auto
qed

subsection \<open>Which requests are uploads\<close>

definition handle_uploads :: "'f upload_state \<Rightarrow> bytes \<Rightarrow> bytes \<Rightarrow> bytes \<Rightarrow> bool option" where
  "handle_uploads us http_method uri after =
     (if \<not> us_marker us \<and> mg_strcmp http_method (cstr ''POST'') = 0 then do {
        h \<leftarrow> find_handler uri after;
        Some (case h of None \<Rightarrow> False | Some x \<Rightarrow> h_type x = ''upload'' \<or> h_type x = ''ota'' \<or> h_type x = ''file'') }
      else Some False)"

lemma no_uploads: "handle_uploads us http_method uri after = Some False"
  using handlers_data [OF handler_of_data, of uri]
  by (cases "handler_of uri") (simp_all add: handle_uploads_def find_handler_of)

end
