(* ===== verification/Discovery.thy ===== *)
theory Discovery
  imports C_String Prelude
begin

text \<open>
  The discovery service for the boot loader (\<open>src/boot_service_discovery.cpp\<close>): a thread that answers
  discovery requests on a UDP socket and restarts the board into the boot loader on request. The
  results of the socket calls are arguments; what the thread sends and does are effects.
\<close>

datatype discovery_effect =
    CloseSocket
  | SetBootAddress
  | SystemReset
  | SendAdvertisement bytes

definition advertisement :: bytes where
  "advertisement = (let t = cstr ''BOARD_ADVERTISEMENT:xcore-boot;application-mode'' in t @ replicate (100 - length t) 0)"

text \<open>Opening the socket: the outcome of the four calls, and whether the loop is entered.\<close>

definition open_discovery :: "int \<Rightarrow> int \<Rightarrow> int \<Rightarrow> int \<Rightarrow> bool \<times> discovery_effect list" where
  "open_discovery sockfd bound broadcast timeout =
     (if sockfd < 0 then (False, [])
      else if bound < 0 then (False, [CloseSocket])
      else if broadcast < 0 then (False, [CloseSocket])
      else if timeout < 0 then (False, [CloseSocket])
      else (True, []))"

text \<open>
  One round of the loop: \<open>buf\<close> is the request buffer of 100 bytes, \<open>received\<close> the result of \<open>recvfrom\<close>
  with the bytes it stored, none when it failed. The flag tells whether the loop goes on.
\<close>

definition discovery_round :: "bytes option \<Rightarrow> bytes \<Rightarrow> (bool \<times> bytes \<times> discovery_effect list) option" where
  "discovery_round received buf =
     (case received of
        None \<Rightarrow> Some (True, buf, [])
      | Some data \<Rightarrow>
          if data = [] then Some (True, buf, [])
          else do {
            b1 \<leftarrow> awrite buf 0 data;
            b2 \<leftarrow> aput b1 (length data) 0;
            is_reset \<leftarrow> strncmp b2 (lit ''RESET'') 100;
            if is_reset = 0 then Some (False, b2, [SetBootAddress, SystemReset])
            else do {
              is_request \<leftarrow> strncmp b2 (lit ''DISCOVER_REQUEST'') 100;
              if is_request = 0 then do {
                n \<leftarrow> strlen advertisement;
                Some (True, b2, [SendAdvertisement (take n advertisement)]) }
              else Some (True, b2, []) } })"

text \<open>The bytes before the first zero.\<close>

definition text_of :: "bytes \<Rightarrow> bytes" where
  "text_of data = takeWhile (\<lambda>b. b \<noteq> 0) data"

lemma text_of_nul_free: "nul_free (text_of data)"
  by (auto simp: text_of_def nul_free_def dest: set_takeWhileD)

lemma text_split: "\<exists>r. data @ 0 # rest = text_of data @ 0 # r"
proof (induction data)
  case (Cons b data)
  then show ?case by (cases "b = 0") (auto simp: text_of_def)
qed (simp add: text_of_def)

lemma strncmp_text:
  assumes "length (text_of data) < n" "nul_free (cstr s)"
  shows "\<exists>c. strncmp (data @ 0 # rest) (lit s) n = Some c \<and> (c = 0 \<longleftrightarrow> text_of data = cstr s)"
proof -
  obtain r where r: "data @ 0 # rest = text_of data @ 0 # r" using text_split by blast
  have "\<exists>c. strncmp (a @ 0 # x) (b @ 0 # y) n = Some c" if "nul_free a" "nul_free b" for a b x y n
    using that
  proof (induction a arbitrary: b n)
    case Nil
    then show ?case by (cases b; cases n) (auto simp: nul_free_def)
  next
    case (Cons u a)
    then show ?case by (cases b; cases n) (auto simp: nul_free_def)
  qed
  from this [OF text_of_nul_free assms(2)] obtain c where "strncmp (text_of data @ 0 # r) (cstr s @ 0 # []) n = Some c" by blast
  then show ?thesis
    using strncmp_terminated [OF text_of_nul_free assms(2,1), of r "[]"] unfolding r lit_def by auto
qed

text \<open>
  C35: Whatever datagram arrives, of at most the 99 bytes that are asked for, the service stays
  inside its buffer; it restarts the board exactly when the text of the datagram is \<open>RESET\<close>, answers
  with the advertisement exactly when it is \<open>DISCOVER_REQUEST\<close>, and does nothing otherwise.
\<close>

theorem discovery_answers:
  assumes "length buf = 100" "length data \<le> 99"
  shows "\<exists>buf'. length buf' = 100 \<and> discovery_round (Some data) buf = Some
    (if data \<noteq> [] \<and> text_of data = cstr ''RESET'' then (False, buf', [SetBootAddress, SystemReset])
     else (True, buf', if data \<noteq> [] \<and> text_of data = cstr ''DISCOVER_REQUEST''
                       then [SendAdvertisement (cstr ''BOARD_ADVERTISEMENT:xcore-boot;application-mode'')] else []))"
proof (cases "data = []")
  case False
  let ?b = "data @ 0 # drop (Suc (length data)) buf"
  have w: "awrite buf 0 data = Some (data @ drop (length data) buf)" using assms by (simp add: awrite_def)
  have p: "aput (data @ drop (length data) buf) (length data) 0 = Some ?b"
  proof -
    have "drop (length data) buf \<noteq> []" using assms by simp
    then obtain x xs where "drop (length data) buf = x # xs" by (cases "drop (length data) buf") auto
    moreover from this have "drop (Suc (length data)) buf = xs" by (metis drop_Suc tl_drop list.sel(3))
    ultimately show ?thesis by (simp add: aput_def)
  qed
  have "length (text_of data) < 100" using assms(2) length_takeWhile_le [of "\<lambda>b. b \<noteq> 0" data] by (simp add: text_of_def)
  then obtain c d where c: "strncmp ?b (lit ''RESET'') 100 = Some c" "c = 0 \<longleftrightarrow> text_of data = cstr ''RESET''"
    and d: "strncmp ?b (lit ''DISCOVER_REQUEST'') 100 = Some d" "d = 0 \<longleftrightarrow> text_of data = cstr ''DISCOVER_REQUEST''"
    using strncmp_text [of data 100 "''RESET''"] strncmp_text [of data 100 "''DISCOVER_REQUEST''"] by (fastforce simp: nul_free_def)
  have n: "strlen advertisement = Some 47" "take 47 advertisement = cstr ''BOARD_ADVERTISEMENT:xcore-boot;application-mode''"
  proof -
    let ?t = "cstr ''BOARD_ADVERTISEMENT:xcore-boot;application-mode''"
    have "replicate 53 (0 :: u8) = 0 # replicate 52 0" by (rule replicate_Suc [of 52, simplified])
    then have t: "advertisement = ?t @ 0 # replicate 52 0" by (simp add: advertisement_def)
    show "strlen advertisement = Some 47" unfolding t by (subst strlen_terminated) (simp_all add: nul_free_def)
    show "take 47 advertisement = ?t" unfolding t by simp
  qed
  have "length ?b = 100" using assms by simp
  then show ?thesis
    using False w p c d n by (intro exI [of _ ?b]) (simp add: discovery_round_def)
qed (use assms(1) in \<open>simp add: discovery_round_def\<close>)

theorem discovery_answers_witness:
  "\<exists>buf'. length buf' = 100 \<and> discovery_round (Some (cstr ''RESET'')) (replicate 100 0) =
     Some (False, buf', [SetBootAddress, SystemReset])"
  using discovery_answers [of "replicate 100 0" "cstr ''RESET''"] by (simp add: text_of_def)

end
