(* ===== verification/Debug_Interface.thy ===== *)
theory Debug_Interface
  imports Globals
begin

text \<open>
  Raw access to a driver for debugging (\<open>src/debug\<close>): the part of a driver that can be debugged and the
  two interfaces to it, over TCP and UDP. The results of the socket calls are arguments; what is
  sent and handed to the driver are effects. A driver's \<open>RawDataInput\<close> is given the bytes it may
  read.
\<close>

subsection \<open>The driver's side\<close>

datatype raw_callback = TcpCallback | UdpCallback

record debuggable_driver =
  is_raw_mode :: bool
  raw_data_callback :: "raw_callback option"

definition SetRawAccessMode :: "bool \<Rightarrow> debuggable_driver \<Rightarrow> debuggable_driver" where
  "SetRawAccessMode enabled d = d\<lparr>is_raw_mode := enabled\<rparr>"

definition SetRawDataCallback :: "raw_callback \<Rightarrow> debuggable_driver \<Rightarrow> debuggable_driver" where
  "SetRawDataCallback cb d = d\<lparr>raw_data_callback := Some cb\<rparr>"

definition IsRawMode :: "debuggable_driver \<Rightarrow> bool" where
  "IsRawMode d = is_raw_mode d"

definition RawDataOutput :: "bytes \<Rightarrow> debuggable_driver \<Rightarrow> (raw_callback \<times> bytes) option" where
  "RawDataOutput data d = map_option (\<lambda>cb. (cb, data)) (raw_data_callback d)"

datatype debug_effect =
    RawDataInput bytes
  | RawMode bool
  | DebugClose int
  | DebugWrite int bytes
  | DebugSendTo int u32 u16 bytes

subsection \<open>TCP\<close>

record debug_tcp =
  tcp_listen_port :: u16
  tcp_client_socket :: int
  tcp_input_buffer :: bytes

definition DebugTCPInterface :: "bool \<Rightarrow> u16 \<Rightarrow> debug_tcp option" where
  "DebugTCPInterface dbg listen_port = do {
     chDbgAssert dbg (0 < listen_port);
     Some \<lparr>tcp_listen_port = listen_port, tcp_client_socket = -1, tcp_input_buffer = replicate 1024 0\<rparr> }"

definition Tcp_Start :: "bool \<Rightarrow> debuggable_driver option \<Rightarrow> debuggable_driver option" where
  "Tcp_Start dbg driver = do {
     chDbgAssert dbg (driver \<noteq> None);
     d \<leftarrow> driver;
     Some (SetRawDataCallback TcpCallback d) }"

text \<open>
  The loop over the reads of a connection: each has a result and the bytes it stored. The result is
  kept in a \<open>size_t\<close>. The flag tells whether the loop has ended.
\<close>

fun tcp_reads :: "(int \<times> bytes) list \<Rightarrow> bytes \<Rightarrow> (bool \<times> bytes \<times> debug_effect list) option" where
  "tcp_reads [] buf = Some (False, buf, [])"
| "tcp_reads ((result, data) # rs) buf = do {
     buf' \<leftarrow> awrite buf 0 data;
     let bytes_received = (of_int result :: u32);
     if bytes_received = 0 then Some (True, buf', [])
     else if length buf' < unat bytes_received then None
     else do {
       (ended, buf'', es) \<leftarrow> tcp_reads rs buf';
       Some (ended, buf'', RawDataInput (take (unat bytes_received) buf') # es) } }"

text \<open>One round of the server: the results of \<open>accept\<close> and \<open>setsockopt\<close>, then the reads.\<close>

definition tcp_session :: "int \<Rightarrow> int \<Rightarrow> (int \<times> bytes) list \<Rightarrow> debug_tcp \<Rightarrow> (debug_tcp \<times> debug_effect list) option" where
  "tcp_session incoming option_result reads t =
     (if incoming < 0 then Some (t, [])
      else if option_result < 0 then Some (t, [DebugClose incoming])
      else do {
        (ended, buf, es) \<leftarrow> tcp_reads reads (tcp_input_buffer t);
        Some (if ended
              then (t\<lparr>tcp_client_socket := -1, tcp_input_buffer := buf\<rparr>, RawMode True # es @ [RawMode False, DebugClose incoming])
              else (t\<lparr>tcp_client_socket := incoming, tcp_input_buffer := buf\<rparr>, RawMode True # es)) })"

definition Tcp_OnRawDriverData :: "bytes \<Rightarrow> debug_tcp \<Rightarrow> debug_effect list" where
  "Tcp_OnRawDriverData data t = (if 0 \<le> tcp_client_socket t then [DebugWrite (tcp_client_socket t) data] else [])"

subsection \<open>UDP\<close>

record debug_udp =
  udp_socket :: int
  udp_target_ip :: u32
  udp_target_port :: u16
  udp_input_buffer :: bytes

definition DebugUDPInterface :: "bool \<Rightarrow> u16 \<Rightarrow> debug_udp option" where
  "DebugUDPInterface dbg listen_port = do {
     chDbgAssert dbg (0 < listen_port);
     Some \<lparr>udp_socket = -1, udp_target_ip = 0, udp_target_port = 0, udp_input_buffer = replicate 1024 0\<rparr> }"

definition Udp_Start :: "bool \<Rightarrow> debuggable_driver option \<Rightarrow> debuggable_driver option" where
  "Udp_Start dbg driver = do {
     chDbgAssert dbg (driver \<noteq> None);
     d \<leftarrow> driver;
     Some (SetRawDataCallback UdpCallback d) }"

definition udp_open :: "int \<Rightarrow> int \<Rightarrow> debug_udp \<Rightarrow> bool \<times> debug_udp \<times> debug_effect list" where
  "udp_open sockfd bound u =
     (if sockfd < 0 then (False, u, [])
      else if bound < 0 then (False, u, [DebugClose sockfd])
      else (True, u\<lparr>udp_socket := sockfd\<rparr>, []))"

text \<open>A round of the receiving loop: nothing, or a datagram with its sender.\<close>

definition udp_round :: "(bytes \<times> u32 \<times> u16) option \<Rightarrow> debug_udp \<Rightarrow> (debug_udp \<times> debug_effect list) option" where
  "udp_round received u =
     (case received of
        None \<Rightarrow> Some (u, [])
      | Some (data, ip, port) \<Rightarrow>
          if data = [] then Some (u, [])
          else do {
            buf \<leftarrow> awrite (udp_input_buffer u) 0 data;
            Some (u\<lparr>udp_target_ip := ip, udp_target_port := port, udp_input_buffer := buf\<rparr>,
                  [RawMode True, RawDataInput (take (length data) buf)]) })"

definition Udp_OnRawDriverData :: "bytes \<Rightarrow> debug_udp \<Rightarrow> debug_effect list" where
  "Udp_OnRawDriverData data u =
     (if 0 \<le> udp_socket u \<and> 0 < udp_target_ip u \<and> 0 < udp_target_port u
      then [DebugSendTo (udp_socket u) (udp_target_ip u) (udp_target_port u) data] else [])"

subsection \<open>Sessions\<close>

definition good_read :: "int \<times> bytes \<Rightarrow> bool" where
  "good_read = (\<lambda>(n, data). n = int (length data) \<and> 0 < n \<and> length data \<le> 1024)"

lemma tcp_reads_good:
  "list_all good_read rs \<Longrightarrow> length buf = 1024 \<Longrightarrow>
   \<exists>buf'. length buf' = 1024 \<and> tcp_reads (rs @ [(0, [])]) buf = Some (True, buf', map (RawDataInput \<circ> snd) rs)"
proof (induction rs arbitrary: buf)
  case (Cons r rs)
  obtain n data where r: "r = (n, data)" by (cases r)
  have n: "n = int (length data)" "0 < length data" "length data \<le> 1024" "list_all good_read rs"
    using Cons.prems(1) r by (auto simp: good_read_def)
  let ?b = "data @ drop (length data) buf"
  have b: "awrite buf 0 data = Some ?b" "length ?b = 1024" using n Cons.prems(2) by (simp_all add: awrite_def)
  have u: "unat (of_int n :: u32) = length data" using n by (simp add: unsigned_of_nat take_bit_nat_eq_self)
  then have "(of_int n :: u32) \<noteq> 0" using n(2) by auto
  moreover obtain buf' where "length buf' = 1024" "tcp_reads (rs @ [(0, [])]) ?b = Some (True, buf', map (RawDataInput \<circ> snd) rs)"
    using Cons.IH [OF n(4) b(2)] by blast
  ultimately show ?case using b u n r by simp
qed (simp add: awrite_def)

lemma tcp_read_error:
  assumes "result < 0" "- (2 ^ 31) \<le> result" "length buf = 1024"
  shows "tcp_reads ((result, []) # rs) buf = None"
proof -
  have "unat (of_int result :: u32) = nat (result + 2 ^ 32)"
  proof -
    have "uint (of_int result :: u32) = result mod 2 ^ 32" by (simp add: unsigned_of_int take_bit_eq_mod)
    also have "\<dots> = (result + 2 ^ 32) mod 2 ^ 32" by simp
    also have "\<dots> = result + 2 ^ 32" using assms(1,2) by (intro mod_pos_pos_trivial) simp_all
    finally show ?thesis by (simp add: unat_eq_nat_uint)
  qed
  then have "1024 < unat (of_int result :: u32)" using assms(2) by simp
  moreover from this have "(of_int result :: u32) \<noteq> 0" by auto
  ultimately show ?thesis using assms(3) by (simp add: awrite_def Let_def)
qed



text \<open>What the driver sends goes to the client that sent last, and nowhere before the first.\<close>

lemma udp_answers_last:
  assumes "udp_round (Some (data, ip, port)) u = Some (u', es)" "data \<noteq> []" "0 \<le> udp_socket u" "0 < ip" "0 < port"
  shows "Udp_OnRawDriverData out u' = [DebugSendTo (udp_socket u) ip port out] \<and> es = [RawMode True, RawDataInput data]"
  using assms by (auto simp: udp_round_def Udp_OnRawDriverData_def awrite_def split: if_splits bind_splits)

end
