(* ===== verification/Mailbox.thy ===== *)
theory Mailbox
  imports Chibi_Time
begin

text \<open>
  Message queues between threads: the mailboxes of the kernel
  (\<open>ChibiOS/os/oslib/src/chmboxes.c\<close>), ring buffers of messages, and the queues the service
  framework builds on them (\<open>portable/xbot/queue.cpp\<close>). Pointers into the message buffer are
  indices into it. Each function runs inside the kernel lock except where it waits: a wait is a
  function from the mailbox to the result of the wait and the mailbox other threads have left
  behind, and a waiting call takes the list of its waits.
\<close>

subsection \<open>Mailboxes\<close>

datatype msg_t = MSG_OK | MSG_TIMEOUT | MSG_RESET

record 'm mailbox =
  mb_buffer :: "'m list"
  mb_wrptr :: nat
  mb_rdptr :: nat
  mb_cnt :: nat
  mb_reset :: bool
  mb_qw :: "nat list"
  mb_qr :: "nat list"

text \<open>Threads that are made ready, with the message they are given.\<close>

type_synonym wakeups = "(nat \<times> msg_t) list"
type_synonym 'm wait = "'m mailbox \<Rightarrow> msg_t \<times> 'm mailbox"

definition chMBObjectInit :: "'m list \<Rightarrow> 'm mailbox" where
  "chMBObjectInit buf = \<lparr>mb_buffer = buf, mb_wrptr = 0, mb_rdptr = 0, mb_cnt = 0, mb_reset = False, mb_qw = [], mb_qr = []\<rparr>"

definition chMBResetI :: "'m mailbox \<Rightarrow> 'm mailbox \<times> wakeups" where
  "chMBResetI mb =
     (mb\<lparr>mb_wrptr := 0, mb_rdptr := 0, mb_cnt := 0, mb_reset := True, mb_qw := [], mb_qr := []\<rparr>,
      map (\<lambda>t. (t, MSG_RESET)) (mb_qw mb @ mb_qr mb))"

definition chMBGetSizeI :: "'m mailbox \<Rightarrow> nat" where
  "chMBGetSizeI mb = length (mb_buffer mb)"

definition chMBGetUsedCountI :: "'m mailbox \<Rightarrow> nat" where
  "chMBGetUsedCountI mb = mb_cnt mb"

definition chMBGetFreeCountI :: "'m mailbox \<Rightarrow> nat" where
  "chMBGetFreeCountI mb = chMBGetSizeI mb - chMBGetUsedCountI mb"

definition chMBPeekI :: "'m mailbox \<Rightarrow> 'm option" where
  "chMBPeekI mb = aget (mb_buffer mb) (mb_rdptr mb)"

definition chMBResumeX :: "'m mailbox \<Rightarrow> 'm mailbox" where
  "chMBResumeX mb = mb\<lparr>mb_reset := False\<rparr>"

text \<open>\<open>chThdDequeueNextI\<close> on the queue of the readers and of the writers.\<close>

fun wake_first :: "nat list \<Rightarrow> nat list \<times> wakeups" where
  "wake_first [] = ([], [])"
| "wake_first (t # ts) = (ts, [(t, MSG_OK)])"

definition wake_reader :: "'m mailbox \<Rightarrow> 'm mailbox \<times> wakeups" where
  "wake_reader mb = (let (q, w) = wake_first (mb_qr mb) in (mb\<lparr>mb_qr := q\<rparr>, w))"

definition wake_writer :: "'m mailbox \<Rightarrow> 'm mailbox \<times> wakeups" where
  "wake_writer mb = (let (q, w) = wake_first (mb_qw mb) in (mb\<lparr>mb_qw := q\<rparr>, w))"

definition put_last :: "'m \<Rightarrow> 'm mailbox \<Rightarrow> ('m mailbox \<times> wakeups) option" where
  "put_last m mb = do {
     buf \<leftarrow> aput (mb_buffer mb) (mb_wrptr mb) m;
     let w = mb_wrptr mb + 1;
     Some (wake_reader (mb\<lparr>mb_buffer := buf, mb_wrptr := (if length buf \<le> w then 0 else w), mb_cnt := mb_cnt mb + 1\<rparr>)) }"

definition put_first :: "'m \<Rightarrow> 'm mailbox \<Rightarrow> ('m mailbox \<times> wakeups) option" where
  "put_first m mb = do {
     let r = (if mb_rdptr mb = 0 then length (mb_buffer mb) - 1 else mb_rdptr mb - 1);
     buf \<leftarrow> aput (mb_buffer mb) r m;
     Some (wake_reader (mb\<lparr>mb_buffer := buf, mb_rdptr := r, mb_cnt := mb_cnt mb + 1\<rparr>)) }"

definition take_first :: "'m mailbox \<Rightarrow> ('m \<times> 'm mailbox \<times> wakeups) option" where
  "take_first mb = do {
     m \<leftarrow> aget (mb_buffer mb) (mb_rdptr mb);
     let r = mb_rdptr mb + 1;
     Some (m, wake_writer (mb\<lparr>mb_rdptr := (if length (mb_buffer mb) \<le> r then 0 else r), mb_cnt := mb_cnt mb - 1\<rparr>)) }"

definition chMBPostI :: "'m \<Rightarrow> 'm mailbox \<Rightarrow> (msg_t \<times> 'm mailbox \<times> wakeups) option" where
  "chMBPostI m mb =
     (if mb_reset mb then Some (MSG_RESET, mb, [])
      else if 0 < chMBGetFreeCountI mb then map_option (Pair MSG_OK) (put_last m mb)
      else Some (MSG_TIMEOUT, mb, []))"

definition chMBPostAheadI :: "'m \<Rightarrow> 'm mailbox \<Rightarrow> (msg_t \<times> 'm mailbox \<times> wakeups) option" where
  "chMBPostAheadI m mb =
     (if mb_reset mb then Some (MSG_RESET, mb, [])
      else if 0 < chMBGetFreeCountI mb then map_option (Pair MSG_OK) (put_first m mb)
      else Some (MSG_TIMEOUT, mb, []))"

definition chMBFetchI :: "'m mailbox \<Rightarrow> (msg_t \<times> 'm option \<times> 'm mailbox \<times> wakeups) option" where
  "chMBFetchI mb =
     (if mb_reset mb then Some (MSG_RESET, None, mb, [])
      else if 0 < chMBGetUsedCountI mb then map_option (\<lambda>(m, r). (MSG_OK, Some m, r)) (take_first mb)
      else Some (MSG_TIMEOUT, None, mb, []))"

text \<open>The waiting versions; \<^term>\<open>None\<close> also when the list of waits ends and the call still waits.\<close>

fun chMBPostTimeoutS :: "'m wait list \<Rightarrow> 'm \<Rightarrow> 'm mailbox \<Rightarrow> (msg_t \<times> 'm mailbox \<times> wakeups) option" where
  "chMBPostTimeoutS [] m mb =
     (if mb_reset mb then Some (MSG_RESET, mb, [])
      else if 0 < chMBGetFreeCountI mb then map_option (Pair MSG_OK) (put_last m mb)
      else None)"
| "chMBPostTimeoutS (w # ws) m mb =
     (if mb_reset mb then Some (MSG_RESET, mb, [])
      else if 0 < chMBGetFreeCountI mb then map_option (Pair MSG_OK) (put_last m mb)
      else let (rdymsg, mb') = w mb
           in if rdymsg = MSG_OK then chMBPostTimeoutS ws m mb' else Some (rdymsg, mb', []))"

fun chMBPostAheadTimeoutS :: "'m wait list \<Rightarrow> 'm \<Rightarrow> 'm mailbox \<Rightarrow> (msg_t \<times> 'm mailbox \<times> wakeups) option" where
  "chMBPostAheadTimeoutS [] m mb =
     (if mb_reset mb then Some (MSG_RESET, mb, [])
      else if 0 < chMBGetFreeCountI mb then map_option (Pair MSG_OK) (put_first m mb)
      else None)"
| "chMBPostAheadTimeoutS (w # ws) m mb =
     (if mb_reset mb then Some (MSG_RESET, mb, [])
      else if 0 < chMBGetFreeCountI mb then map_option (Pair MSG_OK) (put_first m mb)
      else let (rdymsg, mb') = w mb
           in if rdymsg = MSG_OK then chMBPostAheadTimeoutS ws m mb' else Some (rdymsg, mb', []))"

fun chMBFetchTimeoutS :: "'m wait list \<Rightarrow> 'm mailbox \<Rightarrow> (msg_t \<times> 'm option \<times> 'm mailbox \<times> wakeups) option" where
  "chMBFetchTimeoutS [] mb =
     (if mb_reset mb then Some (MSG_RESET, None, mb, [])
      else if 0 < chMBGetUsedCountI mb then map_option (\<lambda>(m, r). (MSG_OK, Some m, r)) (take_first mb)
      else None)"
| "chMBFetchTimeoutS (w # ws) mb =
     (if mb_reset mb then Some (MSG_RESET, None, mb, [])
      else if 0 < chMBGetUsedCountI mb then map_option (\<lambda>(m, r). (MSG_OK, Some m, r)) (take_first mb)
      else let (rdymsg, mb') = w mb
           in if rdymsg = MSG_OK then chMBFetchTimeoutS ws mb' else Some (rdymsg, None, mb', []))"

subsection \<open>Queues of the service framework\<close>

text \<open>Items are addresses; a queue in a buffer of \<open>buffer_size\<close> bytes holds a message per four bytes.\<close>

definition queue_initialize :: "nat \<Rightarrow> u32 list \<Rightarrow> nat \<Rightarrow> u32 mailbox" where
  "queue_initialize queue_length buffer buffer_size = chMBObjectInit (take (buffer_size div 4) buffer)"

definition TIME_IMMEDIATE :: u32 where "TIME_IMMEDIATE = 0"

definition pop_timeout :: "u32 \<Rightarrow> u32" where
  "pop_timeout timeout_micros = (if 0 < timeout_micros then TIME_US2I timeout_micros else TIME_IMMEDIATE)"

text \<open>The waits of a call depend on its timeout.\<close>

definition queuePopItem ::
  "(u32 \<Rightarrow> u32 wait list) \<Rightarrow> u32 \<Rightarrow> u32 mailbox \<Rightarrow> (bool \<times> u32 option \<times> u32 mailbox \<times> wakeups) option" where
  "queuePopItem waits timeout_micros q = do {
     (r, v, q', w) \<leftarrow> chMBFetchTimeoutS (waits (pop_timeout timeout_micros)) q;
     Some (r = MSG_OK \<and> v \<noteq> Some 0, v, q', w) }"

definition queuePushItem ::
  "(u32 \<Rightarrow> u32 wait list) \<Rightarrow> u32 \<Rightarrow> u32 mailbox \<Rightarrow> (bool \<times> u32 mailbox \<times> wakeups) option" where
  "queuePushItem waits item q = do {
     (r, q', w) \<leftarrow> chMBPostTimeoutS (waits (TIME_MS2I 10)) item q;
     Some (r = MSG_OK, q', w) }"


subsection \<open>The ring buffer is a bounded list\<close>

definition wf_mailbox :: "'m mailbox \<Rightarrow> bool" where
  "wf_mailbox mb \<longleftrightarrow>
     mb_rdptr mb < length (mb_buffer mb) \<and> mb_cnt mb \<le> length (mb_buffer mb) \<and>
     mb_wrptr mb = (mb_rdptr mb + mb_cnt mb) mod length (mb_buffer mb)"

definition contents :: "'m mailbox \<Rightarrow> 'm list" where
  "contents mb = map (\<lambda>i. mb_buffer mb ! ((mb_rdptr mb + i) mod length (mb_buffer mb))) [0..<mb_cnt mb]"

lemma ring_index_inj: "i < n \<Longrightarrow> j < n \<Longrightarrow> (a + i) mod n = (a + j) mod n \<longleftrightarrow> i = (j :: nat)"
proof (induction i j rule: linorder_wlog)
  case (le i j)
  show ?case
  proof
    assume "(a + i) mod n = (a + j) mod n"
    then have "n dvd (a + j) - (a + i)" using le by (metis mod_eq_dvd_iff_nat add_le_cancel_left)
    then show "i = j" using le by (auto dest: dvd_imp_le)
  qed simp
qed auto

lemma next_index: "w < n \<Longrightarrow> (if n \<le> w + 1 then 0 else w + 1) = (w + 1) mod (n :: nat)"
  by (auto simp: mod_Suc)

lemma prev_index: "r < n \<Longrightarrow> (((if r = 0 then n - 1 else r - 1) + Suc i) mod n) = (r + i) mod (n :: nat)"
  by (auto simp: mod_add_left_eq [of n i n, symmetric])

lemma wake_fields [simp]:
  "mb_buffer (fst (wake_reader mb)) = mb_buffer mb" "mb_buffer (fst (wake_writer mb)) = mb_buffer mb"
  "mb_wrptr (fst (wake_reader mb)) = mb_wrptr mb" "mb_wrptr (fst (wake_writer mb)) = mb_wrptr mb"
  "mb_rdptr (fst (wake_reader mb)) = mb_rdptr mb" "mb_rdptr (fst (wake_writer mb)) = mb_rdptr mb"
  "mb_cnt (fst (wake_reader mb)) = mb_cnt mb" "mb_cnt (fst (wake_writer mb)) = mb_cnt mb"
  "mb_reset (fst (wake_reader mb)) = mb_reset mb" "mb_reset (fst (wake_writer mb)) = mb_reset mb"
  by (simp_all add: wake_reader_def wake_writer_def split: prod.splits)

lemma length_contents [simp]: "length (contents mb) = mb_cnt mb"
  by (simp add: contents_def)

lemma put_last_contents:
  assumes "wf_mailbox mb" "mb_cnt mb < length (mb_buffer mb)"
  shows "\<exists>mb' w. put_last m mb = Some (mb', w) \<and> wf_mailbox mb' \<and> contents mb' = contents mb @ [m] \<and>
    chMBGetSizeI mb' = chMBGetSizeI mb \<and> mb_reset mb' = mb_reset mb"
proof -
  let ?n = "length (mb_buffer mb)" and ?r = "mb_rdptr mb" and ?c = "mb_cnt mb"
  have r: "?r < ?n" using assms(1) by (simp add: wf_mailbox_def)
  have w: "mb_wrptr mb = (?r + ?c) mod ?n" using assms by (simp add: wf_mailbox_def)
  have lt: "mb_wrptr mb < ?n" unfolding w using assms(2) by (intro mod_less_divisor) linarith
  let ?mb = "mb\<lparr>mb_buffer := (mb_buffer mb)[mb_wrptr mb := m],
    mb_wrptr := (if ?n \<le> mb_wrptr mb + 1 then 0 else mb_wrptr mb + 1), mb_cnt := ?c + 1\<rparr>"
  have p: "put_last m mb = Some (wake_reader ?mb)"
    using lt by (simp add: put_last_def aput_def)
  have "wf_mailbox (fst (wake_reader ?mb))"
    using r assms(2) unfolding next_index [OF lt] by (simp add: wf_mailbox_def w mod_Suc_eq)
  moreover have "(mb_buffer mb)[mb_wrptr mb := m] ! ((?r + i) mod ?n) = mb_buffer mb ! ((?r + i) mod ?n)" if "i < ?c" for i
    using ring_index_inj [of i ?n ?c ?r] that assms(2) w by (simp add: nth_list_update)
  then have "contents (fst (wake_reader ?mb)) = contents mb @ [m]"
    using w lt by (simp add: contents_def)
  moreover have "chMBGetSizeI (fst (wake_reader ?mb)) = chMBGetSizeI mb" "mb_reset (fst (wake_reader ?mb)) = mb_reset mb"
    by (simp_all add: chMBGetSizeI_def)
  ultimately show ?thesis unfolding p by (metis prod.collapse)
qed

lemma put_first_contents:
  assumes "wf_mailbox mb" "mb_cnt mb < length (mb_buffer mb)"
  shows "\<exists>mb' w. put_first m mb = Some (mb', w) \<and> wf_mailbox mb' \<and> contents mb' = m # contents mb \<and>
    chMBGetSizeI mb' = chMBGetSizeI mb \<and> mb_reset mb' = mb_reset mb"
proof -
  let ?n = "length (mb_buffer mb)" and ?r = "mb_rdptr mb" and ?c = "mb_cnt mb"
  define r' where "r' = (if ?r = 0 then ?n - 1 else ?r - 1)"
  have r: "?r < ?n" "r' < ?n" using assms(1) by (auto simp: wf_mailbox_def r'_def)
  have prev: "(r' + Suc i) mod ?n = (?r + i) mod ?n" for i
    using prev_index [OF r(1), of i] by (simp add: r'_def)
  let ?mb = "mb\<lparr>mb_buffer := (mb_buffer mb)[r' := m], mb_rdptr := r', mb_cnt := ?c + 1\<rparr>"
  have p: "put_first m mb = Some (wake_reader ?mb)"
    using r by (simp add: put_first_def aput_def r'_def Let_def)
  have "wf_mailbox (fst (wake_reader ?mb))"
    using r assms prev [of ?c] by (simp add: wf_mailbox_def)
  moreover have "(mb_buffer mb)[r' := m] ! ((r' + Suc i) mod ?n) = mb_buffer mb ! ((?r + i) mod ?n)" if "i < ?c" for i
    using ring_index_inj [of "Suc i" ?n 0 r'] that assms(2) r unfolding prev [symmetric]
    by (cases "mb_buffer mb = []") (auto simp: nth_list_update)
  then have "contents (fst (wake_reader ?mb)) = m # contents mb"
    using r by (simp add: contents_def map_upt_Suc del: upt_Suc)
  moreover have "chMBGetSizeI (fst (wake_reader ?mb)) = chMBGetSizeI mb" "mb_reset (fst (wake_reader ?mb)) = mb_reset mb"
    by (simp_all add: chMBGetSizeI_def)
  ultimately show ?thesis unfolding p by (metis prod.collapse)
qed

lemma take_first_contents:
  assumes "wf_mailbox mb" "0 < mb_cnt mb"
  shows "\<exists>mb' w. take_first mb = Some (hd (contents mb), mb', w) \<and> wf_mailbox mb' \<and> contents mb' = tl (contents mb) \<and>
    chMBGetSizeI mb' = chMBGetSizeI mb \<and> mb_reset mb' = mb_reset mb"
proof -
  let ?n = "length (mb_buffer mb)" and ?r = "mb_rdptr mb"
  obtain k where k: "mb_cnt mb = Suc k" using assms(2) by (cases "mb_cnt mb") auto
  have r: "?r < ?n" using assms(1) by (simp add: wf_mailbox_def)
  let ?mb = "mb\<lparr>mb_rdptr := (if ?n \<le> ?r + 1 then 0 else ?r + 1), mb_cnt := mb_cnt mb - 1\<rparr>"
  have c: "contents mb = mb_buffer mb ! ?r # map (\<lambda>i. mb_buffer mb ! ((?r + Suc i) mod ?n)) [0..<k]"
    using r by (simp add: contents_def k map_upt_Suc del: upt_Suc)
  have p: "take_first mb = Some (hd (contents mb), wake_writer ?mb)"
    using r by (simp add: take_first_def aget_def c)
  have "wf_mailbox (fst (wake_writer ?mb))"
    using assms(1) r unfolding next_index [OF r] by (auto simp: wf_mailbox_def k mod_simps intro!: mod_less_divisor)
  moreover have "contents (fst (wake_writer ?mb)) = tl (contents mb)"
    unfolding c next_index [OF r] by (simp add: contents_def k mod_simps)
  moreover have "chMBGetSizeI (fst (wake_writer ?mb)) = chMBGetSizeI mb" "mb_reset (fst (wake_writer ?mb)) = mb_reset mb"
    by (simp_all add: chMBGetSizeI_def)
  ultimately show ?thesis unfolding p by (metis prod.collapse)
qed


datatype 'm mb_op = Post 'm | PostAhead 'm | Fetch | Reset | Resume

fun mb_exec :: "'m mb_op \<Rightarrow> 'm mailbox \<Rightarrow> ((msg_t \<times> 'm option) \<times> 'm mailbox) option" where
  "mb_exec (Post m) mb = map_option (\<lambda>(r, mb', w). ((r, None), mb')) (chMBPostI m mb)"
| "mb_exec (PostAhead m) mb = map_option (\<lambda>(r, mb', w). ((r, None), mb')) (chMBPostAheadI m mb)"
| "mb_exec Fetch mb = map_option (\<lambda>(r, v, mb', w). ((r, v), mb')) (chMBFetchI mb)"
| "mb_exec Reset mb = Some ((MSG_OK, None), fst (chMBResetI mb))"
| "mb_exec Resume mb = Some ((MSG_OK, None), chMBResumeX mb)"

text \<open>The specification: a list of at most \<open>n\<close> messages and whether the mailbox is in reset state.\<close>

fun mb_spec :: "nat \<Rightarrow> 'm mb_op \<Rightarrow> bool \<times> 'm list \<Rightarrow> (msg_t \<times> 'm option) \<times> (bool \<times> 'm list)" where
  "mb_spec n (Post m) (rst, xs) =
     (if rst then ((MSG_RESET, None), (rst, xs))
      else if length xs < n then ((MSG_OK, None), (rst, xs @ [m])) else ((MSG_TIMEOUT, None), (rst, xs)))"
| "mb_spec n (PostAhead m) (rst, xs) =
     (if rst then ((MSG_RESET, None), (rst, xs))
      else if length xs < n then ((MSG_OK, None), (rst, m # xs)) else ((MSG_TIMEOUT, None), (rst, xs)))"
| "mb_spec n Fetch (rst, xs) =
     (if rst then ((MSG_RESET, None), (rst, xs))
      else case xs of [] \<Rightarrow> ((MSG_TIMEOUT, None), (rst, xs)) | x # xs' \<Rightarrow> ((MSG_OK, Some x), (rst, xs')))"
| "mb_spec n Reset (rst, xs) = ((MSG_OK, None), (True, []))"
| "mb_spec n Resume (rst, xs) = ((MSG_OK, None), (False, xs))"

definition mb_abs :: "'m mailbox \<Rightarrow> bool \<times> 'm list" where
  "mb_abs mb = (mb_reset mb, contents mb)"

lemma mb_exec_refines:
  assumes "wf_mailbox mb"
  shows "\<exists>r mb'. mb_exec op mb = Some (r, mb') \<and> wf_mailbox mb' \<and> chMBGetSizeI mb' = chMBGetSizeI mb \<and>
    mb_spec (chMBGetSizeI mb) op (mb_abs mb) = (r, mb_abs mb')"
proof -
  note ops = chMBPostI_def chMBPostAheadI_def chMBFetchI_def mb_abs_def chMBGetFreeCountI_def chMBGetSizeI_def chMBGetUsedCountI_def
  have le: "mb_cnt mb \<le> length (mb_buffer mb)" using assms by (simp add: wf_mailbox_def)
  show ?thesis
  proof (cases op)
    case (Post m)
    then show ?thesis
      using put_last_contents [OF assms, of m] assms le
      by (cases "mb_cnt mb < length (mb_buffer mb)") (auto simp: ops)
  next
    case (PostAhead m)
    then show ?thesis
      using put_first_contents [OF assms, of m] assms le
      by (cases "mb_cnt mb < length (mb_buffer mb)") (auto simp: ops)
  next
    case Fetch
    show ?thesis
    proof (cases "contents mb")
      case Nil
      then have "mb_cnt mb = 0" using length_contents [of mb] by simp
      then show ?thesis using Fetch Nil assms by (auto simp: ops)
    next
      case (Cons x xs)
      then have "0 < mb_cnt mb" using length_contents [of mb] by (cases "mb_cnt mb") auto
      then show ?thesis using Fetch Cons assms take_first_contents [OF assms] by (auto simp: ops)
    qed
  next
    case Reset
    then show ?thesis using assms by (auto simp: chMBResetI_def wf_mailbox_def chMBGetSizeI_def mb_abs_def contents_def)
  next
    case Resume
    then show ?thesis using assms by (auto simp: chMBResumeX_def wf_mailbox_def chMBGetSizeI_def mb_abs_def contents_def)
  qed
qed

fun mb_run :: "'m mb_op list \<Rightarrow> 'm mailbox \<Rightarrow> ((msg_t \<times> 'm option) list \<times> 'm mailbox) option" where
  "mb_run [] mb = Some ([], mb)"
| "mb_run (op # ops) mb = do { (r, mb1) \<leftarrow> mb_exec op mb; (rs, mb2) \<leftarrow> mb_run ops mb1; Some (r # rs, mb2) }"

fun spec_run :: "nat \<Rightarrow> 'm mb_op list \<Rightarrow> bool \<times> 'm list \<Rightarrow> (msg_t \<times> 'm option) list \<times> (bool \<times> 'm list)" where
  "spec_run n [] q = ([], q)"
| "spec_run n (op # ops) q = (let (r, q1) = mb_spec n op q; (rs, q2) = spec_run n ops q1 in (r # rs, q2))"

lemma mb_run_refines:
  "wf_mailbox mb \<Longrightarrow> \<exists>rs mb'. mb_run ops mb = Some (rs, mb') \<and> spec_run (chMBGetSizeI mb) ops (mb_abs mb) = (rs, mb_abs mb')"
proof (induction ops arbitrary: mb)
  case (Cons op ops)
  obtain r mb1 where 1: "mb_exec op mb = Some (r, mb1)" "wf_mailbox mb1" "chMBGetSizeI mb1 = chMBGetSizeI mb"
    "mb_spec (chMBGetSizeI mb) op (mb_abs mb) = (r, mb_abs mb1)"
    using mb_exec_refines [OF Cons.prems, of op] by blast
  then show ?case using Cons.IH [OF 1(2)] by auto
qed simp

text \<open>
  C27: For every sequence of posts, posts ahead, fetches, resets and resumes, a mailbox of the
  kernel with a buffer of \<open>n\<close> messages never touches memory outside it and answers exactly like
  a list of at most \<open>n\<close> messages: first in, first out, with posts ahead put in front, a timeout
  when it is full or empty, and a reset refusing every operation until it is resumed.
\<close>

theorem mailbox_refines_list:
  assumes "buf \<noteq> []"
  shows "\<exists>rs mb. mb_run ops (chMBObjectInit buf) = Some (rs, mb) \<and>
    spec_run (length buf) ops (False, []) = (rs, (mb_reset mb, contents mb))"
proof -
  have "wf_mailbox (chMBObjectInit buf)" "mb_abs (chMBObjectInit buf) = (False, [])"
    "chMBGetSizeI (chMBObjectInit buf) = length buf"
    using assms by (simp_all add: chMBObjectInit_def wf_mailbox_def mb_abs_def contents_def chMBGetSizeI_def)
  then show ?thesis using mb_run_refines [of "chMBObjectInit buf" ops] by (auto simp: mb_abs_def)
qed

theorem mailbox_refines_list_witness:
  "\<exists>rs mb. mb_run [Post 1, Post 2, Post 3, Fetch, PostAhead (7 :: nat), Fetch] (chMBObjectInit [0, 0]) = Some (rs, mb) \<and>
    rs = [(MSG_OK, None), (MSG_OK, None), (MSG_TIMEOUT, None), (MSG_OK, Some 1), (MSG_OK, None), (MSG_OK, Some 7)] \<and>
    contents mb = [2]"
proof -
  have "[0 :: nat, 0] \<noteq> []" by simp
  from mailbox_refines_list [OF this, of "[Post 1, Post 2, Post 3, Fetch, PostAhead 7, Fetch]"]
  show ?thesis by auto
qed

subsection \<open>Queues deliver in order\<close>

text \<open>A script of pushes (\<^term>\<open>Some m\<close>) and pops: the accepted items, the delivered ones, the queue left.\<close>

fun queue_run ::
  "('m \<Rightarrow> 'q \<Rightarrow> (bool \<times> 'q) option) \<Rightarrow> ('q \<Rightarrow> ('m option \<times> 'q) option) \<Rightarrow> 'm option list \<Rightarrow> 'q \<Rightarrow> ('m list \<times> 'm list \<times> 'q) option" where
  "queue_run push pop [] q = Some ([], [], q)"
| "queue_run push pop (Some m # s) q = do {
     (ok, q1) \<leftarrow> push m q; (acc, del, q2) \<leftarrow> queue_run push pop s q1; Some (if ok then m # acc else acc, del, q2) }"
| "queue_run push pop (None # s) q = do {
     (v, q1) \<leftarrow> pop q; (acc, del, q2) \<leftarrow> queue_run push pop s q1;
     Some (acc, (case v of None \<Rightarrow> del | Some x \<Rightarrow> x # del), q2) }"

text \<open>
  What the service framework relies on: an item is queued or refused, a pop returns the oldest
  item, and an empty queue gives nothing.
\<close>

locale fifo_queue =
  fixes push :: "'m \<Rightarrow> 'q \<Rightarrow> (bool \<times> 'q) option"
    and pop :: "'q \<Rightarrow> ('m option \<times> 'q) option"
    and items :: "'q \<Rightarrow> 'm list"
    and inv :: "'q \<Rightarrow> bool"
    and allowed :: "'m \<Rightarrow> bool"
  assumes push_law: "inv q \<Longrightarrow> allowed m \<Longrightarrow>
      \<exists>ok q'. push m q = Some (ok, q') \<and> inv q' \<and> items q' = (if ok then items q @ [m] else items q)"
    and pop_law: "inv q \<Longrightarrow>
      \<exists>v q'. pop q = Some (v, q') \<and> inv q' \<and> items q = (case v of None \<Rightarrow> [] | Some x \<Rightarrow> [x]) @ items q' \<and>
        (v = None \<longrightarrow> items q = [])"
begin

lemma run_in_order:
  assumes "inv q" "list_all (pred_option allowed) s"
  shows "\<exists>acc del q'. queue_run push pop s q = Some (acc, del, q') \<and> inv q' \<and> items q @ acc = del @ items q'"
  using assms
proof (induction s arbitrary: q)
  case (Cons o' s)
  show ?case
  proof (cases o')
    case None
    obtain v q1 where p: "pop q = Some (v, q1)" "inv q1"
      "items q = (case v of None \<Rightarrow> [] | Some x \<Rightarrow> [x]) @ items q1"
      using pop_law [OF Cons.prems(1)] by auto
    then show ?thesis using Cons.IH [OF p(2)] Cons.prems(2) None by (cases v) auto
  next
    case (Some m)
    obtain ok q1 where p: "push m q = Some (ok, q1)" "inv q1" "items q1 = (if ok then items q @ [m] else items q)"
      using push_law [OF Cons.prems(1), of m] Cons.prems(2) Some by auto
    then show ?thesis using Cons.IH [OF p(2)] Cons.prems(2) Some by (cases ok) auto
  qed
qed simp

end

text \<open>The queues of the framework, when no other thread comes in between.\<close>

definition no_wait :: "u32 \<Rightarrow> 'm wait list" where
  "no_wait t = [\<lambda>mb. (MSG_TIMEOUT, mb)]"

definition push_item :: "u32 \<Rightarrow> u32 mailbox \<Rightarrow> (bool \<times> u32 mailbox) option" where
  "push_item m q = map_option (\<lambda>(ok, q', w). (ok, q')) (queuePushItem no_wait m q)"

definition pop_item :: "u32 mailbox \<Rightarrow> (u32 option \<times> u32 mailbox) option" where
  "pop_item q = map_option (\<lambda>(ok, v, q', w). (if ok then v else None, q')) (queuePopItem no_wait 0 q)"

definition queue_inv :: "u32 mailbox \<Rightarrow> bool" where
  "queue_inv q \<longleftrightarrow> wf_mailbox q \<and> \<not> mb_reset q \<and> 0 \<notin> set (contents q)"

interpretation framework_queue: fifo_queue push_item pop_item contents queue_inv "\<lambda>m. m \<noteq> 0"
proof
  fix q :: "u32 mailbox" and m :: u32
  assume q: "queue_inv q" and m: "m \<noteq> 0"
  note ops = push_item_def queuePushItem_def no_wait_def chMBGetFreeCountI_def chMBGetSizeI_def chMBGetUsedCountI_def
  show "\<exists>ok q'. push_item m q = Some (ok, q') \<and> queue_inv q' \<and> contents q' = (if ok then contents q @ [m] else contents q)"
  proof (cases "mb_cnt q < length (mb_buffer q)")
    case True
    then obtain q' w where "put_last m q = Some (q', w)" "wf_mailbox q'" "contents q' = contents q @ [m]" "mb_reset q' = mb_reset q"
      using put_last_contents [of q m] q by (auto simp: queue_inv_def)
    then have "push_item m q = Some (True, q')" "queue_inv q'"
      using True q m by (simp_all add: ops queue_inv_def)
    then show ?thesis using \<open>contents q' = contents q @ [m]\<close> by auto
  next
    case False
    then have "push_item m q = Some (False, q)" using q by (simp add: ops queue_inv_def)
    then show ?thesis using q by auto
  qed
next
  fix q :: "u32 mailbox"
  assume q: "queue_inv q"
  show "\<exists>v q'. pop_item q = Some (v, q') \<and> queue_inv q' \<and>
      contents q = (case v of None \<Rightarrow> [] | Some x \<Rightarrow> [x]) @ contents q' \<and> (v = None \<longrightarrow> contents q = [])"
  proof (cases "contents q")
    case Nil
    then have "mb_cnt q = 0" using length_contents [of q] by simp
    then show ?thesis
      using q Nil by (auto simp: pop_item_def queuePopItem_def no_wait_def queue_inv_def chMBGetUsedCountI_def)
  next
    case (Cons x xs)
    then have "0 < mb_cnt q" using length_contents [of q] by (cases "mb_cnt q") auto
    then obtain q' w where t: "take_first q = Some (x, q', w)" "wf_mailbox q'" "contents q' = xs" "mb_reset q' = mb_reset q"
      using q Cons take_first_contents [of q] by (auto simp: queue_inv_def)
    then have "pop_item q = Some (Some x, q')" "queue_inv q'"
      using q Cons \<open>0 < mb_cnt q\<close>
      by (auto simp: pop_item_def queuePopItem_def no_wait_def queue_inv_def chMBGetUsedCountI_def)
    then show ?thesis using Cons t(3) by auto
  qed
qed



end
