(* ===== verification/Net_Io.thy ===== *)
theory Net_Io
  imports Packets C_String
begin

text \<open>
  The port of the service framework to the board: node identity (\<open>portable/xbot/system.cpp\<close>), the
  UDP socket (\<open>portable/xbot/socket.cpp\<close>) and the thread that hands received packets to the
  registered services (\<open>portable/xbot/Io.cpp\<close>). The network stack is a parameter: the results of
  its calls are arguments. The layout of the packet header belongs to the framework, which is a
  submodule: its size and the two fields that are read are parameters. A service is its number;
  services are linked through themselves, in the order of their registration.
\<close>

subsection \<open>Node identity\<close>

text \<open>\<^term>\<open>None\<close> is the endless loop on an identity of zeros.\<close>

definition initSystem :: "u32 \<Rightarrow> bytes \<Rightarrow> bytes option" where
  "initSystem node_id node_id0 =
     (let ident = (if node_id \<noteq> 0 then node_id0[0 := ucast (drop_bit 8 node_id), 1 := ucast (node_id AND 0xFF)]
                   else [1, 0, 0, 0, 2, 0, 0, 0, 3, 0, 0, 0, 0, 0, 0, 0])
      in if list_all (\<lambda>b. b = 0) ident then None else Some ident)"

definition getNodeId :: "bytes \<Rightarrow> nat \<Rightarrow> bytes option" where
  "getNodeId node_id id_len = (if id_len \<noteq> length node_id then None else Some node_id)"

text \<open>
  An identity other than zero is a 32-bit number of which only the low 16 bits are used: the start
  hangs exactly on the numbers whose low half is zero.
\<close>

lemma initSystem_hangs_iff:
  assumes "node_id0 = replicate 16 0"
  shows "initSystem node_id node_id0 = None \<longleftrightarrow> node_id \<noteq> 0 \<and> (ucast node_id :: u16) = 0"
proof -
  have m: "(0xFF :: u32) = mask 8" by (simp add: mask_eq_exp_minus_1)
  have "(ucast (drop_bit 8 node_id) :: u8) = 0 \<and> (ucast (node_id AND 0xFF) :: u8) = 0 \<longleftrightarrow> (ucast node_id :: u16) = 0"
  proof
    assume z: "(ucast (drop_bit 8 node_id) :: u8) = 0 \<and> (ucast (node_id AND 0xFF) :: u8) = 0"
    show "(ucast node_id :: u16) = 0"
    proof (rule bit_word_eqI)
      fix n assume n: "n < LENGTH(16)"
      have "bit (ucast (drop_bit 8 node_id) :: u8) (n - 8) = False" "bit (ucast (node_id AND 0xFF) :: u8) n = False"
        using z by simp_all
      then show "bit (ucast node_id :: u16) n = bit 0 n"
        using n by (cases "n < 8") (auto simp: bit_ucast_iff bit_drop_bit_eq bit_and_iff bit_mask_iff m)
    qed
  next
    assume z: "(ucast node_id :: u16) = 0"
    have b: "\<not> bit node_id n" if "n < 16" for n
    proof -
      have "bit (ucast node_id :: u16) n = False" using z by simp
      then show ?thesis using that by (simp add: bit_ucast_iff)
    qed
    show "(ucast (drop_bit 8 node_id) :: u8) = 0 \<and> (ucast (node_id AND 0xFF) :: u8) = 0"
      using b by (auto intro!: bit_word_eqI simp: bit_ucast_iff bit_drop_bit_eq bit_and_iff bit_mask_iff m)
  qed
  then show ?thesis by (auto simp: initSystem_def assms Let_def eval_nat_numeral)
qed

subsection \<open>Sockets\<close>

datatype sock_effect =
    CloseFd int
  | SendTo int u32 u16 bytes
  | Free nat

text \<open>
  \<open>fd\<close> is the result of \<open>socket\<close>, \<open>opt_ok\<close> that of setting the receive timeout: the success, the
  descriptor stored and what is closed.
\<close>

definition sock_initialize :: "bool \<Rightarrow> int \<Rightarrow> bool \<Rightarrow> bool \<Rightarrow> (bool \<times> int \<times> sock_effect list) option" where
  "sock_initialize dbg fd opt_ok bind_multicast = do {
     chDbgAssert dbg (\<not> bind_multicast);
     Some (if fd < 0 then (False, -1, [])
           else if \<not> opt_ok then (False, -1, [CloseFd fd])
           else (True, fd, [])) }"

definition sock_deinitialize :: "int option \<Rightarrow> sock_effect list" where
  "sock_deinitialize s = (case s of None \<Rightarrow> [] | Some fd \<Rightarrow> [CloseFd fd])"

definition subscribeMulticast :: "bool \<Rightarrow> bool option" where
  "subscribeMulticast dbg = do { chDbgAssert dbg False; Some False }"

text \<open>
  \<open>receivePacket\<close> with the packet that was allocated for it and the outcome of \<open>recvfrom\<close>: an
  error, or the bytes received, at most as many as fit.
\<close>

definition receivePacket :: "nat \<Rightarrow> bytes option \<Rightarrow> packet list \<Rightarrow> (nat option \<times> packet list \<times> sock_effect list) option" where
  "receivePacket i received pkts =
     (case received of
        None \<Rightarrow> Some (None, pkts, [Free i])
      | Some data \<Rightarrow> do {
          p \<leftarrow> aget pkts i;
          b \<leftarrow> awrite (packet_buffer p) 0 data;
          Some (Some i, pkts[i := p\<lparr>packet_buffer := b, used_data := of_nat (length data)\<rparr>], []) })"

definition htons :: "u16 \<Rightarrow> u16" where
  "htons x = push_bit 8 x OR drop_bit 8 x"

definition htonl :: "u32 \<Rightarrow> u32" where
  "htonl x = push_bit 24 x OR push_bit 8 (x AND 0xFF00) OR (drop_bit 8 x AND 0xFF00) OR drop_bit 24 x"

definition transmitPacket :: "int \<Rightarrow> nat \<Rightarrow> packet list \<Rightarrow> u32 \<Rightarrow> u16 \<Rightarrow> (bool \<times> sock_effect list) option" where
  "transmitPacket fd i pkts ip port = do {
     p \<leftarrow> aget pkts i;
     (if unat (used_data p) \<le> length (packet_buffer p) then Some () else None);
     Some (True, [SendTo fd (htonl ip) (htons port) (take (unat (used_data p)) (packet_buffer p)), Free i]) }"

text \<open>The version with a textual address; \<open>addr\<close> is the result of \<open>inet_addr\<close>.\<close>

definition transmitPacket_str :: "int \<Rightarrow> nat \<Rightarrow> packet list \<Rightarrow> u32 \<Rightarrow> u16 \<Rightarrow> (bool \<times> sock_effect list) option" where
  "transmitPacket_str fd i pkts addr port = transmitPacket fd i pkts (htonl addr) port"

text \<open>
  \<open>addr\<close> is the port \<open>getsockname\<close> reports (\<^term>\<open>None\<close> on error) and \<open>addr_str\<close> the text of
  the board's address; a caller's buffer of \<open>ip_len\<close> bytes receives it.
\<close>

definition getEndpoint :: "u16 option \<Rightarrow> bytes \<Rightarrow> bytes \<Rightarrow> nat \<Rightarrow> ((bytes \<times> u16) option) option" where
  "getEndpoint addr addr_str ip ip_len =
     (case addr of None \<Rightarrow> Some None
      | Some p \<Rightarrow> do {
          n \<leftarrow> strlen addr_str;
          (if ip_len \<le> n then Some None
           else do { ip' \<leftarrow> strncpy ip 0 addr_str ip_len; Some (Some (ip', htons p)) }) })"

definition closeSocket :: "int option \<Rightarrow> bool \<Rightarrow> bool \<times> sock_effect list" where
  "closeSocket s close_ok = (case s of None \<Rightarrow> (True, []) | Some fd \<Rightarrow> (close_ok, [CloseFd fd]))"

subsection \<open>Registered services\<close>

record service_io =
  service_id :: u16
  stopped :: bool
  next_service :: "nat option"

record io_state =
  first_service :: "nat option"
  services :: "service_io list"

text \<open>The walk to the last pointer of the list; the fuel is one more than the number of services.\<close>

fun last_service :: "nat \<Rightarrow> service_io list \<Rightarrow> nat \<Rightarrow> nat option" where
  "last_service 0 ss i = None"
| "last_service (Suc fuel) ss i = do {
     s \<leftarrow> aget ss i;
     (case next_service s of None \<Rightarrow> Some i | Some j \<Rightarrow> last_service fuel ss j) }"

definition registerServiceIo :: "nat \<Rightarrow> io_state \<Rightarrow> io_state option" where
  "registerServiceIo i st =
     (case first_service st of
        None \<Rightarrow> Some (st\<lparr>first_service := Some i\<rparr>)
      | Some f \<Rightarrow> do {
          k \<leftarrow> last_service (length (services st) + 1) (services st) f;
          s \<leftarrow> aget (services st) k;
          Some (st\<lparr>services := (services st)[k := s\<lparr>next_service := Some i\<rparr>]\<rparr>) })"

text \<open>The search for the receiver of a packet: a service with the identifier that is not stopped.\<close>

fun find_receiver :: "nat \<Rightarrow> service_io list \<Rightarrow> nat option \<Rightarrow> u16 \<Rightarrow> nat option option" where
  "find_receiver fuel ss None sid = Some None"
| "find_receiver 0 ss (Some i) sid = None"
| "find_receiver (Suc fuel) ss (Some i) sid = do {
     s \<leftarrow> aget ss i;
     (if service_id s = sid \<and> \<not> stopped s then Some (Some i)
      else find_receiver fuel ss (next_service s) sid) }"

record header =
  header_size :: nat
  payload_size :: "bytes \<Rightarrow> u32"
  header_service_id :: "bytes \<Rightarrow> u16"

datatype io_effect =
    IoInput nat nat
  | FreePacket nat
  | UlogError string

text \<open>One round of \<open>runIo\<close> with a received packet.\<close>

definition runIo_packet :: "header \<Rightarrow> io_state \<Rightarrow> packet list \<Rightarrow> nat \<Rightarrow> io_effect list option" where
  "runIo_packet h st pkts i = do {
     p \<leftarrow> aget pkts i;
     let used = unat (used_data p);
     (if length (packet_buffer p) < used then None
      else if used < header_size h
      then Some [UlogError ''Packet too short to contain header.'', FreePacket i]
      else if of_nat used - of_nat (header_size h) \<noteq> payload_size h (packet_buffer p)
      then Some [UlogError ''Packet header size does not match actual packet size.'', FreePacket i]
      else do {
        r \<leftarrow> find_receiver (length (services st) + 1) (services st) (first_service st) (header_service_id h (packet_buffer p));
        Some (case r of None \<Rightarrow> [FreePacket i] | Some s \<Rightarrow> [IoInput s i]) }) }"


subsection \<open>The list of services\<close>

definition next_of :: "service_io list \<Rightarrow> nat \<Rightarrow> nat option" where
  "next_of ss i = (if i < length ss then next_service (ss ! i) else None)"

definition registered :: "io_state \<Rightarrow> nat list \<Rightarrow> bool" where
  "registered st is \<longleftrightarrow> links (next_of (services st)) (first_service st) is \<and> distinct is \<and>
     (\<forall>i \<in> set is. i < length (services st))"

lemma links_snoc:
  "links nx p is \<Longrightarrow> is \<noteq> [] \<Longrightarrow> distinct is \<Longrightarrow> i \<notin> set is \<Longrightarrow> nx i = None \<Longrightarrow>
   links (nx(last is := Some i)) p (is @ [i])"
proof (induction nx p "is" rule: links.induct)
  case (2 nx p j js)
  show ?case
  proof (cases "js = []")
    case False
    then have "last js \<noteq> j" using 2(4) last_in_set [OF False] by auto
    then show ?thesis using 2 False by simp
  qed (use 2 in auto)
qed simp

lemma last_service_links:
  "links (next_of ss) (Some i) (i # is) \<Longrightarrow> \<forall>j \<in> set (i # is). j < length ss \<Longrightarrow> length is < fuel \<Longrightarrow>
   last_service fuel ss i = Some (last (i # is))"
proof (induction "is" arbitrary: i fuel)
  case Nil
  then show ?case by (cases fuel) (auto simp: aget_def next_of_def)
next
  case (Cons j js)
  then obtain f where f: "fuel = Suc f" by (cases fuel) auto
  have "next_service (ss ! i) = Some j" "i < length ss" using Cons.prems(1,2) by (auto simp: next_of_def)
  then show ?case using Cons.IH [of j f] Cons.prems f by (simp add: aget_def)
qed

lemma registered_length: "registered st is \<Longrightarrow> length is \<le> length (services st)"
  using card_mono [of "{..<length (services st)}" "set is"] by (auto simp: registered_def distinct_card)

lemma registerServiceIo_appends:
  assumes "registered st is" "i < length (services st)" "i \<notin> set is" "next_of (services st) i = None"
  shows "\<exists>st'. registerServiceIo i st = Some st' \<and> registered st' (is @ [i]) \<and> length (services st') = length (services st) \<and>
    (\<forall>j. j \<notin> set is \<longrightarrow> next_of (services st') j = next_of (services st) j) \<and>
    (\<forall>j < length (services st). service_id (services st' ! j) = service_id (services st ! j) \<and>
       stopped (services st' ! j) = stopped (services st ! j))"
proof (cases "is")
  case Nil
  then have "first_service st = None" using assms(1) by (simp add: registered_def)
  then have "registerServiceIo i st = Some (st\<lparr>first_service := Some i\<rparr>)" by (simp add: registerServiceIo_def)
  moreover have "registered (st\<lparr>first_service := Some i\<rparr>) [i]" using assms(2,4) by (simp add: registered_def)
  ultimately show ?thesis using Nil by auto
next
  case (Cons f js)
  let ?ss = "services st" and ?k = "last is"
  have k: "?k < length ?ss" "?k \<in> set is" using assms(1) Cons by (auto simp: registered_def)
  have "last_service (length ?ss + 1) ?ss f = Some ?k"
    using last_service_links [of ?ss f js "length ?ss + 1"] registered_length [OF assms(1)] assms(1) Cons
    by (auto simp: registered_def simp del: last_service.simps)
  then have r: "registerServiceIo i st = Some (st\<lparr>services := ?ss[?k := (?ss ! ?k)\<lparr>next_service := Some i\<rparr>]\<rparr>)"
    using k assms(1) Cons by (simp add: registerServiceIo_def registered_def aget_def del: last_service.simps)
  have nx: "next_of (?ss[?k := (?ss ! ?k)\<lparr>next_service := Some i\<rparr>]) = (next_of ?ss)(?k := Some i)"
    using k by (auto simp: next_of_def fun_eq_iff nth_list_update)
  have "links ((next_of ?ss)(?k := Some i)) (first_service st) (is @ [i])"
    using links_snoc [of "next_of ?ss" "first_service st" "is" i] assms Cons by (simp add: registered_def)
  then have "registered (st\<lparr>services := ?ss[?k := (?ss ! ?k)\<lparr>next_service := Some i\<rparr>]\<rparr>) (is @ [i])"
    using assms by (auto simp: registered_def nx)
  then show ?thesis unfolding r using k by (auto simp: nx nth_list_update)
qed

lemma find_receiver_find:
  "links (next_of ss) p is \<Longrightarrow> \<forall>j \<in> set is. j < length ss \<Longrightarrow> length is \<le> fuel \<Longrightarrow>
   find_receiver fuel ss p sid = Some (find (\<lambda>i. service_id (ss ! i) = sid \<and> \<not> stopped (ss ! i)) is)"
proof (induction "is" arbitrary: p fuel)
  case (Cons i js)
  then obtain f where "fuel = Suc f" by (cases fuel) auto
  then show ?case using Cons.IH [of "next_of ss i" f] Cons.prems by (auto simp: aget_def next_of_def)
qed simp

lemma register_all:
  assumes "registered st is" "\<forall>j \<in> set js. j < length (services st) \<and> next_of (services st) j = None" "distinct js"
    "set is \<inter> set js = {}"
  shows "\<exists>st'. foldM registerServiceIo js st = Some st' \<and> registered st' (is @ js) \<and>
    length (services st') = length (services st) \<and>
    (\<forall>j < length (services st). service_id (services st' ! j) = service_id (services st ! j) \<and>
       stopped (services st' ! j) = stopped (services st ! j))"
  using assms
proof (induction js arbitrary: st "is")
  case (Cons j js)
  obtain st1 where st1: "registerServiceIo j st = Some st1" "registered st1 (is @ [j])"
    "length (services st1) = length (services st)"
    "\<forall>k. k \<notin> set is \<longrightarrow> next_of (services st1) k = next_of (services st) k"
    "\<forall>k < length (services st). service_id (services st1 ! k) = service_id (services st ! k) \<and>
       stopped (services st1 ! k) = stopped (services st ! k)"
    using registerServiceIo_appends [OF Cons.prems(1), of j] Cons.prems(2,4) by auto
  have "\<forall>k \<in> set js. k < length (services st1) \<and> next_of (services st1) k = None" "distinct js" "set (is @ [j]) \<inter> set js = {}"
    using Cons.prems(2-4) st1(3,4) by auto
  then obtain st2 where "foldM registerServiceIo js st1 = Some st2" "registered st2 ((is @ [j]) @ js)"
    "length (services st2) = length (services st1)"
    "\<forall>k < length (services st1). service_id (services st2 ! k) = service_id (services st1 ! k) \<and>
       stopped (services st2 ! k) = stopped (services st1 ! k)"
    using Cons.IH [OF st1(2)] by blast
  then show ?case using st1 by auto
qed auto

text \<open>
  C30: After any sequence of registrations of different services, a received packet is handed to
  exactly one service - the first registered one with the identifier in the packet's header that
  is not stopped - or freed exactly once: when it is shorter than a header, when its length does
  not agree with the header, or when there is no such service. The walks over the services
  terminate and stay inside them.
\<close>

theorem packet_routing:
  assumes "first_service st0 = None" "distinct js" "\<forall>j \<in> set js. j < length (services st0) \<and> next_service (services st0 ! j) = None"
    and "i < length pkts" "unat (used_data (pkts ! i)) \<le> length (packet_buffer (pkts ! i))"
  shows "\<exists>st. foldM registerServiceIo js st0 = Some st \<and>
    runIo_packet h st pkts i = Some
      (let used = unat (used_data (pkts ! i)); buf = packet_buffer (pkts ! i)
       in if used < header_size h then [UlogError ''Packet too short to contain header.'', FreePacket i]
          else if of_nat used - of_nat (header_size h) \<noteq> payload_size h buf
          then [UlogError ''Packet header size does not match actual packet size.'', FreePacket i]
          else case find (\<lambda>j. service_id (services st0 ! j) = header_service_id h buf \<and> \<not> stopped (services st0 ! j)) js of
                 None \<Rightarrow> [FreePacket i] | Some s \<Rightarrow> [IoInput s i])"
proof -
  have "registered st0 []" using assms(1) by (simp add: registered_def)
  moreover have "\<forall>j \<in> set js. j < length (services st0) \<and> next_of (services st0) j = None"
    using assms(3) by (simp add: next_of_def)
  ultimately obtain st where st: "foldM registerServiceIo js st0 = Some st" "registered st js"
    "length (services st) = length (services st0)"
    "\<forall>j < length (services st0). service_id (services st ! j) = service_id (services st0 ! j) \<and>
       stopped (services st ! j) = stopped (services st0 ! j)"
    using register_all [of st0 "[]" js] assms(2) by auto
  have same: "find (\<lambda>j. service_id (services st ! j) = sid \<and> \<not> stopped (services st ! j)) js =
      find (\<lambda>j. service_id (services st0 ! j) = sid \<and> \<not> stopped (services st0 ! j)) js" for sid
    using st(4) assms(3) by (intro find_cong) auto
  have "find_receiver (length (services st) + 1) (services st) (first_service st) sid =
      Some (find (\<lambda>j. service_id (services st0 ! j) = sid \<and> \<not> stopped (services st0 ! j)) js)" for sid
    using find_receiver_find [of "services st" "first_service st" js "length (services st) + 1" sid]
      st(2) registered_length [OF st(2)] by (simp add: registered_def same)
  then show ?thesis
    using st(1) assms(4,5) by (auto simp: runIo_packet_def aget_def Let_def)
qed

definition example_services :: io_state where
  "example_services = \<lparr>first_service = None,
     services = [\<lparr>service_id = 2, stopped = False, next_service = None\<rparr>, \<lparr>service_id = 5, stopped = True, next_service = None\<rparr>,
       \<lparr>service_id = 5, stopped = False, next_service = None\<rparr>]\<rparr>"

theorem packet_routing_witness:
  "\<exists>st. foldM registerServiceIo [1, 0, 2] example_services = Some st \<and>
    runIo_packet \<lparr>header_size = 2, payload_size = (\<lambda>b. ucast (b ! 1)), header_service_id = (\<lambda>b. ucast (b ! 0))\<rparr> st
      [\<lparr>used_data = 3, packet_buffer = [5, 1, 7]\<rparr>] 0 = Some [IoInput 2 0]"
  using packet_routing [of example_services "[1, 0, 2]" 0 "[\<lparr>used_data = 3, packet_buffer = [5, 1, 7]\<rparr>]"
      "\<lparr>header_size = 2, payload_size = (\<lambda>b. ucast (b ! 1)), header_service_id = (\<lambda>b. ucast (b ! 0))\<rparr>"]
  by (simp add: example_services_def)


subsection \<open>The receiving thread\<close>

text \<open>
  One round of \<open>runIo\<close>: a packet is allocated (\<open>i\<close>), filled, checked and routed; and \<open>start\<close>, which
  creates the thread only when the socket was opened.
\<close>

definition runIo_round ::
  "header \<Rightarrow> io_state \<Rightarrow> nat \<Rightarrow> bytes option \<Rightarrow> packet list \<Rightarrow> (packet list \<times> io_effect list) option" where
  "runIo_round h st i received pkts = do {
     (r, pkts', es) \<leftarrow> receivePacket i received pkts;
     (case r of
        None \<Rightarrow> Some (pkts', map (\<lambda>_. FreePacket i) es)
      | Some j \<Rightarrow> do { io \<leftarrow> runIo_packet h st pkts' j; Some (pkts', io) }) }"

definition Io_start :: "bool \<Rightarrow> int \<Rightarrow> bool \<Rightarrow> (bool \<times> int \<times> sock_effect list \<times> bool) option" where
  "Io_start dbg fd opt_ok = do {
     (ok, s, es) \<leftarrow> sock_initialize dbg fd opt_ok False;
     Some (ok, s, es, ok) }"

lemma Io_start_no_leak:
  "Io_start dbg fd opt_ok = Some (ok, s, es, thread) \<Longrightarrow>
   thread = ok \<and> (ok \<longleftrightarrow> 0 \<le> fd \<and> opt_ok) \<and> (ok \<longrightarrow> s = fd \<and> es = []) \<and> (\<not> ok \<longrightarrow> s = -1 \<and> es = (if 0 \<le> fd then [CloseFd fd] else []))"
  by (auto simp: Io_start_def sock_initialize_def chDbgAssert_def split: if_splits)

text \<open>
  Whatever is received, of at most the size of a packet buffer, a round ends with the packet handed
  to one service or freed once, never both.
\<close>

lemma runIo_round_disposes:
  assumes "registered st is" "i < length pkts" "\<forall>d. received = Some d \<longrightarrow> length d \<le> length (packet_buffer (pkts ! i)) \<and> length d < 2 ^ 32"
  shows "\<exists>pkts' es. runIo_round h st i received pkts = Some (pkts', es) \<and> length pkts' = length pkts \<and>
    length (filter (\<lambda>e. e = FreePacket i \<or> (\<exists>s. e = IoInput s i)) es) = 1"
proof (cases received)
  case None
  then show ?thesis by (simp add: runIo_round_def receivePacket_def)
next
  case (Some d)
  let ?p = "pkts ! i"
  have d: "length d \<le> length (packet_buffer ?p)" "length d < 2 ^ 32" using assms(3) Some by auto
  obtain b where b: "awrite (packet_buffer ?p) 0 d = Some b" "length b = length (packet_buffer ?p)"
    using d(1) by (auto simp: awrite_def)
  let ?pkts = "pkts[i := ?p\<lparr>packet_buffer := b, used_data := of_nat (length d)\<rparr>]"
  obtain r where r: "find_receiver (length (services st) + 1) (services st) (first_service st) (header_service_id h b) = Some r"
    using find_receiver_find [of "services st" "first_service st" "is" "length (services st) + 1"]
      assms(1) registered_length [OF assms(1)] by (simp add: registered_def del: find_receiver.simps)
  have "unat (of_nat (length d) :: u32) = length d" using d(2) by (simp add: unsigned_of_nat take_bit_nat_eq_self_iff)
  then show ?thesis
    using assms(2) d(1) Some b r
    by (cases r) (simp_all add: runIo_round_def receivePacket_def runIo_packet_def aget_def Let_def del: find_receiver.simps)
qed

end
