(* ===== verification/Mg_Iobuf.thy ===== *)
theory Mg_Iobuf
  imports Prelude
begin

text \<open>
  The growing buffers of the web server (\<open>mongoose/mongoose.c\<close>, section \<open>iobuf.c\<close>). The
  allocated memory is a byte list, so its length is the field \<open>size\<close>, and the null buffer is
  the empty list. \<open>alloc n\<close> tells whether an allocation of \<open>n\<close> bytes succeeds. Writes are
  checked: \<^term>\<open>None\<close> is a write outside the allocation.
\<close>

record mg_iobuf =
  io_buf :: bytes
  io_len :: nat
  io_align :: nat

abbreviation io_size :: "mg_iobuf \<Rightarrow> nat" where
  "io_size io \<equiv> length (io_buf io)"

definition roundup :: "nat \<Rightarrow> nat \<Rightarrow> nat" where
  "roundup sz align = (if align = 0 then sz else (sz + align - 1) div align * align)"

definition mg_iobuf_resize :: "(nat \<Rightarrow> bool) \<Rightarrow> mg_iobuf \<Rightarrow> nat \<Rightarrow> bool \<times> mg_iobuf" where
  "mg_iobuf_resize alloc io sz =
     (let new_size = roundup sz (io_align io)
      in if new_size = 0 then (True, io\<lparr>io_buf := [], io_len := 0\<rparr>)
         else if new_size \<noteq> io_size io then
           if alloc new_size then
             let len = (if new_size < io_len io then new_size else io_len io);
                 moved = take len (io_buf io)
             in (True, io\<lparr>io_buf := moved @ replicate (new_size - length moved) 0\<rparr>)
           else (False, io)
         else (True, io))"

definition mg_iobuf_init :: "(nat \<Rightarrow> bool) \<Rightarrow> nat \<Rightarrow> nat \<Rightarrow> bool \<times> mg_iobuf" where
  "mg_iobuf_init alloc sz align =
     mg_iobuf_resize alloc \<lparr>io_buf = [], io_len = 0, io_align = align\<rparr> sz"

text \<open>\<open>data\<close> is \<^term>\<open>Some\<close> of the bytes to insert, or \<^term>\<open>None\<close> for a null pointer with \<open>n\<close> bytes of room.\<close>

definition mg_iobuf_add ::
  "(nat \<Rightarrow> bool) \<Rightarrow> mg_iobuf \<Rightarrow> nat \<Rightarrow> bytes option \<Rightarrow> nat \<Rightarrow> (nat \<times> mg_iobuf) option" where
  "mg_iobuf_add alloc io ofs data n = do {
     let new_size = roundup (io_len io + n) (io_align io);
     let io1 = snd (mg_iobuf_resize alloc io new_size);
     let len = (if new_size \<noteq> io_size io1 then 0 else n);
     buf1 \<leftarrow> (if ofs < io_len io1
              then awrite (io_buf io1) (ofs + len) (take (io_len io1 - ofs) (drop ofs (io_buf io1)))
              else Some (io_buf io1));
     buf2 \<leftarrow> (case data of None \<Rightarrow> Some buf1 | Some bs \<Rightarrow> awrite buf1 ofs (take len bs));
     let l = (if ofs > io_len io1 then ofs else io_len io1);
     Some (len, io1\<lparr>io_buf := buf2, io_len := l + len\<rparr>) }"

definition mg_iobuf_del :: "mg_iobuf \<Rightarrow> nat \<Rightarrow> nat \<Rightarrow> (nat \<times> mg_iobuf) option" where
  "mg_iobuf_del io ofs len = do {
     let ofs1 = (if ofs > io_len io then io_len io else ofs);
     let len1 = (if ofs1 + len > io_len io then io_len io - ofs1 else len);
     if io_buf io = [] then Some (len1, io\<lparr>io_len := io_len io - len1\<rparr>)
     else do {
       buf1 \<leftarrow> awrite (io_buf io) ofs1
                 (take (io_len io - ofs1 - len1) (drop (ofs1 + len1) (io_buf io)));
       buf2 \<leftarrow> awrite buf1 (io_len io - len1) (replicate len1 0);
       Some (len1, io\<lparr>io_buf := buf2, io_len := io_len io - len1\<rparr>) } }"

definition mg_iobuf_free :: "(nat \<Rightarrow> bool) \<Rightarrow> mg_iobuf \<Rightarrow> mg_iobuf" where
  "mg_iobuf_free alloc io = snd (mg_iobuf_resize alloc io 0)"

subsection \<open>Contents and well-formedness\<close>

definition io_wf :: "mg_iobuf \<Rightarrow> bool" where
  "io_wf io \<longleftrightarrow> io_len io \<le> io_size io"

definition io_data :: "mg_iobuf \<Rightarrow> bytes" where
  "io_data io = take (io_len io) (io_buf io)"

lemma length_io_data [simp]: "io_wf io \<Longrightarrow> length (io_data io) = io_len io"
  by (simp add: io_data_def io_wf_def)

lemma roundup_ge: "sz \<le> roundup sz align"
proof (cases "align = 0")
  case False
  have "sz + align - 1 < (sz + align - 1) div align * align + align"
    using False by (metis div_mult_mod_eq add_less_cancel_left mod_less_divisor gr_zeroI)
  then show ?thesis using False by (simp add: roundup_def)
qed (simp add: roundup_def)

lemma roundup_idem: "roundup (roundup sz align) align = roundup sz align"
proof (cases "align = 0")
  case False
  have "(k * align + align - 1) div align = k" for k
  proof -
    have "k * align + align - 1 = (align - 1) + k * align" using False by simp
    moreover have "(align - 1 + k * align) div align = k + (align - 1) div align"
      using False by (rule div_mult_self1)
    ultimately show ?thesis using False by simp
  qed
  then show ?thesis using False by (simp add: roundup_def)
qed (simp add: roundup_def)

lemma roundup_0 [simp]: "roundup 0 align = 0"
  by (auto simp: roundup_def)

lemma resize_keeps:
  assumes "io_wf io" "io_len io \<le> sz" "mg_iobuf_resize alloc io sz = (ok, io')"
  shows "io_wf io' \<and> io_len io' = io_len io \<and> io_data io' = io_data io
    \<and> io_align io' = io_align io \<and> (ok \<longrightarrow> io_size io' = roundup sz (io_align io))
    \<and> (\<not> ok \<longrightarrow> io' = io)"
proof -
  have "io_len io \<le> roundup sz (io_align io)" using assms(2) roundup_ge order_trans by blast
  then show ?thesis
    using assms(1,3) by (auto simp: mg_iobuf_resize_def io_wf_def io_data_def Let_def split: if_splits)
qed

lemma resize_ok_iff:
  "fst (mg_iobuf_resize alloc io sz) \<longleftrightarrow>
     alloc (roundup sz (io_align io)) \<or> roundup sz (io_align io) \<in> {0, io_size io}"
  by (auto simp: mg_iobuf_resize_def Let_def)


subsection \<open>Inserting and deleting\<close>

text \<open>
  Inserting bytes at a position of the contents keeps the buffer well formed, never
  writes outside the allocation, and is all or nothing: either the contents get the bytes at
  that position and their number is returned, or the allocation failed, 0 is returned and
  the contents are unchanged.
\<close>

theorem mg_iobuf_add_inserts:
  assumes "io_wf io" "ofs \<le> io_len io"
  shows "\<exists>n io'. mg_iobuf_add alloc io ofs (Some bs) (length bs) = Some (n, io') \<and> io_wf io'
     \<and> (if n = length bs then io_data io' = take ofs (io_data io) @ bs @ drop ofs (io_data io)
        else n = 0 \<and> io_data io' = io_data io \<and>
          \<not> alloc (roundup (io_len io + length bs) (io_align io)))"
proof -
  let ?sz = "roundup (io_len io + length bs) (io_align io)"
  obtain ok io1 where r: "mg_iobuf_resize alloc io ?sz = (ok, io1)" by fastforce
  have ge: "io_len io + length bs \<le> ?sz" by (rule roundup_ge)
  have k: "io_wf io1" "io_len io1 = io_len io" "io_data io1 = io_data io"
     "ok \<Longrightarrow> io_size io1 = ?sz" "\<not> ok \<Longrightarrow> io1 = io"
    using resize_keeps [OF assms(1) _ r] ge by (auto simp: roundup_idem)
  define n where "n = (if ?sz \<noteq> io_size io1 then 0 else length bs)"
  have room: "io_len io1 + n \<le> io_size io1"
    using k(1,2) ge by (auto simp: n_def io_wf_def)
  let ?d = "io_data io" and ?l = "io_len io"
  have d: "take ?l (io_buf io1) = ?d" "length ?d = ?l" using k assms by (auto simp: io_data_def io_wf_def)
  have tail: "take (?l - ofs) (drop ofs (io_buf io1)) = drop ofs ?d"
    unfolding d(1) [symmetric] by (simp add: drop_take)
  let ?b1 = "take (ofs + n) (io_buf io1) @ drop ofs ?d @ drop (?l + n) (io_buf io1)"
  have w1: "(if ofs < io_len io1
      then awrite (io_buf io1) (ofs + n) (take (io_len io1 - ofs) (drop ofs (io_buf io1)))
      else Some (io_buf io1)) = Some ?b1"
    using room assms(2) k(2) d tail by (auto simp: awrite_def add.commute)
  let ?b2 = "take ofs ?d @ take n bs @ drop ofs ?d @ drop (?l + n) (io_buf io1)"
  have pre: "take ofs (io_buf io1) = take ofs ?d"
    unfolding d(1) [symmetric] using assms(2) by (simp add: min_absorb1)
  have w2: "awrite ?b1 ofs (take n bs) = Some ?b2"
    using room assms(2) k(2) d pre by (auto simp: awrite_def n_def min_def)
  have add: "mg_iobuf_add alloc io ofs (Some bs) (length bs) =
      Some (n, io1\<lparr>io_buf := ?b2, io_len := ?l + n\<rparr>)"
    unfolding mg_iobuf_add_def Let_def r snd_conv n_def [symmetric] w1
    using w2 assms(2) k(2) by simp
  have data: "io_data (io1\<lparr>io_buf := ?b2, io_len := ?l + n\<rparr>) = take ofs ?d @ take n bs @ drop ofs ?d"
    using d assms(2) by (auto simp: io_data_def n_def)
  have wf: "io_wf (io1\<lparr>io_buf := ?b2, io_len := ?l + n\<rparr>)"
    using d assms(2) by (auto simp: io_wf_def n_def)
  have fail: "n \<noteq> length bs \<Longrightarrow> n = 0 \<and> \<not> alloc ?sz"
  proof -
    assume "n \<noteq> length bs"
    then have "\<not> ok" "n = 0" using k(4) by (auto simp: n_def)
    moreover have "ok \<longleftrightarrow> alloc ?sz \<or> ?sz \<in> {0, io_size io}"
      using resize_ok_iff [of alloc io ?sz] r by (simp add: roundup_idem)
    ultimately show "n = 0 \<and> \<not> alloc ?sz" by blast
  qed
  show ?thesis
    using add data wf fail by (cases "n = length bs") auto
qed

theorem mg_iobuf_add_inserts_witness:
  "\<exists>n io'. mg_iobuf_add (\<lambda>_. True) \<lparr>io_buf = [1, 2, 0, 0], io_len = 2, io_align = 4\<rparr> 1 (Some [7, 8, 9]) (length [7, 8, 9 :: u8])
       = Some (n, io') \<and> io_wf io' \<and> n = length [7, 8, 9 :: u8] \<and> io_data io' = [1, 7, 8, 9, 2]"
proof -
  have "io_wf \<lparr>io_buf = [1, 2, 0, 0], io_len = 2, io_align = 4\<rparr>"
    "(1 :: nat) \<le> io_len \<lparr>io_buf = [1, 2, 0, 0], io_len = 2, io_align = 4\<rparr>"
    by (simp_all add: io_wf_def)
  from mg_iobuf_add_inserts [OF this, of "\<lambda>_. True" "[7, 8, 9]"]
  show ?thesis by (auto simp: io_data_def split: if_splits)
qed

text \<open>
  Deleting keeps the buffer well formed, stays inside the allocation and removes exactly
  the requested bytes, as far as they exist.
\<close>

theorem mg_iobuf_del_removes:
  assumes "io_wf io"
  shows "\<exists>n io'. mg_iobuf_del io ofs len = Some (n, io') \<and> io_wf io'
     \<and> io_data io' = take ofs (io_data io) @ drop (ofs + len) (io_data io)
     \<and> n = min len (io_len io - ofs) \<and> io_size io' = io_size io"
proof (cases "io_buf io = []")
  case True
  then show ?thesis using assms by (simp add: mg_iobuf_del_def io_wf_def io_data_def)
next
  case False
  let ?l = "io_len io" and ?b = "io_buf io"
  define o1 where "o1 = (if ofs > ?l then ?l else ofs)"
  define n where "n = (if o1 + len > ?l then ?l - o1 else len)"
  have le: "o1 + n \<le> ?l" "?l \<le> length ?b" using assms by (auto simp: o1_def n_def io_wf_def)
  let ?b1 = "take o1 ?b @ take (?l - o1 - n) (drop (o1 + n) ?b) @ drop (?l - n) ?b"
  have w1: "awrite ?b o1 (take (?l - o1 - n) (drop (o1 + n) ?b)) = Some ?b1"
    using le by (auto simp: awrite_def)
  let ?b2 = "take o1 ?b @ take (?l - o1 - n) (drop (o1 + n) ?b) @ replicate n 0 @ drop ?l ?b"
  have w2: "awrite ?b1 (?l - n) (replicate n 0) = Some ?b2"
    using le by (auto simp: awrite_def add.commute)
  have del: "mg_iobuf_del io ofs len = Some (n, io\<lparr>io_buf := ?b2, io_len := ?l - n\<rparr>)"
    unfolding mg_iobuf_del_def Let_def o1_def [symmetric] n_def [symmetric]
    using False w1 w2 by (simp add: diff_diff_left)
  have "io_data (io\<lparr>io_buf := ?b2, io_len := ?l - n\<rparr>) = take o1 ?b @ take (?l - o1 - n) (drop (o1 + n) ?b)"
    using le by (simp add: io_data_def add.commute)
  also have "\<dots> = take ofs (io_data io) @ drop (ofs + len) (io_data io)"
  proof -
    have "take ofs (io_data io) = take o1 ?b" by (simp add: io_data_def o1_def min_def)
    moreover have "drop (ofs + len) (io_data io) = take (?l - o1 - n) (drop (o1 + n) ?b)"
    proof (cases "?l \<le> ofs + len")
      case True
      then have "?l - o1 - n = 0" by (auto simp: o1_def n_def)
      then show ?thesis using True le by (simp add: io_data_def)
    next
      case False
      then have "o1 = ofs" "n = len" by (auto simp: o1_def n_def)
      then show ?thesis by (simp add: io_data_def drop_take)
    qed
    ultimately show ?thesis by simp
  qed
  finally have data: "io_data (io\<lparr>io_buf := ?b2, io_len := ?l - n\<rparr>) =
      take ofs (io_data io) @ drop (ofs + len) (io_data io)" .
  have len: "length ?b2 = length ?b" using le by simp
  moreover have "n = min len (?l - ofs)" by (auto simp: o1_def n_def)
  moreover have "io_wf (io\<lparr>io_buf := ?b2, io_len := ?l - n\<rparr>)"
    using len le by (simp add: io_wf_def del: length_append)
  ultimately show ?thesis
    using del data by (intro exI conjI) (assumption | simp del: length_append)+
qed

theorem mg_iobuf_del_removes_witness:
  "\<exists>n io'. mg_iobuf_del \<lparr>io_buf = [1, 2, 3, 0], io_len = 3, io_align = 0\<rparr> 1 1 = Some (n, io')
     \<and> io_wf io' \<and> io_data io' = [1, 3] \<and> n = 1 \<and> io_size io' = length [1, 2, 3, 0 :: u8]"
  using mg_iobuf_del_removes [of "\<lparr>io_buf = [1, 2, 3, 0], io_len = 3, io_align = 0\<rparr>" 1 1]
  by (simp add: io_wf_def io_data_def)

end
