(* ===== verification/Mg_Url.thy ===== *)
theory Mg_Url
  imports C_String
begin

text \<open>
  Listening addresses (\<open>mongoose/mongoose.c\<close>, section \<open>url.c\<close>). A URL is a terminated
  string; slices of it are byte lists. \<^term>\<open>None\<close> is a read behind the array.
\<close>

record url =
  u_user :: nat
  u_pass :: nat
  u_host :: nat
  u_port :: nat
  u_uri :: nat
  u_end :: nat

definition starts :: "bytes \<Rightarrow> string \<Rightarrow> bool option" where
  "starts url s = map_option (\<lambda>d. d = 0) (strncmp url (lit s) (length s))"

text \<open>\<open>||\<close> over the prefixes, left to right.\<close>

fun any_prefix :: "bytes \<Rightarrow> string list \<Rightarrow> bool option" where
  "any_prefix url [] = Some False"
| "any_prefix url (s # ss) = do { b \<leftarrow> starts url s; if b then Some True else any_prefix url ss }"

definition mg_url_is_ssl :: "bytes \<Rightarrow> bool option" where
  "mg_url_is_ssl url = any_prefix url [''wss:'', ''https:'', ''mqtts:'', ''ssl:'', ''tls:'', ''tcps:'']"

text \<open>The body of the loop of \<open>urlparse\<close>; \<open>prev\<close> is \<open>url[i - 1]\<close> when \<open>i > 0\<close>.\<close>

definition url_step :: "nat \<Rightarrow> u8 \<Rightarrow> u8 \<Rightarrow> url \<Rightarrow> url" where
  "url_step i prev c u =
     (if c = c8 CHR ''/'' \<and> i > 0 \<and> u_host u = 0 \<and> prev = c8 CHR ''/''
      then u\<lparr>u_host := i + 1, u_port := 0\<rparr>
      else if c = c8 CHR '']'' then u\<lparr>u_port := 0\<rparr>
      else if c = c8 CHR '':'' \<and> u_port u = 0 \<and> u_uri u = 0 then u\<lparr>u_port := i + 1\<rparr>
      else if c = c8 CHR ''@'' \<and> u_user u = 0 \<and> u_pass u = 0 \<and> u_uri u = 0
      then u\<lparr>u_user := u_host u, u_pass := u_port u, u_host := i + 1, u_port := 0\<rparr>
      else if c = c8 CHR ''/'' \<and> u_host u \<noteq> 0 \<and> u_uri u = 0 then u\<lparr>u_uri := i\<rparr>
      else u)"

fun url_loop :: "nat \<Rightarrow> u8 \<Rightarrow> bytes \<Rightarrow> url \<Rightarrow> url option" where
  "url_loop i prev [] u = None"
| "url_loop i prev (c # cs) u =
     (if c = 0 then Some (u\<lparr>u_end := i\<rparr>) else url_loop (Suc i) c cs (url_step i prev c u))"

definition urlparse :: "bytes \<Rightarrow> url option" where
  "urlparse url =
     url_loop 0 0 url \<lparr>u_user = 0, u_pass = 0, u_host = 0, u_port = 0, u_uri = 0, u_end = 0\<rparr>"

definition slice :: "bytes \<Rightarrow> nat \<Rightarrow> nat \<Rightarrow> bytes" where
  "slice b ofs n = take n (drop ofs b)"

definition mg_url_host :: "bytes \<Rightarrow> bytes option" where
  "mg_url_host url = do {
     u \<leftarrow> urlparse url;
     let n = (if u_port u \<noteq> 0 then u_port u - u_host u - 1
              else if u_uri u \<noteq> 0 then u_uri u - u_host u else u_end u - u_host u);
     Some (slice url (u_host u) n) }"

definition mg_url_uri :: "bytes \<Rightarrow> bytes option" where
  "mg_url_uri url = do {
     u \<leftarrow> urlparse url; Some (if u_uri u \<noteq> 0 then drop (u_uri u) url else lit ''/'') }"

text \<open>
  \<open>atoi\<close>: white space, an optional sign, then digits. \<^term>\<open>None\<close> is a read behind the array
  or a value outside the 32-bit range.
\<close>

definition isspace :: "u8 \<Rightarrow> bool" where
  "isspace c \<longleftrightarrow> c = 32 \<or> 9 \<le> c \<and> c \<le> 13"

definition is_dec :: "u8 \<Rightarrow> bool" where
  "is_dec c \<longleftrightarrow> c8 CHR ''0'' \<le> c \<and> c \<le> c8 CHR ''9''"

fun dec_value :: "bytes \<Rightarrow> int \<Rightarrow> int option" where
  "dec_value [] acc = None"
| "dec_value (c # cs) acc =
     (if is_dec c then dec_value cs (acc * 10 + (uint c - 48)) else Some acc)"

definition atoi :: "bytes \<Rightarrow> int option" where
  "atoi s =
     (let s1 = dropWhile isspace s
      in case s1 of
           [] \<Rightarrow> None
         | c # cs \<Rightarrow> do {
             v \<leftarrow> (if c = c8 CHR ''-'' then map_option uminus (dec_value cs 0)
                  else if c = c8 CHR ''+'' then dec_value cs 0 else dec_value s1 0);
             if - (2 ^ 31) \<le> v \<and> v < 2 ^ 31 then Some v else None })"

definition mg_url_port :: "bytes \<Rightarrow> u16 option" where
  "mg_url_port url = do {
     u \<leftarrow> urlparse url;
     b1 \<leftarrow> any_prefix url [''http:'', ''ws:''];
     let port = (if b1 then 80 else 0);
     b2 \<leftarrow> any_prefix url [''wss:'', ''https:''];
     let port = (if b2 then 443 else port);
     b3 \<leftarrow> any_prefix url [''mqtt:''];
     let port = (if b3 then 1883 else port);
     b4 \<leftarrow> any_prefix url [''mqtts:''];
     let port = (if b4 then 8883 else port);
     if u_port u \<noteq> 0 then do { v \<leftarrow> atoi (drop (u_port u) url); Some (of_int v) }
     else Some port }"

definition mg_url_user :: "bytes \<Rightarrow> bytes option" where
  "mg_url_user url = do {
     u \<leftarrow> urlparse url;
     if u_user u \<noteq> 0 \<and> (u_pass u \<noteq> 0 \<or> u_host u \<noteq> 0) then
       let n = (if u_pass u \<noteq> 0 then u_pass u - u_user u - 1 else u_host u - u_user u - 1)
       in Some (slice url (u_user u) n)
     else Some [] }"

definition mg_url_pass :: "bytes \<Rightarrow> bytes option" where
  "mg_url_pass url = do {
     u \<leftarrow> urlparse url;
     if u_pass u \<noteq> 0 \<and> u_host u \<noteq> 0 then Some (slice url (u_pass u) (u_host u - u_pass u - 1))
     else Some [] }"

subsection \<open>Parsing an address\<close>

text \<open>A part of an address without the bytes the parser looks for.\<close>

definition url_word :: "bytes \<Rightarrow> bool" where
  "url_word s \<longleftrightarrow> list_all (\<lambda>c. c \<noteq> 0 \<and> c \<noteq> c8 CHR ''/'' \<and> c \<noteq> c8 CHR '':'' \<and> c \<noteq> c8 CHR ''@''
     \<and> c \<noteq> c8 CHR '']'') s"

lemma url_word_simps [simp]:
  "url_word []"
  "url_word (c # s) \<longleftrightarrow> c \<noteq> 0 \<and> c \<noteq> c8 CHR ''/'' \<and> c \<noteq> c8 CHR '':'' \<and> c \<noteq> c8 CHR ''@''
     \<and> c \<noteq> c8 CHR '']'' \<and> url_word s"
  by (auto simp: url_word_def)

lemma url_step_word [simp]: "url_word [c] \<Longrightarrow> url_step i prev c u = u"
  by (simp add: url_step_def)

lemma url_loop_word:
  "url_word s \<Longrightarrow> url_loop i prev (s @ r) u = url_loop (i + length s) (last (prev # s)) r u"
  by (induction s arbitrary: i prev) auto

text \<open>After the path has started nothing but its end is recorded, and a bracket.\<close>

lemma url_loop_uri:
  "\<lbrakk> nul_free s; u_host u \<noteq> 0; u_uri u \<noteq> 0; c8 CHR '']'' \<notin> set s \<rbrakk> \<Longrightarrow>
   url_loop i prev (s @ [0]) u = Some (u\<lparr>u_end := i + length s\<rparr>)"
  by (induction s arbitrary: i prev) (auto simp: url_step_def)

lemma dec_value_digits:
  "list_all is_dec ds \<Longrightarrow> \<not> is_dec c \<Longrightarrow>
   dec_value (ds @ c # r) acc = Some (foldl (\<lambda>a d. a * 10 + (uint d - 48)) acc ds)"
  by (induction ds arbitrary: acc) auto

lemma digits_word: "list_all is_dec ds \<Longrightarrow> url_word ds"
  by (auto simp: url_word_def list_all_iff is_dec_def)

abbreviation address :: "bytes \<Rightarrow> bytes \<Rightarrow> bytes \<Rightarrow> bytes \<Rightarrow> bytes" where
  "address scheme host port path \<equiv> scheme @ cstr ''://'' @ host @ cstr '':'' @ port @ path @ [0]"

lemma urlparse_address:
  assumes "url_word scheme" "url_word host" "url_word port"
    "nul_free path" "c8 CHR '']'' \<notin> set path"
  shows "urlparse (address scheme host port (c8 CHR ''/'' # path)) =
     Some \<lparr>u_user = 0, u_pass = 0, u_host = length scheme + 3,
       u_port = length scheme + 3 + length host + 1,
       u_uri = length scheme + 3 + length host + 1 + length port,
       u_end = length scheme + 3 + length host + 1 + length port + 1 + length path\<rparr>"
  using assms unfolding urlparse_def
  by (simp add: url_loop_word url_step_def url_loop_uri)

lemma is_dec_no_sign: "is_dec c \<Longrightarrow> \<not> isspace c \<and> c \<noteq> c8 CHR ''-'' \<and> c \<noteq> c8 CHR ''+''"
proof -
  assume "is_dec c"
  then have "48 \<le> unat c" "unat c \<le> 57" by (auto simp: is_dec_def word_le_nat_alt)
  then show ?thesis by (auto simp: isspace_def word_le_nat_alt)
qed

lemma atoi_digits:
  assumes "list_all is_dec ds" "ds \<noteq> []" "\<not> is_dec c"
    "0 \<le> foldl (\<lambda>a d. a * 10 + (uint d - 48)) 0 ds" "foldl (\<lambda>a d. a * 10 + (uint d - 48)) 0 ds < 2 ^ 31"
  shows "atoi (ds @ c # r) = Some (foldl (\<lambda>a d. a * 10 + (uint d - 48)) 0 ds)"
proof -
  obtain d ds' where ds: "ds = d # ds'" using assms(2) by (cases ds) auto
  then have "is_dec d" using assms(1) by simp
  then have "dropWhile isspace (ds @ c # r) = ds @ c # r"
    using is_dec_no_sign ds by simp
  then show ?thesis
    using ds assms dec_value_digits [OF assms(1,3), of r 0] is_dec_no_sign [OF \<open>is_dec d\<close>]
    by (simp add: atoi_def Let_def)
qed

lemma strncmp_defined: "0 \<in> set a \<Longrightarrow> n \<le> length b \<Longrightarrow> \<exists>d. strncmp a b n = Some d"
  by (induction a b n rule: strncmp.induct) auto

lemma any_prefix_defined: "0 \<in> set u \<Longrightarrow> \<exists>b. any_prefix u ss = Some b"
proof (induction ss)
  case (Cons s ss)
  then obtain d where "starts u s = Some d"
    using strncmp_defined [of u "length s" "lit s"] by (auto simp: starts_def lit_def)
  then show ?case using Cons by (cases d) auto
qed auto

text \<open>
  An address \<open>scheme://host:port/path\<close> is taken apart into its parts: the host slice is
  the host, the explicit port wins over the default of the scheme and is the decimal value
  of the port digits, and the URI is the path with its leading slash.
\<close>

theorem url_address_parts:
  assumes "url_word scheme" "url_word host" "list_all is_dec port" "port \<noteq> []"
    "nul_free path" "c8 CHR '']'' \<notin> set path"
    "foldl (\<lambda>a d. a * 10 + (uint d - 48)) 0 port = int n" "n < 65536"
  shows "mg_url_host (address scheme host port (c8 CHR ''/'' # path)) = Some host
     \<and> mg_url_port (address scheme host port (c8 CHR ''/'' # path)) = Some (of_nat n)
     \<and> mg_url_uri (address scheme host port (c8 CHR ''/'' # path)) = Some (c8 CHR ''/'' # path @ [0])"
proof -
  let ?url = "address scheme host port (c8 CHR ''/'' # path)"
  note parse = urlparse_address [OF assms(1,2) digits_word [OF assms(3)] assms(5,6)]
  have "mg_url_host ?url = Some host"
    unfolding mg_url_host_def parse by (simp add: slice_def)
  moreover have "mg_url_uri ?url = Some (c8 CHR ''/'' # path @ [0])"
    unfolding mg_url_uri_def parse by (simp add: add.assoc [symmetric] drop_Cons')
  moreover have "mg_url_port ?url = Some (of_nat n)"
  proof -
    have "drop (length scheme + 3 + length host + 1) ?url = port @ c8 CHR ''/'' # path @ [0]"
      by (simp add: drop_Cons')
    moreover have "atoi (port @ c8 CHR ''/'' # path @ [0]) = Some (int n)"
      using atoi_digits [OF assms(3,4), of "c8 CHR ''/''" "path @ [0]"] assms(7,8)
      by (simp add: is_dec_def)
    moreover have "\<exists>b. any_prefix ?url ss = Some b" for ss by (rule any_prefix_defined) simp
    then obtain b1 b2 b3 b4 where
      "any_prefix ?url [''http:'', ''ws:''] = Some b1" "any_prefix ?url [''wss:'', ''https:''] = Some b2"
      "any_prefix ?url [''mqtt:''] = Some b3" "any_prefix ?url [''mqtts:''] = Some b4" by metis
    ultimately show ?thesis
      unfolding mg_url_port_def parse by (simp del: any_prefix.simps append_assoc)
  qed
  ultimately show ?thesis by blast
qed

theorem url_address_parts_witness:
  "mg_url_host (lit ''http://0.0.0.0:80/x'') = Some (cstr ''0.0.0.0'')
     \<and> mg_url_port (lit ''http://0.0.0.0:80/x'') = Some 80
     \<and> mg_url_uri (lit ''http://0.0.0.0:80/x'') = Some (lit ''/x'')"
  using url_address_parts [of "cstr ''http''" "cstr ''0.0.0.0''" "cstr ''80''" "cstr ''x''" 80]
  by (simp add: lit_def is_dec_def)

end
