(* ===== verification/Mg_Util.thy ===== *)
theory Mg_Util
  imports C_String
begin

text \<open>
  Helpers of the web server (\<open>mongoose/mongoose.c\<close>, sections \<open>util.c\<close> and \<open>timer.c\<close>).
\<close>

subsection \<open>Random strings and checksums\<close>

text \<open>\<open>rnd\<close> are the bytes \<open>mg_random\<close> delivered.\<close>

definition random_char :: "nat \<Rightarrow> nat \<Rightarrow> u8 \<Rightarrow> u8" where
  "random_char len i b =
     (let c = b mod 62
      in if i = len - 1 then 0
         else if c < 26 then c8 CHR ''a'' + c
         else if c < 52 then c8 CHR ''A'' + c - 26
         else c8 CHR ''0'' + c - 52)"

definition mg_random_str :: "bytes \<Rightarrow> bytes" where
  "mg_random_str rnd = map (\<lambda>(i, b). random_char (length rnd) i b) (zip [0..<length rnd] rnd)"

definition crclut :: "u32 list" where
  "crclut = [0x00000000, 0x1DB71064, 0x3B6E20C8, 0x26D930AC, 0x76DC4190, 0x6B6B51F4,
     0x4DB26158, 0x5005713C, 0xEDB88320, 0xF00F9344, 0xD6D6A3E8, 0xCB61B38C,
     0x9B64C2B0, 0x86D3D2D4, 0xA00AE278, 0xBDBDF21C]"

definition crc_nibble :: "u32 \<Rightarrow> u32 \<Rightarrow> u32" where
  "crc_nibble crc b = (crclut ! unat ((crc XOR b) AND 0x0F)) XOR drop_bit 4 crc"

definition crc_byte :: "u32 \<Rightarrow> u8 \<Rightarrow> u32" where
  "crc_byte crc b = crc_nibble (crc_nibble crc (ucast b)) (ucast (drop_bit 4 b))"

definition mg_crc32 :: "u32 \<Rightarrow> bytes \<Rightarrow> u32" where
  "mg_crc32 crc buf = NOT (foldl crc_byte (NOT crc) buf)"

subsection \<open>Paths\<close>

text \<open>
  The path is the first \<open>n\<close> bytes of the array. The loop stops at a terminator or after \<open>n\<close>
  bytes; \<^term>\<open>None\<close> is a read behind the array.
\<close>

definition is_sep :: "u8 \<Rightarrow> bool" where
  "is_sep c \<longleftrightarrow> c = c8 CHR ''/'' \<or> c = 92"

fun sane_loop :: "bytes \<Rightarrow> nat \<Rightarrow> bool option" where
  "sane_loop s 0 = (case s of [] \<Rightarrow> None | _ # _ \<Rightarrow> Some True)"
| "sane_loop s (Suc n) =
     (case s of [] \<Rightarrow> None
      | c # cs \<Rightarrow>
          if c = 0 then Some True
          else if is_sep c \<and> Suc n \<ge> 2 then do {
            s1 \<leftarrow> aget s 1;
            if s1 = c8 CHR ''.'' then do {
              s2 \<leftarrow> aget s 2;
              if s2 = c8 CHR ''.'' then Some False else sane_loop cs n }
            else sane_loop cs n }
          else sane_loop cs n)"

definition mg_path_is_sane :: "bytes \<Rightarrow> nat \<Rightarrow> bool option" where
  "mg_path_is_sane path n = do {
     c0 \<leftarrow> aget path 0;
     if c0 = c8 CHR ''~'' then Some False
     else do {
       dots \<leftarrow> (if c0 = c8 CHR ''.'' then do { c1 \<leftarrow> aget path 1; Some (c1 = c8 CHR ''.'') }
               else Some False);
       if dots then Some False else sane_loop path n } }"

subsection \<open>Timers\<close>

definition MG_TIMER_REPEAT :: u32 where "MG_TIMER_REPEAT = push_bit 0 1"
definition MG_TIMER_RUN_NOW :: u32 where "MG_TIMER_RUN_NOW = push_bit 1 1"
definition MG_TIMER_CALLED :: u32 where "MG_TIMER_CALLED = push_bit 2 1"
definition MG_TIMER_AUTODELETE :: u32 where "MG_TIMER_AUTODELETE = push_bit 3 1"

record mg_timer =
  t_id :: nat
  period_ms :: u64
  expire :: u64
  t_flags :: u32

text \<open>The list of timers from the head on; a timer is known by its identity \<open>t_id\<close>.\<close>

definition mg_timer_init :: "nat \<Rightarrow> u64 \<Rightarrow> u32 \<Rightarrow> mg_timer list \<Rightarrow> mg_timer list" where
  "mg_timer_init t ms flags head =
     \<lparr>t_id = t, period_ms = ms, expire = 0, t_flags = flags\<rparr> # head"

fun mg_timer_free :: "nat \<Rightarrow> mg_timer list \<Rightarrow> mg_timer list" where
  "mg_timer_free t [] = []"
| "mg_timer_free t (x # xs) = (if t_id x = t then xs else x # mg_timer_free t xs)"

definition mg_timer_expired :: "u64 \<Rightarrow> u64 \<Rightarrow> u64 \<Rightarrow> bool \<times> u64" where
  "mg_timer_expired t prd now =
     (let t1 = (if now + prd < t then 0 else t);
          t2 = (if t1 = 0 then now + prd else t1)
      in if t2 > now then (False, t2)
         else (True, if now - t2 > prd then now + prd else t2 + prd))"

text \<open>
  One timer of \<open>mg_timer_poll\<close>: whether its callback runs, the timer afterwards, and
  whether it is removed. Callbacks are recorded, in order, by the identity of the timer;
  they are taken not to change the list.
\<close>

definition timer_poll1 :: "u64 \<Rightarrow> mg_timer \<Rightarrow> bool \<times> mg_timer \<times> bool" where
  "timer_poll1 now t =
     (let once = (expire t = 0 \<and> t_flags t AND MG_TIMER_RUN_NOW \<noteq> 0 \<and> t_flags t AND MG_TIMER_CALLED = 0);
          (expired, e) = mg_timer_expired (expire t) (period_ms t) now;
          t1 = t\<lparr>expire := e\<rparr>
      in if \<not> once \<and> \<not> expired then (False, t1, False)
         else (t_flags t AND MG_TIMER_REPEAT \<noteq> 0 \<or> t_flags t AND MG_TIMER_CALLED = 0,
               t1\<lparr>t_flags := t_flags t OR MG_TIMER_CALLED\<rparr>,
               t_flags t AND MG_TIMER_REPEAT = 0 \<and> t_flags t AND MG_TIMER_AUTODELETE \<noteq> 0))"

fun mg_timer_poll :: "u64 \<Rightarrow> mg_timer list \<Rightarrow> nat list \<times> mg_timer list" where
  "mg_timer_poll now [] = ([], [])"
| "mg_timer_poll now (t # ts) =
     (let (called, t', removed) = timer_poll1 now t;
          (calls, ts') = mg_timer_poll now ts
      in ((if called then [t_id t] else []) @ calls, (if removed then ts' else t' # ts')))"


subsection \<open>What a sane path excludes\<close>

text \<open>A path climbs when one of its components starts with two dots.\<close>

definition climbs :: "bytes \<Rightarrow> bool" where
  "climbs t \<longleftrightarrow> (\<exists>b. t = cstr ''..'' @ b) \<or> (\<exists>a c b. is_sep c \<and> t = a @ c # cstr ''..'' @ b)"

definition inner_climb :: "bytes \<Rightarrow> bool" where
  "inner_climb t \<longleftrightarrow> (\<exists>a c b. is_sep c \<and> t = a @ c # cstr ''..'' @ b)"

lemma inner_climb_Nil [simp]: "\<not> inner_climb []"
  by (simp add: inner_climb_def)

lemma inner_climb_Cons:
  "inner_climb (x # t) \<longleftrightarrow> is_sep x \<and> (\<exists>b. t = c8 CHR ''.'' # c8 CHR ''.'' # b) \<or> inner_climb t"
  unfolding inner_climb_def by (auto simp: Cons_eq_append_conv)

lemma dots_prefix:
  "(\<exists>b. t = c8 CHR ''.'' # c8 CHR ''.'' # b) \<longleftrightarrow>
     length t \<ge> 2 \<and> t ! 0 = c8 CHR ''.'' \<and> t ! 1 = c8 CHR ''.''"
  by (auto simp: neq_Nil_conv numeral_2_eq_2 Suc_le_length_iff)

lemma sane_loop_iff:
  "nul_free t \<Longrightarrow> length t \<le> n \<Longrightarrow> sane_loop (t @ 0 # r) n = Some (\<not> inner_climb t)"
proof (induction t arbitrary: n)
  case Nil
  then show ?case by (cases n) auto
next
  case (Cons c t)
  then obtain m where n: "n = Suc m" "length t \<le> m" by (cases n) auto
  have IH: "sane_loop (t @ 0 # r) m = Some (\<not> inner_climb t)" using Cons n by simp
  consider "\<not> (is_sep c \<and> n \<ge> 2)" | "is_sep c" "n \<ge> 2" "t = []" | x where "is_sep c" "n \<ge> 2" "t = [x]"
    | x y t' where "is_sep c" "n \<ge> 2" "t = x # y # t'"
    by (metis list.exhaust)
  then show ?case
  proof cases
    case 1
    then have "is_sep c \<longrightarrow> t = []" using n by (cases t) auto
    then show ?thesis using 1 n Cons.prems IH by (auto simp: inner_climb_Cons)
  qed (use n Cons.prems IH in \<open>auto simp: inner_climb_Cons aget_def\<close>)
qed

text \<open>
  C21: \<open>mg_path_is_sane\<close> decides exactly, without reading behind the terminator, whether a
  path is free of a leading tilde and of every component that starts with two dots, both
  for forward and for backward slashes.
\<close>

theorem mg_path_is_sane_exact:
  assumes "nul_free t" "length t \<le> n"
  shows "mg_path_is_sane (t @ 0 # r) n =
    Some (\<not> (\<exists>b. t = c8 CHR ''~'' # b) \<and> \<not> climbs t)"
proof -
  have c: "climbs t \<longleftrightarrow> (\<exists>b. t = c8 CHR ''.'' # c8 CHR ''.'' # b) \<or> inner_climb t"
    by (simp add: climbs_def inner_climb_def)
  consider "t = []" | x where "t = [x]" | x y t' where "t = x # y # t'" by (metis list.exhaust)
  then show ?thesis
    unfolding c
    by cases (use sane_loop_iff [OF assms, of r] assms in \<open>auto simp: mg_path_is_sane_def aget_def\<close>)
qed

theorem mg_path_is_sane_exact_witness:
  "mg_path_is_sane (lit ''web/../x'') 8 = Some False \<and> mg_path_is_sane (lit ''web/a..b'') 8 = Some True"
proof -
  have "climbs (cstr ''web/../x'')"
    unfolding climbs_def is_sep_def
    by (rule disjI2, rule exI [of _ "cstr ''web''"], rule exI [of _ "c8 CHR ''/''"],
        rule exI [of _ "cstr ''/x''"]) simp
  moreover have "\<not> climbs (cstr ''web/a..b'')"
  proof -
    have "\<not> inner_climb (cstr ''web/a..b'')" by (simp add: inner_climb_Cons is_sep_def)
    then show ?thesis by (simp add: climbs_def inner_climb_def)
  qed
  ultimately show ?thesis
    using mg_path_is_sane_exact [of "cstr ''web/../x''" 8 "[]"]
      mg_path_is_sane_exact [of "cstr ''web/a..b''" 8 "[]"] by (simp add: lit_def)
qed

subsection \<open>Expiry of timers\<close>

text \<open>
  As long as the clock plus the period does not overflow, a timer with a positive period
  fires exactly when an armed expiry time has been reached, and afterwards its next expiry
  lies between now and now plus the period; an expiry farther away is treated as stale and
  rearmed.
\<close>

theorem mg_timer_expired_next:
  assumes "unat now + unat prd < 2 ^ 64" "0 < prd"
  shows "fst (mg_timer_expired t prd now) = (0 < t \<and> t \<le> now)
    \<and> now \<le> snd (mg_timer_expired t prd now) \<and> snd (mg_timer_expired t prd now) \<le> now + prd"
proof -
  have s: "unat (now + prd) = unat now + unat prd" using assms by (simp add: unat_word_ariths)
  have le: "now \<le> now + prd" using s by (simp add: word_le_nat_alt)
  have "0 < unat prd" using assms(2) by (simp add: word_less_nat_alt)
  then have lt: "now < now + prd" using s by (simp add: word_less_nat_alt)
  show ?thesis
  proof (cases "0 < t \<and> t \<le> now")
    case True
    then have t: "t \<noteq> 0" "t \<le> now" "\<not> now + prd < t" using le by (auto simp: not_less)
    have d: "unat (now - t) = unat now - unat t" using t(2) by (simp add: unat_sub)
    have "now \<le> t + prd \<and> t + prd \<le> now + prd" if "\<not> now - t > prd"
    proof -
      have "unat now - unat t \<le> unat prd" using that d by (simp add: word_less_nat_alt)
      moreover have "unat (t + prd) = unat t + unat prd"
        using assms t(2) by (simp add: unat_word_ariths word_le_nat_alt)
      ultimately show ?thesis using t(2) s by (simp add: word_le_nat_alt)
    qed
    moreover have "\<not> now < t" "0 < t" using t by (auto simp: word_gt_0 not_less)
    ultimately show ?thesis using t le by (auto simp: mg_timer_expired_def Let_def)
  next
    case False
    then show ?thesis
      using le lt by (auto simp: mg_timer_expired_def Let_def not_less not_le word_gt_0 less_imp_le)
  qed
qed

theorem mg_timer_expired_next_witness:
  "fst (mg_timer_expired 1000 500 1200) \<and> 1200 \<le> snd (mg_timer_expired 1000 500 1200)
    \<and> snd (mg_timer_expired 1000 500 1200) \<le> 1700"
  using mg_timer_expired_next [of 1200 500 1000] by simp

end
