(* ===== verification/Mg_Fs.thy ===== *)
theory Mg_Fs
  imports C_String
begin

text \<open>
  The read-only file system packed into the firmware (\<open>mongoose/mongoose.c\<close>, section
  \<open>fs_packed.c\<close>, and the tail of \<open>mongoose/mongoose_fs.c\<close>). Names and paths are terminated
  strings, given by their bytes without the terminator. The table \<open>packed_files\<close>, generated
  from the web interface, is a parameter: each entry has its name, its data array (with one
  extra byte at the end) and its time stamp.
\<close>

record packed_entry =
  pe_name :: bytes
  pe_data :: bytes
  pe_mtime :: u64

record packed_file =
  pf_data :: bytes
  pf_size :: nat
  pf_pos :: nat

definition MG_FS_READ :: u32 where "MG_FS_READ = 1"
definition MG_FS_WRITE :: u32 where "MG_FS_WRITE = 2"
definition MG_FS_DIR :: u32 where "MG_FS_DIR = 4"

text \<open>\<open>scmp\<close> on the bytes of the two strings, with the terminators they have in memory.\<close>

fun scmp :: "bytes \<Rightarrow> bytes \<Rightarrow> int" where
  "scmp (a # as) (b # bs) = (if a = b then scmp as bs else uint a - uint b)"
| "scmp (a # as) [] = uint a"
| "scmp [] (b # bs) = - uint b"
| "scmp [] [] = 0"

definition mg_unlist :: "packed_entry list \<Rightarrow> nat \<Rightarrow> bytes option" where
  "mg_unlist files no = (if no < length files then Some (pe_name (files ! no)) else None)"

fun mg_unpack :: "packed_entry list \<Rightarrow> bytes \<Rightarrow> (bytes \<times> nat \<times> u64) option" where
  "mg_unpack [] name = None"
| "mg_unpack (p # ps) name =
     (if scmp (pe_name p) name \<noteq> 0 then mg_unpack ps name
      else Some (pe_data p, length (pe_data p) - 1, pe_mtime p))"

definition is_dir_prefix :: "bytes \<Rightarrow> bytes \<Rightarrow> bool" where
  "is_dir_prefix prefix path =
     (let n = length prefix
      in n < length path \<and> take n path = prefix \<and>
         (n = 0 \<or> path ! n = c8 CHR ''/'' \<or> path ! (n - 1) = c8 CHR ''/''))"

definition packed_stat :: "packed_entry list \<Rightarrow> bytes \<Rightarrow> u32 \<times> (nat \<times> u64) option" where
  "packed_stat files path =
     (case mg_unpack files path of
        Some (_, n, mtime) \<Rightarrow> (MG_FS_READ, Some (n, mtime))
      | None \<Rightarrow> (if list_ex (\<lambda>p. is_dir_prefix path (pe_name p)) files then MG_FS_DIR else 0, None))"

definition packed_open :: "packed_entry list \<Rightarrow> bytes \<Rightarrow> u32 \<Rightarrow> packed_file option" where
  "packed_open files path flags =
     (case mg_unpack files path of
        None \<Rightarrow> None
      | Some (data, n, _) \<Rightarrow>
          if flags AND MG_FS_WRITE \<noteq> 0 then None
          else Some \<lparr>pf_data = data, pf_size = n, pf_pos = 0\<rparr>)"

definition packed_read :: "packed_file \<Rightarrow> nat \<Rightarrow> bytes \<times> packed_file" where
  "packed_read fp len =
     (let n = (if pf_pos fp + len > pf_size fp then pf_size fp - pf_pos fp else len)
      in (take n (drop (pf_pos fp) (pf_data fp)), fp\<lparr>pf_pos := pf_pos fp + n\<rparr>))"

definition packed_write :: "packed_file \<Rightarrow> bytes \<Rightarrow> nat" where
  "packed_write fp buf = 0"

definition packed_seek :: "packed_file \<Rightarrow> nat \<Rightarrow> nat \<times> packed_file" where
  "packed_seek fp offset =
     (let pos = (if offset > pf_size fp then pf_size fp else offset)
      in (pos, fp\<lparr>pf_pos := pos\<rparr>))"

definition packed_rename :: "bytes \<Rightarrow> bytes \<Rightarrow> bool" where "packed_rename from to = False"
definition packed_remove :: "bytes \<Rightarrow> bool" where "packed_remove path = False"
definition packed_mkdir :: "bytes \<Rightarrow> bool" where "packed_mkdir path = False"

text \<open>The call table \<open>struct mg_fs\<close>, over the type of open files.\<close>

record 'f mg_fs =
  fs_st :: "bytes \<Rightarrow> u32 \<times> (nat \<times> u64) option"
  fs_op :: "bytes \<Rightarrow> u32 \<Rightarrow> 'f option"
  fs_rd :: "'f \<Rightarrow> nat \<Rightarrow> bytes \<times> 'f"
  fs_sk :: "'f \<Rightarrow> nat \<Rightarrow> nat \<times> 'f"

definition mg_fs_packed :: "packed_entry list \<Rightarrow> packed_file mg_fs" where
  "mg_fs_packed files =
     \<lparr>fs_st = packed_stat files, fs_op = packed_open files, fs_rd = packed_read, fs_sk = packed_seek\<rparr>"

text \<open>\<open>alloc\<close> tells whether the allocation of the handle succeeds.\<close>

definition mg_fs_open :: "bool \<Rightarrow> 'f mg_fs \<Rightarrow> bytes \<Rightarrow> u32 \<Rightarrow> 'f option" where
  "mg_fs_open alloc fs path flags = (if alloc then fs_op fs path flags else None)"

subsection \<open>Sequential files\<close>

text \<open>
  What a client relies on: an open file is a position in a fixed text, a read delivers the
  next bytes, short only at the end, and a seek goes to the asked position or the end.
\<close>

locale sequential_file =
  fixes rd :: "'f \<Rightarrow> nat \<Rightarrow> bytes \<times> 'f" and sk :: "'f \<Rightarrow> nat \<Rightarrow> nat \<times> 'f"
    and content :: "'f \<Rightarrow> bytes" and pos :: "'f \<Rightarrow> nat" and ok :: "'f \<Rightarrow> bool"
  assumes rd_data: "ok f \<Longrightarrow> fst (rd f n) = take n (drop (pos f) (content f))"
    and rd_ok: "ok f \<Longrightarrow> ok (snd (rd f n))"
    and rd_pos: "ok f \<Longrightarrow> pos (snd (rd f n)) = pos f + length (fst (rd f n))"
    and rd_content: "ok f \<Longrightarrow> content (snd (rd f n)) = content f"
    and sk_ok: "ok f \<Longrightarrow> ok (snd (sk f n))"
    and sk_pos: "ok f \<Longrightarrow> pos (snd (sk f n)) = min n (length (content f))"
    and sk_content: "ok f \<Longrightarrow> content (snd (sk f n)) = content f"
begin

fun reads :: "'f \<Rightarrow> nat list \<Rightarrow> bytes \<times> 'f" where
  "reads f [] = ([], f)"
| "reads f (n # ns) = (let (b, f') = rd f n; (bs, f'') = reads f' ns in (b @ bs, f''))"

lemma reads_prefix:
  assumes "ok f"
  shows "fst (reads f ns) = take (sum_list ns) (drop (pos f) (content f)) \<and> ok (snd (reads f ns))"
  using assms
proof (induction ns arbitrary: f)
  case (Cons n ns)
  let ?f' = "snd (rd f n)"
  have IH: "fst (reads ?f' ns) = take (sum_list ns) (drop (pos ?f') (content ?f'))" "ok (snd (reads ?f' ns))"
    using Cons.IH [OF rd_ok [OF Cons.prems]] by auto
  have "drop (pos ?f') (content ?f') = drop (length (take n (drop (pos f) (content f)))) (drop (pos f) (content f))"
    by (simp add: rd_pos rd_content rd_data Cons.prems add.commute)
  then have "fst (reads ?f' ns) = take (sum_list ns) (drop n (drop (pos f) (content f)))"
    using IH(1) by (cases "n \<le> length (drop (pos f) (content f))") (auto simp: min_def)
  then show ?case
    using IH(2) Cons.prems
    by (simp add: case_prod_unfold Let_def rd_data take_add)
qed simp

end

definition packed_ok :: "packed_file \<Rightarrow> bool" where
  "packed_ok f \<longleftrightarrow> pf_pos f \<le> pf_size f \<and> pf_size f \<le> length (pf_data f)"

definition packed_content :: "packed_file \<Rightarrow> bytes" where
  "packed_content f = take (pf_size f) (pf_data f)"

interpretation packed: sequential_file packed_read packed_seek packed_content pf_pos packed_ok
proof
  fix f n
  assume ok: "packed_ok f"
  have n: "(if pf_pos f + n > pf_size f then pf_size f - pf_pos f else n) = min n (pf_size f - pf_pos f)"
    by auto
  show "fst (packed_read f n) = take n (drop (pf_pos f) (packed_content f))"
    unfolding packed_read_def Let_def n by (simp add: packed_content_def drop_take take_take min.commute)
  show "packed_ok (snd (packed_read f n))" "pf_pos (snd (packed_read f n)) = pf_pos f + length (fst (packed_read f n))"
    "packed_content (snd (packed_read f n)) = packed_content f"
    using ok unfolding packed_read_def Let_def n by (auto simp: packed_ok_def packed_content_def)
  show "packed_ok (snd (packed_seek f n))" "pf_pos (snd (packed_seek f n)) = min n (length (packed_content f))"
    "packed_content (snd (packed_seek f n)) = packed_content f"
    using ok by (auto simp: packed_seek_def packed_ok_def packed_content_def Let_def)
qed

end
