(* ===== verification/Mg_Json_Iter.thy ===== *)
theory Mg_Json_Iter
  imports Mg_Json
begin

text \<open>
  Walking over the elements of a JSON array or object (\<open>mg_json_next\<close> of \<open>mongoose/mongoose.c\<close>) and
  reading a string of hexadecimal digits (\<open>mg_json_get_hex\<close>). Slices of the text are their offset and
  length.
\<close>

type_synonym slice = "nat \<times> nat"

definition dollar :: bytes where
  "dollar = lit ''$''"

text \<open>The slices written through \<open>key\<close> and \<open>val\<close> are optional: \<^term>\<open>None\<close> where the function does not
  write; the null slice of an array element is \<^term>\<open>Some None\<close>.\<close>

type_synonym next_result = "nat \<times> slice option option \<times> slice option"

definition next_element :: "bytes \<Rightarrow> nat \<Rightarrow> next_result option" where
  "next_element obj p = do {
     (o', n) \<leftarrow> mg_json_get (drop p obj) dollar;
     Some (if o' < 0 \<or> length (drop p obj) < nat o' + n then (0, None, None)
           else (p + nat o' + n, Some None, Some (p + nat o', n))) }"

definition behind_colon :: "bytes \<Rightarrow> nat \<Rightarrow> nat" where
  "behind_colon obj q =
     (let c = q + length (takeWhile (\<lambda>x. x \<noteq> c8 CHR '':'') (drop q obj))
      in if c < length obj then c + 1 else c)"

definition next_pair :: "bytes \<Rightarrow> nat \<Rightarrow> next_result option" where
  "next_pair obj p = do {
     (o', n) \<leftarrow> mg_json_get (drop p obj) dollar;
     if o' < 0 \<or> length (drop p obj) < nat o' + n then Some (0, None, None)
     else do {
       let key = Some (Some (p + nat o', n));
       let v = behind_colon obj (p + nat o' + n);
       (o2, n2) \<leftarrow> mg_json_get (drop v obj) dollar;
       Some (if o2 < 0 \<or> length (drop v obj) < nat o2 + n2 then (0, key, None)
             else (v + nat o2 + n2, key, Some (v + nat o2, n2))) } }"

text \<open>The white space behind the element, and a comma.\<close>

definition skip_comma :: "bytes \<Rightarrow> nat \<Rightarrow> nat" where
  "skip_comma obj ofs =
     (if ofs = 0 then 0
      else let e = ofs + length (takeWhile json_ws (drop ofs obj));
               e1 = (if e < length obj \<and> obj ! e = c8 CHR '','' then e + 1 else e)
           in if length obj < e1 then 0 else e1)"

definition mg_json_next :: "bytes \<Rightarrow> nat \<Rightarrow> next_result option" where
  "mg_json_next obj ofs =
     (if length obj \<le> ofs then Some (0, None, None)
      else if length obj < 2 \<or> (obj ! 0 \<noteq> c8 CHR ''{'' \<and> obj ! 0 \<noteq> c8 CHR ''['') then Some (0, None, None)
      else do {
        let p = (if ofs = 0 then 1 else ofs);
        (r, key, val) \<leftarrow> (if obj ! 0 = c8 CHR ''['' then next_element obj p else next_pair obj p);
        Some (skip_comma obj r, key, val) })"

text \<open>Each pair of digits becomes a byte; what is not a number leaves the byte zero. The byte at the
  end is the terminator.\<close>

fun hex_loop :: "bytes \<Rightarrow> nat \<Rightarrow> nat \<Rightarrow> nat \<Rightarrow> bytes \<Rightarrow> bytes option" where
  "hex_loop json base 0 i out = Some out"
| "hex_loop json base (Suc k) i out = do {
     a \<leftarrow> aget json (base + 2 * i);
     b \<leftarrow> aget json (base + 2 * i + 1);
     out' \<leftarrow> (case mg_str_to_num [a, b] 16 1 of None \<Rightarrow> Some out | Some v \<Rightarrow> aput out i (ucast v));
     hex_loop json base k (i + 1) out' }"

definition mg_json_get_hex :: "(nat \<Rightarrow> bool) \<Rightarrow> bytes \<Rightarrow> bytes \<Rightarrow> (bytes \<times> nat) option option" where
  "mg_json_get_hex alloc json path = do {
     (off, len) \<leftarrow> mg_json_get json path;
     if off \<ge> 0 then do {
       c \<leftarrow> aget json (nat off);
       if c = dquote \<and> len > 1 \<and> alloc (len div 2) then do {
         out \<leftarrow> hex_loop json (nat off + 1) ((len - 1) div 2) 0 (replicate (len div 2) 0);
         out' \<leftarrow> aput out (len div 2 - 1) 0;
         Some (Some (out', len div 2 - 1)) }
       else Some None }
     else Some None }"

subsection \<open>Every call is safe and makes progress\<close>

definition slice_in :: "bytes \<Rightarrow> slice \<Rightarrow> bool" where
  "slice_in obj s \<longleftrightarrow> 0 < snd s \<and> fst s + snd s \<le> length obj"

definition slices_in :: "bytes \<Rightarrow> slice option option \<Rightarrow> slice option \<Rightarrow> bool" where
  "slices_in obj key val \<longleftrightarrow> (\<forall>s. key = Some (Some s) \<longrightarrow> slice_in obj s) \<and> (\<forall>s. val = Some s \<longrightarrow> slice_in obj s)"

lemma get_dollar:
  "\<exists>r n. mg_json_get json dollar = Some (r, n) \<and> (r < 0 \<or> (0 < n \<and> nat r + n \<le> length json))"
  using mg_json_get_in_bounds [of "cstr ''$''" json] by (simp add: dollar_def lit_def)

lemma next_element_ok:
  assumes "p < length obj"
  shows "\<exists>r k v. next_element obj p = Some (r, k, v) \<and> slices_in obj k v \<and> (r = 0 \<or> p < r \<and> r \<le> length obj)"
proof -
  obtain r n where g: "mg_json_get (drop p obj) dollar = Some (r, n)" "r < 0 \<or> (0 < n \<and> nat r + n \<le> length (drop p obj))"
    using get_dollar by blast
  then show ?thesis using assms by (auto simp: next_element_def slices_in_def slice_in_def)
qed

lemma behind_colon_ok: "q \<le> length obj \<Longrightarrow> q \<le> behind_colon obj q \<and> behind_colon obj q \<le> length obj"
  using length_takeWhile_le [of "\<lambda>x. x \<noteq> c8 CHR '':''" "drop q obj"] by (auto simp: behind_colon_def Let_def)

lemma next_pair_ok:
  assumes "p < length obj"
  shows "\<exists>r k v. next_pair obj p = Some (r, k, v) \<and> slices_in obj k v \<and> (r = 0 \<or> p < r \<and> r \<le> length obj)"
proof -
  obtain r n where g: "mg_json_get (drop p obj) dollar = Some (r, n)" "r < 0 \<or> (0 < n \<and> nat r + n \<le> length (drop p obj))"
    using get_dollar by blast
  define v where "v = behind_colon obj (p + nat r + n)"
  obtain r2 n2 where g2: "mg_json_get (drop v obj) dollar = Some (r2, n2)" "r2 < 0 \<or> (0 < n2 \<and> nat r2 + n2 \<le> length (drop v obj))"
    using get_dollar by blast
  show ?thesis
  proof (cases "r < 0")
    case True
    then show ?thesis using g(1) by (simp add: next_pair_def slices_in_def)
  next
    case False
    then have q: "p < p + nat r + n" "p + nat r + n \<le> length obj" using g(2) assms by auto
    then have "p + nat r + n \<le> v" "v \<le> length obj" using behind_colon_ok [OF q(2)] by (simp_all add: v_def)
    then show ?thesis
      using False g g2 q unfolding next_pair_def
      by (cases "r2 < 0") (auto simp: Let_def slices_in_def slice_in_def simp flip: v_def)
  qed
qed

lemma skip_comma_ok: "r = 0 \<or> p < r \<and> r \<le> length obj \<Longrightarrow> skip_comma obj r = 0 \<or> p < skip_comma obj r \<and> skip_comma obj r \<le> length obj"
  by (auto simp: skip_comma_def Let_def)

lemma mg_json_next_ok:
  "\<exists>r k v. mg_json_next obj ofs = Some (r, k, v) \<and> slices_in obj k v \<and> (r = 0 \<or> ofs < r \<and> r \<le> length obj)"
proof (cases "length obj \<le> ofs \<or> length obj < 2 \<or> (obj ! 0 \<noteq> c8 CHR ''{'' \<and> obj ! 0 \<noteq> c8 CHR ''['')")
  case True
  then show ?thesis by (auto simp: mg_json_next_def slices_in_def)
next
  case False
  define p where "p = (if ofs = 0 then 1 else ofs)"
  have p: "p < length obj" "ofs \<le> p" using False by (auto simp: p_def)
  obtain r k v where r: "(if obj ! 0 = c8 CHR ''['' then next_element obj p else next_pair obj p) = Some (r, k, v)"
      "slices_in obj k v" "r = 0 \<or> p < r \<and> r \<le> length obj"
    using next_element_ok [OF p(1)] next_pair_ok [OF p(1)] by metis
  have "mg_json_next obj ofs = Some (skip_comma obj r, k, v)"
    using False r(1) unfolding mg_json_next_def Let_def p_def [symmetric] by (simp only: if_False de_Morgan_disj simp_thms bind.bind_lunit prod.case)
  then show ?thesis using r(2) skip_comma_ok [OF r(3)] p(2) by auto
qed

subsection \<open>The loop over all elements\<close>

text \<open>The results of \<open>while ((ofs = mg_json_next(obj, ofs, &key, &val)) > 0)\<close>.\<close>

function json_pairs :: "bytes \<Rightarrow> nat \<Rightarrow> (slice option option \<times> slice option) list" where
  "json_pairs obj ofs =
     (case mg_json_next obj ofs of
        Some (r, key, val) \<Rightarrow> if 0 < r then (key, val) # json_pairs obj r else []
      | None \<Rightarrow> [])"
  by pat_completeness auto
termination
proof (relation "measure (\<lambda>(obj, ofs). length obj - ofs)")
  fix obj ofs x r y key val
  assume "mg_json_next obj ofs = Some x" "(r, y) = x" "(key, val) = y" "0 < r"
  then show "((obj, r), (obj, ofs)) \<in> measure (\<lambda>(obj, ofs). length obj - ofs)"
    using mg_json_next_ok [of obj ofs] by auto
qed simp

declare json_pairs.simps [simp del]

text \<open>The scanner on a text that begins with a scalar.\<close>

lemma get_scalar:
  assumes "jscalar_ok v" and "jdelim c"
  shows "mg_json_get (jtext v @ c # r) dollar = Some (0, length (jtext v))"
proof -
  let ?st = "\<lparr>js_exp = S_VALUE, js_i = 0, js_j = 0, js_nest = [], js_ed = 0, js_pos = 1, js_ci = -1, js_ei = -1\<rparr>"
  have ne: "0 < length (jtext v)" using assms(1) by (cases v) auto
  have "jstep (jtext v @ c # r) dollar ?st = value_end dollar ((set_start ?st)\<lparr>js_i := length (jtext v) - 1\<rparr>)"
    using step_scalar [OF assms, of ?st "jtext v @ c # r" r dollar] by simp
  also have "\<dots> = Some (JRet 0 (length (jtext v)))"
    using ne by (simp add: value_end_def MG_CHECKRET_def set_start_def dollar_def lit_def aget_def)
  finally have "json_loop (jtext v @ c # r) dollar ?st = Some (0, length (jtext v))"
    using ne by (intro json_loop_ret) simp_all
  then show ?thesis by (simp add: mg_json_get_def dollar_def lit_def aget_def)
qed

lemma get_key:
  assumes "plain_text k"
  shows "mg_json_get (dquote # k @ dquote # r) dollar = Some (0, length k + 2)"
proof -
  let ?s = "dquote # k @ dquote # r"
  let ?st = "\<lparr>js_exp = S_VALUE, js_i = 0, js_j = 0, js_nest = [], js_ed = 0, js_pos = 1, js_ci = -1, js_ei = -1\<rparr>"
  have "jstep ?s dollar ?st = Some (JRet 0 (length k + 2))"
    using plain_pass_string [OF assms, of r]
    by (simp add: jstep_def step_value_def Let_def json_ws_def jdigit_def value_end_def MG_CHECKRET_def dollar_def lit_def aget_def)
  then have "json_loop ?s dollar ?st = Some (0, length k + 2)" by (intro json_loop_ret) simp_all
  then show ?thesis by (simp add: mg_json_get_def dollar_def lit_def aget_def)
qed

text \<open>One member of an object, with what follows it.\<close>

lemma next_member:
  assumes o': "obj ! 0 = c8 CHR ''{''" and ofs: "p = (if ofs = 0 then 1 else ofs)"
    and d: "drop p obj = jmember (k, v) @ c # r" and ok: "plain_text k" "jscalar_ok v" "jdelim c"
  shows "mg_json_next obj ofs = Some (p + length (jmember (k, v)) + (if c = c8 CHR '','' then 1 else 0),
     Some (Some (p, length k + 2)), Some (p + length k + 3, length (jtext v)))"
proof -
  let ?e = "p + length (jmember (k, v))"
  have len: "length obj = ?e + 1 + length r" using arg_cong [OF d, of length] by simp
  have d1: "drop (p + (length k + 2)) obj = c8 CHR '':'' # jtext v @ c # r"
    using arg_cong [OF d, of "drop (length k + 2)"] by (simp add: add.commute)
  have d2: "drop (p + length k + 3) obj = jtext v @ c # r"
    using arg_cong [OF d1, of "drop 1"] by (simp add: add.commute numeral_eq_Suc)
  have d3: "drop ?e obj = c # r" using arg_cong [OF d, of "drop (length (jmember (k, v)))"] by (simp add: add.commute)
  then have e: "?e < length obj" "obj ! ?e = c" using len by (auto dest: drop_hd)
  have b: "behind_colon obj (p + (length k + 2)) = p + length k + 3" using d1 len by (simp add: behind_colon_def)
  have g1: "mg_json_get (drop p obj) dollar = Some (0, length k + 2)" using get_key [OF ok(1)] d by simp
  have g2: "mg_json_get (drop (p + length k + 3) obj) dollar = Some (0, length (jtext v))" using get_scalar [OF ok(2,3)] d2 by simp
  have n: "next_pair obj p = Some (?e, Some (Some (p, length k + 2)), Some (p + length k + 3, length (jtext v)))"
    unfolding next_pair_def g1 using g2 len b by (simp add: Let_def)
  have "\<not> json_ws c" using ok(3) by (auto simp: jdelim_def json_ws_def)
  then have sk: "skip_comma obj ?e = ?e + (if c = c8 CHR '','' then 1 else 0)"
    using d3 e by (simp add: skip_comma_def Let_def)
  have "1 \<le> p" "ofs < length obj" "\<not> length obj < 2" using ofs len by auto
  then show ?thesis
    using n sk o' ofs unfolding mg_json_next_def Let_def by simp
qed

lemma drop_member: "drop p obj = jmember kv @ c # r \<Longrightarrow> drop (p + length (jmember kv) + 1) obj = r"
  by (drule drop_shift, drule drop_hd) simp

text \<open>The members from offset \<open>p\<close> on.\<close>

fun member_slices :: "nat \<Rightarrow> (bytes \<times> jscalar) list \<Rightarrow> (slice option option \<times> slice option) list" where
  "member_slices p [] = []"
| "member_slices p ((k, v) # kvs) =
     (Some (Some (p, length k + 2)), Some (p + length k + 3, length (jtext v))) # member_slices (p + length (jmember (k, v)) + 1) kvs"

lemma next_at_end:
  assumes "obj ! 0 = c8 CHR ''{''" and "drop p obj = [c8 CHR ''}'']" and "p = (if ofs = 0 then 1 else ofs)"
  shows "\<exists>k v. mg_json_next obj ofs = Some (0, k, v)"
proof -
  have "mg_json_get [c8 CHR ''}''] dollar = Some (MG_JSON_INVALID, 0)" by code_simp
  then have "next_pair obj p = Some (0, None, None)" using assms(2) by (simp add: next_pair_def)
  then show ?thesis using assms(1,3) by (auto simp: mg_json_next_def Let_def skip_comma_def)
qed

lemma pairs_members:
  assumes "obj ! 0 = c8 CHR ''{''" and "members_ok kvs" and "p = (if ofs = 0 then 1 else ofs)"
    and "drop p obj = jmembers kvs @ [c8 CHR ''}'']"
  shows "json_pairs obj ofs = member_slices p kvs"
  using assms(2-4)
proof (induction kvs arbitrary: p ofs rule: jmembers.induct)
  case 1
  then show ?case using next_at_end [OF assms(1), of p ofs] by (subst json_pairs.simps) auto
next
  case (2 kv)
  obtain k v where kv: "kv = (k, v)" by (cases kv)
  have d: "drop p obj = jmember (k, v) @ c8 CHR ''}'' # []" using 2(3) kv by simp
  have ok: "plain_text k" "jscalar_ok v" using 2(1) kv by (auto simp: members_ok_def)
  let ?q = "p + length (jmember (k, v))"
  have "drop ?q obj = [c8 CHR ''}'']" using arg_cong [OF d, of "drop (length (jmember (k, v)))"] by (simp add: add.commute)
  then obtain k' v' where "mg_json_next obj ?q = Some (0, k', v')" using next_at_end [OF assms(1), of ?q ?q] by auto
  then have "json_pairs obj ?q = []" by (subst json_pairs.simps) simp
  moreover have "mg_json_next obj ofs = Some (?q, Some (Some (p, length k + 2)), Some (p + length k + 3, length (jtext v)))"
    using next_member [OF assms(1) 2(2) d ok] by (simp add: jdelim_def)
  ultimately show ?case by (subst json_pairs.simps) (simp add: kv)
next
  case (3 kv kv' kvs)
  obtain k v where kv: "kv = (k, v)" by (cases kv)
  have d: "drop p obj = jmember (k, v) @ c8 CHR '','' # jmembers (kv' # kvs) @ [c8 CHR ''}'']" using 3(4) kv by simp
  have ok: "plain_text k" "jscalar_ok v" "members_ok (kv' # kvs)" using 3(2) kv by (auto simp: members_ok_def)
  let ?q = "p + length (jmember (k, v)) + 1"
  have "drop ?q obj = jmembers (kv' # kvs) @ [c8 CHR ''}'']" by (rule drop_member [OF d])
  then have "json_pairs obj ?q = member_slices ?q (kv' # kvs)" using 3(1) [OF ok(3), of ?q ?q] by simp
  moreover have "mg_json_next obj ofs = Some (?q, Some (Some (p, length k + 2)), Some (p + length k + 3, length (jtext v)))"
    using next_member [OF assms(1) 3(3) d ok(1,2)] by (simp add: jdelim_def)
  ultimately show ?case by (subst json_pairs.simps) (simp add: kv)
qed

text \<open>The text of a slice.\<close>

definition slice_text :: "bytes \<Rightarrow> slice \<Rightarrow> bytes" where
  "slice_text obj s = take (snd s) (drop (fst s) obj)"

lemma member_slices_text:
  assumes "drop p obj = jmembers kvs @ [c8 CHR ''}'']"
  shows "map (\<lambda>(k, v). (map_option (map_option (slice_text obj)) k, map_option (slice_text obj) v)) (member_slices p kvs) =
    map (\<lambda>(k, v). (Some (Some (dquote # k @ [dquote])), Some (jtext v))) kvs"
  using assms
proof (induction kvs arbitrary: p rule: jmembers.induct)
  case (2 kv)
  obtain k v where kv: "kv = (k, v)" by (cases kv)
  have d2: "drop (p + length k + 3) obj = jtext v @ [c8 CHR ''}'']"
    using arg_cong [OF 2, of "drop (length k + 3)"] kv by (simp add: add.commute numeral_eq_Suc)
  show ?case using 2 d2 by (simp add: kv slice_text_def)
next
  case (3 kv kv' kvs)
  obtain k v where kv: "kv = (k, v)" by (cases kv)
  let ?r = "jmembers (kv' # kvs) @ [c8 CHR ''}'']"
  have d2: "drop (p + length k + 3) obj = jtext v @ c8 CHR '','' # ?r"
    using arg_cong [OF 3(2), of "drop (length k + 3)"] kv by (simp add: add.commute numeral_eq_Suc)
  have "drop (p + length (jmember (k, v)) + 1) obj = ?r"
    by (rule drop_member) (use 3(2) kv in simp)
  from 3(1) [OF this] show ?case using 3(2) d2 by (simp add: kv slice_text_def)
qed simp

text \<open>
  Walking over an object. For every text the loop over \<open>mg_json_next\<close> ends, every call returns without
  reading outside of the text and the slices it writes are not empty and inside the text; on the
  text of an object the loop delivers exactly the members, each once and in order.
\<close>

theorem json_pairs_members:
  "\<exists>r k v. mg_json_next obj ofs = Some (r, k, v) \<and> slices_in obj k v \<and> (r = 0 \<or> ofs < r \<and> r \<le> length obj)"
  "members_ok kvs \<Longrightarrow>
    map (\<lambda>(k, v). (map_option (map_option (slice_text (jobject kvs))) k, map_option (slice_text (jobject kvs)) v)) (json_pairs (jobject kvs) 0) =
    map (\<lambda>(k, v). (Some (Some (dquote # k @ [dquote])), Some (jtext v))) kvs"
proof -
  show "\<exists>r k v. mg_json_next obj ofs = Some (r, k, v) \<and> slices_in obj k v \<and> (r = 0 \<or> ofs < r \<and> r \<le> length obj)"
    by (rule mg_json_next_ok)
  assume ok: "members_ok kvs"
  have d: "jobject kvs ! 0 = c8 CHR ''{''" "drop 1 (jobject kvs) = jmembers kvs @ [c8 CHR ''}'']" by (simp_all add: jobject_def)
  show "map (\<lambda>(k, v). (map_option (map_option (slice_text (jobject kvs))) k, map_option (slice_text (jobject kvs)) v)) (json_pairs (jobject kvs) 0) =
    map (\<lambda>(k, v). (Some (Some (dquote # k @ [dquote])), Some (jtext v))) kvs"
    unfolding pairs_members [OF d(1) ok, of 1 0, simplified, OF d(2) [simplified]] using member_slices_text [OF d(2)] by simp
qed

subsection \<open>Hexadecimal strings\<close>

lemma hex_loop_ok:
  "base + 2 * (i + k) \<le> length json \<Longrightarrow> i + k \<le> length out \<Longrightarrow>
   \<exists>out'. hex_loop json base k i out = Some out' \<and> length out' = length out"
proof (induction k arbitrary: i out)
  case (Suc k)
  obtain out1 where "(case mg_str_to_num [json ! (base + 2 * i), json ! (base + 2 * i + 1)] 16 1 of None \<Rightarrow> Some out
      | Some v \<Rightarrow> aput out i (ucast v)) = Some out1" "length out1 = length out"
    using Suc.prems by (cases "mg_str_to_num [json ! (base + 2 * i), json ! (base + 2 * i + 1)] 16 1") (auto simp: aput_def)
  moreover from this obtain out' where "hex_loop json base k (i + 1) out1 = Some out'" "length out' = length out"
    using Suc.IH [of "i + 1" out1] Suc.prems by auto
  ultimately show ?case using Suc.prems by (auto simp: aget_def)
qed simp

text \<open>The getter stays inside the text and the buffer it allocates, whatever the token is, and ends the
  result with a zero byte.\<close>

lemma mg_json_get_hex_safe:
  assumes "nul_free p" "p \<noteq> []"
  shows "\<exists>r. mg_json_get_hex alloc json (p @ [0]) = Some r \<and>
    (case r of None \<Rightarrow> True | Some (out, n) \<Rightarrow> length out = n + 1 \<and> out ! n = 0)"
proof -
  obtain off len where g: "mg_json_get json (p @ [0]) = Some (off, len)" "off < 0 \<or> (0 < len \<and> nat off + len \<le> length json)"
    using mg_json_get_in_bounds [OF assms] by blast
  show ?thesis
  proof (cases "off \<ge> 0 \<and> json ! nat off = dquote \<and> len > 1 \<and> alloc (len div 2)")
    case True
    have "nat off + 1 + 2 * (0 + (len - 1) div 2) \<le> length json" "0 + (len - 1) div 2 \<le> length (replicate (len div 2) (0 :: u8))"
      using g(2) True by auto
    then obtain out where "hex_loop json (nat off + 1) ((len - 1) div 2) 0 (replicate (len div 2) 0) = Some out" "length out = len div 2"
      using hex_loop_ok by fastforce
    then show ?thesis using g True by (auto simp: mg_json_get_hex_def aget_def aput_def)
  next
    case False
    then show ?thesis using g by (auto simp: mg_json_get_hex_def aget_def)
  qed
qed

end
