(* ===== verification/Mg_Http.thy ===== *)
theory Mg_Http
  imports Mg_Str Mg_Base64 Mg_Url
begin

text \<open>
  Parsing HTTP (\<open>mongoose/mongoose.c\<close>, section \<open>http.c\<close>). The text between the current
  position and the end of the request head is a byte list; slices are byte lists and, where
  the code tests for null, options. \<open>size_t\<close> values that can wrap are 32-bit words. When a
  header line is refused the headers before it, which no caller looks at, are left out of the
  message.
  \<^term>\<open>None\<close> as the outermost result is a read behind the text.
\<close>

fun mg_ncasecmp :: "bytes \<Rightarrow> bytes \<Rightarrow> nat \<Rightarrow> int option" where
  "mg_ncasecmp s1 s2 0 = Some 0"
| "mg_ncasecmp (x # s1) (y # s2) (Suc n) =
     (let diff = uint (mg_tolc x) - uint (mg_tolc y)
      in if diff = 0 \<and> x \<noteq> 0 then mg_ncasecmp s1 s2 n else Some diff)"
| "mg_ncasecmp _ _ (Suc n) = None"

definition is_blank :: "u8 \<Rightarrow> bool" where
  "is_blank c \<longleftrightarrow> c = 32 \<or> c = 9"

definition SIZE_MAX :: nat where "SIZE_MAX = 2 ^ 32 - 1"

fun size_digits :: "bytes \<Rightarrow> nat \<Rightarrow> nat \<Rightarrow> (nat \<times> nat \<times> bytes) option" where
  "size_digits [] result nd = Some (result, nd, [])"
| "size_digits (c # cs) result nd =
     (if is_dec c then
        let digit = unat c - 48
        in if result > SIZE_MAX div 10 then None
           else if result * 10 > SIZE_MAX - digit then None
           else size_digits cs (result * 10 + digit) (Suc nd)
      else Some (result, nd, c # cs))"

definition mg_to_size_t :: "bytes \<Rightarrow> nat option" where
  "mg_to_size_t str =
     (let s = dropWhile is_blank str
      in if s \<noteq> [] \<and> hd s = c8 CHR ''-'' then None
         else do {
           (result, nd, rest) \<leftarrow> size_digits s 0 0;
           if nd = 0 then None
           else if dropWhile is_blank rest \<noteq> [] then None
           else Some result })"

subsection \<open>The request head\<close>

definition isok :: "u8 \<Rightarrow> bool" where
  "isok c \<longleftrightarrow> c = 10 \<or> c = 13 \<or> c = 9 \<or> c \<ge> 32"

text \<open>The loop of \<open>mg_http_get_request_len\<close>; \<open>prev\<close> are the bytes before, latest first.\<close>

fun request_len_loop :: "bytes \<Rightarrow> bytes \<Rightarrow> int" where
  "request_len_loop prev [] = 0"
| "request_len_loop prev (c # cs) =
     (if \<not> isok c then -1
      else if c = 10 \<and> (length prev > 0 \<and> hd prev = 10 \<or>
                        length prev > 3 \<and> hd prev = 13 \<and> prev ! 1 = 10)
      then int (length prev) + 1
      else request_len_loop (c # prev) cs)"

definition mg_http_get_request_len :: "bytes \<Rightarrow> int" where
  "mg_http_get_request_len buf = request_len_loop [] buf"

definition vcb :: "u8 \<Rightarrow> bool" where
  "vcb c \<longleftrightarrow> c AND 0xc0 = 0x80"

definition clen :: "bytes \<Rightarrow> nat" where
  "clen u =
     (case u of [] \<Rightarrow> 0
      | c # r \<Rightarrow>
          if c > 32 \<and> c \<le> c8 CHR ''~'' then 1
          else if c AND 0xe0 = 0xc0 \<and> length u > 1 \<and> vcb (u ! 1) then 2
          else if c AND 0xf0 = 0xe0 \<and> length u > 2 \<and> vcb (u ! 1) \<and> vcb (u ! 2) then 3
          else if c AND 0xf8 = 0xf0 \<and> length u > 3 \<and> vcb (u ! 1) \<and> vcb (u ! 2) \<and> vcb (u ! 3) then 4
          else 0)"

text \<open>
  \<open>while (s < end && stop(s) && (n = clen(s, end)) > 0) s += n\<close>: what was passed and what is
  left. \<open>stop\<close> is the colon for header names and nothing for method and URI.
\<close>

function span_clen :: "u8 option \<Rightarrow> bytes \<Rightarrow> bytes \<times> bytes" where
  "span_clen stop s =
     (if s \<noteq> [] \<and> (stop = None \<or> hd s \<noteq> the stop) \<and> clen s > 0
      then let (a, b) = span_clen stop (drop (clen s) s) in (take (clen s) s @ a, b)
      else ([], s))"
  by pat_completeness auto
termination
  by (relation "measure (\<lambda>(stop, s). length s)") auto

declare span_clen.simps [simp del]

text \<open>The slice up to the line end and the text behind it; \<^term>\<open>None\<close> for the null result.\<close>

definition skiptorn :: "bytes \<Rightarrow> (bytes \<times> bytes) option" where
  "skiptorn s =
     (let v = takeWhile (\<lambda>c. c \<noteq> 10 \<and> c \<noteq> 13) s; r = dropWhile (\<lambda>c. c \<noteq> 10 \<and> c \<noteq> 13) s
      in case r of
           [] \<Rightarrow> None
         | c # r1 \<Rightarrow>
             if c = 13 then (case r1 of d # r2 \<Rightarrow> if d = 10 then Some (v, r2) else None | [] \<Rightarrow> None)
             else Some (v, r1))"

definition trim_right :: "bytes \<Rightarrow> bytes" where
  "trim_right v = rev (dropWhile is_blank (rev v))"

text \<open>At most \<open>n\<close> headers; \<^term>\<open>Some None\<close> is the result false.\<close>

fun mg_http_parse_headers :: "nat \<Rightarrow> bytes \<Rightarrow> (bytes \<times> bytes) list option option" where
  "mg_http_parse_headers 0 s = Some (Some [])"
| "mg_http_parse_headers (Suc n) s =
     (case s of
        [] \<Rightarrow> Some None
      | c # r \<Rightarrow>
          if c = 10 then Some (Some [])
          else if c = 13 \<and> r = [] then None
          else if c = 13 \<and> hd r = 10 then Some (Some [])
          else
            let (k, s1) = span_clen (Some (c8 CHR '':'')) s
            in if k = [] then Some None
               else if s1 = [] \<or> clen s1 = 0 then Some None
               else if hd s1 \<noteq> c8 CHR '':'' then Some None
               else
                 case skiptorn (dropWhile is_blank (tl s1)) of
                   None \<Rightarrow> Some None
                 | Some (v, s2) \<Rightarrow> do {
                     hs \<leftarrow> mg_http_parse_headers n s2;
                     Some (map_option ((#) (k, trim_right v)) hs) })"

text \<open>
  The parsed message. \<open>hm_head_len\<close> is the length of the head, behind which the body starts;
  \<open>hm_query\<close> is \<^term>\<open>None\<close> when the URI has no question mark.
\<close>

record http_message =
  hm_method :: bytes
  hm_uri :: bytes
  hm_query :: "bytes option"
  hm_proto :: bytes
  hm_headers :: "(bytes \<times> bytes) list"
  hm_head_len :: nat
  hm_body_len :: u32
  hm_message_len :: u32

definition MG_MAX_HTTP_HEADERS :: nat where "MG_MAX_HTTP_HEADERS = 30"

definition name_eq :: "bytes \<Rightarrow> bytes \<Rightarrow> bool" where
  "name_eq k name \<longleftrightarrow> length name = length k \<and> mg_ncasecmp k (name @ [0]) (length name) = Some 0"

fun find_header :: "bytes \<Rightarrow> (bytes \<times> bytes) list \<Rightarrow> bytes option" where
  "find_header name [] = None"
| "find_header name ((k, v) # hs) = (if name_eq k name then Some v else find_header name hs)"

definition mg_http_get_header :: "http_message \<Rightarrow> string \<Rightarrow> bytes option" where
  "mg_http_get_header h name = find_header (cstr name) (hm_headers h)"

definition http_prefix :: "bytes \<Rightarrow> bool" where
  "http_prefix s \<longleftrightarrow> length s > 5 \<and> mg_ncasecmp s (lit ''HTTP/'') 5 = Some 0"

definition bad_version :: "bytes \<Rightarrow> bool" where
  "bad_version proto \<longleftrightarrow>
     \<not> http_prefix proto \<or> length proto \<noteq> 8 \<or> \<not> is_dec (proto ! 5) \<or> proto ! 6 \<noteq> c8 CHR ''.'' \<or> \<not> is_dec (proto ! 7)"

definition empty_message :: http_message where
  "empty_message = \<lparr>hm_method = [], hm_uri = [], hm_query = None, hm_proto = [], hm_headers = [],
     hm_head_len = 0, hm_body_len = 0, hm_message_len = 0\<rparr>"

text \<open>The body length of a message without \<open>Content-Length\<close>; \<^term>\<open>- 1\<close> stands for until close.\<close>

definition default_lengths :: "bool \<Rightarrow> u32 \<Rightarrow> http_message \<Rightarrow> http_message" where
  "default_lengths is_response req_len hm =
     (let hm1 = (if hm_body_len hm = -1 \<and> \<not> is_response \<and>
                    mg_strcasecmp (hm_method hm) (cstr ''PUT'') \<noteq> 0 \<and>
                    mg_strcasecmp (hm_method hm) (cstr ''POST'') \<noteq> 0
                 then hm\<lparr>hm_body_len := 0, hm_message_len := req_len\<rparr> else hm)
      in if hm_body_len hm1 = -1 \<and> is_response \<and> mg_strcasecmp (hm_uri hm1) (cstr ''204'') = 0
         then hm1\<lparr>hm_body_len := 0, hm_message_len := req_len\<rparr> else hm1)"

definition split_query :: "bytes \<Rightarrow> bytes \<times> bytes option" where
  "split_query uri =
     (case dropWhile (\<lambda>c. c \<noteq> c8 CHR ''?'') uri of
        [] \<Rightarrow> (uri, None)
      | _ # q \<Rightarrow> (takeWhile (\<lambda>c. c \<noteq> c8 CHR ''?'') uri, Some q))"

definition mg_http_parse :: "bytes \<Rightarrow> (int \<times> http_message) option" where
  "mg_http_parse buf =
     (let req_len = mg_http_get_request_len buf
      in if req_len \<le> 0 then Some (req_len, empty_message)
         else
           let s = take (nat req_len) buf;
               (method, s1) = span_clen None s;
               s2 = dropWhile (\<lambda>c. c = 32) s1;
               (uri0, s3) = span_clen None s2;
               s4 = dropWhile (\<lambda>c. c = 32) s3;
               is_response = http_prefix method;
               hm0 = empty_message\<lparr>hm_method := method, hm_uri := uri0, hm_head_len := nat req_len,
                       hm_body_len := -1, hm_message_len := -1\<rparr>
           in case skiptorn s4 of
                None \<Rightarrow> Some (0, hm0\<lparr>hm_proto := takeWhile (\<lambda>c. c \<noteq> 10 \<and> c \<noteq> 13) s4\<rparr>)
              | Some (proto, s5) \<Rightarrow>
                  let hm1 = hm0\<lparr>hm_proto := proto\<rparr>
                  in if \<not> is_response \<and> proto \<noteq> [] \<and> bad_version proto then Some (-1, hm1)
                     else
                       let (uri, query) = split_query uri0;
                           hm2 = hm1\<lparr>hm_uri := uri, hm_query := query\<rparr>
                       in if method = [] \<or> uri = [] then Some (-1, hm2)
                          else do {
                            hs \<leftarrow> mg_http_parse_headers MG_MAX_HTTP_HEADERS s5;
                            case hs of
                              None \<Rightarrow> Some (-1, hm2)
                            | Some headers \<Rightarrow>
                                let hm3 = hm2\<lparr>hm_headers := headers\<rparr>
                                in (case mg_http_get_header hm3 ''Content-Length'' of
                                      None \<Rightarrow> Some (True, hm3)
                                    | Some cl \<Rightarrow>
                                        (case mg_to_size_t cl of
                                           None \<Rightarrow> Some (False, hm3)
                                         | Some n \<Rightarrow> Some (True, hm3\<lparr>hm_body_len := of_nat n,
                                             hm_message_len := of_int req_len + of_nat n\<rparr>)))
                                   \<bind> (\<lambda>(ok, hm4).
                                     if \<not> ok then Some (-1, hm4)
                                     else let hm5 = default_lengths is_response (of_int req_len) hm4
                                          in Some (if hm_message_len hm5 < of_int req_len then -1 else req_len, hm5)) })"


subsection \<open>Parsing what a client prints\<close>

definition graph :: "u8 \<Rightarrow> bool" where
  "graph c \<longleftrightarrow> 32 < c \<and> c \<le> c8 CHR ''~''"

definition token :: "bytes \<Rightarrow> bool" where
  "token s \<longleftrightarrow> list_all graph s"

lemma token_simps [simp]: "token []" "token (c # s) \<longleftrightarrow> graph c \<and> token s" "token (s @ t) \<longleftrightarrow> token s \<and> token t"
  by (auto simp: token_def)

lemma graph_facts: "graph c \<Longrightarrow> isok c \<and> c \<noteq> 10 \<and> c \<noteq> 13 \<and> c \<noteq> 32 \<and> c \<noteq> 9"
proof -
  assume "graph c"
  then have "32 < unat c" by (auto simp: graph_def word_less_nat_alt)
  then show ?thesis by (auto simp: isok_def word_le_nat_alt)
qed

lemma clen_graph [simp]: "graph c \<Longrightarrow> clen (c # r) = 1"
  by (simp add: clen_def graph_def)

lemma clen_32 [simp]: "clen (32 # r) = 0" and clen_13 [simp]: "clen (13 # r) = 0" and clen_10 [simp]: "clen (10 # r) = 0"
  by (simp_all add: clen_def vcb_def)

lemma span_token:
  assumes "token s" "case stop of None \<Rightarrow> True | Some c \<Rightarrow> c \<notin> set s" "r = [] \<or> clen r = 0 \<or> stop = Some (hd r)"
  shows "span_clen stop (s @ r) = (s, r)"
  using assms
proof (induction s)
  case Nil
  then show ?case by (subst span_clen.simps) auto
next
  case (Cons c s)
  then have IH: "span_clen stop (s @ r) = (s, r)" and c: "graph c" by (auto split: option.splits)
  have "stop = None \<or> c \<noteq> the stop" using Cons.prems(2) by (auto split: option.splits)
  then show ?case using IH c by (subst span_clen.simps) auto
qed

definition field_value :: "bytes \<Rightarrow> bool" where
  "field_value v \<longleftrightarrow> list_all (\<lambda>c. isok c \<and> c \<noteq> 10 \<and> c \<noteq> 13) v \<and>
     (v \<noteq> [] \<longrightarrow> \<not> is_blank (hd v) \<and> \<not> is_blank (last v))"

lemma dropWhile_hd: "v = [] \<or> \<not> P (hd v) \<Longrightarrow> dropWhile P v = v"
  by (cases v) auto

lemma trim_right_value: "field_value v \<Longrightarrow> trim_right v = v"
  unfolding trim_right_def by (subst dropWhile_hd) (auto simp: field_value_def hd_rev)

lemma skiptorn_line:
  "list_all (\<lambda>c. c \<noteq> 10 \<and> c \<noteq> 13) v \<Longrightarrow> skiptorn (v @ 13 # 10 # r) = Some (v, r)"
proof -
  assume "list_all (\<lambda>c. c \<noteq> 10 \<and> c \<noteq> 13) v"
  then have "takeWhile (\<lambda>c. c \<noteq> 10 \<and> c \<noteq> 13) (v @ 13 # 10 # r) = v"
    "dropWhile (\<lambda>c. c \<noteq> 10 \<and> c \<noteq> 13) (v @ 13 # 10 # r) = 13 # 10 # r"
    by (induction v) auto
  then show ?thesis by (simp add: skiptorn_def)
qed

lemma value_blank: "field_value v \<Longrightarrow> dropWhile is_blank (32 # v @ 13 # r) = v @ 13 # r"
  by (cases v) (auto simp: field_value_def is_blank_def)

text \<open>A header line and the text of a request.\<close>

fun header_line :: "bytes \<times> bytes \<Rightarrow> bytes" where
  "header_line (k, v) = k @ cstr '': '' @ v @ [13, 10]"

definition header_ok :: "bytes \<times> bytes \<Rightarrow> bool" where
  "header_ok kv \<longleftrightarrow> fst kv \<noteq> [] \<and> token (fst kv) \<and> c8 CHR '':'' \<notin> set (fst kv) \<and> field_value (snd kv)"

lemma parse_header_lines:
  assumes "list_all header_ok hs" "length hs \<le> n"
  shows "mg_http_parse_headers n (concat (map header_line hs) @ 13 # 10 # r) = Some (Some hs)"
  using assms
proof (induction hs arbitrary: n)
  case Nil
  then show ?case by (cases n) auto
next
  case (Cons kv hs)
  obtain m where n: "n = Suc m" using Cons.prems(2) by (cases n) auto
  obtain k v where kv: "kv = (k, v)" by fastforce
  let ?rest = "concat (map header_line hs) @ 13 # 10 # r"
  obtain c k' where k: "k = c # k'" "graph c" using Cons.prems(1) kv by (cases k) (auto simp: header_ok_def)
  have fv: "field_value v" and tok: "token k" "c8 CHR '':'' \<notin> set k"
    using Cons.prems(1) kv by (auto simp: header_ok_def)
  have span: "span_clen (Some (c8 CHR '':'')) (k @ c8 CHR '':'' # 32 # v @ 13 # 10 # ?rest) =
      (k, c8 CHR '':'' # 32 # v @ 13 # 10 # ?rest)"
    using tok by (intro span_token) auto
  have line: "skiptorn (dropWhile is_blank (32 # v @ 13 # 10 # ?rest)) = Some (v, ?rest)"
    unfolding value_blank [OF fv] using fv by (intro skiptorn_line) (auto simp: field_value_def list_all_iff)
  have colon: "clen (c8 CHR '':'' # 32 # v @ 13 # 10 # ?rest) \<noteq> 0" by (simp add: clen_def)
  have IH: "mg_http_parse_headers m ?rest = Some (Some hs)" using Cons n by simp
  have lines: "concat (map header_line (kv # hs)) @ 13 # 10 # r = k @ c8 CHR '':'' # 32 # v @ 13 # 10 # ?rest"
    using kv by simp
  show ?case
    unfolding n lines mg_http_parse_headers.simps(2)
    using k span line colon IH graph_facts [OF k(2)] trim_right_value [OF fv] kv
    by (simp add: Let_def)
qed


lemma request_len_skip:
  "list_all (\<lambda>c. isok c \<and> c \<noteq> 10) l \<Longrightarrow> request_len_loop prev (l @ r) = request_len_loop (rev l @ prev) r"
  by (induction l arbitrary: prev) auto

lemma isok_crlf [simp]: "isok 13" "isok 10"
  by (simp_all add: isok_def)

lemma request_len_line:
  assumes "list_all (\<lambda>c. isok c \<and> c \<noteq> 10 \<and> c \<noteq> 13) l" "l \<noteq> []"
  shows "request_len_loop prev (l @ 13 # 10 # r) = request_len_loop (10 # 13 # rev l @ prev) r"
proof -
  have "request_len_loop prev (l @ 13 # 10 # r) = request_len_loop (13 # rev l @ prev) (10 # r)"
    using assms(1) by (subst request_len_skip) (auto simp: list_all_iff)
  moreover have "(rev l @ prev) ! 0 \<noteq> 10"
    using assms by (simp add: nth_append rev_nth list_all_iff)
  ultimately show ?thesis by simp
qed

definition line_ok :: "bytes \<Rightarrow> bool" where
  "line_ok l \<longleftrightarrow> l \<noteq> [] \<and> list_all (\<lambda>c. isok c \<and> c \<noteq> 10 \<and> c \<noteq> 13) l"

lemma request_len_lines:
  "list_all line_ok ls \<Longrightarrow>
   request_len_loop prev (concat (map (\<lambda>l. l @ [13, 10]) ls) @ r) =
   request_len_loop (rev (concat (map (\<lambda>l. l @ [13, 10]) ls)) @ prev) r"
  by (induction ls arbitrary: prev) (auto simp: request_len_line line_ok_def)

lemma request_len_text:
  assumes "list_all line_ok ls" "ls \<noteq> []"
  shows "mg_http_get_request_len (concat (map (\<lambda>l. l @ [13, 10]) ls) @ 13 # 10 # r) =
    int (length (concat (map (\<lambda>l. l @ [13, 10]) ls))) + 2"
proof -
  let ?t = "concat (map (\<lambda>l. l @ [13, 10]) ls)"
  obtain l ls' where ls: "ls = ls' @ [l]" using assms(2) by (metis rev_exhaust)
  then have "l \<noteq> []" using assms(1) by (simp add: line_ok_def)
  then obtain q where q: "rev ?t = 10 # 13 # q" "q \<noteq> []" using ls by simp
  have "length ?t = length (10 # 13 # q)" using q(1) by (metis length_rev)
  moreover have "length q > 0" using q(2) by simp
  moreover have "request_len_loop [] (?t @ 13 # 10 # r) = request_len_loop (rev ?t) (13 # 10 # r)"
    using request_len_lines [OF assms(1), of "[]"] by simp
  moreover have "length (rev ?t) = length ?t" by simp
  ultimately show ?thesis
    unfolding mg_http_get_request_len_def using q(1) by simp
qed

definition request_line :: "bytes \<Rightarrow> bytes \<Rightarrow> bytes option \<Rightarrow> bytes" where
  "request_line m u q = m @ 32 # u @ (case q of None \<Rightarrow> [] | Some x \<Rightarrow> c8 CHR ''?'' # x) @ cstr '' HTTP/1.1''"

definition request_text :: "bytes \<Rightarrow> bytes \<Rightarrow> bytes option \<Rightarrow> (bytes \<times> bytes) list \<Rightarrow> bytes" where
  "request_text m u q hs = request_line m u q @ [13, 10] @ concat (map header_line hs) @ [13, 10]"

definition request_ok :: "bytes \<Rightarrow> bytes \<Rightarrow> bytes option \<Rightarrow> (bytes \<times> bytes) list \<Rightarrow> bool" where
  "request_ok m u q hs \<longleftrightarrow> m \<noteq> [] \<and> token m \<and> \<not> http_prefix m \<and> u \<noteq> [] \<and> token u \<and> c8 CHR ''?'' \<notin> set u
     \<and> (case q of None \<Rightarrow> True | Some x \<Rightarrow> token x)
     \<and> list_all header_ok hs \<and> length hs \<le> MG_MAX_HTTP_HEADERS"

lemma token_line: "token s \<Longrightarrow> list_all (\<lambda>c. isok c \<and> c \<noteq> 10 \<and> c \<noteq> 13) s"
  by (auto simp: token_def list_all_iff dest: graph_facts)

lemma graph_63 [simp]: "graph 63"
  by (simp add: graph_def)

lemma isok_space [simp]: "isok 32" "isok (c8 CHR ''?'')" "isok (c8 CHR '':'')"
  by (simp_all add: isok_def)

lemma header_line_ok: "header_ok (k, v) \<Longrightarrow> line_ok (k @ 58 # 32 # v)"
  using token_line [of k] by (auto simp: header_ok_def line_ok_def field_value_def isok_def)

lemma request_len_request:
  assumes "request_ok m u q hs"
  shows "mg_http_get_request_len (request_text m u q hs @ r) = int (length (request_text m u q hs))"
proof -
  let ?ls = "request_line m u q # map (\<lambda>(k, v). k @ cstr '': '' @ v) hs"
  have h: "concat (map header_line hs) = concat (map (\<lambda>l. l @ [13, 10]) (map (\<lambda>(k, v). k @ cstr '': '' @ v) hs))"
    by (induction hs) auto
  have "line_ok (request_line m u q)"
    using assms token_line by (cases q) (auto simp: line_ok_def request_line_def request_ok_def isok_def)
  moreover have "list_all line_ok (map (\<lambda>(k, v). k @ cstr '': '' @ v) hs)"
    using assms by (auto simp: request_ok_def list_all_iff header_line_ok)
  ultimately have "list_all line_ok ?ls" by simp
  from request_len_text [OF this, of r] h show ?thesis by (simp add: request_text_def)
qed

lemma span_then_space:
  "token m \<Longrightarrow> span_clen None (m @ 32 # r) = (m, 32 # r)"
  by (rule span_token) auto

lemma no_query [simp]:
  "x \<notin> set u \<Longrightarrow> dropWhile (\<lambda>c. c \<noteq> x) u = []" "x \<notin> set u \<Longrightarrow> takeWhile (\<lambda>c. c \<noteq> x) u = u"
  "x \<notin> set u \<Longrightarrow> dropWhile (\<lambda>c. c \<noteq> x) (u @ x # r) = x # r"
  "x \<notin> set u \<Longrightarrow> takeWhile (\<lambda>c. c \<noteq> x) (u @ x # r) = u"
  by (induction u) auto

lemma split_query_text:
  "c8 CHR ''?'' \<notin> set u \<Longrightarrow> split_query (u @ (case q of None \<Rightarrow> [] | Some x \<Rightarrow> c8 CHR ''?'' # x)) = (u, q)"
  unfolding split_query_def by (cases q) (simp_all only: option.case append_Nil2 no_query list.case simp_thms)

lemma http_version_ok: "\<not> bad_version (cstr ''HTTP/1.1'')"
  by code_simp


text \<open>
  The body length of a request: the value of its \<open>Content-Length\<close>, or else unlimited for
  \<open>PUT\<close> and \<open>POST\<close> and zero for every other method.
\<close>

definition request_body_len :: "bytes \<Rightarrow> (bytes \<times> bytes) list \<Rightarrow> u32" where
  "request_body_len m hs =
     (case find_header (cstr ''Content-Length'') hs of
        Some cl \<Rightarrow> of_nat (the (mg_to_size_t cl))
      | None \<Rightarrow> if map mg_tolc m \<in> {cstr ''put'', cstr ''post''} then -1 else 0)"

definition length_ok :: "nat \<Rightarrow> (bytes \<times> bytes) list \<Rightarrow> bool" where
  "length_ok head hs \<longleftrightarrow>
     (case find_header (cstr ''Content-Length'') hs of None \<Rightarrow> True
      | Some cl \<Rightarrow> (case mg_to_size_t cl of None \<Rightarrow> False | Some n \<Rightarrow> head + n < 2 ^ 32 - 1))"

lemma put_post:
  "mg_strcasecmp m (cstr ''PUT'') = 0 \<longleftrightarrow> map mg_tolc m = cstr ''put''"
  "mg_strcasecmp m (cstr ''POST'') = 0 \<longleftrightarrow> map mg_tolc m = cstr ''post''"
proof -
  have "map mg_tolc (cstr ''PUT'') = cstr ''put''" "map mg_tolc (cstr ''POST'') = cstr ''post''" by code_simp+
  then show "mg_strcasecmp m (cstr ''PUT'') = 0 \<longleftrightarrow> map mg_tolc m = cstr ''put''"
    "mg_strcasecmp m (cstr ''POST'') = 0 \<longleftrightarrow> map mg_tolc m = cstr ''post''"
    unfolding mg_strcasecmp_0 by (simp_all only:)
qed

lemma dropWhile_space: "graph c \<Longrightarrow> dropWhile (\<lambda>c. c = 32) (32 # c # r) = c # r"
  using graph_facts by auto

lemma head_parts:
  assumes "request_ok m u q hs"
  defines "uq \<equiv> u @ (case q of None \<Rightarrow> [] | Some x \<Rightarrow> c8 CHR ''?'' # x)"
    and "r5 \<equiv> concat (map header_line hs) @ [13, 10]"
  defines "r4 \<equiv> cstr ''HTTP/1.1'' @ 13 # 10 # r5"
  shows "request_text m u q hs = m @ 32 # uq @ 32 # r4"
    and "span_clen None (m @ 32 # uq @ 32 # r4) = (m, 32 # uq @ 32 # r4)"
    and "dropWhile (\<lambda>c. c = 32) (32 # uq @ 32 # r4) = uq @ 32 # r4"
    and "span_clen None (uq @ 32 # r4) = (uq, 32 # r4)"
    and "dropWhile (\<lambda>c. c = 32) (32 # r4) = r4"
    and "skiptorn r4 = Some (cstr ''HTTP/1.1'', r5)"
    and "split_query uq = (u, q)"
    and "mg_http_parse_headers MG_MAX_HTTP_HEADERS r5 = Some (Some hs)"
proof -
  have tok: "token m" "token uq" "u \<noteq> []"
    using assms(1) by (auto simp: request_ok_def uq_def split: option.splits)
  obtain c u' where u: "u = c # u'" "graph c" using tok(2,3) by (cases u) (auto simp: uq_def)
  show "request_text m u q hs = m @ 32 # uq @ 32 # r4"
    by (simp add: request_text_def request_line_def uq_def r4_def r5_def)
  show "span_clen None (m @ 32 # uq @ 32 # r4) = (m, 32 # uq @ 32 # r4)"
    "span_clen None (uq @ 32 # r4) = (uq, 32 # r4)" by (rule span_then_space, rule tok)+
  show "dropWhile (\<lambda>c. c = 32) (32 # uq @ 32 # r4) = uq @ 32 # r4"
    using u dropWhile_space by (simp add: uq_def)
  show "dropWhile (\<lambda>c. c = 32) (32 # r4) = r4" by (simp add: r4_def)
  show "skiptorn r4 = Some (cstr ''HTTP/1.1'', r5)" unfolding r4_def by (rule skiptorn_line) simp
  show "split_query uq = (u, q)"
    unfolding uq_def using assms(1) by (intro split_query_text) (simp add: request_ok_def)
  show "mg_http_parse_headers MG_MAX_HTTP_HEADERS r5 = Some (Some hs)"
    using parse_header_lines [of hs MG_MAX_HTTP_HEADERS "[]"] assms(1) by (simp add: request_ok_def r5_def)
qed

lemma mg_http_parse_request:
  assumes "request_ok m u q hs"
  defines "t \<equiv> request_text m u q hs"
  defines "hm3 \<equiv> \<lparr>hm_method = m, hm_uri = u, hm_query = q, hm_proto = cstr ''HTTP/1.1'', hm_headers = hs,
         hm_head_len = length t, hm_body_len = -1, hm_message_len = -1\<rparr>"
  shows "mg_http_parse (t @ body) =
    (case find_header (cstr ''Content-Length'') hs of
       None \<Rightarrow> Some (True, hm3)
     | Some cl \<Rightarrow> (case mg_to_size_t cl of
           None \<Rightarrow> Some (False, hm3)
         | Some n \<Rightarrow> Some (True, hm3\<lparr>hm_body_len := of_nat n, hm_message_len := of_nat (length t) + of_nat n\<rparr>)))
    \<bind> (\<lambda>(ok, hm4).
       if \<not> ok then Some (-1, hm4)
       else let hm5 = default_lengths False (of_nat (length t)) hm4
            in Some (if hm_message_len hm5 < of_nat (length t) then -1 else int (length t), hm5))"
proof -
  note parts = head_parts [OF assms(1)]
  have len: "mg_http_get_request_len (t @ body) = int (length t)"
    unfolding t_def by (rule request_len_request [OF assms(1)])
  have ok: "m \<noteq> []" "u \<noteq> []" "\<not> http_prefix m" using assms(1) by (auto simp: request_ok_def)
  have pos: "\<not> int (length t) \<le> 0" by (simp add: t_def request_text_def)
  have tk: "take (nat (int (length t))) (t @ body) = t" by simp
  have s1: "span_clen None t = (m, drop (length m) t)" unfolding t_def parts(1,2) by simp
  have s2: "dropWhile (\<lambda>c. c = 32) (drop (length m) t) = drop (length m + 1) t"
    unfolding t_def parts(1) using parts(3) by simp
  have s3: "drop (length m + 1) t = (u @ (case q of None \<Rightarrow> [] | Some x \<Rightarrow> c8 CHR ''?'' # x)) @ 32 #
      cstr ''HTTP/1.1'' @ 13 # 10 # concat (map header_line hs) @ [13, 10]"
    unfolding t_def parts(1) by simp
  have hdr: "mg_http_get_header hm3 ''Content-Length'' = find_header (cstr ''Content-Length'') hs"
    by (simp add: mg_http_get_header_def hm3_def)
  show ?thesis
    unfolding mg_http_parse_def Let_def len if_not_P [OF pos] tk s1 prod.case s2 s3
      parts(4) prod.case parts(5) parts(6) option.case parts(7) prod.case parts(8)
    using ok http_version_ok
    by (simp only: simp_thms if_False option.case Option.bind.bind_lunit nat_int of_int_of_nat_eq
        empty_message_def hm3_def hdr [unfolded hm3_def] http_message.update_convs o_apply)
qed


lemma minus_one_not_less: "\<not> (-1 :: u32) < n"
  by (metis max_word_max not_le)

text \<open>
  C10: Parsing the text of a well-formed request gives back its method, URI, query and
  headers, in order, and reports the exact length of the head, so that the body starts right
  behind it; the body length is the declared one, unlimited for \<open>PUT\<close> and \<open>POST\<close> without a
  declaration, and zero otherwise.
\<close>

theorem http_request_roundtrip:
  assumes "request_ok m u q hs" "length_ok (length (request_text m u q hs)) hs"
  shows "\<exists>hm. mg_http_parse (request_text m u q hs @ body) = Some (int (length (request_text m u q hs)), hm)
     \<and> hm_method hm = m \<and> hm_uri hm = u \<and> hm_query hm = q \<and> hm_headers hm = hs
     \<and> hm_head_len hm = length (request_text m u q hs) \<and> hm_body_len hm = request_body_len m hs"
proof (cases "find_header (cstr ''Content-Length'') hs")
  case None
  show ?thesis
    unfolding mg_http_parse_request [OF assms(1)] None request_body_len_def
    using put_post [of m] minus_one_not_less [of "of_nat (length (request_text m u q hs))"]
    by (simp add: default_lengths_def Let_def del: map_eq_Cons_conv)
next
  case (Some cl)
  then obtain n where n: "mg_to_size_t cl = Some n" "length (request_text m u q hs) + n < 2 ^ 32 - 1"
    using assms(2) by (auto simp: length_ok_def split: option.splits)
  let ?l = "length (request_text m u q hs)"
  have "unat (of_nat ?l + of_nat n :: u32) = ?l + n" "unat (of_nat ?l :: u32) = ?l"
    "unat (of_nat n :: u32) = n"
    using n(2) by (simp_all add: unat_word_ariths unat_of_nat)
  then have nl: "\<not> (of_nat ?l + of_nat n :: u32) < of_nat ?l" and ne: "(of_nat n :: u32) \<noteq> -1"
    using n(2) by (auto simp: word_less_nat_alt unsigned_minus_1_eq_mask mask_eq_exp_minus_1)
  show ?thesis
    unfolding mg_http_parse_request [OF assms(1)] Some request_body_len_def option.case n(1)
    using nl ne by (simp add: default_lengths_def Let_def)
qed

theorem http_request_roundtrip_witness:
  "\<exists>hm. mg_http_parse (request_text (cstr ''POST'') (cstr ''/api/state'') (Some (cstr ''a=1''))
        [(cstr ''Host'', cstr ''xbot''), (cstr ''content-length'', cstr ''7'')] @ cstr ''payload'')
      = Some (int (length (request_text (cstr ''POST'') (cstr ''/api/state'') (Some (cstr ''a=1''))
        [(cstr ''Host'', cstr ''xbot''), (cstr ''content-length'', cstr ''7'')])), hm)
     \<and> hm_method hm = cstr ''POST'' \<and> hm_uri hm = cstr ''/api/state'' \<and> hm_query hm = Some (cstr ''a=1'')
     \<and> hm_body_len hm = 7"
proof -
  let ?m = "cstr ''POST''" and ?u = "cstr ''/api/state''" and ?q = "Some (cstr ''a=1'')"
  let ?hs = "[(cstr ''Host'', cstr ''xbot''), (cstr ''content-length'', cstr ''7'')]"
  have ok: "request_ok ?m ?u ?q ?hs" by code_simp
  have fh: "find_header (cstr ''Content-Length'') ?hs = Some (cstr ''7'')" by code_simp
  have n: "mg_to_size_t (cstr ''7'') = Some 7"
    by (simp add: mg_to_size_t_def is_blank_def SIZE_MAX_def is_dec_def)
  have "length (request_text ?m ?u ?q ?hs) = 63" by code_simp
  then have len: "length_ok (length (request_text ?m ?u ?q ?hs)) ?hs" by (simp only: length_ok_def fh n option.case) simp
  have "request_body_len ?m ?hs = 7" by (simp only: request_body_len_def fh n option.case option.sel) simp
  with http_request_roundtrip [OF ok len, of "cstr ''payload''"]
  obtain hm where "mg_http_parse (request_text ?m ?u ?q ?hs @ cstr ''payload'') = Some (int (length (request_text ?m ?u ?q ?hs)), hm)"
    "hm_method hm = ?m" "hm_uri hm = ?u" "hm_query hm = ?q" "hm_body_len hm = 7"
    by (elim exE conjE) (simp only:)
  then show ?thesis by (intro exI [of _ hm] conjI)
qed

end
