(* ===== verification/Service_Events.thy ===== *)
theory Service_Events
  imports Event_Sources Mailbox Inputs
begin

text \<open>
  Events of a service (\<open>src/services/service_ext.hpp\<close>) and the interrupt of an input line
  (\<open>src/drivers/input/gpio_input_driver.cpp\<close>). The event is kept in the thread of the service; a null
  message in its packet queue wakes the thread when it waits for packets.
\<close>

record 'm service_ext =
  process_thread :: ev_thread
  packet_queue :: "'m option mailbox"

definition SendEvent :: "Events \<Rightarrow> 'm service_ext \<Rightarrow> (wakeups \<times> 'm service_ext) option" where
  "SendEvent e s = do {
     let t = chEvtSignalI (EVENT_MASK e) (process_thread s);
     (r, mb, w) \<leftarrow> chMBPostI None (packet_queue s);
     Some (w, s\<lparr>process_thread := t, packet_queue := mb\<rparr>) }"

definition LineCallback :: "'m service_ext \<Rightarrow> (wakeups \<times> 'm service_ext) option" where
  "LineCallback s = SendEvent GPIO_TRIGGERED s"

text \<open>The part of the loop of the input service that fetches the event.\<close>

definition loop_events :: "'m service_ext \<Rightarrow> u32 \<times> 'm service_ext" where
  "loop_events s = (let (ev, t) = chEvtGetAndClearEventsI (ids_to_mask [GPIO_TRIGGERED]) (process_thread s)
     in (ev, s\<lparr>process_thread := t\<rparr>))"

lemma signal_pending: "epending (chEvtSignalI e t) = epending t OR e"
  by (simp add: chEvtSignalI_def Let_def)

lemma gpio_mask: "EVENT_MASK GPIO_TRIGGERED = 2" "ids_to_mask [GPIO_TRIGGERED] = 2"
  by (simp_all add: EVENT_MASK_def)

text \<open>The queue after a post that was accepted, and after one that was refused.\<close>

lemma post_null:
  assumes "wf_mailbox mb" "\<not> mb_reset mb"
  shows "\<exists>r mb' w. chMBPostI m mb = Some (r, mb', w) \<and> wf_mailbox mb' \<and> mb_reset mb' = mb_reset mb \<and>
    contents mb' = (if mb_cnt mb < length (mb_buffer mb) then contents mb @ [m] else contents mb) \<and>
    (mb_cnt mb < length (mb_buffer mb) \<longrightarrow> w = snd (wake_first (mb_qr mb)))"
proof (cases "mb_cnt mb < length (mb_buffer mb)")
  case True
  obtain mb' w where p: "put_last m mb = Some (mb', w)" "wf_mailbox mb'" "contents mb' = contents mb @ [m]" "mb_reset mb' = mb_reset mb"
    using put_last_contents [OF assms(1) True] by blast
  moreover have "w = snd (wake_first (mb_qr mb))"
    using p(1) by (auto simp: put_last_def bind_eq_Some_conv wake_reader_def Let_def split_def)
  ultimately show ?thesis
    using True assms(2) by (auto simp: chMBPostI_def chMBGetFreeCountI_def chMBGetSizeI_def chMBGetUsedCountI_def)
next
  case False
  then show ?thesis
    using assms by (auto simp: chMBPostI_def chMBGetFreeCountI_def chMBGetSizeI_def chMBGetUsedCountI_def)
qed

text \<open>
  An edge on an input line is not lost. Whatever the queue of the input service holds, the interrupt
  leaves at least one message in it, gives the message to the thread if it waits for one, keeps
  every packet in order, and leaves the event pending: the next loop of the service reads it and
  updates the inputs from their pins, once, however many edges there were.
\<close>

theorem gpio_edge_noticed:
  assumes "wf_mailbox (packet_queue s)" and "\<not> mb_reset (packet_queue s)"
  shows "\<exists>w s' n. LineCallback s = Some (w, s') \<and> wf_mailbox (packet_queue s') \<and> contents (packet_queue s') \<noteq> [] \<and>
    contents (packet_queue s') = contents (packet_queue s) @ replicate n None \<and>
    (case mb_qr (packet_queue s) of t # _ \<Rightarrow> mb_cnt (packet_queue s) = 0 \<longrightarrow> w = [(t, MSG_OK)] | [] \<Rightarrow> True) \<and>
    InputService_OnLoop (epending (process_thread s')) now pin ins =
      (case map_of (drivers ins) ''gpio'' of None \<Rightarrow> None
       | Some d \<Rightarrow> map_option (Pair UINT32_MAX) (Gpio_tick now pin d ins)) \<and>
    fst (loop_events (snd (loop_events s'))) = 0"
proof -
  let ?mb = "packet_queue s"
  have pos: "0 < length (mb_buffer ?mb)" using assms(1) by (auto simp: wf_mailbox_def)
  obtain r mb' w where p: "chMBPostI None ?mb = Some (r, mb', w)" "wf_mailbox mb'"
    "contents mb' = (if mb_cnt ?mb < length (mb_buffer ?mb) then contents ?mb @ [None] else contents ?mb)"
    "mb_cnt ?mb < length (mb_buffer ?mb) \<longrightarrow> w = snd (wake_first (mb_qr ?mb))"
    using post_null [OF assms] by blast
  let ?s = "s\<lparr>process_thread := chEvtSignalI 2 (process_thread s), packet_queue := mb'\<rparr>"
  have run: "LineCallback s = Some (w, ?s)" using p(1) by (simp add: LineCallback_def SendEvent_def gpio_mask)
  have "mb_cnt ?mb = 0 \<or> contents ?mb \<noteq> []" using length_contents [of ?mb] by fastforce
  then have "contents mb' \<noteq> []" using pos unfolding p(3) by auto
  moreover have "\<exists>n. contents mb' = contents ?mb @ replicate n None"
    using p(3) by (metis append_Nil2 replicate_0 replicate_Suc)
  moreover have "mb_cnt ?mb = 0 \<longrightarrow> w = [(t, MSG_OK)]" if "mb_qr ?mb = t # ts" for t ts using p(4) pos that by simp
  moreover have "(epending (process_thread s) OR 2) AND 2 = (2 :: u32)"
    by (rule bit_word_eqI) (auto simp: bit_simps)
  then have "InputService_OnLoop (epending (process_thread ?s)) now pin ins =
      (case map_of (drivers ins) ''gpio'' of None \<Rightarrow> None | Some d \<Rightarrow> map_option (Pair UINT32_MAX) (Gpio_tick now pin d ins))"
    by (simp add: InputService_OnLoop_def signal_pending gpio_mask Let_def split: option.splits bind_split)
  moreover have "fst (loop_events (snd (loop_events ?s))) = 0"
    by (simp add: loop_events_def chEvtGetAndClearEventsI_def Let_def split_def and.assoc)
  ultimately show ?thesis using run p(2) by (auto split: list.splits)
qed

end
