(* ===== verification/Spec2Isabelle.thy ===== *)
theory Spec2Isabelle
  imports Boot Reaction Event_Sources Virtual_Timers Mutexes Upload Discovery Debug_Interface Mailbox Net_Io Chibi_Time Mg_Str Mg_Base64 Mg_Iobuf Mg_Url Mg_Util Mg_Fs Mg_Json_Iter Mg_Http Service_Events
begin

text \<open>
  Verification of the xBot firmware: the program of a robot's main board, on top of the ChibiOS
  kernel, the lwIP network stack, the mongoose web server and the xbot service framework.

  \<^bold>\<open>The program.\<close> Services run in threads of their own and are called by the service framework
  with the values a high-level computer sends over UDP: the emergency service decides whether the
  robot may move, the drive service turns commands into the duty cycles of two motors, the input
  service reads switches and sensors, the power service manages battery and charger, and the
  inertial sensor service measures. A global event source carries changes from one service to
  another: a dispatcher (\<open>src/main.cpp\<close>) waits for its flags and calls the services. Beside them
  stand the start-up code, the identification memory, the serial flash with its file system
  device, LEDs, the REST interface and the discovery service for the boot loader.

  \<^bold>\<open>How code is modelled.\<close> A structure or class is a record, an enumeration a datatype, a machine
  integer a word of its width, a floating-point number a value of \<open>Ieee_Float\<close>. A pointer is an
  index into a list or an optional value. An operation is a function from the state to the new
  state, its result and the list of its effects on the outside (pins, PWM units, messages,
  logs), in order. The result is optional where the code can leave defined behaviour (out of
  bounds, null pointer, failed assertion, conversion without a result) or fail to return. What is
  not in this repository (the framework, the JSON stream parser, littlefs, the ETL containers) and
  the hardware are parameters; clocks and the results of system calls are arguments.

  \<^bold>\<open>Theories.\<close>
  \<^item> \<open>Prelude\<close>: types of machine integers and bytes, checked access to arrays, lemmas on words
    and lists. \<open>Globals\<close>: events, reasons of an emergency, assertions, \<open>TimeoutReached\<close>
    (\<open>src/globals.hpp\<close>, \<open>src/services/service_ext.hpp\<close>). \<open>Chibi_Time\<close>: the tick conversions.
    \<open>C_String\<close>: the string functions of the C library. \<open>Ieee_Float\<close>: binary32 and binary64.
  \<^item> \<open>Inputs\<close>, \<open>Input_Config\<close>, \<open>Json_Stream\<close>, \<open>Board_Lines\<close>: inputs and their drivers
    (\<open>src/drivers/input\<close>, \<open>src/services/input_service\<close>), their configuration from JSON
    (\<open>src/json_stream.cpp\<close>) and the names of the board's lines (\<open>boards/XCORE/board_utils.cpp\<close>). The
    counter of lifted wheels equals a recount after every update, the lists of the drivers keep
    the order of insertion, and whatever the parser reports, the configuration is well formed.
  \<^item> \<open>Emergency\<close>: the emergency service. Reasons stay until they are cleared, no emergency
    means that no input and no timeout demands one, and the loop wakes up in time.
  \<^item> \<open>Motor\<close>, \<open>Diff_Drive\<close>: the motor interface with the PWM driver and the drive service. Duty
    cycles stay in range, a timeout stops the motors, and odometry counts the edges of the encoders
    across the wrap of the counters.
  \<^item> \<open>Safety\<close>: emergency service, dispatcher and drive service as one system of interleaved
    steps. In every reachable state in which an emergency has been handled the motors are off, and
    from every state with an emergency the system reaches such a state in a bounded number of
    steps. The number of steps is bounded by a measure on the work that is under way.
  \<^item> \<open>Reaction\<close>: the same system together with the inputs and the other half of the dispatcher. When
    an input that demands an emergency becomes active, the emergency is reported and the motors
    are off after a bounded number of steps, whatever else the threads do.
  \<^item> \<open>Event_Sources\<close>: the events of the kernel under the dispatcher. Whatever the interleaving, the
    dispatcher fetches exactly the flags broadcast since its last fetch and never sleeps over one.
    \<open>Service_Events\<close>: the events of a service, from the interrupt of an input line to its loop.
  \<^item> \<open>Delta_List\<close>, \<open>Virtual_Timers\<close>: the timers behind every timeout (\<open>os/rt/src/chvt.c\<close>) on the
    linked lists of \<open>chlists.h\<close> in an explicit memory. The list refines a list of deadlines on the
    unbounded time axis, across the wrap-around of the clock; setting a timer gives it its deadline
    and the ticker fires what is due, in order and never early.
  \<^item> \<open>Scheduler\<close>, \<open>Mutexes\<close>: threads, ready list and priorities (\<open>os/rt/src/chschd.c\<close>), both ways
    of inserting into a priority queue as instances of the locale \<open>pqueue_insert\<close>, and the mutexes
    of the services (\<open>os/rt/src/chmtx.c\<close>, \<open>portable/xbot/mutex.cpp\<close>). In every interleaving the
    priority of a thread is the highest of its own and of those that wait for its mutexes, and every
    operation returns.
  \<^item> \<open>Charger\<close>, \<open>Power_Management\<close>: the charger interface (locale \<open>charger\<close>) with the BQ2579 driver,
    and the power service: limits of the currents, battery percentage, protection of the battery.
  \<^item> \<open>Imu\<close>: the register driver of the inertial sensor as far as it is used, and its service.
  \<^item> \<open>Id_Eeprom\<close>, \<open>Flash\<close>, \<open>Leds\<close>: identification memory with its checksum, serial flash
    (programming, erasing, the file system device), heartbeat and status LED.
  \<^item> \<open>Boot\<close>: the start of the firmware. A refused start leaves pins, PWM units and services
    alone; a successful one reaches the initial states of \<open>Safety\<close>.
  \<^item> \<open>Mailbox\<close>, \<open>Packets\<close>, \<open>Net_Io\<close>: the port of the service framework (\<open>portable/xbot\<close>) with the
    kernel objects under it: queues on mailboxes (locale \<open>fifo_queue\<close>), the packet pool with its
    semaphore, sockets and the routing of packets to services.
  \<^item> \<open>Mg_Str\<close>, \<open>Mg_Base64\<close>, \<open>Mg_Iobuf\<close>, \<open>Mg_Url\<close>, \<open>Mg_Util\<close>, \<open>Mg_Fs\<close>, \<open>Mg_Json\<close>, \<open>Mg_Json_Iter\<close>, \<open>Mg_Http\<close>: the
    parts of \<open>mongoose/mongoose.c\<close> that handle data: pattern matching, numbers, base 64, buffers,
    addresses, paths, timers, the packed files, JSON and HTTP requests.
  \<^item> \<open>Rest_Api\<close>, \<open>Upload\<close>, \<open>Discovery\<close>, \<open>Debug_Interface\<close>: the REST interface
    (\<open>src/api.cpp\<close>, \<open>mongoose/mongoose_impl.c\<close>), uploads, the discovery service and the debug interfaces.

  \<^bold>\<open>Loops and fuel.\<close> Loops over data are structural recursions or have termination proofs. Walks
  along pointers have the number of elements as fuel, which is enough on well-formed lists, as the
  properties show. Mutual calls between an input and its service have a fuel of four, the depth the
  calls reach. Loops that wait for the outside take the outcomes of the waits as a list (mailboxes,
  flash), or are partial functions with a proof that they return (reset of the sensor, the loops of
  the timers, the priority inheritance and the scan of the owned mutexes).

  \<^bold>\<open>Not modelled.\<close> The switch of the processor context, thread creation, messages and condition
  variables of the kernel (the step relations of the services allow every interleaving, whatever
  the priorities), the register level of the hardware, the network stack beyond its memory
  pools, TLS and the protocols of mongoose the firmware does not use, the formatting of replies and log
  messages, the generated base classes of the services, and the web user interface, which is data.
\<close>

end
